(* ===== verification/Xv6_Prelude.thy ===== *)
theory Xv6_Prelude
  imports Main "HOL-Library.Word"
begin

unbundle bit_operations_syntax

text \<open>
  Shared vocabulary of the development: machine-integer types, the reasons for which a kernel
  operation stops, the state-and-stop monad in which the handlers are written with its
  weakest-precondition calculus, the checked integer arithmetic of the debug profile (an
  overflowing operator panics), and byte-buffer lemmas (slices, little-endian fields).
\<close>

section \<open>Machine integers\<close>

type_synonym u8 = "8 word"
type_synonym u16 = "16 word"
type_synonym u32 = "32 word"
type_synonym u64 = "64 word"
type_synonym i32 = int

section \<open>Why control leaves an operation\<close>

text \<open>
  A handler stops early in three ways: a Rust panic (explicit, or raised by a bounds or overflow
  check), a call of \<open>sleep\<close> that gives up the processor on a channel, and a raw-pointer access
  that is undefined behaviour (a null or dangling pointer).
\<close>

datatype slock = SlBuf nat | SlInode nat

datatype chan =
    ChNull | ChSleeplock slock | ChLog | ChPipeRead nat | ChPipeWrite nat
  | ChBuf nat | ChProc nat | ChTicks | ChInput

datatype stop = Panic string | Sleep chan | Fault string

type_synonym ('s, 'a) kop = "'s \<Rightarrow> stop + ('a \<times> 's)"

definition ret :: "'a \<Rightarrow> ('s, 'a) kop" where
  "ret x s = Inr (x, s)"

definition stopk :: "stop \<Rightarrow> ('s, 'a) kop" where
  "stopk e s = Inl e"

abbreviation panic :: "string \<Rightarrow> ('s, 'a) kop" where
  "panic msg \<equiv> stopk (Panic msg)"

definition bnd :: "('s, 'a) kop \<Rightarrow> ('a \<Rightarrow> ('s, 'b) kop) \<Rightarrow> ('s, 'b) kop" where
  "bnd m f s = (case m s of Inl e \<Rightarrow> Inl e | Inr (x, s') \<Rightarrow> f x s')"

definition gets :: "('s \<Rightarrow> 'a) \<Rightarrow> ('s, 'a) kop" where
  "gets f s = Inr (f s, s)"

definition modify :: "('s \<Rightarrow> 's) \<Rightarrow> ('s, unit) kop" where
  "modify f s = Inr ((), f s)"

text \<open>\<open>when b m\<close> is an \<open>if\<close> without \<open>else\<close>; \<open>guardk b e\<close> stops with \<open>e\<close> unless \<open>b\<close>.\<close>

definition whenk :: "bool \<Rightarrow> ('s, unit) kop \<Rightarrow> ('s, unit) kop" where
  "whenk b m = (if b then m else ret ())"

definition guardk :: "bool \<Rightarrow> stop \<Rightarrow> ('s, unit) kop" where
  "guardk b e = (if b then ret () else stopk e)"

text \<open>A \<open>for\<close> loop over a list of indices, in order.\<close>

fun for_each :: "('a \<Rightarrow> ('s, unit) kop) \<Rightarrow> 'a list \<Rightarrow> ('s, unit) kop" where
  "for_each f [] = ret ()"
| "for_each f (x # xs) = bnd (f x) (\<lambda>_. for_each f xs)"

section \<open>Total-correctness calculus\<close>

text \<open>
  \<open>runs m s Q\<close>: from \<open>s\<close>, the operation \<open>m\<close> returns, and its result and final state satisfy
  \<open>Q\<close>. \<open>unless_stop m s Q\<close>: if it returns, they do.
\<close>

definition runs :: "('s, 'a) kop \<Rightarrow> 's \<Rightarrow> ('a \<Rightarrow> 's \<Rightarrow> bool) \<Rightarrow> bool" where
  "runs m s Q = (case m s of Inl e \<Rightarrow> False | Inr (x, s') \<Rightarrow> Q x s')"

definition unless_stop :: "('s, 'a) kop \<Rightarrow> 's \<Rightarrow> ('a \<Rightarrow> 's \<Rightarrow> bool) \<Rightarrow> bool" where
  "unless_stop m s Q = (case m s of Inl e \<Rightarrow> True | Inr (x, s') \<Rightarrow> Q x s')"

named_theorems wp \<open>weakest-precondition equations of the monad\<close>

lemma runs_ret [wp, simp]: "runs (ret x) s Q = Q x s"
  by (simp add: runs_def ret_def)

lemma runs_stopk [wp, simp]: "runs (stopk e) s Q = False"
  by (simp add: runs_def stopk_def)

lemma runs_bnd [wp, simp]: "runs (bnd m f) s Q = runs m s (\<lambda>x s'. runs (f x) s' Q)"
  by (auto simp: runs_def bnd_def split: sum.splits prod.splits)

lemma runs_gets [wp, simp]: "runs (gets f) s Q = Q (f s) s"
  by (simp add: runs_def gets_def)

lemma runs_modify [wp, simp]: "runs (modify f) s Q = Q () (f s)"
  by (simp add: runs_def modify_def)

lemma runs_whenk [wp, simp]: "runs (whenk b m) s Q = (if b then runs m s Q else Q () s)"
  by (simp add: whenk_def)

lemma runs_guardk [wp, simp]: "runs (guardk b e) s Q = (b \<and> Q () s)"
  by (simp add: guardk_def)

lemma runs_if [wp]: "runs (if b then m else m') s Q = (if b then runs m s Q else runs m' s Q)"
  by simp

lemma runs_Inr: "runs m s Q \<longleftrightarrow> (\<exists>x s'. m s = Inr (x, s') \<and> Q x s')"
  by (auto simp: runs_def split: sum.splits prod.splits)

lemma runsE:
  assumes "runs m s Q"
  obtains x s' where "m s = Inr (x, s')" "Q x s'"
  using assms by (auto simp: runs_Inr)

lemma runs_mono:
  assumes "runs m s Q" and "\<And>x s'. m s = Inr (x, s') \<Longrightarrow> Q x s' \<Longrightarrow> R x s'"
  shows "runs m s R"
  using assms by (auto simp: runs_Inr)

lemma runs_det: "runs m s (\<lambda>x s'. x = a \<and> s' = t) \<Longrightarrow> runs m s Q = Q a t"
  by (auto simp: runs_Inr)

lemma runs_eq: "m s = Inr (x, s') \<Longrightarrow> runs m s Q = Q x s'"
  by (simp add: runs_def)

lemma unless_stop_Inr: "unless_stop m s Q \<longleftrightarrow> (\<forall>x s'. m s = Inr (x, s') \<longrightarrow> Q x s')"
  by (auto simp: unless_stop_def split: sum.splits prod.splits)

lemma unless_stop_bnd [wp, simp]:
  "unless_stop (bnd m f) s Q = unless_stop m s (\<lambda>x s'. unless_stop (f x) s' Q)"
  by (auto simp: unless_stop_def bnd_def split: sum.splits prod.splits)

lemma unless_stop_basic [wp, simp]:
  "unless_stop (ret x) s Q = Q x s"
  "unless_stop (stopk e) s Q = True"
  "unless_stop (gets f) s' R = R (f s') s'"
  "unless_stop (modify g) s'' T = T () (g s'')"
  by (simp_all add: unless_stop_def ret_def stopk_def gets_def modify_def)

lemma unless_stop_whenk [wp, simp]:
  "unless_stop (whenk b m) s Q = (if b then unless_stop m s Q else Q () s)"
  by (simp add: whenk_def)

lemma unless_stop_guardk [wp, simp]: "unless_stop (guardk b e) s Q = (b \<longrightarrow> Q () s)"
  by (simp add: guardk_def)

lemma unless_stop_mono:
  assumes "unless_stop m s Q" and "\<And>x s'. m s = Inr (x, s') \<Longrightarrow> Q x s' \<Longrightarrow> R x s'"
  shows "unless_stop m s R"
  using assms by (auto simp: unless_stop_Inr)

lemma bnd_assoc: "bnd (bnd m f) g = bnd m (\<lambda>x. bnd (f x) g)"
  by (rule ext) (auto simp: bnd_def split: sum.splits prod.splits)

text \<open>Forward execution of closed handlers by the simplifier.\<close>

lemma exec_simps:
  "ret x s = Inr (x, s)" "stopk e s = Inl e" "gets f s = Inr (f s, s)"
  "modify g s = Inr ((), g s)"
  "bnd m k s = (case m s of Inl e \<Rightarrow> Inl e | Inr (x, s') \<Rightarrow> k x s')"
  "whenk b n s = (if b then n s else Inr ((), s))"
  "guardk b e s = (if b then Inr ((), s) else Inl e)"
  by (simp_all add: ret_def stopk_def gets_def modify_def bnd_def whenk_def guardk_def)

lemma upt_eq_ConsD: "x # xs = [k..<n] \<Longrightarrow> x = k \<and> k < n \<and> xs = [Suc k..<n]"
  by (metis list.distinct(1) list.inject upt_rec)

lemma upt_eq_NilD: "[] = [k..<n] \<Longrightarrow> k \<le> n \<Longrightarrow> k = n"
  by (cases "k < n") (auto simp: upt_rec)

lemma for_each_modify: "for_each (\<lambda>x. modify (f x)) xs s = Inr ((), fold f xs s)"
  by (induction xs arbitrary: s) (simp_all add: ret_def bnd_def modify_def)

lemma for_each_guarded:
  "\<forall>x \<in> set xs. P x \<Longrightarrow>
   for_each (\<lambda>x. bnd (guardk (P x) e) (\<lambda>_. modify (f x))) xs s = Inr ((), fold f xs s)"
  by (induction xs arbitrary: s) (simp_all add: exec_simps)

lemma runs_for_each_guarded:
  "\<forall>x \<in> set xs. P x \<Longrightarrow>
   runs (for_each (\<lambda>x. bnd (guardk (P x) e) (\<lambda>_. modify (f x))) xs) s Q = Q () (fold f xs s)"
  by (simp add: runs_def for_each_guarded)

lemma runs_for_each:
  assumes "I xs s" and "\<And>x xs' s. I (x # xs') s \<Longrightarrow> runs (f x) s (\<lambda>_ s'. I xs' s')"
  shows "runs (for_each f xs) s (\<lambda>_ s'. I [] s')"
  using assms(1)
proof (induction xs arbitrary: s)
  case Nil
  then show ?case by simp
next
  case (Cons x xs)
  from assms(2)[OF Cons.prems] show ?case
    by (auto elim!: runs_mono intro: Cons.IH)
qed

section \<open>Checked arithmetic of the debug profile\<close>

definition add_overflow :: stop where "add_overflow = Panic ''attempt to add with overflow''"
definition sub_overflow :: stop where "sub_overflow = Panic ''attempt to subtract with overflow''"
definition mul_overflow :: stop where "mul_overflow = Panic ''attempt to multiply with overflow''"

definition u32_add :: "u32 \<Rightarrow> u32 \<Rightarrow> ('s, u32) kop" where
  "u32_add a b = (if unat a + unat b < 2 ^ 32 then ret (a + b) else stopk add_overflow)"

definition u32_sub :: "u32 \<Rightarrow> u32 \<Rightarrow> ('s, u32) kop" where
  "u32_sub a b = (if b \<le> a then ret (a - b) else stopk sub_overflow)"

definition i32_range :: "int \<Rightarrow> bool" where
  "i32_range i \<longleftrightarrow> - (2 ^ 31) \<le> i \<and> i < 2 ^ 31"

definition i32_add :: "i32 \<Rightarrow> i32 \<Rightarrow> ('s, i32) kop" where
  "i32_add a b = (if i32_range (a + b) then ret (a + b) else stopk add_overflow)"

definition i32_sub :: "i32 \<Rightarrow> i32 \<Rightarrow> ('s, i32) kop" where
  "i32_sub a b = (if i32_range (a - b) then ret (a - b) else stopk sub_overflow)"

lemma runs_u32_add [wp, simp]: "runs (u32_add a b) s Q = (unat a + unat b < 2 ^ 32 \<and> Q (a + b) s)"
  by (simp add: u32_add_def)

lemma runs_u32_sub [wp, simp]: "runs (u32_sub a b) s Q = (b \<le> a \<and> Q (a - b) s)"
  by (simp add: u32_sub_def)

lemma runs_i32_add [wp, simp]: "runs (i32_add a b) s Q = (i32_range (a + b) \<and> Q (a + b) s)"
  by (simp add: i32_add_def)

lemma runs_i32_sub [wp, simp]: "runs (i32_sub a b) s Q = (i32_range (a - b) \<and> Q (a - b) s)"
  by (simp add: i32_sub_def)

text \<open>Rust \<open>as\<close> casts between the 32-bit types and to \<open>usize\<close>.\<close>

definition i32_of_u32 :: "u32 \<Rightarrow> i32" where "i32_of_u32 w = sint w"
definition u32_of_i32 :: "i32 \<Rightarrow> u32" where "u32_of_i32 i = word_of_int i"
definition usize_of_i32 :: "i32 \<Rightarrow> nat" where "usize_of_i32 i = nat (i mod 2 ^ 64)"

lemma u32_of_i32_of_u32 [simp]: "u32_of_i32 (i32_of_u32 w) = w"
  by (simp add: u32_of_i32_def i32_of_u32_def)

lemma usize_of_i32_nonneg [simp]: "0 \<le> i \<Longrightarrow> i < 2 ^ 64 \<Longrightarrow> usize_of_i32 i = nat i"
  by (simp add: usize_of_i32_def)

lemma unat_u32_add: "unat (a :: u32) + unat b < 2 ^ 32 \<Longrightarrow> unat (a + b) = unat a + unat b"
  by (simp add: unat_word_ariths)

section \<open>Byte buffers\<close>

definition slice :: "nat \<Rightarrow> nat \<Rightarrow> 'a list \<Rightarrow> 'a list" where
  "slice off n xs = take n (drop off xs)"

text \<open>\<open>copy_at off src dst\<close>: \<open>dst[off .. off + len src].copy_from_slice(src)\<close>, in range.\<close>

definition copy_at :: "nat \<Rightarrow> 'a list \<Rightarrow> 'a list \<Rightarrow> 'a list" where
  "copy_at off src dst = take off dst @ src @ drop (off + length src) dst"

lemma length_copy_at [simp]:
  "off + length src \<le> length dst \<Longrightarrow> length (copy_at off src dst) = length dst"
  by (simp add: copy_at_def)

lemma length_slice [simp]: "off + n \<le> length xs \<Longrightarrow> length (slice off n xs) = n"
  by (simp add: slice_def)

lemma nth_slice: "i < n \<Longrightarrow> off + n \<le> length xs \<Longrightarrow> slice off n xs ! i = xs ! (off + i)"
  by (simp add: slice_def)

lemma nth_copy_at:
  "off + length src \<le> length dst \<Longrightarrow> i < length dst \<Longrightarrow>
   copy_at off src dst ! i = (if off \<le> i \<and> i < off + length src then src ! (i - off) else dst ! i)"
  by (auto simp: copy_at_def nth_append)

lemma slice_copy_at_same [simp]:
  "off + length src \<le> length dst \<Longrightarrow> n = length src \<Longrightarrow> slice off n (copy_at off src dst) = src"
  by (simp add: slice_def copy_at_def)

lemma slice_copy_at_other:
  assumes "off + length src \<le> length dst" "o' + n \<le> length dst"
    and "o' + n \<le> off \<or> off + length src \<le> o'"
  shows "slice o' n (copy_at off src dst) = slice o' n dst"
  by (rule nth_equalityI) (use assms in \<open>auto simp: nth_slice nth_copy_at\<close>)

lemma copy_at_slice_id: "off + n \<le> length xs \<Longrightarrow> copy_at off (slice off n xs) xs = xs"
  by (rule nth_equalityI) (auto simp: nth_copy_at nth_slice)

lemma slice_all [simp]: "n = length xs \<Longrightarrow> slice 0 n xs = xs"
  by (simp add: slice_def)

section \<open>Little-endian fields\<close>

definition le16 :: "u16 \<Rightarrow> u8 list" where
  "le16 w = [ucast w, ucast (drop_bit 8 w)]"

definition le32 :: "u32 \<Rightarrow> u8 list" where
  "le32 w = [ucast w, ucast (drop_bit 8 w), ucast (drop_bit 16 w), ucast (drop_bit 24 w)]"

fun of_le16 :: "u8 list \<Rightarrow> u16" where
  "of_le16 [a, b] = ucast a OR push_bit 8 (ucast b)"
| "of_le16 _ = 0"

fun of_le32 :: "u8 list \<Rightarrow> u32" where
  "of_le32 [a, b, c, d] =
     ucast a OR push_bit 8 (ucast b) OR push_bit 16 (ucast c) OR push_bit 24 (ucast d)"
| "of_le32 _ = 0"

lemma length_le [simp]: "length (le16 w) = 2" "length (le32 v) = 4"
  by (simp_all add: le16_def le32_def)

lemma of_le16_le16 [simp]: "of_le16 (le16 w) = w"
  unfolding le16_def
  by (rule bit_word_eqI) (auto simp: bit_simps)

lemma of_le32_le32 [simp]: "of_le32 (le32 w) = w"
  unfolding le32_def
proof (rule bit_word_eqI)
  fix n assume "n < LENGTH(32)"
  then consider "n < 8" | "8 \<le> n" "n < 16" | "16 \<le> n" "n < 24" | "24 \<le> n" "n < 32"
    by fastforce
  then show "bit (of_le32 [ucast w, ucast (drop_bit 8 w), ucast (drop_bit 16 w),
      ucast (drop_bit 24 w)]) n = bit w n"
    by cases (auto simp: bit_simps)
qed

lemma high_bit_u8: "8 \<le> n \<Longrightarrow> \<not> bit (w :: u8) n"
  by (auto dest: bit_imp_le_length)

lemma le16_of_le16: "length bs = 2 \<Longrightarrow> le16 (of_le16 bs) = bs"
proof -
  assume "length bs = 2"
  then obtain a b where bs: "bs = [a, b]"
    by (auto simp: numeral_2_eq_2 length_Suc_conv)
  have "ucast (of_le16 [a, b]) = a" "ucast (drop_bit 8 (of_le16 [a, b])) = b"
    by (rule bit_word_eqI, auto simp: bit_simps high_bit_u8)+
  then show ?thesis by (simp only: bs le16_def)
qed

lemma le32_of_le32: "length bs = 4 \<Longrightarrow> le32 (of_le32 bs) = bs"
proof -
  assume "length bs = 4"
  then obtain a b c d where bs: "bs = [a, b, c, d]"
    by (auto simp: length_Suc_conv eval_nat_numeral)
  let ?w = "of_le32 [a, b, c, d]"
  have "ucast ?w = a" "ucast (drop_bit 8 ?w) = b" "ucast (drop_bit 16 ?w) = c"
    "ucast (drop_bit 24 ?w) = d"
    by (rule bit_word_eqI, auto simp: bit_simps high_bit_u8)+
  then show ?thesis by (simp only: bs le32_def)
qed

definition get_u16 :: "u8 list \<Rightarrow> nat \<Rightarrow> u16" where "get_u16 bs off = of_le16 (slice off 2 bs)"
definition get_u32 :: "u8 list \<Rightarrow> nat \<Rightarrow> u32" where "get_u32 bs off = of_le32 (slice off 4 bs)"
definition put_u16 :: "nat \<Rightarrow> u16 \<Rightarrow> u8 list \<Rightarrow> u8 list" where "put_u16 off v = copy_at off (le16 v)"
definition put_u32 :: "nat \<Rightarrow> u32 \<Rightarrow> u8 list \<Rightarrow> u8 list" where "put_u32 off v = copy_at off (le32 v)"

lemma get_put_u32 [simp]: "off + 4 \<le> length bs \<Longrightarrow> get_u32 (put_u32 off v bs) off = v"
  by (simp add: get_u32_def put_u32_def)

lemma get_put_u32_other:
  "off + 4 \<le> length bs \<Longrightarrow> o' + 4 \<le> length bs \<Longrightarrow> o' + 4 \<le> off \<or> off + 4 \<le> o' \<Longrightarrow>
   get_u32 (put_u32 off v bs) o' = get_u32 bs o'"
  by (simp add: get_u32_def put_u32_def slice_copy_at_other)

lemma length_put_u32 [simp]: "off + 4 \<le> length bs \<Longrightarrow> length (put_u32 off v bs) = length bs"
  by (simp add: put_u32_def)

end
