(* ===== verification/Xv6_Sync.thy ===== *)
theory Xv6_Sync
  imports Xv6_Prelude
begin

text \<open>
  The process table and per-CPU state (\<^verbatim>\<open>crates/proc/src/proch.rs\<close>, the tables of
  \<^verbatim>\<open>crates/proc/src/proc.rs\<close>), the spinlock shims and the interrupt-nesting counter of
  \<^verbatim>\<open>kernel/src/glue.rs\<close>, sleep locks (\<^verbatim>\<open>crates/sync/src/sleeplock.rs\<close>), and the part of
  \<^verbatim>\<open>proc.rs\<close> on which every other component relies: \<open>sched\<close>, \<open>sleep_proc\<close>, \<open>wakeup\<close>.

  The record \<open>kern\<close> is the root of the kernel state. Later theories extend it with the state of
  their component, so that an operation of one component runs unchanged in a bigger kernel.
  Lock objects live in stores addressed by names: \<open>spin\<close> for spinlocks and \<open>slp\<close> for sleep
  locks. The nesting counter is an unbounded integer: it counts the spinlocks held at once.
\<close>

section \<open>Processes and processors\<close>

record trapframe =
  tf_rax :: u64  tf_rbx :: u64  tf_rcx :: u64  tf_rdx :: u64  tf_rbp :: u64
  tf_rsi :: u64  tf_rdi :: u64  tf_r8 :: u64   tf_r9 :: u64   tf_r10 :: u64
  tf_r11 :: u64  tf_r12 :: u64  tf_r13 :: u64  tf_r14 :: u64  tf_r15 :: u64
  tf_trapno :: u64  tf_err :: u64
  tf_rip :: u64  tf_cs :: u64  tf_rflags :: u64  tf_rsp :: u64  tf_ss :: u64

definition trapframe_zero :: trapframe where
  "trapframe_zero = \<lparr>tf_rax = 0, tf_rbx = 0, tf_rcx = 0, tf_rdx = 0, tf_rbp = 0,
     tf_rsi = 0, tf_rdi = 0, tf_r8 = 0, tf_r9 = 0, tf_r10 = 0,
     tf_r11 = 0, tf_r12 = 0, tf_r13 = 0, tf_r14 = 0, tf_r15 = 0,
     tf_trapno = 0, tf_err = 0,
     tf_rip = 0, tf_cs = 0, tf_rflags = 0, tf_rsp = 0, tf_ss = 0\<rparr>"

record ctxt =
  cx_r15 :: u64  cx_r14 :: u64  cx_r13 :: u64  cx_r12 :: u64
  cx_rbx :: u64  cx_rbp :: u64  cx_rip :: u64

datatype procstate = UNUSED | EMBRYO | SLEEPING | RUNNABLE | RUNNING | ZOMBIE

text \<open>
  A process slot. Pointers to other slots, files and inodes are optional indices (\<open>None\<close> is
  null); the trap frame and the saved context, which the code reaches through pointers into the
  kernel stack, are the objects themselves; an address is \<open>0\<close> when null.
\<close>

record proc =
  pr_sz :: u64
  pr_pgdir :: u64
  pr_kstack :: u64
  pr_state :: procstate
  pr_pid :: i32
  pr_parent :: "nat option"
  pr_tf :: trapframe
  pr_context :: ctxt
  pr_chan :: chan
  pr_killed :: i32
  pr_ofile :: "nat option list"
  pr_cwd :: "nat option"
  pr_name :: "u8 list"

definition NPROC :: nat where "NPROC = 64"
definition NOFILE :: nat where "NOFILE = 16"

section \<open>Locks\<close>

datatype lockid =
    LkPtable | LkBcache | LkLog | LkIcache | LkFtable | LkPipe nat | LkTicks | LkInner slock

record spinlock =
  lk_locked :: u32
  lk_name :: string
  lk_cpu :: "nat option"

record sleeplock =
  sl_locked :: u32
  sl_name :: string
  sl_pid :: i32

record kern =
  ptable :: "nat \<Rightarrow> proc"
  nextpid :: i32
  initproc :: "nat option"
  myproc :: "nat option"
  cli_depth :: int
  int_enabled :: bool
  eflags_if :: bool
  cpu_ncli :: i32
  cpu_intena :: i32
  spin :: "lockid \<Rightarrow> spinlock"
  slp :: "slock \<Rightarrow> sleeplock"

text \<open>
  The statics before boot: zeroed memory, with \<open>NEXTPID = 1\<close>. The argument is the state of the
  components above.
\<close>

definition ctxt_zero :: ctxt where
  "ctxt_zero = \<lparr>cx_r15 = 0, cx_r14 = 0, cx_r13 = 0, cx_r12 = 0, cx_rbx = 0, cx_rbp = 0, cx_rip = 0\<rparr>"

definition proc_zero :: proc where
  "proc_zero = \<lparr>pr_sz = 0, pr_pgdir = 0, pr_kstack = 0, pr_state = UNUSED, pr_pid = 0,
     pr_parent = None, pr_tf = trapframe_zero, pr_context = ctxt_zero, pr_chan = ChNull,
     pr_killed = 0, pr_ofile = replicate NOFILE None, pr_cwd = None, pr_name = replicate 16 0\<rparr>"

definition kern_zero :: "'z \<Rightarrow> 'z kern_scheme" where
  "kern_zero z = \<lparr>ptable = (\<lambda>_. proc_zero), nextpid = 1, initproc = None, myproc = None,
     cli_depth = 0, int_enabled = False, eflags_if = False, cpu_ncli = 0, cpu_intena = 0,
     spin = (\<lambda>_. \<lparr>lk_locked = 0, lk_name = '''', lk_cpu = None\<rparr>),
     slp = (\<lambda>_. \<lparr>sl_locked = 0, sl_name = '''', sl_pid = 0\<rparr>), \<dots> = z\<rparr>"

text \<open>\<open>my_proc()\<close> dereferences the per-CPU pointer; it is null when no process runs.\<close>

definition my_proc :: "('z kern_scheme, nat) kop" where
  "my_proc = bnd (gets myproc) (\<lambda>p. case p of
       None \<Rightarrow> stopk (Fault ''my_proc: null'')
     | Some i \<Rightarrow> ret i)"

definition pushcli :: "('z kern_scheme, unit) kop" where
  "pushcli = modify (\<lambda>s. s\<lparr>
      int_enabled := (if cli_depth s = 0 then eflags_if s else int_enabled s),
      eflags_if := False,
      cli_depth := cli_depth s + 1\<rparr>)"

definition popcli :: "('z kern_scheme, unit) kop" where
  "popcli = modify (\<lambda>s. s\<lparr>
      cli_depth := cli_depth s - 1,
      eflags_if := (if cli_depth s - 1 = 0 \<and> int_enabled s then True else eflags_if s)\<rparr>)"

definition initlock :: "lockid \<Rightarrow> string \<Rightarrow> ('z kern_scheme, unit) kop" where
  "initlock lk nm = modify (\<lambda>s. s\<lparr>spin := (spin s)(lk :=
      (spin s lk)\<lparr>lk_locked := 0, lk_name := nm, lk_cpu := None\<rparr>)\<rparr>)"

definition acquire :: "lockid \<Rightarrow> ('z kern_scheme, unit) kop" where
  "acquire lk = bnd pushcli (\<lambda>_.
     modify (\<lambda>s. s\<lparr>spin := (spin s)(lk := (spin s lk)\<lparr>lk_locked := 1\<rparr>)\<rparr>))"

definition release :: "lockid \<Rightarrow> ('z kern_scheme, unit) kop" where
  "release lk = bnd (modify (\<lambda>s. s\<lparr>spin := (spin s)(lk := (spin s lk)\<lparr>lk_locked := 0\<rparr>)\<rparr>))
     (\<lambda>_. popcli)"

definition holding :: "lockid \<Rightarrow> ('z kern_scheme, bool) kop" where
  "holding lk = gets (\<lambda>s. lk_locked (spin s lk) \<noteq> 0)"

section \<open>Wakeup\<close>

definition wake_slot :: "chan \<Rightarrow> proc \<Rightarrow> proc" where
  "wake_slot ch p =
     (if pr_state p = SLEEPING \<and> pr_chan p = ch then p\<lparr>pr_state := RUNNABLE\<rparr> else p)"

definition wakeup1 :: "chan \<Rightarrow> ('z kern_scheme, unit) kop" where
  "wakeup1 ch = for_each (\<lambda>i. modify (\<lambda>s.
     s\<lparr>ptable := (ptable s)(i := wake_slot ch (ptable s i))\<rparr>)) [0..<NPROC]"

definition wakeup :: "chan \<Rightarrow> ('z kern_scheme, unit) kop" where
  "wakeup ch = bnd (acquire LkPtable) (\<lambda>_.
     bnd (wakeup1 ch) (\<lambda>_.
     release LkPtable))"

section \<open>Giving up the processor\<close>

text \<open>
  \<open>sched\<close> up to its \<open>swtch\<close>: the four checks, then the state with which the scheduler
  continues. The saved \<open>intena\<close> is what the resumed half writes back.
\<close>

definition sched :: "('z kern_scheme, i32) kop" where
  "sched = bnd my_proc (\<lambda>p.
     bnd (holding LkPtable) (\<lambda>h.
     bnd (guardk h (Panic ''sched ptable.lock'')) (\<lambda>_.
     bnd (gets cpu_ncli) (\<lambda>n.
     bnd (guardk (n = 1) (Panic ''sched locks'')) (\<lambda>_.
     bnd (gets (\<lambda>s. pr_state (ptable s p))) (\<lambda>st.
     bnd (guardk (st \<noteq> RUNNING) (Panic ''sched running'')) (\<lambda>_.
     bnd (gets eflags_if) (\<lambda>fl.
     bnd (guardk (\<not> fl) (Panic ''sched interruptible'')) (\<lambda>_.
     gets cpu_intena)))))))))"

text \<open>
  \<open>sleep_proc\<close> before its \<open>sched\<close> returns (\<open>sleep_enter\<close>) and after (\<open>sleep_exit\<close>).
  \<open>None\<close> is the null lock pointer.
\<close>

definition sleep_enter :: "chan \<Rightarrow> lockid option \<Rightarrow> ('z kern_scheme, i32) kop" where
  "sleep_enter ch lk = bnd my_proc (\<lambda>p. case lk of
      None \<Rightarrow> panic ''sleep without lk''
    | Some l \<Rightarrow>
        bnd (whenk (l \<noteq> LkPtable) (bnd (acquire LkPtable) (\<lambda>_. release l))) (\<lambda>_.
        bnd (modify (\<lambda>s. s\<lparr>ptable := (ptable s)(p :=
              (ptable s p)\<lparr>pr_chan := ch, pr_state := SLEEPING\<rparr>)\<rparr>)) (\<lambda>_.
        sched)))"

definition sleep_exit :: "lockid \<Rightarrow> ('z kern_scheme, unit) kop" where
  "sleep_exit l = bnd my_proc (\<lambda>p.
     bnd (modify (\<lambda>s. s\<lparr>ptable := (ptable s)(p := (ptable s p)\<lparr>pr_chan := ChNull\<rparr>)\<rparr>)) (\<lambda>_.
     whenk (l \<noteq> LkPtable) (bnd (release LkPtable) (\<lambda>_. acquire l))))"

definition yield_enter :: "('z kern_scheme, i32) kop" where
  "yield_enter = bnd (acquire LkPtable) (\<lambda>_.
     bnd my_proc (\<lambda>p.
     bnd (modify (\<lambda>s. s\<lparr>ptable := (ptable s)(p := (ptable s p)\<lparr>pr_state := RUNNABLE\<rparr>)\<rparr>)) (\<lambda>_.
     sched)))"

section \<open>Sleep locks\<close>

text \<open>
  A contended \<open>acquiresleep\<close> leaves through \<open>sleep\<close>: the stop value \<open>Sleep\<close> names the channel.
\<close>

definition initsleeplock :: "slock \<Rightarrow> string \<Rightarrow> ('z kern_scheme, unit) kop" where
  "initsleeplock l nm = bnd (initlock (LkInner l) ''sleep lock'') (\<lambda>_.
     modify (\<lambda>s. s\<lparr>slp := (slp s)(l := (slp s l)\<lparr>sl_name := nm, sl_locked := 0, sl_pid := 0\<rparr>)\<rparr>))"

definition acquiresleep :: "slock \<Rightarrow> ('z kern_scheme, unit) kop" where
  "acquiresleep l = bnd (acquire (LkInner l)) (\<lambda>_.
     bnd (gets (\<lambda>s. sl_locked (slp s l))) (\<lambda>lk.
     bnd (guardk (lk = 0) (Sleep (ChSleeplock l))) (\<lambda>_.
     bnd my_proc (\<lambda>p.
     bnd (modify (\<lambda>s. s\<lparr>slp := (slp s)(l :=
           (slp s l)\<lparr>sl_locked := 1, sl_pid := pr_pid (ptable s p)\<rparr>)\<rparr>)) (\<lambda>_.
     release (LkInner l))))))"

definition releasesleep :: "slock \<Rightarrow> ('z kern_scheme, unit) kop" where
  "releasesleep l = bnd (acquire (LkInner l)) (\<lambda>_.
     bnd (modify (\<lambda>s. s\<lparr>slp := (slp s)(l := (slp s l)\<lparr>sl_locked := 0, sl_pid := 0\<rparr>)\<rparr>)) (\<lambda>_.
     bnd (wakeup (ChSleeplock l)) (\<lambda>_.
     release (LkInner l))))"

definition holdingsleep :: "slock \<Rightarrow> ('z kern_scheme, bool) kop" where
  "holdingsleep l = bnd (acquire (LkInner l)) (\<lambda>_.
     bnd (gets (\<lambda>s. sl_locked (slp s l))) (\<lambda>r.
     bnd (release (LkInner l)) (\<lambda>_.
     ret (r \<noteq> 0))))"

section \<open>State transformers of the lock operations\<close>

text \<open>
  Every lock operation is total on its success path; the transformers below name the state it
  leaves, so that a client's proof rewrites with them and reads its own fields through them.
\<close>

definition kacq :: "lockid \<Rightarrow> 'z kern_scheme \<Rightarrow> 'z kern_scheme" where
  "kacq lk s = s\<lparr>
      int_enabled := (if cli_depth s = 0 then eflags_if s else int_enabled s),
      eflags_if := False,
      cli_depth := cli_depth s + 1,
      spin := (spin s)(lk := (spin s lk)\<lparr>lk_locked := 1\<rparr>)\<rparr>"

definition krel :: "lockid \<Rightarrow> 'z kern_scheme \<Rightarrow> 'z kern_scheme" where
  "krel lk s = s\<lparr>
      cli_depth := cli_depth s - 1,
      eflags_if := (if cli_depth s = 1 \<and> int_enabled s then True else eflags_if s),
      spin := (spin s)(lk := (spin s lk)\<lparr>lk_locked := 0\<rparr>)\<rparr>"

definition kwake :: "chan \<Rightarrow> 'z kern_scheme \<Rightarrow> 'z kern_scheme" where
  "kwake ch s = s\<lparr>ptable := (\<lambda>i. if i < NPROC then wake_slot ch (ptable s i) else ptable s i)\<rparr>"

definition sl_take :: "slock \<Rightarrow> 'z kern_scheme \<Rightarrow> 'z kern_scheme" where
  "sl_take l s = s\<lparr>slp := (slp s)(l := (slp s l)\<lparr>sl_locked := 1,
      sl_pid := pr_pid (ptable s (the (myproc s)))\<rparr>)\<rparr>"

definition sl_drop :: "slock \<Rightarrow> 'z kern_scheme \<Rightarrow> 'z kern_scheme" where
  "sl_drop l s = s\<lparr>slp := (slp s)(l := (slp s l)\<lparr>sl_locked := 0, sl_pid := 0\<rparr>)\<rparr>"

definition sl_init :: "slock \<Rightarrow> string \<Rightarrow> 'z kern_scheme \<Rightarrow> 'z kern_scheme" where
  "sl_init l nm s = s\<lparr>spin := (spin s)(LkInner l :=
        (spin s (LkInner l))\<lparr>lk_locked := 0, lk_name := ''sleep lock'', lk_cpu := None\<rparr>),
      slp := (slp s)(l := (slp s l)\<lparr>sl_name := nm, sl_locked := 0, sl_pid := 0\<rparr>)\<rparr>"

text \<open>The state after a whole \<open>wakeup\<close>, which takes and releases the process-table lock.\<close>

abbreviation woken :: "chan \<Rightarrow> 'z kern_scheme \<Rightarrow> 'z kern_scheme" where
  "woken ch s \<equiv> krel LkPtable (kwake ch (kacq LkPtable s))"

lemmas ktrans_defs = kacq_def krel_def kwake_def sl_take_def sl_drop_def

lemma kern_fields [simp]:
  "myproc (kacq lk s) = myproc s" "myproc (krel lk s) = myproc s" "myproc (kwake ch s) = myproc s"
  "myproc (sl_take l s) = myproc s" "myproc (sl_drop l s) = myproc s"
  "slp (kacq lk s) = slp s" "slp (krel lk s) = slp s" "slp (kwake ch s) = slp s"
  "slp (sl_take l s) = (slp s)(l := (slp s l)\<lparr>sl_locked := 1,
      sl_pid := pr_pid (ptable s (the (myproc s)))\<rparr>)"
  "slp (sl_drop l s) = (slp s)(l := (slp s l)\<lparr>sl_locked := 0, sl_pid := 0\<rparr>)"
  "ptable (kacq lk s) = ptable s" "ptable (krel lk s) = ptable s"
  "ptable (sl_take l s) = ptable s" "ptable (sl_drop l s) = ptable s"
  "cpu_ncli (kacq lk s) = cpu_ncli s" "cpu_ncli (krel lk s) = cpu_ncli s"
  "cpu_ncli (kwake ch s) = cpu_ncli s" "cpu_ncli (sl_take l s) = cpu_ncli s"
  "cpu_ncli (sl_drop l s) = cpu_ncli s"
  by (simp_all add: ktrans_defs)

lemma runs_initsleeplock [wp, simp]: "runs (initsleeplock l nm) s Q = Q () (sl_init l nm s)"
  by (simp add: initsleeplock_def initlock_def sl_init_def)

lemma sl_init_fields [simp]:
  "myproc (sl_init l nm s) = myproc s" "ptable (sl_init l nm s) = ptable s"
  "slp (sl_init l nm s) = (slp s)(l := (slp s l)\<lparr>sl_name := nm, sl_locked := 0, sl_pid := 0\<rparr>)"
  "kern.more (sl_init l nm s) = kern.more s"
  by (simp_all add: sl_init_def)

lemma kern_more [simp]:
  "kern.more (kacq lk s) = kern.more s" "kern.more (krel lk s) = kern.more s"
  "kern.more (kwake ch s) = kern.more s" "kern.more (sl_take l s) = kern.more s"
  "kern.more (sl_drop l s) = kern.more s"
  by (simp_all add: ktrans_defs)

lemma ptable_kwake: "ptable (kwake ch s) i =
    (if i < NPROC then wake_slot ch (ptable s i) else ptable s i)"
  by (simp add: kwake_def)

lemma pid_kwake [simp]: "pr_pid (ptable (kwake ch s) i) = pr_pid (ptable s i)"
  by (simp add: kwake_def wake_slot_def)

lemma acquire_eq: "acquire lk s = Inr ((), kacq lk s)"
  by (simp add: acquire_def pushcli_def exec_simps kacq_def)

lemma release_eq: "release lk s = Inr ((), krel lk s)"
  by (simp add: release_def popcli_def exec_simps krel_def)

lemma runs_acquire [wp, simp]: "runs (acquire lk) s Q = Q () (kacq lk s)"
  by (simp add: runs_def acquire_eq)

lemma runs_release [wp, simp]: "runs (release lk) s Q = Q () (krel lk s)"
  by (simp add: runs_def release_eq)

lemma fold_wake:
  "fold (\<lambda>i s. s\<lparr>ptable := (ptable s)(i := wake_slot ch (ptable s i))\<rparr>) is s
   = s\<lparr>ptable := (\<lambda>i. if i \<in> set is then wake_slot ch (ptable s i) else ptable s i)\<rparr>"
proof (induction "is" arbitrary: s)
  case Nil
  then show ?case by simp
next
  case (Cons i "is")
  have idem: "wake_slot ch (wake_slot ch p) = wake_slot ch p" for p
    by (simp add: wake_slot_def)
  let ?s = "s\<lparr>ptable := (ptable s)(i := wake_slot ch (ptable s i))\<rparr>"
  have "(\<lambda>j. if j \<in> set is then wake_slot ch (ptable ?s j) else ptable ?s j)
      = (\<lambda>j. if j \<in> set (i # is) then wake_slot ch (ptable s j) else ptable s j)"
    by (auto simp: fun_eq_iff idem)
  then show ?case
    by (simp only: fold_Cons o_apply Cons.IH) simp
qed

lemma wakeup1_eq: "wakeup1 ch s = Inr ((), kwake ch s)"
  by (simp add: wakeup1_def for_each_modify fold_wake kwake_def)

lemma runs_wakeup1 [wp, simp]: "runs (wakeup1 ch) s Q = Q () (kwake ch s)"
  by (simp add: runs_def wakeup1_eq)

lemma wakeup_eq: "wakeup ch s = Inr ((), krel LkPtable (kwake ch (kacq LkPtable s)))"
  by (simp add: wakeup_def exec_simps acquire_eq release_eq wakeup1_eq)

lemma runs_wakeup [wp, simp]:
  "runs (wakeup ch) s Q = Q () (krel LkPtable (kwake ch (kacq LkPtable s)))"
  by (simp add: runs_def wakeup_eq)

lemma my_proc_eq: "my_proc s = (case myproc s of
    None \<Rightarrow> Inl (Fault ''my_proc: null'') | Some i \<Rightarrow> Inr (i, s))"
  by (simp add: my_proc_def exec_simps split: option.splits)

lemma runs_my_proc [wp]: "runs my_proc s Q = (\<exists>i. myproc s = Some i \<and> Q i s)"
  by (simp add: runs_def my_proc_eq split: option.splits)

lemma runs_acquiresleep [wp]:
  "runs (acquiresleep l) s Q =
    (sl_locked (slp s l) = 0 \<and> myproc s \<noteq> None \<and>
     Q () (krel (LkInner l) (sl_take l (kacq (LkInner l) s))))"
  by (auto simp: acquiresleep_def runs_my_proc sl_take_def)

lemma runs_releasesleep [wp]:
  "runs (releasesleep l) s Q =
     Q () (krel (LkInner l) (krel LkPtable (kwake (ChSleeplock l) (kacq LkPtable
       (sl_drop l (kacq (LkInner l) s))))))"
  by (simp add: releasesleep_def sl_drop_def)

lemma runs_holdingsleep [wp]:
  "runs (holdingsleep l) s Q =
     Q (sl_locked (slp s l) \<noteq> 0) (krel (LkInner l) (kacq (LkInner l) s))"
  by (simp add: holdingsleep_def)

section \<open>Interrupt nesting\<close>

datatype lockop = Acq lockid | Rel lockid

fun lock_seq :: "lockop list \<Rightarrow> ('z kern_scheme, unit) kop" where
  "lock_seq [] = ret ()"
| "lock_seq (Acq l # ops) = bnd (acquire l) (\<lambda>_. lock_seq ops)"
| "lock_seq (Rel l # ops) = bnd (release l) (\<lambda>_. lock_seq ops)"

text \<open>The nesting depth after a sequence; \<open>None\<close> if some release has no acquire before it.\<close>

fun nest :: "nat \<Rightarrow> lockop list \<Rightarrow> nat option" where
  "nest d [] = Some d"
| "nest d (Acq l # ops) = nest (Suc d) ops"
| "nest 0 (Rel l # ops) = None"
| "nest (Suc d) (Rel l # ops) = nest d ops"

definition cli_rel :: "bool \<Rightarrow> nat \<Rightarrow> 'z kern_scheme \<Rightarrow> bool" where
  "cli_rel f d s \<longleftrightarrow> cli_depth s = int d \<and>
     (if d = 0 then eflags_if s = f else \<not> eflags_if s \<and> int_enabled s = f)"

lemma cli_rel_kacq: "cli_rel f d s \<Longrightarrow> cli_rel f (Suc d) (kacq l s)"
  by (auto simp: cli_rel_def kacq_def split: if_splits)

lemma cli_rel_krel: "cli_rel f (Suc d) s \<Longrightarrow> cli_rel f d (krel l s)"
  by (auto simp: cli_rel_def krel_def split: if_splits)

lemma lock_seq_nest:
  "cli_rel f d s \<Longrightarrow> nest d ops = Some e \<Longrightarrow>
   \<exists>s'. lock_seq ops s = Inr ((), s') \<and> cli_rel f e s'"
proof (induction d ops arbitrary: s rule: nest.induct)
  case (2 d l ops)
  then show ?case
    using 2(1)[OF cli_rel_kacq[OF 2(2)]] by (simp add: exec_simps acquire_eq)
next
  case (4 d l ops)
  then show ?case
    using 4(1)[OF cli_rel_krel[OF 4(2)]] by (simp add: exec_simps release_eq)
qed (auto simp: exec_simps)

section \<open>Properties\<close>



text \<open>
  C39: \<open>sched\<close> demands \<open>ncli == 1\<close> of the CPU structure, but \<open>pushcli\<close> counts in \<open>CLI_DEPTH\<close> and
  nothing writes \<open>ncli\<close>. So from any state whose \<open>ncli\<close> is still its initial zero, with a process
  running, \<open>yield\<close> panics, and so does \<open>sleep\<close> with any lock (the process-table lock being held
  when it is the one passed).
\<close>

theorem sleep_and_yield_panic:
  assumes "cpu_ncli s = 0" "myproc s = Some p" "l \<noteq> LkPtable \<or> lk_locked (spin s LkPtable) \<noteq> 0"
  shows "sleep_enter ch (Some l) s = Inl (Panic ''sched locks'')
    \<and> yield_enter s = Inl (Panic ''sched locks'')"
proof
  show "yield_enter s = Inl (Panic ''sched locks'')"
    using assms
    by (simp add: yield_enter_def sched_def exec_simps acquire_eq my_proc_eq holding_def)
       (simp add: kacq_def)
  show "sleep_enter ch (Some l) s = Inl (Panic ''sched locks'')"
    using assms
    by (auto simp: sleep_enter_def sched_def exec_simps acquire_eq release_eq my_proc_eq
        holding_def kacq_def krel_def)
qed

theorem sleep_and_yield_panic_witness:
  "sleep_enter ChTicks (Some LkTicks) ((kern_zero ())\<lparr>myproc := Some 3\<rparr>)
     = Inl (Panic ''sched locks'')
   \<and> yield_enter ((kern_zero ())\<lparr>myproc := Some 3\<rparr>) = Inl (Panic ''sched locks'')"
  using sleep_and_yield_panic[of "(kern_zero ())\<lparr>myproc := Some 3\<rparr>" 3 LkTicks ChTicks]
  by (simp add: kern_zero_def)


definition sleep_demo :: kern where
  "sleep_demo = (kern_zero ())\<lparr>myproc := Some 2, cpu_ncli := 1, cli_depth := 1\<rparr>"




end
