(* ===== verification/Xv6_Ide.thy ===== *)
theory Xv6_Ide
  imports Xv6_Sync
begin

unbundle bit_operations_syntax

text \<open>
  Buffers (\<^verbatim>\<open>crates/fs/src/buf.rs\<close>) and the IDE disk driver (\<^verbatim>\<open>crates/drivers/src/ide.rs\<close>).

  The drive itself is the environment of the driver. It is modelled by the sectors it stores
  (\<open>hw_disk\<close>, by drive-select bit and 28-bit block address), the address latched by the last read
  command, a status bit that says whether a command failed, and the history of sector writes,
  which the code never reads: the history is what a crash can cut short. The registers the driver
  programs are those of the ATA command block; \<open>hw_sel\<close> and \<open>hw_lba\<close> are how a drive decodes them.

  \<open>IDE_QUEUE\<close> with the \<open>qnext\<close> links of its buffers is the list \<open>ide_queue\<close>. \<open>IDE_LOCK\<close> is a
  \<open>Spinlock\<close> whose \<open>acquire\<close> does nothing. Where \<open>iderw\<close> sleeps, the interrupt handler runs.
\<close>

section \<open>Constants and buffers\<close>

definition BSIZE :: nat where [simp]: "BSIZE = 512"
definition SECTOR_SIZE :: nat where [simp]: "SECTOR_SIZE = 512"
definition FSSIZE :: u32 where [simp]: "FSSIZE = 2000"

definition B_VALID :: u32 where "B_VALID = 2"
definition B_DIRTY :: u32 where "B_DIRTY = 4"

text \<open>A buffer. Its sleep lock is \<open>slp (SlBuf i)\<close>; links are buffer numbers.\<close>

record buf =
  b_flags :: u32
  b_dev :: u32
  b_blockno :: u32
  b_refcnt :: u32
  b_prev :: nat
  b_next :: nat
  b_data :: "u8 list"

definition is_valid :: "buf \<Rightarrow> bool" where "is_valid b \<longleftrightarrow> b_flags b AND B_VALID \<noteq> 0"
definition is_dirty :: "buf \<Rightarrow> bool" where "is_dirty b \<longleftrightarrow> b_flags b AND B_DIRTY \<noteq> 0"
definition mark_dirty :: "buf \<Rightarrow> buf" where "mark_dirty b = b\<lparr>b_flags := b_flags b OR B_DIRTY\<rparr>"
definition mark_valid :: "buf \<Rightarrow> buf" where "mark_valid b = b\<lparr>b_flags := b_flags b OR B_VALID\<rparr>"

record kbuf = kern +
  bufs :: "nat \<Rightarrow> buf"
  ide_queue :: "nat list"
  have_disk1 :: bool
  hw_disk :: "u8 \<Rightarrow> u32 \<Rightarrow> u8 list"
  hw_latch :: "(u8 \<times> u32) option"
  hw_fail :: bool
  hw_writes :: "(u8 \<times> u32 \<times> u8 list) list"

definition buf_zero :: buf where
  "buf_zero = \<lparr>b_flags = 0, b_dev = 0, b_blockno = 0, b_refcnt = 0, b_prev = 0, b_next = 0,
     b_data = replicate BSIZE 0\<rparr>"

text \<open>The statics of the block layer before boot, over a drive 1 with contents \<open>d\<close>.\<close>

definition kbuf_zero :: "(u32 \<Rightarrow> u8 list) \<Rightarrow> 'z \<Rightarrow> 'z kbuf_scheme" where
  "kbuf_zero d z = kern_zero \<lparr>bufs = (\<lambda>_. buf_zero), ide_queue = [], have_disk1 = True,
     hw_disk = (\<lambda>_. d), hw_latch = None, hw_fail = False, hw_writes = [], \<dots> = z\<rparr>"

definition upd_buf :: "nat \<Rightarrow> (buf \<Rightarrow> buf) \<Rightarrow> 'z kbuf_scheme \<Rightarrow> 'z kbuf_scheme" where
  "upd_buf i f s = s\<lparr>bufs := (bufs s)(i := f (bufs s i))\<rparr>"

section \<open>The command block\<close>

record ideregs =
  rg_count :: u8
  rg_lba0 :: u8
  rg_lba1 :: u8
  rg_lba2 :: u8
  rg_drive :: u8

text \<open>What \<open>idestart\<close> writes to ports 0x1F2 to 0x1F6, for sector number \<open>sector\<close>.\<close>

definition idestart_regs :: "u32 \<Rightarrow> u32 \<Rightarrow> ideregs" where
  "idestart_regs dev sector = \<lparr>
     rg_count = of_nat (BSIZE div SECTOR_SIZE),
     rg_lba0 = ucast (sector AND 0xFF),
     rg_lba1 = ucast (drop_bit 8 sector AND 0xFF),
     rg_lba2 = ucast (drop_bit 16 sector AND 0xFF),
     rg_drive = 0xE0 OR ucast (push_bit 4 (dev AND 1)) OR ucast (drop_bit 24 sector AND 0x0F)\<rparr>"

definition hw_sel :: "ideregs \<Rightarrow> u8" where
  "hw_sel r = drop_bit 4 (rg_drive r) AND 1"

definition hw_lba :: "ideregs \<Rightarrow> u32" where
  "hw_lba r = ucast (rg_lba0 r) OR push_bit 8 (ucast (rg_lba1 r))
     OR push_bit 16 (ucast (rg_lba2 r)) OR push_bit 24 (ucast (rg_drive r AND 0x0F))"

section \<open>The driver\<close>

text \<open>\<open>idewait(checkerr)\<close> once the drive is ready: \<open>False\<close> is the result \<open>-1\<close>.\<close>

definition idewait :: "bool \<Rightarrow> ('z kbuf_scheme, bool) kop" where
  "idewait checkerr = gets (\<lambda>s. \<not> (checkerr \<and> hw_fail s))"

text \<open>\<open>ideinit\<close>: \<open>probes\<close> are the status bytes read while probing for disk 1.\<close>

definition ideinit :: "u8 list \<Rightarrow> ('z kbuf_scheme, unit) kop" where
  "ideinit probes = bnd (idewait False) (\<lambda>_.
     whenk (list_ex (\<lambda>r. r \<noteq> 0) (take 1000 probes)) (modify (have_disk1_update (\<lambda>_. True))))"

definition idestart :: "nat \<Rightarrow> ('z kbuf_scheme, unit) kop" where
  "idestart i = bnd (gets (\<lambda>s. bufs s i)) (\<lambda>b.
     bnd (guardk (b_blockno b < FSSIZE) (Panic ''incorrect blockno'')) (\<lambda>_.
     let sector_per_block = BSIZE div SECTOR_SIZE;
         sector = b_blockno b * of_nat sector_per_block;
         r = idestart_regs (b_dev b) sector
     in
     bnd (guardk (sector_per_block \<le> 7) (Panic ''idestart'')) (\<lambda>_.
     bnd (idewait False) (\<lambda>_.
     if b_flags b AND B_DIRTY \<noteq> 0 then
       modify (\<lambda>s. s\<lparr>
         hw_disk := (hw_disk s)(hw_sel r := (hw_disk s (hw_sel r))(hw_lba r := b_data b)),
         hw_latch := None,
         hw_writes := hw_writes s @ [(hw_sel r, hw_lba r, b_data b)]\<rparr>)
     else
       modify (\<lambda>s. s\<lparr>hw_latch := Some (hw_sel r, hw_lba r)\<rparr>)))))"

text \<open>\<open>insl\<close> of one sector from the data port.\<close>

definition ide_insl :: "nat \<Rightarrow> ('z kbuf_scheme, unit) kop" where
  "ide_insl i = bnd (gets hw_latch) (\<lambda>l. case l of
       None \<Rightarrow> stopk (Fault ''insl: no data'')
     | Some (d, a) \<Rightarrow> modify (\<lambda>s. upd_buf i (b_data_update (\<lambda>_. hw_disk s d a)) s))"

definition ideintr :: "('z kbuf_scheme, unit) kop" where
  "ideintr = bnd (gets ide_queue) (\<lambda>q. case q of
       [] \<Rightarrow> ret ()
     | i # q' \<Rightarrow>
        bnd (modify (ide_queue_update (\<lambda>_. q'))) (\<lambda>_.
        bnd (gets (\<lambda>s. bufs s i)) (\<lambda>b.
        bnd (if b_flags b AND B_DIRTY = 0 then
               bnd (idewait True) (\<lambda>ok. whenk ok (ide_insl i))
             else ret ()) (\<lambda>_.
        bnd (modify (upd_buf i (\<lambda>b. b\<lparr>b_flags := (b_flags b OR B_VALID) AND NOT B_DIRTY\<rparr>))) (\<lambda>_.
        bnd (wakeup (ChBuf i)) (\<lambda>_.
        case q' of [] \<Rightarrow> ret () | j # _ \<Rightarrow> idestart j))))))"

text \<open>
  The wait loop of \<open>iderw\<close>: while the buffer is not in sync, sleep, that is, let the next
  interrupt happen. With no request left in the queue the sleep has nothing to wake it.
\<close>

definition in_sync :: "buf \<Rightarrow> bool" where
  "in_sync b \<longleftrightarrow> b_flags b AND (B_VALID OR B_DIRTY) = B_VALID"

fun iderw_wait :: "nat \<Rightarrow> nat \<Rightarrow> ('z kbuf_scheme, unit) kop" where
  "iderw_wait 0 i = bnd (gets (\<lambda>s. bufs s i)) (\<lambda>b. guardk (in_sync b) (Sleep (ChBuf i)))"
| "iderw_wait (Suc n) i = bnd (gets (\<lambda>s. bufs s i)) (\<lambda>b.
     if in_sync b then ret () else bnd ideintr (\<lambda>_. iderw_wait n i))"

text \<open>\<open>iderw\<close> up to its wait loop: the checks, queueing the buffer, starting an idle drive.\<close>

definition iderw_submit :: "nat \<Rightarrow> ('z kbuf_scheme, unit) kop" where
  "iderw_submit i = bnd (gets (\<lambda>s. bufs s i)) (\<lambda>b.
     bnd (guardk (\<not> in_sync b) (Panic ''iderw: nothing to do'')) (\<lambda>_.
     bnd (gets have_disk1) (\<lambda>d1.
     bnd (guardk (b_dev b = 0 \<or> d1) (Panic ''iderw: disk 1 not present'')) (\<lambda>_.
     bnd (modify (\<lambda>s. s\<lparr>ide_queue := ide_queue s @ [i]\<rparr>)) (\<lambda>_.
     bnd (gets ide_queue) (\<lambda>q. whenk (hd q = i) (idestart i)))))))"

definition iderw :: "nat \<Rightarrow> ('z kbuf_scheme, unit) kop" where
  "iderw i = bnd (iderw_submit i) (\<lambda>_. bnd (gets ide_queue) (\<lambda>q. iderw_wait (length q) i))"

section \<open>Fields across the kernel transformers\<close>

lemma kbuf_fields [simp]:
  "bufs (kacq lk s) = bufs s" "bufs (krel lk s) = bufs s" "bufs (kwake ch s) = bufs s"
  "bufs (sl_take l s) = bufs s" "bufs (sl_drop l s) = bufs s"
  "ide_queue (kacq lk s) = ide_queue s" "ide_queue (krel lk s) = ide_queue s"
  "ide_queue (kwake ch s) = ide_queue s" "ide_queue (sl_take l s) = ide_queue s"
  "ide_queue (sl_drop l s) = ide_queue s"
  "have_disk1 (kacq lk s) = have_disk1 s" "have_disk1 (krel lk s) = have_disk1 s"
  "have_disk1 (kwake ch s) = have_disk1 s" "have_disk1 (sl_take l s) = have_disk1 s"
  "have_disk1 (sl_drop l s) = have_disk1 s"
  "hw_disk (kacq lk s) = hw_disk s" "hw_disk (krel lk s) = hw_disk s"
  "hw_disk (kwake ch s) = hw_disk s" "hw_disk (sl_take l s) = hw_disk s"
  "hw_disk (sl_drop l s) = hw_disk s"
  "hw_fail (kacq lk s) = hw_fail s" "hw_fail (krel lk s) = hw_fail s"
  "hw_fail (kwake ch s) = hw_fail s" "hw_fail (sl_take l s) = hw_fail s"
  "hw_fail (sl_drop l s) = hw_fail s"
  "hw_writes (kacq lk s) = hw_writes s" "hw_writes (krel lk s) = hw_writes s"
  "hw_writes (kwake ch s) = hw_writes s" "hw_writes (sl_take l s) = hw_writes s"
  "hw_writes (sl_drop l s) = hw_writes s"
  "hw_latch (kacq lk s) = hw_latch s" "hw_latch (krel lk s) = hw_latch s"
  "hw_latch (kwake ch s) = hw_latch s" "hw_latch (sl_take l s) = hw_latch s"
  "hw_latch (sl_drop l s) = hw_latch s"
  "kbuf.more (kacq lk s) = kbuf.more s" "kbuf.more (krel lk s) = kbuf.more s"
  "kbuf.more (kwake ch s) = kbuf.more s" "kbuf.more (sl_take l s) = kbuf.more s"
  "kbuf.more (sl_drop l s) = kbuf.more s"
  by (simp_all add: ktrans_defs)

lemma sl_init_kbuf [simp]:
  "bufs (sl_init l nm s) = bufs s" "ide_queue (sl_init l nm s) = ide_queue s"
  "have_disk1 (sl_init l nm s) = have_disk1 s" "hw_disk (sl_init l nm s) = hw_disk s"
  "hw_fail (sl_init l nm s) = hw_fail s" "hw_writes (sl_init l nm s) = hw_writes s"
  "kbuf.more (sl_init l nm s) = kbuf.more s"
  by (simp_all add: sl_init_def)

lemma upd_buf_fields [simp]:
  "bufs (upd_buf i f s) = (bufs s)(i := f (bufs s i))"
  "ide_queue (upd_buf i f s) = ide_queue s" "have_disk1 (upd_buf i f s) = have_disk1 s"
  "hw_disk (upd_buf i f s) = hw_disk s" "hw_fail (upd_buf i f s) = hw_fail s"
  "hw_writes (upd_buf i f s) = hw_writes s" "hw_latch (upd_buf i f s) = hw_latch s"
  "slp (upd_buf i f s) = slp s" "myproc (upd_buf i f s) = myproc s"
  "ptable (upd_buf i f s) = ptable s" "kbuf.more (upd_buf i f s) = kbuf.more s"
  by (simp_all add: upd_buf_def)

section \<open>Addressing\<close>

lemma unat_FSSIZE: "unat FSSIZE = 2000"
  by simp

text \<open>The drive-select bit of a device number.\<close>

definition drive_of :: "u32 \<Rightarrow> u8" where "drive_of dev = ucast dev AND 1"

lemma hw_sel_regs: "hw_sel (idestart_regs dev sector) = drive_of dev"
  unfolding hw_sel_def idestart_regs_def drive_of_def
  by (rule bit_word_eqI) (auto simp: bit_simps bit_1_iff)

lemma small_lba_bits: "(w :: u32) < FSSIZE \<Longrightarrow> 28 \<le> n \<Longrightarrow> \<not> bit w n"
proof -
  assume "w < FSSIZE" "28 \<le> n"
  then have "unat w < 2 ^ 28" by (simp add: word_less_nat_alt)
  then have "take_bit 28 w = w"
    by (simp add: word_unat_eq_iff unsigned_take_bit_eq take_bit_nat_eq_self)
  then show ?thesis
    using \<open>28 \<le> n\<close> by (metis bit_take_bit_iff not_le)
qed

lemma byte_masks:
  "(w :: u32) AND 255 = take_bit 8 w" "w AND 15 = take_bit 4 w" "(v :: u8) AND 15 = take_bit 4 v"
  by (simp_all add: take_bit_eq_mask mask_eq_exp_minus_1)

lemma bit_regs:
  "bit (rg_lba0 (idestart_regs dev sector)) k \<longleftrightarrow> k < 8 \<and> bit sector k"
  "bit (rg_lba1 (idestart_regs dev sector)) k \<longleftrightarrow> k < 8 \<and> bit sector (k + 8)"
  "bit (rg_lba2 (idestart_regs dev sector)) k \<longleftrightarrow> k < 8 \<and> bit sector (k + 16)"
  by (auto simp: idestart_regs_def byte_masks bit_simps add.commute)

lemma bit_rg_drive:
  assumes "k < 4"
  shows "bit (rg_drive (idestart_regs dev sector)) k \<longleftrightarrow> bit sector (k + 24)"
proof -
  consider "k = 0" | "k = 1" | "k = 2" | "k = 3" using assms by linarith
  then show ?thesis by cases (simp_all add: idestart_regs_def bit_simps)
qed

lemma hw_lba_regs:
  assumes "sector < FSSIZE"
  shows "hw_lba (idestart_regs dev sector) = sector"
proof (rule bit_word_eqI)
  fix n assume n: "n < LENGTH(32)"
  have drive: "bit (take_bit 4 (rg_drive (idestart_regs dev sector))) k
      \<longleftrightarrow> k < 4 \<and> bit sector (k + 24)" for k
    by (auto simp: bit_take_bit_iff bit_rg_drive)
  have high: "28 \<le> n \<Longrightarrow> \<not> bit sector n" by (rule small_lba_bits[OF assms])
  have "bit (hw_lba (idestart_regs dev sector)) n \<longleftrightarrow>
      n < 8 \<and> bit sector n \<or> 8 \<le> n \<and> n - 8 < 8 \<and> bit sector n
      \<or> 16 \<le> n \<and> n - 16 < 8 \<and> bit sector n \<or> 24 \<le> n \<and> n - 24 < 4 \<and> bit sector n"
    using n unfolding hw_lba_def byte_masks bit_or_iff bit_push_bit_iff bit_unsigned_iff bit_regs drive
    by auto
  also have "\<dots> \<longleftrightarrow> bit sector n"
    using high by (cases "28 \<le> n") auto
  finally show "bit (hw_lba (idestart_regs dev sector)) n = bit sector n" .
qed

section \<open>Serving requests\<close>

text \<open>
  The pure effect of starting and of completing one request; \<open>ide_serve\<close> is a whole request on an
  idle drive. These are the abstract operations the queue implements.
\<close>

definition ide_start :: "nat \<Rightarrow> 'z kbuf_scheme \<Rightarrow> 'z kbuf_scheme" where
  "ide_start i s = (let b = bufs s i; d = drive_of (b_dev b) in
     if is_dirty b then s\<lparr>
         hw_disk := (hw_disk s)(d := (hw_disk s d)(b_blockno b := b_data b)),
         hw_latch := None,
         hw_writes := hw_writes s @ [(d, b_blockno b, b_data b)]\<rparr>
     else s\<lparr>hw_latch := Some (d, b_blockno b)\<rparr>)"

definition synced :: "u32 \<Rightarrow> u32" where "synced f = (f OR B_VALID) AND NOT B_DIRTY"

definition ide_finish :: "nat \<Rightarrow> 'z kbuf_scheme \<Rightarrow> 'z kbuf_scheme" where
  "ide_finish i s = (let b = bufs s i in
     if is_dirty b then upd_buf i (\<lambda>b. b\<lparr>b_flags := synced (b_flags b)\<rparr>) s
     else upd_buf i (\<lambda>b. b\<lparr>b_data := hw_disk s (drive_of (b_dev b)) (b_blockno b),
                               b_flags := synced (b_flags b)\<rparr>) s)"

definition ide_next :: "nat list \<Rightarrow> 'z kbuf_scheme \<Rightarrow> 'z kbuf_scheme" where
  "ide_next q s = (case q of [] \<Rightarrow> s | i # _ \<Rightarrow> ide_start i s)"

definition ide_serve :: "nat \<Rightarrow> 'z kbuf_scheme \<Rightarrow> 'z kbuf_scheme" where
  "ide_serve i s = ide_finish i (ide_start i s)"

lemma bit_flags: "bit B_VALID n \<longleftrightarrow> n = 1" "bit B_DIRTY n \<longleftrightarrow> n = 2"
proof -
  have exps: "B_VALID = 2 ^ 1" "B_DIRTY = 2 ^ 2" by (simp_all add: B_VALID_def B_DIRTY_def)
  show "bit B_VALID n \<longleftrightarrow> n = 1" unfolding exps by (simp only: bit_exp_iff) auto
  show "bit B_DIRTY n \<longleftrightarrow> n = 2" unfolding exps by (simp only: bit_exp_iff) auto
qed

lemma u32_eq_iff: "(a :: u32) = b \<longleftrightarrow> (\<forall>n < 32. bit a n = bit b n)"
  by (auto intro: bit_word_eqI)

lemma single_flag:
  "f AND B_VALID = 0 \<longleftrightarrow> \<not> bit f 1" "f AND B_DIRTY = 0 \<longleftrightarrow> \<not> bit f 2"
  by (auto simp: u32_eq_iff bit_and_iff bit_flags dest: spec[of _ 1] spec[of _ 2])

lemma is_valid_bit: "is_valid b \<longleftrightarrow> bit (b_flags b) 1"
  by (simp add: is_valid_def single_flag)

lemma is_dirty_bit: "is_dirty b \<longleftrightarrow> bit (b_flags b) 2"
  by (simp add: is_dirty_def single_flag)

lemma in_sync_iff: "in_sync b \<longleftrightarrow> is_valid b \<and> \<not> is_dirty b"
proof -
  let ?m = "b_flags b AND (B_VALID OR B_DIRTY)"
  have m: "bit ?m n \<longleftrightarrow> bit (b_flags b) n \<and> (n = 1 \<or> n = 2)" for n
    by (auto simp: bit_and_iff bit_or_iff bit_flags)
  have "?m = B_VALID" if "bit (b_flags b) 1" "\<not> bit (b_flags b) 2"
    using that by (intro bit_word_eqI) (auto simp: m bit_flags)
  moreover have "bit (b_flags b) 1 \<and> \<not> bit (b_flags b) 2" if "?m = B_VALID"
    using m[of 1] m[of 2] unfolding that bit_flags by simp
  ultimately show ?thesis
    by (auto simp: in_sync_def is_valid_bit is_dirty_bit)
qed

lemma synced_bits [simp]:
  "bit (synced f) (Suc 0)" "\<not> bit (synced f) 2"
  by (auto simp: synced_def bit_and_iff bit_or_iff bit_not_iff bit_flags)

lemma in_sync_synced [simp]:
  "in_sync (b\<lparr>b_flags := synced f\<rparr>)" "in_sync (b\<lparr>b_data := d, b_flags := synced f\<rparr>)"
  by (simp_all add: in_sync_iff is_valid_bit is_dirty_bit)

lemma idestart_eq:
  "b_blockno (bufs s i) < FSSIZE \<Longrightarrow> idestart i s = Inr ((), ide_start i s)"
  by (simp add: idestart_def ide_start_def exec_simps Let_def hw_sel_regs hw_lba_regs idewait_def
      is_dirty_def)

lemma ide_start_fields [simp]:
  "bufs (ide_start i s) = bufs s" "ide_queue (ide_start i s) = ide_queue s"
  "have_disk1 (ide_start i s) = have_disk1 s" "hw_fail (ide_start i s) = hw_fail s"
  "myproc (ide_start i s) = myproc s" "slp (ide_start i s) = slp s"
  "ptable (ide_start i s) = ptable s" "kbuf.more (ide_start i s) = kbuf.more s"
  by (simp_all add: ide_start_def Let_def)

lemma ide_finish_fields [simp]:
  "hw_disk (ide_finish i s) = hw_disk s" "hw_writes (ide_finish i s) = hw_writes s"
  "ide_queue (ide_finish i s) = ide_queue s" "hw_latch (ide_finish i s) = hw_latch s"
  "have_disk1 (ide_finish i s) = have_disk1 s" "hw_fail (ide_finish i s) = hw_fail s"
  "myproc (ide_finish i s) = myproc s" "slp (ide_finish i s) = slp s"
  "ptable (ide_finish i s) = ptable s" "kbuf.more (ide_finish i s) = kbuf.more s"
  by (simp_all add: ide_finish_def Let_def)

lemma bufs_ide_finish:
  "bufs (ide_finish i s) = (bufs s)(i := (let b = bufs s i in
     if is_dirty b then b\<lparr>b_flags := synced (b_flags b)\<rparr>
     else b\<lparr>b_data := hw_disk s (drive_of (b_dev b)) (b_blockno b), b_flags := synced (b_flags b)\<rparr>))"
  by (simp add: ide_finish_def Let_def)

lemma b_keys_ide_finish [simp]:
  "b_dev (bufs (ide_finish i s) j) = b_dev (bufs s j)"
  "b_blockno (bufs (ide_finish i s) j) = b_blockno (bufs s j)"
  by (simp_all add: bufs_ide_finish Let_def)

lemma ide_next_fields [simp]:
  "bufs (ide_next q s) = bufs s" "ide_queue (ide_next q s) = ide_queue s"
  "have_disk1 (ide_next q s) = have_disk1 s" "hw_fail (ide_next q s) = hw_fail s"
  by (simp_all add: ide_next_def split: list.splits)

definition on_latch :: "nat \<Rightarrow> 'z kbuf_scheme \<Rightarrow> bool" where
  "on_latch i s \<longleftrightarrow> is_dirty (bufs s i) \<or>
     hw_latch s = Some (drive_of (b_dev (bufs s i)), b_blockno (bufs s i))"

lemma on_latch_start [simp]: "on_latch i (ide_start i s)"
  by (simp add: on_latch_def ide_start_def Let_def)

lemma ideintr_eq:
  assumes "ide_queue s = i # q" "\<not> hw_fail s" "on_latch i s"
    and "\<forall>j \<in> set q. b_blockno (bufs s j) < FSSIZE"
  shows "ideintr s = Inr ((), ide_next q (woken (ChBuf i) (ide_finish i (s\<lparr>ide_queue := q\<rparr>))))"
proof -
  have step: "(case q of [] \<Rightarrow> ret () | j # _ \<Rightarrow> idestart j) t = Inr ((), ide_next q t)"
    if "\<And>j. b_blockno (bufs t j) = b_blockno (bufs s j)" for t
    using assms(4) that by (cases q) (auto simp: exec_simps ide_next_def idestart_eq)
  show ?thesis
    using assms(1-3)
    by (auto simp: ideintr_def exec_simps wakeup_eq ide_finish_def Let_def on_latch_def idewait_def
        ide_insl_def is_dirty_def synced_def upd_buf_def step split: if_splits)
qed

section \<open>The queue serves requests in order\<close>

text \<open>
  \<open>ide_sim a q s\<close>: the requests before \<open>q\<close> have been served and gave \<open>a\<close>; the drive is working on
  the head of \<open>q\<close>.
\<close>

definition ide_sim :: "'z kbuf_scheme \<Rightarrow> nat list \<Rightarrow> 'z kbuf_scheme \<Rightarrow> bool" where
  "ide_sim a q s \<longleftrightarrow> ide_queue s = q \<and> \<not> hw_fail s \<and> bufs s = bufs a
     \<and> hw_disk s = hw_disk (ide_next q a) \<and> hw_writes s = hw_writes (ide_next q a)
     \<and> (q \<noteq> [] \<longrightarrow> on_latch (hd q) s)"

definition request_ok :: "'z kbuf_scheme \<Rightarrow> nat \<Rightarrow> bool" where
  "request_ok s i \<longleftrightarrow> \<not> in_sync (bufs s i) \<and> (b_dev (bufs s i) = 0 \<or> have_disk1 s)
     \<and> b_blockno (bufs s i) < FSSIZE"

lemma ide_start_cong:
  assumes "bufs s = bufs a" "hw_disk s = hw_disk a" "hw_writes s = hw_writes a"
  shows "hw_disk (ide_start i s) = hw_disk (ide_start i a)"
    and "hw_writes (ide_start i s) = hw_writes (ide_start i a)"
  using assms by (simp_all add: ide_start_def Let_def)

lemma submit_eq:
  assumes "ide_queue s = q" "request_ok s i" "i \<notin> set q"
  shows "iderw_submit i s = Inr ((), if q = [] then ide_start i (s\<lparr>ide_queue := [i]\<rparr>)
    else s\<lparr>ide_queue := q @ [i]\<rparr>)"
  using assms
  by (cases q) (auto simp: iderw_submit_def exec_simps request_ok_def idestart_eq)

lemma submit_sim:
  assumes "ide_sim a q s" "request_ok s i" "i \<notin> set q"
  shows "\<exists>s'. iderw_submit i s = Inr ((), s') \<and> ide_sim a (q @ [i]) s'
    \<and> have_disk1 s' = have_disk1 s"
proof (cases q)
  case Nil
  then show ?thesis
    using assms submit_eq[of s q i] ide_start_cong[of "s\<lparr>ide_queue := [i]\<rparr>" a i]
    by (auto simp: ide_sim_def ide_next_def)
next
  case (Cons j q')
  then show ?thesis
    using assms submit_eq[of s q i]
    by (auto simp: ide_sim_def ide_next_def on_latch_def)
qed

lemma intr_sim:
  assumes "ide_sim a (i # q) s" "\<forall>j \<in> set q. b_blockno (bufs a j) < FSSIZE"
  shows "\<exists>s'. ideintr s = Inr ((), s') \<and> ide_sim (ide_serve i a) q s'"
proof -
  let ?t = "woken (ChBuf i) (ide_finish i (s\<lparr>ide_queue := q\<rparr>))"
  have eq: "ideintr s = Inr ((), ide_next q ?t)"
    by (rule ideintr_eq) (use assms in \<open>auto simp: ide_sim_def\<close>)
  have fin: "bufs ?t = bufs (ide_serve i a)" "hw_disk ?t = hw_disk (ide_serve i a)"
    "hw_writes ?t = hw_writes (ide_serve i a)" "\<not> hw_fail ?t" "ide_queue ?t = q"
    using assms by (simp_all add: ide_sim_def ide_serve_def bufs_ide_finish ide_next_def Let_def)
  have "ide_sim (ide_serve i a) q (ide_next q ?t)"
    using fin ide_start_cong[of ?t "ide_serve i a"]
    by (cases q) (auto simp: ide_sim_def ide_next_def)
  with eq show ?thesis by blast
qed

lemma b_keys_ide_serve [simp]:
  "b_dev (bufs (ide_serve i s) j) = b_dev (bufs s j)"
  "b_blockno (bufs (ide_serve i s) j) = b_blockno (bufs s j)"
  by (simp_all add: ide_serve_def)

lemma submit_all_sim:
  assumes "ide_sim a q s" "distinct (q @ is)" "\<forall>i \<in> set is. request_ok s i"
  shows "\<exists>s'. for_each iderw_submit is s = Inr ((), s') \<and> ide_sim a (q @ is) s'"
  using assms
proof (induction "is" arbitrary: q s)
  case Nil
  then show ?case by (simp add: exec_simps)
next
  case (Cons i "is")
  from Cons.prems obtain s' where s': "iderw_submit i s = Inr ((), s')" "ide_sim a (q @ [i]) s'"
    "have_disk1 s' = have_disk1 s"
    using submit_sim[of a q s i] by auto
  have "\<forall>j \<in> set is. request_ok s' j"
    using Cons.prems s' by (auto simp: request_ok_def ide_sim_def)
  with Cons.IH[OF s'(2)] Cons.prems(2) s'(1) show ?case
    by (simp add: exec_simps)
qed

lemma intr_all_sim:
  assumes "ide_sim a q s" "\<forall>j \<in> set q. b_blockno (bufs a j) < FSSIZE"
  shows "\<exists>s'. for_each (\<lambda>_. ideintr) q s = Inr ((), s') \<and> ide_sim (fold ide_serve q a) [] s'"
  using assms
proof (induction q arbitrary: a s)
  case Nil
  then show ?case by (simp add: exec_simps)
next
  case (Cons i q)
  from Cons.prems obtain s' where "ideintr s = Inr ((), s')" "ide_sim (ide_serve i a) q s'"
    using intr_sim[of a i q s] by auto
  with Cons.IH[of "ide_serve i a" s'] Cons.prems(2) show ?case
    by (auto simp: exec_simps)
qed

section \<open>One request on an idle drive\<close>

lemma iderw_eq:
  assumes "ide_queue s = []" "request_ok s i" "\<not> hw_fail s"
  shows "iderw i s = Inr ((), woken (ChBuf i) (ide_serve i s))"
proof -
  let ?s1 = "ide_start i (s\<lparr>ide_queue := [i]\<rparr>)"
  have submit: "iderw_submit i s = Inr ((), ?s1)"
    using submit_eq[of s "[]" i] assms by simp
  have intr: "ideintr ?s1 = Inr ((), woken (ChBuf i) (ide_finish i (?s1\<lparr>ide_queue := []\<rparr>)))"
    using ideintr_eq[of ?s1 i "[]"] assms by (simp add: ide_next_def)
  have idle: "?s1\<lparr>ide_queue := []\<rparr> = ide_start i s"
    using assms(1) by (simp add: ide_start_def Let_def)
  have "\<not> in_sync (bufs s i)" using assms(2) by (simp add: request_ok_def)
  then show ?thesis
    by (simp add: iderw_def exec_simps submit intr idle ide_serve_def)
       (simp add: bufs_ide_finish Let_def)
qed

lemma runs_iderw [wp]:
  assumes "ide_queue s = []" "request_ok s i" "\<not> hw_fail s"
  shows "runs (iderw i) s Q = Q () (woken (ChBuf i) (ide_serve i s))"
  by (simp add: runs_def iderw_eq assms)

lemma bufs_ide_serve:
  "bufs (ide_serve i s) = (bufs s)(i := (let b = bufs s i in
     if is_dirty b then b\<lparr>b_flags := synced (b_flags b)\<rparr>
     else b\<lparr>b_data := hw_disk s (drive_of (b_dev b)) (b_blockno b), b_flags := synced (b_flags b)\<rparr>))"
  by (simp add: ide_serve_def bufs_ide_finish ide_start_def Let_def)

lemma hw_disk_ide_serve:
  "hw_disk (ide_serve i s) = (let b = bufs s i; d = drive_of (b_dev b) in
     if is_dirty b then (hw_disk s)(d := (hw_disk s d)(b_blockno b := b_data b)) else hw_disk s)"
  by (simp add: ide_serve_def ide_start_def Let_def)

lemma hw_writes_ide_serve:
  "hw_writes (ide_serve i s) = (let b = bufs s i in
     if is_dirty b then hw_writes s @ [(drive_of (b_dev b), b_blockno b, b_data b)] else hw_writes s)"
  by (simp add: ide_serve_def ide_start_def Let_def)

lemma ide_serve_fields [simp]:
  "ide_queue (ide_serve i s) = ide_queue s" "have_disk1 (ide_serve i s) = have_disk1 s"
  "hw_fail (ide_serve i s) = hw_fail s" "myproc (ide_serve i s) = myproc s"
  "slp (ide_serve i s) = slp s" "ptable (ide_serve i s) = ptable s"
  "kbuf.more (ide_serve i s) = kbuf.more s"
  by (simp_all add: ide_serve_def)

section \<open>Properties\<close>

text \<open>
  the command block that \<open>idestart\<close> programs selects exactly the drive and the sector of the
  buffer: decoding the five registers the way a drive does gives back the low bit of the device
  number and, for every sector of the file system, the sector number.
\<close>

theorem idestart_command_block:
  "sector < FSSIZE \<Longrightarrow>
     hw_lba (idestart_regs dev sector) = sector \<and>
     hw_sel (idestart_regs dev sector) = drive_of dev"
  by (simp add: hw_lba_regs hw_sel_regs)

theorem idestart_command_block_witness:
  "hw_lba (idestart_regs 1 1999) = 1999 \<and> hw_sel (idestart_regs 1 1999) = 1"
  using idestart_command_block[of 1999 1] by (simp add: drive_of_def)

text \<open>
  C13: the disk queue is first-in first-out and loses nothing. When an idle driver receives the
  requests \<open>is\<close> and then one interrupt for each, all of them complete, the queue is empty again,
  and buffers, sectors and the order of sector writes are what serving the requests one by one in
  the order of submission gives.
\<close>

theorem ide_queue_fifo:
  assumes "ide_queue s = []" "\<not> hw_fail s" "distinct is" "list_all (request_ok s) is"
  shows "\<exists>s1 s2. for_each iderw_submit is s = Inr ((), s1)
    \<and> for_each (\<lambda>_. ideintr) is s1 = Inr ((), s2)
    \<and> ide_queue s2 = []
    \<and> bufs s2 = bufs (fold ide_serve is s)
    \<and> hw_disk s2 = hw_disk (fold ide_serve is s)
    \<and> hw_writes s2 = hw_writes (fold ide_serve is s)"
proof -
  have ok: "\<forall>i \<in> set is. request_ok s i" using assms(4) by (simp add: list_all_iff)
  have "ide_sim s [] s" using assms by (simp add: ide_sim_def ide_next_def)
  then obtain s1 where s1: "for_each iderw_submit is s = Inr ((), s1)" "ide_sim s is s1"
    using submit_all_sim[of s "[]" s "is"] ok assms(3) by auto
  with ok intr_all_sim[OF s1(2)] obtain s2 where
    "for_each (\<lambda>_. ideintr) is s1 = Inr ((), s2)" "ide_sim (fold ide_serve is s) [] s2"
    by (auto simp: request_ok_def)
  with s1 show ?thesis by (auto simp: ide_sim_def ide_next_def)
qed

definition ide_demo :: kbuf where
  "ide_demo = (kbuf_zero (\<lambda>_. replicate BSIZE 0) ())\<lparr>bufs := (\<lambda>i.
     buf_zero\<lparr>b_dev := 1, b_blockno := 5, b_flags := (if i = 0 then B_DIRTY else 0),
       b_data := replicate BSIZE (if i = 0 then 7 else 0)\<rparr>)\<rparr>"

theorem ide_queue_fifo_witness:
  "\<exists>s1 s2. for_each iderw_submit [0, 1] ide_demo = Inr ((), s1)
    \<and> for_each (\<lambda>_. ideintr) [0, 1] s1 = Inr ((), s2)
    \<and> b_data (bufs s2 1) = replicate BSIZE 7"
proof -
  have "ide_queue ide_demo = []" "\<not> hw_fail ide_demo"
    by (simp_all add: ide_demo_def kbuf_zero_def kern_zero_def kbuf.defs)
  moreover have "list_all (request_ok ide_demo) [0, 1]"
    by (simp add: ide_demo_def request_ok_def in_sync_iff is_valid_bit is_dirty_bit bit_flags
        buf_zero_def kbuf_zero_def kern_zero_def kbuf.defs)
  moreover have "b_data (bufs (fold ide_serve [0, 1] ide_demo) 1) = replicate BSIZE 7"
    by (simp add: bufs_ide_serve hw_disk_ide_serve Let_def ide_demo_def is_dirty_bit bit_flags
        buf_zero_def)
  ultimately show ?thesis
    using ide_queue_fifo[of ide_demo "[0, 1]"] by force
qed

end
