(* ===== verification/Xv6_Bio.thy ===== *)
theory Xv6_Bio
  imports Xv6_Ide
begin

unbundle bit_operations_syntax

text \<open>
  The buffer cache (\<^verbatim>\<open>crates/fs/src/bio.rs\<close>).

  \<open>Bcache.buf\<close> is the store \<open>bufs\<close> at the numbers below \<open>NBUF\<close>; the list head \<open>Bcache.head\<close> is the
  number \<open>NBUF\<close>. The loops of \<open>get\<close> follow the links with \<open>NBUF + 1\<close> steps of fuel: a walk that
  has not met the head by then would not end, and is a fault of the model. The invariant shows
  that this never happens.

  The second half gives the contract of the cache (locale \<open>block_cache\<close>): reading, changing and
  releasing blocks in terms of the logical contents \<open>view\<close>, the contents of the disk \<open>media\<close>, the
  blocks held and the blocks dirty. The log and the file system are verified against it.
\<close>

section \<open>Operations\<close>

definition NBUF :: nat where "NBUF = 30"
abbreviation HEAD :: nat where "HEAD \<equiv> NBUF"
definition ROOTDEV :: u32 where "ROOTDEV = 1"

definition set_next :: "nat \<Rightarrow> nat \<Rightarrow> 'z kbuf_scheme \<Rightarrow> 'z kbuf_scheme" where
  "set_next i j = upd_buf i (b_next_update (\<lambda>_. j))"

definition set_prev :: "nat \<Rightarrow> nat \<Rightarrow> 'z kbuf_scheme \<Rightarrow> 'z kbuf_scheme" where
  "set_prev i j = upd_buf i (b_prev_update (\<lambda>_. j))"

definition binit :: "('z kbuf_scheme, unit) kop" where
  "binit = bnd (initlock LkBcache ''bcache'') (\<lambda>_.
     bnd (modify (set_prev HEAD HEAD)) (\<lambda>_.
     bnd (modify (set_next HEAD HEAD)) (\<lambda>_.
     for_each (\<lambda>i.
       bnd (modify (\<lambda>s. set_next i (b_next (bufs s HEAD)) s)) (\<lambda>_.
       bnd (modify (set_prev i HEAD)) (\<lambda>_.
       bnd (initsleeplock (SlBuf i) ''buffer'') (\<lambda>_.
       bnd (modify (\<lambda>s. set_prev (b_next (bufs s HEAD)) i s)) (\<lambda>_.
       modify (set_next HEAD i)))))) [0..<NBUF])))"

fun get_cached :: "nat \<Rightarrow> u32 \<Rightarrow> u32 \<Rightarrow> nat \<Rightarrow> ('z kbuf_scheme, nat option) kop" where
  "get_cached 0 dev blockno b = stopk (Fault ''bget: endless list'')"
| "get_cached (Suc n) dev blockno b =
     (if b = HEAD then ret None
      else bnd (gets (\<lambda>s. bufs s b)) (\<lambda>x.
        if b_dev x = dev \<and> b_blockno x = blockno then ret (Some b)
        else get_cached n dev blockno (b_next x)))"

fun get_unused :: "nat \<Rightarrow> nat \<Rightarrow> ('z kbuf_scheme, nat option) kop" where
  "get_unused 0 b = stopk (Fault ''bget: endless list'')"
| "get_unused (Suc n) b =
     (if b = HEAD then ret None
      else bnd (gets (\<lambda>s. bufs s b)) (\<lambda>x.
        if b_refcnt x = 0 \<and> b_flags x AND B_DIRTY = 0 then ret (Some b)
        else get_unused n (b_prev x)))"

definition walk_fuel :: nat where "walk_fuel = NBUF + 1"

definition bget :: "u32 \<Rightarrow> u32 \<Rightarrow> ('z kbuf_scheme, nat) kop" where
  "bget dev blockno = bnd (acquire LkBcache) (\<lambda>_.
     bnd (gets (\<lambda>s. b_next (bufs s HEAD))) (\<lambda>first.
     bnd (get_cached walk_fuel dev blockno first) (\<lambda>hit.
     case hit of
       Some b \<Rightarrow>
         bnd (gets (\<lambda>s. b_refcnt (bufs s b))) (\<lambda>r.
         bnd (u32_add r 1) (\<lambda>r'.
         bnd (modify (upd_buf b (b_refcnt_update (\<lambda>_. r')))) (\<lambda>_.
         bnd (release LkBcache) (\<lambda>_.
         bnd (acquiresleep (SlBuf b)) (\<lambda>_.
         ret b)))))
     | None \<Rightarrow>
         bnd (gets (\<lambda>s. b_prev (bufs s HEAD))) (\<lambda>lst.
         bnd (get_unused walk_fuel lst) (\<lambda>victim.
         case victim of
           Some b \<Rightarrow>
             bnd (modify (upd_buf b (\<lambda>x. x\<lparr>b_dev := dev, b_blockno := blockno, b_flags := 0,
                                             b_refcnt := 1\<rparr>))) (\<lambda>_.
             bnd (release LkBcache) (\<lambda>_.
             bnd (acquiresleep (SlBuf b)) (\<lambda>_.
             ret b)))
         | None \<Rightarrow> panic ''bget: no buffers'')))))"

definition bread :: "u32 \<Rightarrow> u32 \<Rightarrow> ('z kbuf_scheme, nat) kop" where
  "bread dev blockno = bnd (bget dev blockno) (\<lambda>b.
     bnd (gets (\<lambda>s. bufs s b)) (\<lambda>x.
     bnd (whenk (\<not> is_valid x) (iderw b)) (\<lambda>_.
     ret b)))"

definition bwrite :: "nat \<Rightarrow> ('z kbuf_scheme, unit) kop" where
  "bwrite b = bnd (holdingsleep (SlBuf b)) (\<lambda>h.
     bnd (guardk h (Panic ''bwrite'')) (\<lambda>_.
     bnd (modify (upd_buf b mark_dirty)) (\<lambda>_.
     iderw b)))"

text \<open>The six assignments that move a buffer to the front of the list.\<close>

definition move_to_front :: "nat \<Rightarrow> ('z kbuf_scheme, unit) kop" where
  "move_to_front b =
     bnd (modify (\<lambda>s. set_prev (b_next (bufs s b)) (b_prev (bufs s b)) s)) (\<lambda>_.
     bnd (modify (\<lambda>s. set_next (b_prev (bufs s b)) (b_next (bufs s b)) s)) (\<lambda>_.
     bnd (modify (\<lambda>s. set_next b (b_next (bufs s HEAD)) s)) (\<lambda>_.
     bnd (modify (set_prev b HEAD)) (\<lambda>_.
     bnd (modify (\<lambda>s. set_prev (b_next (bufs s HEAD)) b s)) (\<lambda>_.
     modify (set_next HEAD b))))))"

definition brelse :: "nat \<Rightarrow> ('z kbuf_scheme, unit) kop" where
  "brelse b = bnd (holdingsleep (SlBuf b)) (\<lambda>h.
     bnd (guardk h (Panic ''brelse'')) (\<lambda>_.
     bnd (releasesleep (SlBuf b)) (\<lambda>_.
     bnd (acquire LkBcache) (\<lambda>_.
     bnd (gets (\<lambda>s. b_refcnt (bufs s b))) (\<lambda>r.
     bnd (u32_sub r 1) (\<lambda>r'.
     bnd (modify (upd_buf b (b_refcnt_update (\<lambda>_. r')))) (\<lambda>_.
     bnd (whenk (r' = 0) (move_to_front b)) (\<lambda>_.
     release LkBcache))))))))"

section \<open>Circular doubly linked lists\<close>

text \<open>\<open>nchain f a xs b\<close>: following \<open>f\<close> from \<open>a\<close> visits \<open>xs\<close> and arrives at \<open>b\<close>.\<close>

fun nchain :: "(nat \<Rightarrow> nat) \<Rightarrow> nat \<Rightarrow> nat list \<Rightarrow> nat \<Rightarrow> bool" where
  "nchain f a [] b \<longleftrightarrow> f a = b"
| "nchain f a (x # xs) b \<longleftrightarrow> f a = x \<and> nchain f x xs b"

lemma nchain_append:
  "nchain f a (xs @ y # ys) b \<longleftrightarrow> nchain f a xs y \<and> nchain f y ys b"
  by (induction xs arbitrary: a) auto

lemma nchain_upd_other [simp]:
  "u \<noteq> a \<Longrightarrow> u \<notin> set xs \<Longrightarrow> nchain (f(u := v)) a xs b = nchain f a xs b"
  by (induction xs arbitrary: a) auto

lemma nchain_last: "nchain f a xs b \<Longrightarrow> f (last (a # xs)) = b"
  by (induction xs arbitrary: a) auto

lemma nchain_redirect:
  "distinct (a # xs) \<Longrightarrow> nchain f a xs b \<Longrightarrow> nchain (f(last (a # xs) := c)) a xs c"
proof (induction xs arbitrary: a)
  case (Cons x xs)
  have "xs \<noteq> [] \<Longrightarrow> last xs \<in> set xs" by simp
  with Cons show ?case by (cases "xs = []") auto
qed simp

lemma nchain_start: "nchain f a xs c \<Longrightarrow> f b = f a \<Longrightarrow> nchain f b xs c"
  by (cases xs) auto

lemma nchain_first: "nchain f a xs c \<Longrightarrow> f a = hd (xs @ [c])"
  by (cases xs) auto

lemma nchain_unlink:
  assumes d: "distinct (h # ys @ b # zs)" and c: "nchain f h (ys @ b # zs) h"
  shows "nchain (f(last (h # ys) := f b)) h (ys @ zs) h"
proof -
  let ?l = "last (h # ys)"
  have l: "?l \<in> set (h # ys)" by (rule last_in_set) simp
  have 1: "nchain f h ys b" and 2: "nchain f b zs h" using c by (simp_all add: nchain_append)
  have 3: "nchain (f(?l := f b)) h ys (f b)" by (rule nchain_redirect[OF _ 1]) (use d in auto)
  show ?thesis
  proof (cases zs)
    case Nil
    then show ?thesis using 2 3 by simp
  next
    case (Cons z zs')
    have "?l \<noteq> z" "?l \<notin> set zs'" using l d Cons by auto
    then show ?thesis using 2 3 Cons by (simp add: nchain_append)
  qed
qed

lemma last_rev_hd: "last (h # rev xs) = hd (xs @ [h])"
  by (cases xs) simp_all

definition dll :: "(nat \<Rightarrow> nat) \<Rightarrow> (nat \<Rightarrow> nat) \<Rightarrow> nat list \<Rightarrow> bool" where
  "dll nx pv xs \<longleftrightarrow> nchain nx HEAD xs HEAD \<and> nchain pv HEAD (rev xs) HEAD \<and>
     distinct xs \<and> HEAD \<notin> set xs"

lemma dll_unlink:
  assumes "dll nx pv (ys @ b # zs)"
  shows "dll (nx(pv b := nx b)) (pv(nx b := pv b)) (ys @ zs)"
proof -
  have d: "distinct (HEAD # ys @ b # zs)" and n: "nchain nx HEAD (ys @ b # zs) HEAD"
    and p: "nchain pv HEAD (rev zs @ b # rev ys) HEAD"
    using assms by (auto simp: dll_def)
  have d': "distinct (HEAD # rev zs @ b # rev ys)" using d by auto
  have "nx b = last (HEAD # rev zs)"
    using n nchain_first[of nx b zs HEAD] by (simp add: nchain_append last_rev)
  moreover have "pv b = last (HEAD # ys)"
    using p nchain_first[of pv b "rev ys" HEAD] last_rev_hd[of HEAD "rev ys"]
    by (simp add: nchain_append)
  ultimately show ?thesis
    using nchain_unlink[OF d n] nchain_unlink[OF d' p] d by (auto simp: dll_def)
qed

lemma dll_push:
  assumes "dll nx pv xs" and b: "b \<notin> set xs" "b \<noteq> HEAD"
  shows "dll (nx(b := nx HEAD, HEAD := b)) (pv(b := HEAD, nx HEAD := b)) (b # xs)"
proof -
  let ?nx = "nx(b := nx HEAD, HEAD := b)" and ?pv = "pv(b := HEAD)"
  have n: "nchain nx HEAD xs HEAD" and p: "nchain pv HEAD (rev xs) HEAD"
    and d: "distinct xs" "HEAD \<notin> set xs"
    using assms by (auto simp: dll_def)
  have "nchain (nx(b := nx HEAD)) HEAD xs HEAD" using n b by simp
  then have "nchain (nx(b := nx HEAD)) b xs HEAD" by (rule nchain_start) (use b in simp)
  then have N: "nchain ?nx HEAD (b # xs) HEAD" using b d by simp
  have "nx HEAD = last (HEAD # rev xs)" using nchain_first[OF n] by (simp add: last_rev)
  moreover have "nchain ?pv HEAD (rev xs) HEAD" using p b by simp
  ultimately have "nchain (?pv(nx HEAD := b)) HEAD (rev xs) b"
    using nchain_redirect[of HEAD "rev xs" ?pv HEAD b] d by simp
  moreover have "nx HEAD \<noteq> b"
    using nchain_first[OF n] b by (cases xs) auto
  ultimately have "nchain (?pv(nx HEAD := b)) HEAD (rev (b # xs)) HEAD"
    using b by (simp add: nchain_append)
  with N show ?thesis using b d by (auto simp: dll_def)
qed

abbreviation nx :: "'z kbuf_scheme \<Rightarrow> nat \<Rightarrow> nat" where "nx s \<equiv> (\<lambda>i. b_next (bufs s i))"
abbreviation pv :: "'z kbuf_scheme \<Rightarrow> nat \<Rightarrow> nat" where "pv s \<equiv> (\<lambda>i. b_prev (bufs s i))"

lemma links_set [simp]:
  "b_next (bufs (set_next i j s) k) = (if k = i then j else b_next (bufs s k))"
  "b_prev (bufs (set_next i j s) k) = b_prev (bufs s k)"
  "b_prev (bufs (set_prev i j s) k) = (if k = i then j else b_prev (bufs s k))"
  "b_next (bufs (set_prev i j s) k) = b_next (bufs s k)"
  by (auto simp: set_next_def set_prev_def)

text \<open>The list the links of a state spell out.\<close>

definition lru :: "'z kbuf_scheme \<Rightarrow> nat list \<Rightarrow> bool" where
  "lru s xs \<longleftrightarrow> dll (nx s) (pv s) xs \<and> set xs = {..<NBUF}"

lemma lru_cong:
  "nx s' = nx s \<Longrightarrow> pv s' = pv s \<Longrightarrow> lru s' xs = lru s xs"
  by (simp add: lru_def)

text \<open>Moving a buffer to the front, as a function on states and on the list.\<close>

definition mtf :: "nat \<Rightarrow> 'z kbuf_scheme \<Rightarrow> 'z kbuf_scheme" where
  "mtf b s = (let s1 = set_prev (nx s b) (pv s b) s;
                  s2 = set_next (pv s1 b) (nx s1 b) s1;
                  s3 = set_prev b HEAD (set_next b (nx s2 HEAD) s2);
                  s4 = set_prev (nx s3 HEAD) b s3
              in set_next HEAD b s4)"

lemma move_to_front_eq: "move_to_front b s = Inr ((), mtf b s)"
  by (simp add: move_to_front_def mtf_def exec_simps Let_def)

lemma runs_move_to_front [wp, simp]: "runs (move_to_front b) s Q = Q () (mtf b s)"
  by (simp add: runs_def move_to_front_eq)

lemma set_link_fields [simp]:
  "ide_queue (set_next i j s) = ide_queue s" "have_disk1 (set_next i j s) = have_disk1 s"
  "hw_disk (set_next i j s) = hw_disk s" "hw_fail (set_next i j s) = hw_fail s"
  "slp (set_next i j s) = slp s" "myproc (set_next i j s) = myproc s"
  "kbuf.more (set_next i j s) = kbuf.more s" "kbuf.more (set_prev i j s) = kbuf.more s"
  "ide_queue (set_prev i j s) = ide_queue s" "have_disk1 (set_prev i j s) = have_disk1 s"
  "hw_disk (set_prev i j s) = hw_disk s" "hw_fail (set_prev i j s) = hw_fail s"
  "slp (set_prev i j s) = slp s" "myproc (set_prev i j s) = myproc s"
  by (simp_all add: set_next_def set_prev_def)

lemma upd_buf_kern [simp]:
  "cli_depth (upd_buf i f s) = cli_depth s" "int_enabled (upd_buf i f s) = int_enabled s"
  "eflags_if (upd_buf i f s) = eflags_if s" "cpu_ncli (upd_buf i f s) = cpu_ncli s"
  "spin (upd_buf i f s) = spin s"
  by (simp_all add: upd_buf_def)

lemma mtf_fields [simp]:
  "ide_queue (mtf b s) = ide_queue s" "have_disk1 (mtf b s) = have_disk1 s"
  "hw_disk (mtf b s) = hw_disk s" "hw_fail (mtf b s) = hw_fail s"
  "hw_writes (mtf b s) = hw_writes s" "slp (mtf b s) = slp s" "myproc (mtf b s) = myproc s"
  "ptable (mtf b s) = ptable s" "kbuf.more (mtf b s) = kbuf.more s"
  by (simp_all add: mtf_def set_next_def set_prev_def Let_def)

lemma set_link_bufs [simp]:
  "b_flags (bufs (set_next i j s) k) = b_flags (bufs s k)"
  "b_dev (bufs (set_next i j s) k) = b_dev (bufs s k)"
  "b_blockno (bufs (set_next i j s) k) = b_blockno (bufs s k)"
  "b_refcnt (bufs (set_next i j s) k) = b_refcnt (bufs s k)"
  "b_data (bufs (set_next i j s) k) = b_data (bufs s k)"
  "b_flags (bufs (set_prev i j s) k) = b_flags (bufs s k)"
  "b_dev (bufs (set_prev i j s) k) = b_dev (bufs s k)"
  "b_blockno (bufs (set_prev i j s) k) = b_blockno (bufs s k)"
  "b_refcnt (bufs (set_prev i j s) k) = b_refcnt (bufs s k)"
  "b_data (bufs (set_prev i j s) k) = b_data (bufs s k)"
  by (auto simp: set_next_def set_prev_def)

lemma mtf_bufs [simp]:
  "b_flags (bufs (mtf b s) i) = b_flags (bufs s i)" "b_dev (bufs (mtf b s) i) = b_dev (bufs s i)"
  "b_blockno (bufs (mtf b s) i) = b_blockno (bufs s i)"
  "b_refcnt (bufs (mtf b s) i) = b_refcnt (bufs s i)" "b_data (bufs (mtf b s) i) = b_data (bufs s i)"
  by (simp_all add: mtf_def Let_def)

lemma links_mtf:
  assumes "nx s b \<noteq> b"
  shows "nx (mtf b s) = ((nx s)(pv s b := nx s b))
           (b := ((nx s)(pv s b := nx s b)) HEAD, HEAD := b)"
    and "b \<noteq> HEAD \<Longrightarrow> pv (mtf b s) = ((pv s)(nx s b := pv s b))
           (b := HEAD, ((nx s)(pv s b := nx s b)) HEAD := b)"
  using assms by (auto simp: mtf_def Let_def fun_eq_iff)

lemma lru_mtf:
  assumes "lru s (ys @ b # zs)"
  shows "lru (mtf b s) (b # ys @ zs)"
proof -
  have d: "dll (nx s) (pv s) (ys @ b # zs)" and set: "set (ys @ b # zs) = {..<NBUF}"
    using assms by (auto simp: lru_def)
  have ne: "b \<noteq> HEAD" "b \<notin> set (ys @ zs)" using d by (auto simp: dll_def)
  have "nx s b = hd (zs @ [HEAD])"
    using d nchain_first[of "nx s" b zs HEAD] by (simp add: dll_def nchain_append)
  then have "nx s b \<noteq> b" using ne by (cases zs) auto
  from links_mtf[OF this] ne(1) dll_push[OF dll_unlink[OF d] ne(2,1)]
  have "dll (nx (mtf b s)) (pv (mtf b s)) (b # ys @ zs)" by simp
  then show ?thesis using set by (auto simp: lru_def)
qed

section \<open>The list walks\<close>

lemma get_cached_eq:
  "nchain (nx s) p xs HEAD \<Longrightarrow> HEAD \<notin> set xs \<Longrightarrow> length xs < n \<Longrightarrow>
   get_cached n dev bn (nx s p) s
     = Inr (find (\<lambda>b. b_dev (bufs s b) = dev \<and> b_blockno (bufs s b) = bn) xs, s)"
proof (induction xs arbitrary: p n)
  case Nil
  then show ?case by (cases n) (simp_all add: exec_simps)
next
  case (Cons x xs)
  then obtain m where "n = Suc m" by (cases n) auto
  with Cons show ?case by (auto simp: exec_simps)
qed

lemma get_unused_eq:
  "nchain (pv s) p xs HEAD \<Longrightarrow> HEAD \<notin> set xs \<Longrightarrow> length xs < n \<Longrightarrow>
   get_unused n (pv s p) s = Inr (find (\<lambda>b. b_refcnt (bufs s b) = 0 \<and> \<not> is_dirty (bufs s b)) xs, s)"
proof (induction xs arbitrary: p n)
  case Nil
  then show ?case by (cases n) (simp_all add: exec_simps)
next
  case (Cons x xs)
  then obtain m where "n = Suc m" by (cases n) auto
  with Cons show ?case by (auto simp: exec_simps is_dirty_def)
qed

lemma lru_length: "lru s xs \<Longrightarrow> length xs = NBUF"
  by (metis card_lessThan distinct_card dll_def lru_def)

section \<open>The contract\<close>

text \<open>
  What clients of the cache see: the logical contents of every block, what is on the disk, which
  buffer holds which block locked, which blocks are pinned dirty, and the history of disk writes.
\<close>

record cstate =
  cs_view :: "u32 \<Rightarrow> u8 list"
  cs_media :: "u32 \<Rightarrow> u8 list"
  cs_held :: "u32 \<rightharpoonup> nat"
  cs_dirty :: "u32 set"
  cs_hist :: "(u32 \<times> u8 list) list"

text \<open>One disk write of a block, and a sequence of them, as seen by the clients.\<close>

definition cs_put :: "u32 \<Rightarrow> u8 list \<Rightarrow> cstate \<Rightarrow> cstate" where
  "cs_put bn d a = a\<lparr>cs_view := (cs_view a)(bn := d), cs_media := (cs_media a)(bn := d),
     cs_dirty := cs_dirty a - {bn}, cs_hist := cs_hist a @ [(bn, d)]\<rparr>"

lemma cs_put_fields [simp]:
  "cs_view (cs_put bn d a) = (cs_view a)(bn := d)" "cs_media (cs_put bn d a) = (cs_media a)(bn := d)"
  "cs_held (cs_put bn d a) = cs_held a" "cs_dirty (cs_put bn d a) = cs_dirty a - {bn}"
  "cs_hist (cs_put bn d a) = cs_hist a @ [(bn, d)]"
  by (simp_all add: cs_put_def)

definition cs_writes :: "(u32 \<times> u8 list) list \<Rightarrow> cstate \<Rightarrow> cstate" where
  "cs_writes ws a = fold (\<lambda>(bn, d). cs_put bn d) ws a"

definition apply_writes :: "(u32 \<times> u8 list) list \<Rightarrow> (u32 \<Rightarrow> u8 list) \<Rightarrow> u32 \<Rightarrow> u8 list" where
  "apply_writes ws d = fold (\<lambda>(bn, x) d. d(bn := x)) ws d"

lemma apply_writes_simps [simp]:
  "apply_writes [] d = d" "apply_writes (w # ws) d = apply_writes ws (d(fst w := snd w))"
  "apply_writes (ws @ ws') d = apply_writes ws' (apply_writes ws d)"
  by (simp_all add: apply_writes_def split_beta)

lemma cs_writes_simps [simp]:
  "cs_writes [] a = a" "cs_writes (w # ws) a = cs_writes ws (cs_put (fst w) (snd w) a)"
  "cs_writes (ws @ ws') a = cs_writes ws' (cs_writes ws a)"
  by (simp_all add: cs_writes_def split_beta)

lemma cs_writes_fields [simp]:
  "cs_view (cs_writes ws a) = apply_writes ws (cs_view a)"
  "cs_media (cs_writes ws a) = apply_writes ws (cs_media a)"
  "cs_held (cs_writes ws a) = cs_held a"
  "cs_dirty (cs_writes ws a) = cs_dirty a - fst ` set ws"
  "cs_hist (cs_writes ws a) = cs_hist a @ ws"
  by (induction ws arbitrary: a) (auto simp: cs_put_def)

lemma apply_writes_other: "bn \<notin> fst ` set ws \<Longrightarrow> apply_writes ws d bn = d bn"
  by (induction ws arbitrary: d) auto

locale block_cache =
  fixes inv :: "'s \<Rightarrow> bool"
    and abs :: "'s \<Rightarrow> cstate"
    and ext :: "'s \<Rightarrow> 'x"
    and cap :: nat
    and rd :: "u32 \<Rightarrow> ('s, nat) kop"
    and dat :: "'s \<Rightarrow> nat \<Rightarrow> u8 list"
    and put :: "nat \<Rightarrow> u8 list \<Rightarrow> 's \<Rightarrow> 's"
    and mark :: "nat \<Rightarrow> 's \<Rightarrow> 's"
    and wr :: "nat \<Rightarrow> ('s, unit) kop"
    and rel :: "nat \<Rightarrow> ('s, unit) kop"
  assumes rd: "inv s \<Longrightarrow> bn < FSSIZE \<Longrightarrow> cs_held (abs s) bn = None \<Longrightarrow>
      card (insert bn (dom (cs_held (abs s)) \<union> cs_dirty (abs s))) \<le> cap \<Longrightarrow>
      runs (rd bn) s (\<lambda>b s'. inv s' \<and> ext s' = ext s \<and>
        abs s' = (abs s)\<lparr>cs_held := (cs_held (abs s))(bn \<mapsto> b)\<rparr>)"
    and clean: "inv s \<Longrightarrow> cs_held (abs s) bn = None \<Longrightarrow> bn \<notin> cs_dirty (abs s) \<Longrightarrow>
      cs_view (abs s) bn = cs_media (abs s) bn"
    and view_length: "inv s \<Longrightarrow> length (cs_view (abs s) bn) = BSIZE"
    and busy_finite: "finite (dom (cs_held (abs s)) \<union> cs_dirty (abs s))"
    and dat: "inv s \<Longrightarrow> cs_held (abs s) bn = Some b \<Longrightarrow>
      dat s b = cs_view (abs s) bn \<and> length (dat s b) = BSIZE \<and> bn < FSSIZE"
    and put: "inv s \<Longrightarrow> cs_held (abs s) bn = Some b \<Longrightarrow> length d = BSIZE \<Longrightarrow>
      inv (put b d s) \<and> ext (put b d s) = ext s \<and>
      abs (put b d s) = (abs s)\<lparr>cs_view := (cs_view (abs s))(bn := d)\<rparr>"
    and mark: "inv s \<Longrightarrow> cs_held (abs s) bn = Some b \<Longrightarrow>
      inv (mark b s) \<and> ext (mark b s) = ext s \<and>
      abs (mark b s) = (abs s)\<lparr>cs_dirty := insert bn (cs_dirty (abs s))\<rparr>"
    and wr: "inv s \<Longrightarrow> cs_held (abs s) bn = Some b \<Longrightarrow>
      runs (wr b) s (\<lambda>_ s'. inv s' \<and> ext s' = ext s \<and>
        abs s' = (abs s)\<lparr>cs_media := (cs_media (abs s))(bn := cs_view (abs s) bn),
          cs_dirty := cs_dirty (abs s) - {bn},
          cs_hist := cs_hist (abs s) @ [(bn, cs_view (abs s) bn)]\<rparr>)"
    and rel: "inv s \<Longrightarrow> cs_held (abs s) bn = Some b \<Longrightarrow>
      bn \<in> cs_dirty (abs s) \<or> cs_view (abs s) bn = cs_media (abs s) bn \<Longrightarrow>
      runs (rel b) s (\<lambda>_ s'. inv s' \<and> ext s' = ext s \<and>
        abs s' = (abs s)\<lparr>cs_held := (cs_held (abs s))(bn := None)\<rparr>)"
begin

text \<open>Read a block and release it: the caller gets the logical contents, nothing changes.\<close>

lemma unheld [simp]: "cs_held a bn = None \<Longrightarrow> (cs_held a)(bn := None) = cs_held a"
  by (auto simp: fun_eq_iff)

lemma rel_unchanged:
  assumes "inv s" "cs_held (abs s) bn = None" and s1: "inv s1" "ext s1 = ext s"
    "abs s1 = (abs s)\<lparr>cs_held := (cs_held (abs s))(bn \<mapsto> b)\<rparr>"
  shows "runs (rel b) s1 (\<lambda>_ s2. inv s2 \<and> ext s2 = ext s \<and> abs s2 = abs s)"
proof -
  have "bn \<in> cs_dirty (abs s) \<or> cs_view (abs s) bn = cs_media (abs s) bn"
    using clean[OF assms(1,2)] by blast
  then show ?thesis
    using rel[OF s1(1), of bn b] s1 assms(2) by (auto elim!: runs_mono)
qed

lemma peek:
  assumes "inv s" "bn < FSSIZE" "cs_held (abs s) bn = None"
    and "card (insert bn (dom (cs_held (abs s)) \<union> cs_dirty (abs s))) \<le> cap"
    and Q: "\<And>s'. inv s' \<Longrightarrow> abs s' = abs s \<Longrightarrow> ext s' = ext s \<Longrightarrow> Q (f (cs_view (abs s) bn)) s'"
  shows "runs (bnd (rd bn) (\<lambda>b. bnd (gets (\<lambda>s. f (dat s b))) (\<lambda>x. bnd (rel b) (\<lambda>_. ret x)))) s Q"
proof -
  have "runs (rel b) s1 (\<lambda>_ s2. Q (f (dat s1 b)) s2)"
    if s1: "inv s1" "ext s1 = ext s" "abs s1 = (abs s)\<lparr>cs_held := (cs_held (abs s))(bn \<mapsto> b)\<rparr>"
    for b s1
    using rel_unchanged[OF assms(1,3) s1] dat[OF s1(1), of bn b] s1
    by (auto elim!: runs_mono intro!: Q)
  then show ?thesis
    using rd[OF assms(1-4)] by (auto elim!: runs_mono)
qed

text \<open>
  Read, fill in the contents \<open>d\<close> by the program \<open>M\<close>, write through and release: the disk and the
  view change at that block.
\<close>

lemma overwrite:
  assumes "inv s" "bn < FSSIZE" "cs_held (abs s) bn = None"
    and "card (insert bn (dom (cs_held (abs s)) \<union> cs_dirty (abs s))) \<le> cap"
    and M: "\<And>b s1 P. inv s1 \<Longrightarrow> ext s1 = ext s \<Longrightarrow>
      abs s1 = (abs s)\<lparr>cs_held := (cs_held (abs s))(bn \<mapsto> b)\<rparr> \<Longrightarrow> P () (put b d s1) \<Longrightarrow>
      runs (M b) s1 P"
    and len: "length d = BSIZE"
    and Q: "\<And>s'. inv s' \<Longrightarrow> ext s' = ext s \<Longrightarrow>
      abs s' = (abs s)\<lparr>cs_view := (cs_view (abs s))(bn := d),
        cs_media := (cs_media (abs s))(bn := d), cs_dirty := cs_dirty (abs s) - {bn},
        cs_hist := cs_hist (abs s) @ [(bn, d)]\<rparr> \<Longrightarrow> Q () s'"
  shows "runs (bnd (rd bn) (\<lambda>b. bnd (M b) (\<lambda>_.
           bnd (wr b) (\<lambda>_. rel b)))) s Q"
proof -
  have "runs (bnd (wr b) (\<lambda>_. rel b)) (put b d s1) Q"
    if s1: "inv s1" "ext s1 = ext s" "abs s1 = (abs s)\<lparr>cs_held := (cs_held (abs s))(bn \<mapsto> b)\<rparr>"
    for b s1
  proof -
    have own: "cs_held (abs s1) bn = Some b" using s1 by simp
    note p = put[OF s1(1) own len]
    then have own2: "cs_held (abs (put b d s1)) bn = Some b" "inv (put b d s1)" using own by simp_all
    have "runs (rel b) s3 Q"
      if s3: "inv s3 \<and> ext s3 = ext (put b d s1) \<and> abs s3 = (abs (put b d s1))\<lparr>
          cs_media := (cs_media (abs (put b d s1)))(bn := cs_view (abs (put b d s1)) bn),
          cs_dirty := cs_dirty (abs (put b d s1)) - {bn},
          cs_hist := cs_hist (abs (put b d s1)) @ [(bn, cs_view (abs (put b d s1)) bn)]\<rparr>" for s3
    proof (rule runs_mono)
      show "runs (rel b) s3 (\<lambda>_ s'. inv s' \<and> ext s' = ext s3 \<and>
          abs s' = (abs s3)\<lparr>cs_held := (cs_held (abs s3))(bn := None)\<rparr>)"
        by (rule rel[of s3 bn]) (use own2 s3 in simp_all)
    next
      fix u s' assume "inv s' \<and> ext s' = ext s3 \<and>
          abs s' = (abs s3)\<lparr>cs_held := (cs_held (abs s3))(bn := None)\<rparr>"
      then show "Q u s'" using s3 p s1 assms(3) by (auto intro!: Q)
    qed
    then show ?thesis using wr[OF own2(2,1)] by (auto elim!: runs_mono)
  qed
  then show ?thesis
    using rd[OF assms(1-4)] by (auto elim!: runs_mono intro!: M)
qed

text \<open>Read, change, pin dirty and release: the view changes, the disk does not.\<close>

lemma update_pinned:
  assumes "inv s" "bn < FSSIZE" "cs_held (abs s) bn = None"
    and "card (insert bn (dom (cs_held (abs s)) \<union> cs_dirty (abs s))) \<le> cap"
    and M: "\<And>b s1 P. inv s1 \<Longrightarrow> ext s1 = ext s \<Longrightarrow>
      abs s1 = (abs s)\<lparr>cs_held := (cs_held (abs s))(bn \<mapsto> b)\<rparr> \<Longrightarrow> P () (put b d s1) \<Longrightarrow>
      runs (M b) s1 P"
    and len: "length d = BSIZE"
    and Q: "\<And>s'. inv s' \<Longrightarrow> ext s' = ext s \<Longrightarrow>
      abs s' = (abs s)\<lparr>cs_view := (cs_view (abs s))(bn := d),
        cs_dirty := insert bn (cs_dirty (abs s))\<rparr> \<Longrightarrow> Q () s'"
  shows "runs (bnd (rd bn) (\<lambda>b. bnd (M b) (\<lambda>_.
           bnd (modify (mark b)) (\<lambda>_. rel b)))) s Q"
proof -
  have "runs (rel b) (mark b (put b d s1)) Q"
    if s1: "inv s1" "ext s1 = ext s" "abs s1 = (abs s)\<lparr>cs_held := (cs_held (abs s))(bn \<mapsto> b)\<rparr>"
    for b s1
  proof -
    have own: "cs_held (abs s1) bn = Some b" using s1 by simp
    note p = put[OF s1(1) own len]
    then have own2: "cs_held (abs (put b d s1)) bn = Some b" "inv (put b d s1)" using own by simp_all
    note k = mark[OF own2(2,1)]
    show ?thesis
      by (rule runs_mono[OF rel[of "mark b (put b d s1)" bn b]])
         (use k own2 p s1 assms(3) in \<open>auto intro!: Q\<close>)
  qed
  then show ?thesis
    using rd[OF assms(1-4)] by (auto elim!: runs_mono intro!: M)
qed

text \<open>
  Copy one block over another and write it, as the log does in both directions. The number of the
  second block is computed by \<open>K\<close> once the first is held.
\<close>

lemma copy_block:
  assumes i: "inv s" and src: "src < FSSIZE" "cs_held (abs s) src = None"
    and dst: "dst < FSSIZE" "cs_held (abs s) dst = None" "src \<noteq> dst"
    and room: "card (insert dst (insert src (dom (cs_held (abs s)) \<union> cs_dirty (abs s)))) \<le> cap"
    and K: "\<And>s1 P. inv s1 \<Longrightarrow> ext s1 = ext s \<Longrightarrow> P dst s1 \<Longrightarrow> runs K s1 P"
    and Q: "\<And>s'. inv s' \<Longrightarrow> ext s' = ext s \<Longrightarrow>
      abs s' = (abs s)\<lparr>cs_view := (cs_view (abs s))(dst := cs_view (abs s) src),
        cs_media := (cs_media (abs s))(dst := cs_view (abs s) src),
        cs_dirty := cs_dirty (abs s) - {dst},
        cs_hist := cs_hist (abs s) @ [(dst, cs_view (abs s) src)]\<rparr> \<Longrightarrow> Q () s'"
  shows "runs (bnd (rd src) (\<lambda>a. bnd K (\<lambda>dst. bnd (rd dst) (\<lambda>b.
           bnd (modify (\<lambda>s. put b (dat s a) s)) (\<lambda>_.
           bnd (wr b) (\<lambda>_. bnd (rel b) (\<lambda>_. rel a))))))) s Q"
proof -
  let ?B = "dom (cs_held (abs s)) \<union> cs_dirty (abs s)"
  have "card (insert src ?B) \<le> card (insert dst (insert src ?B))"
    using busy_finite by (intro card_mono) auto
  then have room1: "card (insert src ?B) \<le> cap" using room by simp
  have "runs (bnd (bnd (rd dst) (\<lambda>b. bnd (modify (\<lambda>s. put b (dat s a) s)) (\<lambda>_.
          bnd (wr b) (\<lambda>_. rel b)))) (\<lambda>_. rel a)) s1 Q"
    if s1: "inv s1" "ext s1 = ext s" "abs s1 = (abs s)\<lparr>cs_held := (cs_held (abs s))(src \<mapsto> a)\<rparr>"
    for a s1
    unfolding runs_bnd[of "bnd (rd dst) _"]
  proof (rule overwrite[OF s1(1) dst(1), where d = "cs_view (abs s) src"])
    show "cs_held (abs s1) dst = None" using s1 dst by simp
    show "card (insert dst (dom (cs_held (abs s1)) \<union> cs_dirty (abs s1))) \<le> cap"
      using s1 room by (simp add: insert_commute)
    show "runs (modify (\<lambda>s. put b (dat s a) s)) s2 P"
      if "inv s2" "abs s2 = (abs s1)\<lparr>cs_held := (cs_held (abs s1))(dst \<mapsto> b)\<rparr>"
        "P () (put b (cs_view (abs s) src) s2)" for b s2 P
      using dat[OF that(1), of src a] that(2,3) s1(3) dst(3) by simp
    show "length (cs_view (abs s) src) = BSIZE" by (rule view_length[OF i])
  next
    fix s3 assume s3: "inv s3" "ext s3 = ext s1" "abs s3 = (abs s1)\<lparr>
        cs_view := (cs_view (abs s1))(dst := cs_view (abs s) src),
        cs_media := (cs_media (abs s1))(dst := cs_view (abs s) src),
        cs_dirty := cs_dirty (abs s1) - {dst},
        cs_hist := cs_hist (abs s1) @ [(dst, cs_view (abs s) src)]\<rparr>"
    have "runs (rel a) s3 (\<lambda>_ s'. inv s' \<and> ext s' = ext s3 \<and>
        abs s' = (abs s3)\<lparr>cs_held := (cs_held (abs s3))(src := None)\<rparr>)"
      by (rule rel[OF s3(1)]) (use s3 s1 dst(3) clean[OF i src(2)] in auto)
    then show "runs (rel a) s3 Q" using s3 s1 src(2) by (auto elim!: runs_mono intro!: Q)
  qed
  then show ?thesis
    using rd[OF i src room1] by (auto simp: bnd_assoc elim!: runs_mono intro!: K)
qed

text \<open>A loop of such copies, none of which overwrites a source.\<close>

lemma copy_loop:
  assumes s: "inv s"
    and step: "\<And>i s' Q. i < n \<Longrightarrow> inv s' \<Longrightarrow> ext s' = ext s \<Longrightarrow> cs_held (abs s') = cs_held (abs s) \<Longrightarrow>
      cs_dirty (abs s') \<subseteq> cs_dirty (abs s) \<Longrightarrow>
      (\<And>s''. inv s'' \<Longrightarrow> ext s'' = ext s' \<Longrightarrow>
         abs s'' = cs_put (dst i) (cs_view (abs s') (src i)) (abs s') \<Longrightarrow> Q () s'') \<Longrightarrow>
      runs (step i) s' Q"
    and disj: "\<And>i j. i < n \<Longrightarrow> j < n \<Longrightarrow> src i \<noteq> dst j"
  shows "runs (for_each step [0..<n]) s (\<lambda>_ s'. inv s' \<and> ext s' = ext s \<and>
    abs s' = cs_writes (map (\<lambda>i. (dst i, cs_view (abs s) (src i))) [0..<n]) (abs s))"
proof -
  let ?ws = "\<lambda>k. map (\<lambda>i. (dst i, cs_view (abs s) (src i))) [0..<k]"
  let ?I = "\<lambda>is s'. inv s' \<and> ext s' = ext s \<and>
    (\<exists>k \<le> n. is = [k..<n] \<and> abs s' = cs_writes (?ws k) (abs s))"
  have "runs (for_each step [0..<n]) s (\<lambda>_ s'. ?I [] s')"
  proof (rule runs_for_each[of ?I])
    show "?I [0..<n] s" using s by auto
  next
    fix x xs s' assume I: "?I (x # xs) s'"
    then obtain k where k: "x = k" "k < n" "xs = [Suc k..<n]" "abs s' = cs_writes (?ws k) (abs s)"
      by (auto dest!: upt_eq_ConsD)
    have "src k \<notin> fst ` set (?ws k)" using disj k(2) by force
    then have "cs_view (abs s') (src k) = cs_view (abs s) (src k)"
      using k(4) by (simp add: apply_writes_other)
    then have "cs_put (dst k) (cs_view (abs s') (src k)) (abs s') = cs_writes (?ws (Suc k)) (abs s)"
      using k(4) by simp
    then have "?I xs s''" if "inv s''" "ext s'' = ext s'"
        "abs s'' = cs_put (dst k) (cs_view (abs s') (src k)) (abs s')" for s''
      using that I k by (auto intro!: exI[of _ "Suc k"])
    then show "runs (step x) s' (\<lambda>_ s'. ?I xs s')"
      unfolding k(1) using I k(4) by (intro step[OF k(2)]) auto
  qed
  then show ?thesis
    by (rule runs_mono) (auto dest!: upt_eq_NilD)
qed

end

section \<open>The cache keeps the contract\<close>

definition slot :: "(nat \<Rightarrow> buf) \<Rightarrow> u32 \<Rightarrow> nat option" where
  "slot B bn = find (\<lambda>i. b_dev (B i) = ROOTDEV \<and> b_blockno (B i) = bn) [0..<NBUF]"

definition abs_of :: "(nat \<Rightarrow> buf) \<Rightarrow> (nat \<Rightarrow> bool) \<Rightarrow> (u32 \<Rightarrow> u8 list)
    \<Rightarrow> (u8 \<times> u32 \<times> u8 list) list \<Rightarrow> cstate" where
  "abs_of B L D W = \<lparr>
     cs_view = (\<lambda>bn. case slot B bn of Some i \<Rightarrow> b_data (B i) | None \<Rightarrow> D bn),
     cs_media = D,
     cs_held = (\<lambda>bn. case slot B bn of Some i \<Rightarrow> (if L i then Some i else None) | None \<Rightarrow> None),
     cs_dirty = {bn. \<exists>i. slot B bn = Some i \<and> is_dirty (B i)},
     cs_hist = map snd (filter (\<lambda>w. fst w = 1) W)\<rparr>"

text \<open>
  A buffer between calls of the cache: never used, or it caches a block of the root device. Its
  reference count says whether it is locked, and an unlocked clean buffer agrees with the disk.
\<close>

definition buf_ok :: "buf \<Rightarrow> bool \<Rightarrow> (u32 \<Rightarrow> u8 list) \<Rightarrow> bool" where
  "buf_ok b l D \<longleftrightarrow> length (b_data b) = BSIZE \<and> b_refcnt b = (if l then 1 else 0) \<and>
     (b_dev b = 0 \<and> b_flags b = 0 \<and> \<not> l \<or>
      b_dev b = ROOTDEV \<and> b_blockno b < FSSIZE \<and> is_valid b \<and>
        (\<not> l \<longrightarrow> \<not> is_dirty b \<longrightarrow> b_data b = D (b_blockno b)))"

definition keys_inj :: "(nat \<Rightarrow> buf) \<Rightarrow> bool" where
  "keys_inj B \<longleftrightarrow> (\<forall>i < NBUF. \<forall>j < NBUF. b_dev (B i) = ROOTDEV \<longrightarrow> b_dev (B j) = ROOTDEV \<longrightarrow>
     b_blockno (B i) = b_blockno (B j) \<longrightarrow> i = j)"

definition cache_ok :: "(nat \<Rightarrow> buf) \<Rightarrow> (nat \<Rightarrow> bool) \<Rightarrow> (u32 \<Rightarrow> u8 list) \<Rightarrow> bool" where
  "cache_ok B L D \<longleftrightarrow> (\<forall>i < NBUF. buf_ok (B i) (L i) D) \<and> keys_inj B \<and> (\<forall>a. length (D a) = BSIZE)"

definition locked :: "'z kbuf_scheme \<Rightarrow> nat \<Rightarrow> bool" where
  "locked s i \<longleftrightarrow> sl_locked (slp s (SlBuf i)) \<noteq> 0"

definition cache_inv :: "'z kbuf_scheme \<Rightarrow> bool" where
  "cache_inv s \<longleftrightarrow> (\<exists>xs. lru s xs) \<and> cache_ok (bufs s) (locked s) (hw_disk s 1) \<and>
     ide_queue s = [] \<and> \<not> hw_fail s \<and> have_disk1 s \<and> myproc s \<noteq> None"

definition cache_abs :: "'z kbuf_scheme \<Rightarrow> cstate" where
  "cache_abs s = abs_of (bufs s) (locked s) (hw_disk s 1) (hw_writes s)"

text \<open>The rest of the kernel, which the cache leaves alone: all but which processes sleep.\<close>

definition cache_ext :: "'z kbuf_scheme \<Rightarrow> 'z \<times> nat option \<times> (nat \<Rightarrow> sleeplock) \<times> (nat \<Rightarrow> proc)" where
  "cache_ext s = (kbuf.more s, myproc s, (\<lambda>i. slp s (SlInode i)),
     (\<lambda>i. (ptable s i)\<lparr>pr_state := UNUSED\<rparr>))"

lemma ROOTDEV_neq [simp]: "ROOTDEV \<noteq> 0" "drive_of ROOTDEV = 1"
  by (simp_all add: ROOTDEV_def drive_of_def)

lemma find_upt_Some:
  "find P [0..<n] = Some i \<Longrightarrow> i < n \<and> P i"
  by (auto simp: find_Some_iff)

lemma slot_SomeD: "slot B bn = Some i \<Longrightarrow> i < NBUF \<and> b_dev (B i) = ROOTDEV \<and> b_blockno (B i) = bn"
  by (auto simp: slot_def dest: find_upt_Some)

lemma slot_None: "slot B bn = None \<longleftrightarrow> (\<forall>i < NBUF. \<not> (b_dev (B i) = ROOTDEV \<and> b_blockno (B i) = bn))"
  by (auto simp: slot_def find_None_iff)

lemma slot_eq:
  assumes "keys_inj B"
  shows "slot B bn = Some i \<longleftrightarrow> i < NBUF \<and> b_dev (B i) = ROOTDEV \<and> b_blockno (B i) = bn"
proof
  assume i: "i < NBUF \<and> b_dev (B i) = ROOTDEV \<and> b_blockno (B i) = bn"
  then obtain j where j: "slot B bn = Some j" using slot_None[of B bn] by (cases "slot B bn") auto
  with i assms slot_SomeD[OF j] have "j = i" unfolding keys_inj_def by auto
  with j show "slot B bn = Some i" by simp
qed (rule slot_SomeD)

lemma slot_same_keys:
  "(\<And>i. i < NBUF \<Longrightarrow> b_dev (B' i) = b_dev (B i) \<and> b_blockno (B' i) = b_blockno (B i)) \<Longrightarrow>
   slot B' = slot B"
  unfolding slot_def fun_eq_iff by (intro allI find_cong) auto

lemma held_iff:
  assumes "keys_inj B"
  shows "cs_held (abs_of B L D W) bn = Some i \<longleftrightarrow>
    i < NBUF \<and> L i \<and> b_dev (B i) = ROOTDEV \<and> b_blockno (B i) = bn"
  using slot_eq[OF assms, of bn i]
  by (auto simp: abs_of_def split: option.splits)

lemma cache_ok_inj: "cache_ok B L D \<Longrightarrow> keys_inj B"
  by (simp add: cache_ok_def)

lemma abs_of_cong:
  assumes "\<And>i. i < NBUF \<Longrightarrow> b_dev (B' i) = b_dev (B i) \<and> b_blockno (B' i) = b_blockno (B i)
      \<and> b_flags (B' i) = b_flags (B i) \<and> b_data (B' i) = b_data (B i)"
  shows "abs_of B' L D W = abs_of B L D W"
proof -
  have sl: "slot B' = slot B" by (rule slot_same_keys) (use assms in auto)
  have "b_flags (B' i) = b_flags (B i) \<and> b_data (B' i) = b_data (B i)" if "slot B bn = Some i" for bn i
    using assms slot_SomeD[OF that] by simp
  then show ?thesis
    unfolding abs_of_def sl by (auto simp: fun_eq_iff is_dirty_def split: option.splits)
qed

lemma cache_ok_cong:
  assumes "\<And>i. i < NBUF \<Longrightarrow> b_dev (B' i) = b_dev (B i) \<and> b_blockno (B' i) = b_blockno (B i)
      \<and> b_flags (B' i) = b_flags (B i) \<and> b_data (B' i) = b_data (B i)
      \<and> b_refcnt (B' i) = b_refcnt (B i)"
  shows "cache_ok B' L D = cache_ok B L D"
  using assms by (simp add: cache_ok_def keys_inj_def buf_ok_def is_valid_def is_dirty_def)

text \<open>Taking and giving up a cached block.\<close>

lemma pure_take:
  assumes "cache_ok B L D" "slot B bn = Some i" "\<not> L i"
  defines "B' \<equiv> B(i := (B i)\<lparr>b_refcnt := 1\<rparr>)"
  shows "cache_ok B' (L(i := True)) D"
    and "abs_of B' (L(i := True)) D W
      = (abs_of B L D W)\<lparr>cs_held := (cs_held (abs_of B L D W))(bn \<mapsto> i)\<rparr>"
proof -
  have sl: "slot B' = slot B" by (rule slot_same_keys) (simp add: B'_def)
  show "cache_ok B' (L(i := True)) D"
    using assms(1,3) slot_SomeD[OF assms(2)]
    by (auto simp: B'_def cache_ok_def keys_inj_def buf_ok_def is_valid_def)
  show "abs_of B' (L(i := True)) D W
      = (abs_of B L D W)\<lparr>cs_held := (cs_held (abs_of B L D W))(bn \<mapsto> i)\<rparr>"
    using assms(2) unfolding abs_of_def sl
    by (auto simp: B'_def fun_eq_iff is_dirty_def split: option.splits dest: slot_SomeD)
qed

lemma pure_drop:
  assumes "cache_ok B L D" "slot B bn = Some i" "L i"
    and "is_dirty (B i) \<or> b_data (B i) = D bn"
  defines "B' \<equiv> B(i := (B i)\<lparr>b_refcnt := 0\<rparr>)"
  shows "cache_ok B' (L(i := False)) D"
    and "abs_of B' (L(i := False)) D W
      = (abs_of B L D W)\<lparr>cs_held := (cs_held (abs_of B L D W))(bn := None)\<rparr>"
proof -
  have sl: "slot B' = slot B" by (rule slot_same_keys) (simp add: B'_def)
  show "cache_ok B' (L(i := False)) D"
    using assms(1,3,4) slot_SomeD[OF assms(2)]
    by (auto simp: B'_def cache_ok_def keys_inj_def buf_ok_def is_valid_def is_dirty_def)
  show "abs_of B' (L(i := False)) D W
      = (abs_of B L D W)\<lparr>cs_held := (cs_held (abs_of B L D W))(bn := None)\<rparr>"
    using assms(2) unfolding abs_of_def sl
    by (auto simp: B'_def fun_eq_iff is_dirty_def split: option.splits dest: slot_SomeD)
qed

text \<open>Recycling an unused clean buffer for a block that is not cached.\<close>

lemma pure_recycle:
  assumes ok: "cache_ok B L D" and new: "slot B bn = None" and v: "v < NBUF" "b_refcnt (B v) = 0"
      "\<not> is_dirty (B v)"
    and x: "b_dev x = ROOTDEV" "b_blockno x = bn" "b_refcnt x = 1" "b_data x = D bn"
      "is_valid x" "\<not> is_dirty x" and bn: "bn < FSSIZE"
  shows "cache_ok (B(v := x)) (L(v := True)) D"
    and "abs_of (B(v := x)) (L(v := True)) D W
      = (abs_of B L D W)\<lparr>cs_held := (cs_held (abs_of B L D W))(bn \<mapsto> v)\<rparr>"
proof -
  have nokey: "\<And>i. i < NBUF \<Longrightarrow> b_dev (B i) = ROOTDEV \<Longrightarrow> b_blockno (B i) \<noteq> bn"
    using new by (auto simp: slot_None)
  have notL: "\<not> L v" using ok v by (auto simp: cache_ok_def buf_ok_def)
  have "keys_inj (B(v := x))"
    unfolding keys_inj_def
  proof (intro allI impI)
    fix i j assume "i < NBUF" "j < NBUF" "b_dev ((B(v := x)) i) = ROOTDEV"
      "b_dev ((B(v := x)) j) = ROOTDEV" "b_blockno ((B(v := x)) i) = b_blockno ((B(v := x)) j)"
    then show "i = j"
      using cache_ok_inj[OF ok] nokey[of i] nokey[of j] x
      by (cases "i = v"; cases "j = v") (auto simp: keys_inj_def)
  qed
  moreover have "buf_ok x True D" using ok x bn by (simp add: cache_ok_def buf_ok_def)
  ultimately show ok': "cache_ok (B(v := x)) (L(v := True)) D"
    using ok by (auto simp: cache_ok_def)
  have inj: "keys_inj B" "keys_inj (B(v := x))" using ok ok' by (auto dest: cache_ok_inj)
  have sl1: "slot (B(v := x)) bn = Some v" using slot_eq[OF inj(2)] x v by simp
  have sl2: "slot (B(v := x)) bn' = (if slot B bn' = Some v then None else slot B bn')"
    if "bn' \<noteq> bn" for bn'
  proof (cases "slot (B(v := x)) bn'")
    case None
    then have "slot B bn' = Some k \<Longrightarrow> k = v" for k
      using slot_SomeD[of B bn' k] by (auto simp: slot_None split: if_splits)
    with None show ?thesis by (cases "slot B bn'") auto
  next
    case (Some j)
    have "j \<noteq> v" using slot_SomeD[OF Some] x that by (auto split: if_splits)
    moreover from this have "slot B bn' = Some j"
      using slot_SomeD[OF Some] by (simp add: slot_eq[OF inj(1)])
    ultimately show ?thesis using Some by simp
  qed
  have sl: "slot (B(v := x)) bn' = (if bn' = bn then Some v
      else if slot B bn' = Some v then None else slot B bn')" for bn'
    using sl1 sl2 by simp
  have old: "slot B bn' = Some v \<Longrightarrow> b_data (B v) = D bn'" for bn'
    using ok v notL slot_SomeD[of B bn' v] by (auto simp: cache_ok_def buf_ok_def)
  show "abs_of (B(v := x)) (L(v := True)) D W
      = (abs_of B L D W)\<lparr>cs_held := (cs_held (abs_of B L D W))(bn \<mapsto> v)\<rparr>"
    unfolding abs_of_def sl
    using new old notL v x
    by (auto simp: fun_eq_iff split: option.splits)
qed

text \<open>Changing, pinning and writing a held block.\<close>

lemma pure_put:
  assumes "cache_ok B L D" "slot B bn = Some i" "L i" "length d = BSIZE"
  defines "B' \<equiv> B(i := (B i)\<lparr>b_data := d\<rparr>)"
  shows "cache_ok B' L D"
    and "abs_of B' L D W = (abs_of B L D W)\<lparr>cs_view := (cs_view (abs_of B L D W))(bn := d)\<rparr>"
proof -
  have sl: "slot B' = slot B" by (rule slot_same_keys) (simp add: B'_def)
  have "buf_ok (B' i) (L i) D"
    using assms(1,3,4) slot_SomeD[OF assms(2)]
    by (auto simp: B'_def cache_ok_def buf_ok_def is_valid_def)
  then show "cache_ok B' L D"
    using assms(1) by (auto simp: B'_def cache_ok_def keys_inj_def)
  show "abs_of B' L D W = (abs_of B L D W)\<lparr>cs_view := (cs_view (abs_of B L D W))(bn := d)\<rparr>"
    using assms(2) unfolding abs_of_def sl
    by (auto simp: B'_def fun_eq_iff is_dirty_def split: option.splits dest: slot_SomeD)
qed

lemma flags_mark_dirty [simp]:
  "is_valid (mark_dirty b) = is_valid b" "is_dirty (mark_dirty b)"
  by (auto simp: is_valid_bit is_dirty_bit mark_dirty_def bit_or_iff bit_flags)

lemma pure_mark:
  assumes "cache_ok B L D" "slot B bn = Some i" "L i"
  defines "B' \<equiv> B(i := mark_dirty (B i))"
  shows "cache_ok B' L D"
    and "abs_of B' L D W = (abs_of B L D W)\<lparr>cs_dirty := insert bn (cs_dirty (abs_of B L D W))\<rparr>"
proof -
  have sl: "slot B' = slot B" by (rule slot_same_keys) (simp add: B'_def mark_dirty_def)
  have keep: "b_data (mark_dirty (B i)) = b_data (B i)" "b_dev (mark_dirty (B i)) = b_dev (B i)"
    "b_blockno (mark_dirty (B i)) = b_blockno (B i)" "b_refcnt (mark_dirty (B i)) = b_refcnt (B i)"
    by (simp_all add: mark_dirty_def)
  have "buf_ok (B' i) (L i) D"
    using assms(1,3) slot_SomeD[OF assms(2)] keep by (auto simp: B'_def cache_ok_def buf_ok_def)
  then show "cache_ok B' L D"
    using assms(1) keep by (auto simp: B'_def cache_ok_def keys_inj_def)
  show "abs_of B' L D W = (abs_of B L D W)\<lparr>cs_dirty := insert bn (cs_dirty (abs_of B L D W))\<rparr>"
    using assms(2) keep unfolding abs_of_def sl
    by (auto simp: B'_def fun_eq_iff split: option.splits if_splits dest: slot_SomeD)
qed

lemma flags_synced [simp]:
  "is_valid (b\<lparr>b_flags := synced f\<rparr>)" "\<not> is_dirty (b\<lparr>b_flags := synced f\<rparr>)"
  by (simp_all add: is_valid_bit is_dirty_bit)

lemma pure_write:
  fixes f :: u32
  assumes "cache_ok B L D" "slot B bn = Some i" "L i"
  defines "B' \<equiv> B(i := (B i)\<lparr>b_flags := synced f\<rparr>)"
  shows "cache_ok B' L (D(bn := b_data (B i)))"
    and "abs_of B' L (D(bn := b_data (B i))) (W @ [(1, bn, b_data (B i))]) = (abs_of B L D W)\<lparr>
        cs_media := (cs_media (abs_of B L D W))(bn := cs_view (abs_of B L D W) bn),
        cs_dirty := cs_dirty (abs_of B L D W) - {bn},
        cs_hist := cs_hist (abs_of B L D W) @ [(bn, cs_view (abs_of B L D W) bn)]\<rparr>"
proof -
  have sl: "slot B' = slot B" by (rule slot_same_keys) (simp add: B'_def)
  have key: "i < NBUF" "b_dev (B i) = ROOTDEV" "b_blockno (B i) = bn"
    using slot_SomeD[OF assms(2)] by auto
  have "buf_ok (B' j) (L j) (D(bn := b_data (B i)))" if "j < NBUF" for j
  proof (cases "j = i")
    case True
    then show ?thesis using assms(1,3) key by (auto simp: B'_def cache_ok_def buf_ok_def)
  next
    case False
    then have "b_dev (B j) = ROOTDEV \<Longrightarrow> b_blockno (B j) \<noteq> bn"
      using cache_ok_inj[OF assms(1)] key that by (auto simp: keys_inj_def)
    then show ?thesis using False assms(1) that by (auto simp: B'_def cache_ok_def buf_ok_def)
  qed
  then show "cache_ok B' L (D(bn := b_data (B i)))"
    using assms(1) key by (auto simp: B'_def cache_ok_def keys_inj_def buf_ok_def)
  show "abs_of B' L (D(bn := b_data (B i))) (W @ [(1, bn, b_data (B i))]) = (abs_of B L D W)\<lparr>
        cs_media := (cs_media (abs_of B L D W))(bn := cs_view (abs_of B L D W) bn),
        cs_dirty := cs_dirty (abs_of B L D W) - {bn},
        cs_hist := cs_hist (abs_of B L D W) @ [(bn, cs_view (abs_of B L D W) bn)]\<rparr>"
    using assms(2) unfolding abs_of_def sl
    by (auto simp: B'_def fun_eq_iff split: option.splits if_splits dest: slot_SomeD)
       (metis key(3) slot_SomeD)
qed

lemma locked_simps [simp]:
  "locked (kacq lk s) = locked s" "locked (krel lk s) = locked s" "locked (kwake ch s) = locked s"
  "locked (sl_take (SlBuf i) s) = (locked s)(i := True)"
  "locked (sl_drop (SlBuf i) s) = (locked s)(i := False)"
  "locked (upd_buf i f s) = locked s" "locked (ide_serve i s) = locked s"
  "locked (mtf b s) = locked s"
  by (auto simp: locked_def fun_eq_iff)

lemma cache_ext_simps [simp]:
  "cache_ext (kacq lk s) = cache_ext s" "cache_ext (krel lk s) = cache_ext s"
  "cache_ext (kwake ch s) = cache_ext s"
  "cache_ext (sl_take (SlBuf i) s) = cache_ext s" "cache_ext (sl_drop (SlBuf i) s) = cache_ext s"
  "cache_ext (upd_buf i f s) = cache_ext s" "cache_ext (ide_serve i s) = cache_ext s"
  "cache_ext (mtf b s) = cache_ext s"
  by (auto simp: cache_ext_def fun_eq_iff ptable_kwake wake_slot_def)

lemma lru_simps [simp]:
  "lru (kacq lk s) = lru s" "lru (krel lk s) = lru s" "lru (kwake ch s) = lru s"
  "lru (sl_take l s) = lru s" "lru (sl_drop l s) = lru s"
  by (simp_all add: lru_def fun_eq_iff)

lemma lru_upd_buf [simp]:
  "(\<And>b. b_next (f b) = b_next b \<and> b_prev (f b) = b_prev b) \<Longrightarrow> lru (upd_buf i f s) = lru s"
  by (simp add: fun_eq_iff lru_cong)

lemma lru_ide_serve [simp]: "lru (ide_serve i s) = lru s"
  unfolding fun_eq_iff by (intro allI lru_cong) (auto simp: bufs_ide_serve Let_def)

lemma find_slot:
  assumes "set xs = {..<NBUF}" "keys_inj B"
  shows "find (\<lambda>b. b_dev (B b) = ROOTDEV \<and> b_blockno (B b) = bn) xs = slot B bn"
proof (cases "find (\<lambda>b. b_dev (B b) = ROOTDEV \<and> b_blockno (B b) = bn) xs")
  case None
  then have "slot B bn = None" using assms(1) unfolding find_None_iff slot_None by auto
  with None show ?thesis by simp
next
  case (Some i)
  then have "i \<in> set xs" "b_dev (B i) = ROOTDEV \<and> b_blockno (B i) = bn"
    by (auto simp: find_Some_iff)
  with Some assms slot_eq[OF assms(2), of bn i] show ?thesis by simp
qed

lemma cache_ok_buf: "cache_ok B L D \<Longrightarrow> i < NBUF \<Longrightarrow> buf_ok (B i) (L i) D"
  by (simp add: cache_ok_def)

lemma lru_chains:
  assumes "lru s xs"
  shows "nchain (nx s) HEAD xs HEAD" "nchain (pv s) HEAD (rev xs) HEAD" "HEAD \<notin> set xs"
    "set xs = {..<NBUF}" "length xs = NBUF"
  using assms lru_length[OF assms] by (auto simp: lru_def dll_def)

text \<open>A cached block is found by \<open>bget\<close>; for an uncached one an unused clean buffer is recycled.\<close>

lemma get_cached_slot:
  assumes "lru s xs" "keys_inj (bufs s)"
  shows "get_cached walk_fuel ROOTDEV bn (nx s HEAD) s = Inr (slot (bufs s) bn, s)"
  using get_cached_eq[of s HEAD xs walk_fuel ROOTDEV bn] lru_chains[OF assms(1)]
    find_slot[OF _ assms(2)] by (simp add: walk_fuel_def)

lemma victim_exists:
  assumes ok: "cache_ok B L D" and set: "set xs = {..<NBUF}"
    and room: "card (dom (cs_held (abs_of B L D W)) \<union> cs_dirty (abs_of B L D W)) < NBUF"
  shows "\<exists>v < NBUF. find (\<lambda>b. b_refcnt (B b) = 0 \<and> \<not> is_dirty (B b)) xs = Some v
     \<and> b_refcnt (B v) = 0 \<and> \<not> is_dirty (B v)"
proof (cases "find (\<lambda>b. b_refcnt (B b) = 0 \<and> \<not> is_dirty (B b)) xs")
  case (Some v)
  then have "v \<in> set xs" "b_refcnt (B v) = 0 \<and> \<not> is_dirty (B v)" by (auto simp: find_Some_iff)
  with Some set show ?thesis by auto
next
  case None
  let ?busy = "dom (cs_held (abs_of B L D W)) \<union> cs_dirty (abs_of B L D W)"
  note inj = cache_ok_inj[OF ok]
  have busy: "b_refcnt (B i) \<noteq> 0 \<or> is_dirty (B i)" if "i < NBUF" for i
    using None set that unfolding find_None_iff by auto
  have root: "b_dev (B i) = ROOTDEV" if "i < NBUF" for i
    using cache_ok_buf[OF ok that] busy[OF that] by (auto simp: buf_ok_def is_dirty_def)
  have sl: "slot B (b_blockno (B i)) = Some i" if "i < NBUF" for i
    using slot_eq[OF inj] root that by simp
  have sub: "(\<lambda>i. b_blockno (B i)) ` {..<NBUF} \<subseteq> ?busy"
  proof (rule image_subsetI)
    fix i assume "i \<in> {..<NBUF}"
    then have i: "i < NBUF" by simp
    with cache_ok_buf[OF ok i] busy[OF i] have "L i \<or> is_dirty (B i)"
      by (auto simp: buf_ok_def split: if_splits)
    with sl[OF i] show "b_blockno (B i) \<in> ?busy" by (auto simp: abs_of_def dom_def)
  qed
  have "inj_on (\<lambda>i. b_blockno (B i)) {..<NBUF}"
    using inj root by (auto simp: inj_on_def keys_inj_def)
  then have "card ((\<lambda>i. b_blockno (B i)) ` {..<NBUF}) = NBUF" by (simp add: card_image)
  moreover have "finite ?busy"
    by (rule finite_subset[of _ "(\<lambda>i. b_blockno (B i)) ` {..<NBUF}"])
       (auto simp: abs_of_def dom_def split: option.splits dest!: slot_SomeD)
  ultimately show ?thesis using card_mono[OF _ sub] room by simp
qed

lemma runs_bread_hit:
  assumes inv: "cache_inv s" and hit: "slot (bufs s) bn = Some i" and free: "\<not> locked s i"
  shows "runs (bread ROOTDEV bn) s (\<lambda>b s'. cache_inv s' \<and> cache_ext s' = cache_ext s \<and>
    cache_abs s' = (cache_abs s)\<lparr>cs_held := (cs_held (cache_abs s))(bn \<mapsto> b)\<rparr>)"
proof -
  from inv obtain xs where xs: "lru s xs" and ok: "cache_ok (bufs s) (locked s) (hw_disk s 1)"
    by (auto simp: cache_inv_def)
  have b: "b_refcnt (bufs s i) = 0" "is_valid (bufs s i)"
    using cache_ok_buf[OF ok, of i] slot_SomeD[OF hit] free by (auto simp: buf_ok_def)
  have walk: "runs (get_cached walk_fuel ROOTDEV bn (nx s HEAD)) (kacq LkBcache s) Q
      = Q (Some i) (kacq LkBcache s)" for Q
    using get_cached_slot[of "kacq LkBcache s" xs bn] xs hit cache_ok_inj[OF ok]
    by (simp add: runs_def)
  let ?s' = "krel (LkInner (SlBuf i)) (sl_take (SlBuf i) (kacq (LkInner (SlBuf i))
      (krel LkBcache (upd_buf i (b_refcnt_update (\<lambda>_. 1)) (kacq LkBcache s)))))"
  have "runs (bread ROOTDEV bn) s (\<lambda>b s'. b = i \<and> s' = ?s')"
    using b inv free
    by (simp add: bread_def bget_def walk runs_acquiresleep
        cache_inv_def locked_def is_valid_def)
  moreover have "cache_inv ?s'"
    using inv pure_take(1)[OF ok hit free] by (simp add: cache_inv_def)
  moreover have "cache_abs ?s' = (cache_abs s)\<lparr>cs_held := (cs_held (cache_abs s))(bn \<mapsto> i)\<rparr>"
    using pure_take(2)[OF ok hit free] by (simp add: cache_abs_def)
  ultimately show ?thesis by (simp only: runs_det) simp
qed

text \<open>A buffer that may be recycled.\<close>

definition unused :: "'z kbuf_scheme \<Rightarrow> nat \<Rightarrow> bool" where
  "unused s i \<longleftrightarrow> b_refcnt (bufs s i) = 0 \<and> \<not> is_dirty (bufs s i)"

lemma find_rev: "find P (rev xs) = Some v \<Longrightarrow> v = last (filter P xs)"
proof (induction xs rule: rev_induct)
  case (snoc x xs)
  then show ?case by (auto split: if_splits)
qed simp

lemma runs_bread_miss:
  assumes inv: "cache_inv s" and miss: "slot (bufs s) bn = None" and bn: "bn < FSSIZE"
    and room: "card (dom (cs_held (cache_abs s)) \<union> cs_dirty (cache_abs s)) < NBUF"
    and xs: "lru s xs"
  shows "runs (bread ROOTDEV bn) s (\<lambda>b s'. b = last (filter (unused s) xs) \<and> lru s' xs \<and>
    cache_inv s' \<and> cache_ext s' = cache_ext s \<and>
    cache_abs s' = (cache_abs s)\<lparr>cs_held := (cs_held (cache_abs s))(bn \<mapsto> b)\<rparr>)"
proof -
  from inv have ok: "cache_ok (bufs s) (locked s) (hw_disk s 1)"
    by (auto simp: cache_inv_def)
  have walk: "runs (get_cached walk_fuel ROOTDEV bn (nx s HEAD)) (kacq LkBcache s) Q
      = Q None (kacq LkBcache s)" for Q
    using get_cached_slot[of "kacq LkBcache s" xs bn] xs miss cache_ok_inj[OF ok]
    by (simp add: runs_def)
  obtain v where v: "v < NBUF" "b_refcnt (bufs s v) = 0" "\<not> is_dirty (bufs s v)"
    and f: "find (\<lambda>b. b_refcnt (bufs s b) = 0 \<and> \<not> is_dirty (bufs s b)) (rev xs) = Some v"
    using victim_exists[OF ok, of "rev xs"] room lru_chains[OF xs] by (auto simp: cache_abs_def)
  then have last: "v = last (filter (unused s) xs)"
    using find_rev[OF f] by (simp add: unused_def[abs_def])
  have walk2: "runs (get_unused walk_fuel (pv s HEAD)) (kacq LkBcache s) Q
      = Q (Some v) (kacq LkBcache s)" for Q
    using get_unused_eq[of "kacq LkBcache s" HEAD "rev xs" walk_fuel] f lru_chains[OF xs]
    by (simp add: walk_fuel_def runs_def)
  have free: "\<not> locked s v" using cache_ok_buf[OF ok v(1)] v by (auto simp: buf_ok_def)
  let ?s1 = "krel (LkInner (SlBuf v)) (sl_take (SlBuf v) (kacq (LkInner (SlBuf v)) (krel LkBcache
      (upd_buf v (\<lambda>x. x\<lparr>b_dev := ROOTDEV, b_blockno := bn, b_flags := 0, b_refcnt := 1\<rparr>)
        (kacq LkBcache s)))))"
  let ?s' = "woken (ChBuf v) (ide_serve v ?s1)"
  have nv: "\<not> is_valid (bufs ?s1 v)" "\<not> is_dirty (bufs ?s1 v)"
    by (simp_all add: is_valid_def is_dirty_def)
  have req: "request_ok ?s1 v" "ide_queue ?s1 = []" "\<not> hw_fail ?s1"
    using inv bn nv by (auto simp: request_ok_def in_sync_iff cache_inv_def)
  have "runs (bread ROOTDEV bn) s (\<lambda>b s'. b = v \<and> s' = ?s')"
    using inv free nv(1) runs_iderw[OF req(2,1,3)]
    by (simp add: bread_def bget_def walk walk2
        runs_acquiresleep cache_inv_def locked_def)
  moreover have x: "bufs ?s' = (bufs s)(v := (bufs s v)\<lparr>b_dev := ROOTDEV, b_blockno := bn,
      b_refcnt := 1, b_data := hw_disk s 1 bn, b_flags := synced 0\<rparr>)"
    using nv(2) by (simp add: bufs_ide_serve Let_def)
  have disk: "hw_disk ?s' = hw_disk s" "hw_writes ?s' = hw_writes s"
    using nv(2) by (simp_all add: hw_disk_ide_serve hw_writes_ide_serve Let_def)
  note pure = pure_recycle[OF ok miss v, of "(bufs s v)\<lparr>b_dev := ROOTDEV, b_blockno := bn,
      b_refcnt := 1, b_data := hw_disk s 1 bn, b_flags := synced 0\<rparr>"]
  moreover have "cache_inv ?s'"
    using inv pure(1) bn x disk by (simp add: cache_inv_def)
  moreover have "cache_abs ?s' = (cache_abs s)\<lparr>cs_held := (cs_held (cache_abs s))(bn \<mapsto> v)\<rparr>"
    using pure(2) bn x disk by (simp add: cache_abs_def)
  moreover have "lru ?s' xs" using xs by simp
  ultimately show ?thesis using last by (simp only: runs_det) simp
qed

lemma held_slot:
  "cs_held (cache_abs s) bn = Some b \<longleftrightarrow> slot (bufs s) bn = Some b \<and> locked s b"
  by (auto simp: cache_abs_def abs_of_def split: option.splits if_splits)

text \<open>The data of a buffer, replaced by a client that holds it.\<close>

definition set_data :: "nat \<Rightarrow> u8 list \<Rightarrow> 'z kbuf_scheme \<Rightarrow> 'z kbuf_scheme" where
  "set_data b d = upd_buf b (b_data_update (\<lambda>_. d))"

definition buf_data :: "'z kbuf_scheme \<Rightarrow> nat \<Rightarrow> u8 list" where
  "buf_data s b = b_data (bufs s b)"

definition pin :: "nat \<Rightarrow> 'z kbuf_scheme \<Rightarrow> 'z kbuf_scheme" where
  "pin b = upd_buf b mark_dirty"

lemma cache_inv_parts:
  assumes "cache_inv s" "cs_held (cache_abs s) bn = Some b"
  shows "cache_ok (bufs s) (locked s) (hw_disk s 1)" "slot (bufs s) bn = Some b" "locked s b"
    "b < NBUF" "b_dev (bufs s b) = ROOTDEV" "b_blockno (bufs s b) = bn"
    "buf_ok (bufs s b) True (hw_disk s 1)"
  using assms slot_SomeD[of "bufs s" bn b] cache_ok_buf[of "bufs s" "locked s" "hw_disk s 1" b]
  by (auto simp: cache_inv_def held_slot)

lemma runs_bwrite:
  assumes inv: "cache_inv s" and own: "cs_held (cache_abs s) bn = Some b"
  shows "runs (bwrite b) s (\<lambda>_ s'. cache_inv s' \<and> cache_ext s' = cache_ext s \<and>
    cache_abs s' = (cache_abs s)\<lparr>
      cs_media := (cs_media (cache_abs s))(bn := cs_view (cache_abs s) bn),
      cs_dirty := cs_dirty (cache_abs s) - {bn},
      cs_hist := cs_hist (cache_abs s) @ [(bn, cs_view (cache_abs s) bn)]\<rparr>)"
proof -
  note p = cache_inv_parts[OF inv own]
  let ?s1 = "upd_buf b mark_dirty (krel (LkInner (SlBuf b)) (kacq (LkInner (SlBuf b)) s))"
  let ?s' = "woken (ChBuf b) (ide_serve b ?s1)"
  let ?f = "b_flags (mark_dirty (bufs s b))"
  have keep: "b_dev (mark_dirty x) = b_dev x" "b_blockno (mark_dirty x) = b_blockno x"
    "b_data (mark_dirty x) = b_data x" "(mark_dirty x)\<lparr>b_flags := g\<rparr> = x\<lparr>b_flags := g\<rparr>" for x g
    by (simp_all add: mark_dirty_def)
  have req: "request_ok ?s1 b" "ide_queue ?s1 = []" "\<not> hw_fail ?s1"
    using inv p by (auto simp: request_ok_def in_sync_iff cache_inv_def keep buf_ok_def)
  have r: "runs (bwrite b) s (\<lambda>x s'. x = () \<and> s' = ?s')"
    using p(3) runs_iderw[OF req(2,1,3)]
    by (simp add: bwrite_def runs_holdingsleep locked_def)
  have x: "bufs ?s' = (bufs s)(b := (bufs s b)\<lparr>b_flags := synced ?f\<rparr>)"
    by (simp add: bufs_ide_serve Let_def keep)
  have d: "hw_disk ?s' 1 = (hw_disk s 1)(bn := b_data (bufs s b))"
    "hw_writes ?s' = hw_writes s @ [(1, bn, b_data (bufs s b))]"
    using p by (simp_all add: hw_disk_ide_serve hw_writes_ide_serve Let_def keep)
  note pure = pure_write[OF p(1-3), of ?f]
  have "cache_inv ?s'"
    using inv pure(1) x d by (simp add: cache_inv_def) (auto simp: lru_upd_buf mark_dirty_def)
  moreover have "cache_abs ?s' = (cache_abs s)\<lparr>
      cs_media := (cs_media (cache_abs s))(bn := cs_view (cache_abs s) bn),
      cs_dirty := cs_dirty (cache_abs s) - {bn},
      cs_hist := cs_hist (cache_abs s) @ [(bn, cs_view (cache_abs s) bn)]\<rparr>"
    using pure(2) x d by (simp add: cache_abs_def)
  ultimately show ?thesis by (simp only: runs_det[OF r]) simp
qed

lemma runs_brelse:
  assumes inv: "cache_inv s" and own: "cs_held (cache_abs s) bn = Some b"
    and clean: "bn \<in> cs_dirty (cache_abs s) \<or> cs_view (cache_abs s) bn = cs_media (cache_abs s) bn"
    and xs: "lru s xs"
  shows "runs (brelse b) s (\<lambda>_ s'. lru s' (b # remove1 b xs) \<and> cache_inv s' \<and> cache_ext s' = cache_ext s \<and>
    cache_abs s' = (cache_abs s)\<lparr>cs_held := (cs_held (cache_abs s))(bn := None)\<rparr>)"
proof -
  note p = cache_inv_parts[OF inv own]
  obtain ys zs where split: "xs = ys @ b # zs"
    using p(4) lru_chains(4)[OF xs] by (metis lessThan_iff split_list)
  moreover have "b \<notin> set ys" using xs split by (auto simp: lru_def dll_def)
  ultimately have rem: "remove1 b xs = ys @ zs" by (simp add: remove1_append)
  have ref: "b_refcnt (bufs s b) = 1" using p(7) by (simp add: buf_ok_def)
  let ?s1 = "upd_buf b (b_refcnt_update (\<lambda>_. 0)) (kacq LkBcache (krel (LkInner (SlBuf b))
     (woken (ChSleeplock (SlBuf b)) (sl_drop (SlBuf b) (kacq (LkInner (SlBuf b))
       (krel (LkInner (SlBuf b)) (kacq (LkInner (SlBuf b)) s)))))))"
  let ?s' = "krel LkBcache (mtf b ?s1)"
  have r: "runs (brelse b) s (\<lambda>x s'. x = () \<and> s' = ?s')"
    using p(3) ref
    by (simp add: brelse_def runs_holdingsleep runs_releasesleep locked_def)
  have lru: "lru ?s' (b # ys @ zs)"
    using lru_mtf[of ?s1 ys b zs] xs split by simp
  have c: "is_dirty (bufs s b) \<or> b_data (bufs s b) = hw_disk s 1 bn"
    using clean p(2) by (auto simp: cache_abs_def abs_of_def)
  let ?B = "(bufs s)(b := (bufs s b)\<lparr>b_refcnt := 0\<rparr>)"
  have same: "cache_ok (bufs (mtf b ?s1)) L D = cache_ok ?B L D"
    "abs_of (bufs (mtf b ?s1)) L D W = abs_of ?B L D W" for L D W
    by (rule cache_ok_cong abs_of_cong; simp)+
  note pure = pure_drop[OF p(1-3) c]
  have "cache_inv ?s'"
    using inv pure(1) lru by (auto simp: cache_inv_def same)
  moreover have "cache_abs ?s' = (cache_abs s)\<lparr>cs_held := (cs_held (cache_abs s))(bn := None)\<rparr>"
    using pure(2) by (simp add: cache_abs_def same)
  ultimately show ?thesis using lru rem by (simp only: runs_det[OF r]) simp
qed

lemma busy_slots: "finite (dom (cs_held (cache_abs s)) \<union> cs_dirty (cache_abs s))"
  by (rule finite_subset[of _ "(\<lambda>i. b_blockno (bufs s i)) ` {..<NBUF}"])
     (auto simp: cache_abs_def abs_of_def dom_def split: option.splits dest!: slot_SomeD)

lemma runs_bread:
  assumes "cache_inv s" "bn < FSSIZE" "cs_held (cache_abs s) bn = None"
    and room: "card (insert bn (dom (cs_held (cache_abs s)) \<union> cs_dirty (cache_abs s))) \<le> NBUF"
  shows "runs (bread ROOTDEV bn) s (\<lambda>b s'. cache_inv s' \<and> cache_ext s' = cache_ext s \<and>
      cache_abs s' = (cache_abs s)\<lparr>cs_held := (cs_held (cache_abs s))(bn \<mapsto> b)\<rparr>)"
proof (cases "slot (bufs s) bn")
  case None
  then have "bn \<notin> dom (cs_held (cache_abs s)) \<union> cs_dirty (cache_abs s)"
    by (auto simp: cache_abs_def abs_of_def dom_def)
  with room busy_slots have "card (dom (cs_held (cache_abs s)) \<union> cs_dirty (cache_abs s)) < NBUF"
    by (simp add: card_insert_if)
  moreover from assms(1) obtain xs where "lru s xs" by (auto simp: cache_inv_def)
  ultimately show ?thesis
    using runs_bread_miss[OF assms(1) None assms(2)] by (blast intro: runs_mono)
next
  case (Some i)
  then have "\<not> locked s i" using assms(3) held_slot[of s bn i] by auto
  then show ?thesis using runs_bread_hit[OF assms(1) Some] by blast
qed

lemma cache_clean:
  assumes "cache_inv s" "cs_held (cache_abs s) bn = None" "bn \<notin> cs_dirty (cache_abs s)"
  shows "cs_view (cache_abs s) bn = cs_media (cache_abs s) bn"
proof (cases "slot (bufs s) bn")
  case None
  then show ?thesis by (simp add: cache_abs_def abs_of_def)
next
  case (Some i)
  then have "\<not> locked s i" "\<not> is_dirty (bufs s i)"
    using assms(2,3) by (auto simp: cache_abs_def abs_of_def split: if_splits)
  then show ?thesis
    using Some slot_SomeD[OF Some] assms(1) cache_ok_buf[of "bufs s" "locked s" "hw_disk s 1" i]
    by (auto simp: cache_inv_def cache_abs_def abs_of_def buf_ok_def)
qed

lemma cache_view_length:
  assumes "cache_inv s"
  shows "length (cs_view (cache_abs s) bn) = BSIZE"
proof (cases "slot (bufs s) bn")
  case None
  then show ?thesis using assms by (simp add: cache_abs_def abs_of_def cache_inv_def cache_ok_def)
next
  case (Some i)
  then show ?thesis
    using slot_SomeD[OF Some] assms cache_ok_buf[of "bufs s" "locked s" "hw_disk s 1" i]
    by (auto simp: cache_inv_def cache_abs_def abs_of_def buf_ok_def)
qed

text \<open>The laws of the contract, discharged for the code.\<close>

interpretation bc: block_cache cache_inv cache_abs cache_ext NBUF "bread ROOTDEV" buf_data set_data
    pin bwrite brelse
proof
  fix s :: "'z kbuf_scheme" and bn b d
  show "finite (dom (cs_held (cache_abs s)) \<union> cs_dirty (cache_abs s))" by (rule busy_slots)
  show "length (cs_view (cache_abs s) bn) = BSIZE" if "cache_inv s" by (rule cache_view_length[OF that])
  show "runs (bread ROOTDEV bn) s (\<lambda>b s'. cache_inv s' \<and> cache_ext s' = cache_ext s \<and>
      cache_abs s' = (cache_abs s)\<lparr>cs_held := (cs_held (cache_abs s))(bn \<mapsto> b)\<rparr>)"
    if "cache_inv s" "bn < FSSIZE" "cs_held (cache_abs s) bn = None"
      "card (insert bn (dom (cs_held (cache_abs s)) \<union> cs_dirty (cache_abs s))) \<le> NBUF"
    by (rule runs_bread[OF that])
  show "cs_view (cache_abs s) bn = cs_media (cache_abs s) bn"
    if "cache_inv s" "cs_held (cache_abs s) bn = None" "bn \<notin> cs_dirty (cache_abs s)"
    by (rule cache_clean[OF that])
  assume inv: "cache_inv s" and own: "cs_held (cache_abs s) bn = Some b"
  note p = cache_inv_parts[OF inv own]
  show "buf_data s b = cs_view (cache_abs s) bn \<and> length (buf_data s b) = BSIZE \<and> bn < FSSIZE"
    using p by (auto simp: buf_data_def cache_abs_def abs_of_def buf_ok_def)
  show "cache_inv (set_data b d s) \<and> cache_ext (set_data b d s) = cache_ext s \<and>
      cache_abs (set_data b d s) = (cache_abs s)\<lparr>cs_view := (cs_view (cache_abs s))(bn := d)\<rparr>"
    if "length d = BSIZE"
    using inv pure_put[OF p(1-3) that] by (auto simp: set_data_def cache_inv_def cache_abs_def)
  show "cache_inv (pin b s) \<and> cache_ext (pin b s) = cache_ext s \<and>
      cache_abs (pin b s) = (cache_abs s)\<lparr>cs_dirty := insert bn (cs_dirty (cache_abs s))\<rparr>"
    using inv pure_mark[OF p(1-3)]
    by (auto simp: pin_def cache_inv_def cache_abs_def) (auto simp: mark_dirty_def)
  show "runs (bwrite b) s (\<lambda>_ s'. cache_inv s' \<and> cache_ext s' = cache_ext s \<and>
      cache_abs s' = (cache_abs s)\<lparr>
        cs_media := (cs_media (cache_abs s))(bn := cs_view (cache_abs s) bn),
        cs_dirty := cs_dirty (cache_abs s) - {bn},
        cs_hist := cs_hist (cache_abs s) @ [(bn, cs_view (cache_abs s) bn)]\<rparr>)"
    by (rule runs_bwrite[OF inv own])
  show "runs (brelse b) s (\<lambda>_ s'. cache_inv s' \<and> cache_ext s' = cache_ext s \<and>
      cache_abs s' = (cache_abs s)\<lparr>cs_held := (cs_held (cache_abs s))(bn := None)\<rparr>)"
    if "bn \<in> cs_dirty (cache_abs s) \<or> cs_view (cache_abs s) bn = cs_media (cache_abs s) bn"
  proof -
    from inv obtain xs where "lru s xs" by (auto simp: cache_inv_def)
    from runs_brelse[OF inv own that this] show ?thesis by (auto elim: runs_mono)
  qed
qed

section \<open>Boot\<close>

definition fresh_buf :: "buf \<Rightarrow> bool" where
  "fresh_buf b \<longleftrightarrow> b_flags b = 0 \<and> b_dev b = 0 \<and> b_refcnt b = 0 \<and> length (b_data b) = BSIZE"

definition binit_inv :: "(u32 \<Rightarrow> u8 list) \<Rightarrow> 'z \<Rightarrow> nat list \<Rightarrow> 'z kbuf_scheme \<Rightarrow> bool" where
  "binit_inv D m ks s \<longleftrightarrow> kbuf.more s = m \<and> (\<exists>k \<le> NBUF. ks = [k..<NBUF] \<and> dll (nx s) (pv s) (rev [0..<k])) \<and>
     (\<forall>i. fresh_buf (bufs s i) \<and> sl_locked (slp s (SlBuf i)) = 0) \<and> hw_disk s 1 = D \<and>
     ide_queue s = [] \<and> \<not> hw_fail s \<and> have_disk1 s \<and> myproc s \<noteq> None"

lemma binit_step:
  assumes "binit_inv D m (x # xs) s"
  shows "runs (bnd (modify (\<lambda>s. set_next x (b_next (bufs s HEAD)) s)) (\<lambda>_.
       bnd (modify (set_prev x HEAD)) (\<lambda>_.
       bnd (initsleeplock (SlBuf x) ''buffer'') (\<lambda>_.
       bnd (modify (\<lambda>s. set_prev (b_next (bufs s HEAD)) x s)) (\<lambda>_.
       modify (set_next HEAD x)))))) s (\<lambda>_ s'. binit_inv D m xs s')"
proof -
  from assms obtain k where k: "x = k" "k < NBUF" "xs = [Suc k..<NBUF]"
    and d: "dll (nx s) (pv s) (rev [0..<k])"
    by (auto simp: binit_inv_def dest!: upt_eq_ConsD)
  have p: "dll ((nx s)(k := nx s HEAD, HEAD := k)) ((pv s)(k := HEAD, nx s HEAD := k)) (rev [0..<Suc k])"
    using dll_push[OF d, of k] k by simp
  have "xs = [Suc k..<NBUF] \<and> dll (\<lambda>i. if i = HEAD then k else if i = k then nx s HEAD else nx s i)
     (\<lambda>i. if i = nx s HEAD then k else if i = k then HEAD else pv s i) (rev [0..<Suc k])"
    using p k by (simp add: fun_upd_def)
  then show ?thesis
    using assms k
    by (auto simp: binit_inv_def fresh_buf_def intro!: exI[of _ "Suc k"] cong: if_cong)
qed

lemma runs_binit:
  assumes "\<And>i. fresh_buf (bufs s i) \<and> sl_locked (slp s (SlBuf i)) = 0"
    and "\<And>a. length (hw_disk s 1 a) = BSIZE"
    and "ide_queue s = []" "\<not> hw_fail s" "have_disk1 s" "myproc s \<noteq> None"
  shows "runs binit s (\<lambda>_ s'. cache_inv s' \<and> lru s' (rev [0..<NBUF]) \<and>
     cs_view (cache_abs s') = hw_disk s 1 \<and> cs_media (cache_abs s') = hw_disk s 1 \<and>
     cs_held (cache_abs s') = Map.empty \<and> cs_dirty (cache_abs s') = {} \<and>
     (\<forall>i. fresh_buf (bufs s' i)) \<and> kbuf.more s' = kbuf.more s)"
proof -
  let ?s0 = "set_next HEAD HEAD (set_prev HEAD HEAD (s\<lparr>spin := (spin s)(LkBcache :=
      (spin s LkBcache)\<lparr>lk_locked := 0, lk_name := ''bcache'', lk_cpu := None\<rparr>)\<rparr>))"
  have "binit_inv (hw_disk s 1) (kbuf.more s) [0..<NBUF] ?s0"
    using assms by (auto simp: binit_inv_def dll_def fresh_buf_def intro!: exI[of _ 0])
  then have "runs binit s (\<lambda>_ s'. binit_inv (hw_disk s 1) (kbuf.more s) [] s')"
    using runs_for_each[of "binit_inv (hw_disk s 1) (kbuf.more s)", OF _ binit_step]
    by (simp add: binit_def initlock_def)
  moreover have "cache_inv t \<and> lru t (rev [0..<NBUF]) \<and> cs_view (cache_abs t) = hw_disk s 1 \<and>
      cs_media (cache_abs t) = hw_disk s 1 \<and> cs_held (cache_abs t) = Map.empty \<and>
      cs_dirty (cache_abs t) = {} \<and> (\<forall>i. fresh_buf (bufs t i)) \<and> kbuf.more t = kbuf.more s"
    if t: "binit_inv (hw_disk s 1) (kbuf.more s) [] t" for t
  proof -
    from t obtain k where "k \<le> NBUF" "[k..<NBUF] = []" and dk: "dll (nx t) (pv t) (rev [0..<k])"
      by (metis binit_inv_def)
    then have "k = NBUF" by (auto simp: NBUF_def)
    with dk have d: "dll (nx t) (pv t) (rev [0..<NBUF])" by simp
    have fresh: "fresh_buf (bufs t i)" "sl_locked (slp t (SlBuf i)) = 0" for i
      using t by (auto simp: binit_inv_def)
    have "b_dev (bufs t i) \<noteq> ROOTDEV" for i using fresh[of i] by (simp add: fresh_buf_def)
    then have none: "slot (bufs t) bn = None" for bn by (simp add: slot_None)
    have "cache_ok (bufs t) (locked t) (hw_disk t 1)"
      using fresh assms(2) t
      by (auto simp: cache_ok_def buf_ok_def keys_inj_def fresh_buf_def locked_def binit_inv_def)
    with d t none show ?thesis
      by (auto simp: cache_inv_def lru_def binit_inv_def cache_abs_def abs_of_def)
  qed
  ultimately show ?thesis by (auto elim!: runs_mono)
qed

section \<open>Properties\<close>

text \<open>
  boot. From zeroed statics, with a drive of 512-byte sectors, \<open>binit\<close> builds the doubly
  linked list of all buffers in the order of the code, the cache invariant holds, and the logical
  contents of every block are those of the disk.
\<close>

theorem binit_establishes:
  assumes "\<And>a. length (d a) = BSIZE"
  shows "\<exists>s'. binit ((kbuf_zero d z)\<lparr>myproc := Some p\<rparr>) = Inr ((), s') \<and> cache_inv s'
    \<and> lru s' (rev [0..<NBUF]) \<and> cs_view (cache_abs s') = d"
proof -
  have "runs binit ((kbuf_zero d z)\<lparr>myproc := Some p\<rparr>) (\<lambda>_ s'. cache_inv s' \<and>
      lru s' (rev [0..<NBUF]) \<and> cs_view (cache_abs s') = d)"
    by (rule runs_mono, rule runs_binit)
       (use assms in \<open>simp_all add: kbuf_zero_def kern_zero_def fresh_buf_def buf_zero_def\<close>)
  then show ?thesis by (auto simp: runs_Inr)
qed

definition blank_disk :: "u32 \<Rightarrow> u8 list" where "blank_disk = (\<lambda>_. replicate BSIZE 0)"

theorem binit_establishes_witness:
  "\<exists>s' :: kbuf. binit ((kbuf_zero blank_disk ())\<lparr>myproc := Some 0\<rparr>) = Inr ((), s') \<and> cache_inv s'"
  using binit_establishes[where d = blank_disk and z = "()" and p = 0] by (auto simp: blank_disk_def)

text \<open>
  C6: \<open>bread\<close>. When the block is not held and, with it, at most \<open>NBUF\<close> blocks are held or pinned,
  \<open>bread\<close> returns a buffer that holds exactly that block, locked, with its current logical contents (from
  the cache or from the disk), and changes nothing else: contents, disk, pins, write history and
  the rest of the kernel stay as they were.
\<close>

theorem bread_correct:
  assumes "cache_inv s" "bn < FSSIZE" "cs_held (cache_abs s) bn = None"
    and "card (insert bn (dom (cs_held (cache_abs s)) \<union> cs_dirty (cache_abs s))) \<le> NBUF"
  shows "\<exists>b s'. bread ROOTDEV bn s = Inr (b, s') \<and> cache_inv s'
    \<and> buf_data s' b = cs_view (cache_abs s) bn
    \<and> cache_abs s' = (cache_abs s)\<lparr>cs_held := (cs_held (cache_abs s))(bn \<mapsto> b)\<rparr>
    \<and> cache_ext s' = cache_ext s"
proof -
  obtain b s' where r: "bread ROOTDEV bn s = Inr (b, s')" and i: "cache_inv s'" "cache_ext s' = cache_ext s"
    "cache_abs s' = (cache_abs s)\<lparr>cs_held := (cs_held (cache_abs s))(bn \<mapsto> b)\<rparr>"
    using bc.rd[OF assms] by (auto simp: runs_Inr)
  moreover have "buf_data s' b = cs_view (cache_abs s) bn"
    using bc.dat[OF i(1), of bn b] i(3) by simp
  ultimately show ?thesis by blast
qed

text \<open>A booted cache over a blank drive, for the witnesses.\<close>

definition boot_demo :: kbuf where
  "boot_demo = (kbuf_zero blank_disk ())\<lparr>myproc := Some 0\<rparr>"

lemma boot_demo_cache:
  "\<exists>s. binit boot_demo = Inr ((), s) \<and> cache_inv s \<and> cs_view (cache_abs s) = blank_disk \<and>
     cs_held (cache_abs s) = Map.empty \<and> cs_dirty (cache_abs s) = {}"
proof -
  have "runs binit boot_demo (\<lambda>_ s. cache_inv s \<and> cs_view (cache_abs s) = blank_disk \<and>
      cs_held (cache_abs s) = Map.empty \<and> cs_dirty (cache_abs s) = {})"
    by (rule runs_mono, rule runs_binit)
       (simp_all add: boot_demo_def blank_disk_def kbuf_zero_def kern_zero_def fresh_buf_def buf_zero_def)
  then show ?thesis by (auto simp: runs_Inr)
qed

theorem bread_correct_witness:
  "\<exists>s b s'. binit boot_demo = Inr ((), s) \<and> bread ROOTDEV 5 s = Inr (b, s')
     \<and> buf_data s' b = replicate BSIZE 0"
proof -
  obtain s where s: "binit boot_demo = Inr ((), s)" "cache_inv s" "cs_view (cache_abs s) = blank_disk"
    "cs_held (cache_abs s) = Map.empty" "cs_dirty (cache_abs s) = {}"
    using boot_demo_cache by blast
  then obtain b s' where "bread ROOTDEV 5 s = Inr (b, s')" "buf_data s' b = blank_disk 5"
    using bread_correct[of s 5] by (auto simp: NBUF_def)
  with s show ?thesis unfolding blank_disk_def by blast
qed

text \<open>
  C14: write and read back. Writing \<open>d\<close> to a block through \<open>bread\<close>, \<open>bwrite\<close> and \<open>brelse\<close> puts \<open>d\<close>
  on the disk as one sector write, and a later \<open>bread\<close> of any block returns \<open>d\<close> for that block and
  the old contents for every other block.
\<close>

theorem bwrite_bread:
  assumes "cache_inv s" "bn < FSSIZE" "bn' < FSSIZE" "length d = BSIZE"
    and "cs_held (cache_abs s) bn = None" "cs_held (cache_abs s) bn' = None"
    and "card (dom (cs_held (cache_abs s)) \<union> cs_dirty (cache_abs s)) < NBUF"
  shows "\<exists>x s'. bnd (bread ROOTDEV bn) (\<lambda>b. bnd (modify (set_data b d)) (\<lambda>_. bnd (bwrite b) (\<lambda>_.
      bnd (brelse b) (\<lambda>_. bnd (bread ROOTDEV bn') (\<lambda>b'. gets (\<lambda>s. buf_data s b')))))) s = Inr (x, s')
    \<and> x = (if bn' = bn then d else cs_view (cache_abs s) bn')
    \<and> cs_media (cache_abs s') = (cs_media (cache_abs s))(bn := d)
    \<and> cs_hist (cache_abs s') = cs_hist (cache_abs s) @ [(bn, d)] \<and> cache_inv s'"
proof -
  let ?Q = "\<lambda>x s'. x = (if bn' = bn then d else cs_view (cache_abs s) bn')
    \<and> cs_media (cache_abs s') = (cs_media (cache_abs s))(bn := d)
    \<and> cs_hist (cache_abs s') = cs_hist (cache_abs s) @ [(bn, d)] \<and> cache_inv s'"
  let ?B = "dom (cs_held (cache_abs s)) \<union> cs_dirty (cache_abs s)"
  have room: "card (insert a (?B - X)) \<le> NBUF" for a X
    using assms(7) busy_slots[of s] card_mono[OF busy_slots[of s], of "?B - X"]
    by (auto simp: card_insert_if)
  have "runs (bnd (bnd (bread ROOTDEV bn) (\<lambda>b. bnd (modify (\<lambda>s. set_data b d s))
      (\<lambda>_. bnd (bwrite b) (\<lambda>_. brelse b)))) (\<lambda>_. bnd (bread ROOTDEV bn') (\<lambda>b'. gets (\<lambda>s. buf_data s b')))) s ?Q"
    unfolding runs_bnd[of "bnd (bread ROOTDEV bn) _"]
  proof (rule bc.overwrite[OF assms(1,2,5)])
    show "card (insert bn ?B) \<le> NBUF" using room[of bn "{}"] by simp
    fix s1 :: "'a kbuf_scheme"
    assume i: "cache_inv s1" and a: "cache_abs s1 = (cache_abs s)\<lparr>
        cs_view := (cs_view (cache_abs s))(bn := d), cs_media := (cs_media (cache_abs s))(bn := d),
        cs_dirty := cs_dirty (cache_abs s) - {bn}, cs_hist := cs_hist (cache_abs s) @ [(bn, d)]\<rparr>"
    have sub: "insert bn' (dom (cs_held (cache_abs s1)) \<union> cs_dirty (cache_abs s1)) \<subseteq> insert bn' ?B"
      using a by auto
    have "finite (insert bn' ?B)" using busy_slots by blast
    from card_mono[OF this sub] room[of bn' "{}"]
    have "card (insert bn' (dom (cs_held (cache_abs s1)) \<union> cs_dirty (cache_abs s1))) \<le> NBUF"
      by simp
    from bc.rd[OF i assms(3) _ this] a assms(6) have
      "runs (bread ROOTDEV bn') s1 (\<lambda>b s'. cache_inv s' \<and>
        cache_abs s' = (cache_abs s1)\<lparr>cs_held := (cs_held (cache_abs s1))(bn' \<mapsto> b)\<rparr>)"
      by (auto elim: runs_mono)
    then show "runs (bnd (bread ROOTDEV bn') (\<lambda>b'. gets (\<lambda>s. buf_data s b'))) s1 ?Q"
      using bc.dat[of _ bn'] a by (fastforce elim!: runs_mono)
  qed (use assms(4) in simp_all)
  then show ?thesis by (simp add: bnd_assoc runs_Inr del: runs_bnd)
qed

theorem bwrite_bread_witness:
  "\<exists>s s'. binit boot_demo = Inr ((), s) \<and>
     bnd (bread ROOTDEV 9) (\<lambda>b. bnd (modify (set_data b (replicate BSIZE 3))) (\<lambda>_. bnd (bwrite b) (\<lambda>_.
      bnd (brelse b) (\<lambda>_. bnd (bread ROOTDEV 9) (\<lambda>b'. gets (\<lambda>s. buf_data s b')))))) s
       = Inr (replicate BSIZE 3, s')"
proof -
  obtain s where s: "binit boot_demo = Inr ((), s)" "cache_inv s"
    "cs_held (cache_abs s) = Map.empty" "cs_dirty (cache_abs s) = {}"
    using boot_demo_cache by blast
  then show ?thesis
    using bwrite_bread[of s 9 9 "replicate BSIZE 3"] by (auto simp: NBUF_def)
qed

text \<open>
  C32: replacement is least recently used. Releasing a buffer moves it to the front of the list and
  keeps the order of the others, and reading a block that is not cached recycles the last buffer
  of the list that is neither referenced nor dirty.
\<close>

theorem lru_replacement:
  assumes "cache_inv s" "lru s xs"
  shows "(\<forall>bn b. cs_held (cache_abs s) bn = Some b
        \<longrightarrow> bn \<in> cs_dirty (cache_abs s) \<or> cs_view (cache_abs s) bn = cs_media (cache_abs s) bn
        \<longrightarrow> (\<exists>s'. brelse b s = Inr ((), s') \<and> lru s' (b # remove1 b xs)))
    \<and> (\<forall>bn < FSSIZE. slot (bufs s) bn = None
        \<longrightarrow> card (dom (cs_held (cache_abs s)) \<union> cs_dirty (cache_abs s)) < NBUF
        \<longrightarrow> (\<exists>s'. bread ROOTDEV bn s = Inr (last (filter (unused s) xs), s') \<and> lru s' xs))"
proof (intro conjI allI impI)
  fix bn b assume "cs_held (cache_abs s) bn = Some b"
    "bn \<in> cs_dirty (cache_abs s) \<or> cs_view (cache_abs s) bn = cs_media (cache_abs s) bn"
  from runs_brelse[OF assms(1) this assms(2)]
  show "\<exists>s'. brelse b s = Inr ((), s') \<and> lru s' (b # remove1 b xs)" by (auto simp: runs_Inr)
next
  fix bn assume "bn < FSSIZE" "slot (bufs s) bn = None"
    "card (dom (cs_held (cache_abs s)) \<union> cs_dirty (cache_abs s)) < NBUF"
  from runs_bread_miss[OF assms(1) this(2,1,3) assms(2)]
  show "\<exists>s'. bread ROOTDEV bn s = Inr (last (filter (unused s) xs), s') \<and> lru s' xs"
    by (auto simp: runs_Inr)
qed

theorem lru_replacement_witness:
  "\<exists>s s'. binit boot_demo = Inr ((), s) \<and> lru s (rev [0..<NBUF]) \<and> bread ROOTDEV 7 s = Inr (0, s')"
proof -
  have "runs binit boot_demo (\<lambda>_ s. cache_inv s \<and> lru s (rev [0..<NBUF]) \<and>
      cs_held (cache_abs s) = Map.empty \<and> cs_dirty (cache_abs s) = {} \<and> (\<forall>i. fresh_buf (bufs s i)))"
    by (rule runs_mono, rule runs_binit)
       (simp_all add: boot_demo_def blank_disk_def kbuf_zero_def kern_zero_def fresh_buf_def buf_zero_def)
  then obtain s where s: "binit boot_demo = Inr ((), s)" "cache_inv s" "lru s (rev [0..<NBUF])"
    "cs_held (cache_abs s) = Map.empty" "cs_dirty (cache_abs s) = {}" "\<forall>i. fresh_buf (bufs s i)"
    by (auto simp: runs_Inr)
  have none: "slot (bufs s) 7 = None" using s(6) by (auto simp: slot_None fresh_buf_def)
  have "unused s i" for i using s(6) by (simp add: unused_def fresh_buf_def is_dirty_def)
  then have last: "last (filter (unused s) (rev [0..<NBUF])) = 0"
    by (simp add: last_rev NBUF_def)
  have "\<exists>s'. bread ROOTDEV 7 s = Inr (0, s')"
    using conjunct2[OF lru_replacement[OF s(2,3)], THEN spec[of _ 7]] none s(4,5)
    unfolding last by (auto simp: NBUF_def)
  with s(1,3) show ?thesis by blast
qed

end
