(* ===== verification/Xv6_Layout.thy ===== *)
theory Xv6_Layout
  imports Xv6_Bio
begin

text \<open>
  The on-disk format (\<^verbatim>\<open>crates/fs/src/fsh.rs\<close>): superblock, disk inodes, directory entries and the
  block arithmetic. The code reads and writes these structures through casts of the block's byte
  array; here they are decoded from and encoded to little-endian bytes at the offsets that
  \<open>repr(C)\<close> gives them. Fields of type \<open>i16\<close> are kept as 16-bit words.
\<close>

section \<open>Constants\<close>

definition ROOTINO :: u32 where "ROOTINO = 1"
definition NDIRECT :: nat where [simp]: "NDIRECT = 12"
definition NINDIRECT :: nat where [simp]: "NINDIRECT = BSIZE div 4"
definition MAXFILE :: nat where [simp]: "MAXFILE = NDIRECT + NINDIRECT"
definition DIRSIZ :: nat where [simp]: "DIRSIZ = 14"
definition DINODE_SIZE :: nat where [simp]: "DINODE_SIZE = 64"
definition IPB :: nat where [simp]: "IPB = BSIZE div DINODE_SIZE"
definition BPB :: u32 where [simp]: "BPB = of_nat (BSIZE * 8)"
definition T_DIR :: u16 where [simp]: "T_DIR = 1"
definition T_FILE :: u16 where [simp]: "T_FILE = 2"
definition T_DEV :: u16 where [simp]: "T_DEV = 3"

section \<open>Arrays of words\<close>

fun u32s_of :: "u8 list \<Rightarrow> u32 list" where
  "u32s_of (a # b # c # d # bs) = of_le32 [a, b, c, d] # u32s_of bs"
| "u32s_of _ = []"

definition u32s_bytes :: "u32 list \<Rightarrow> u8 list" where
  "u32s_bytes ws = concat (map le32 ws)"

lemma u32s_bytes_simps [simp]:
  "u32s_bytes [] = []" "u32s_bytes (w # ws) = le32 w @ u32s_bytes ws"
  by (simp_all add: u32s_bytes_def)

lemma length_u32s_bytes [simp]: "length (u32s_bytes ws) = 4 * length ws"
  by (induction ws) simp_all

lemma u32s_of_le32 [simp]: "u32s_of (le32 w @ bs) = w # u32s_of bs"
  using of_le32_le32[of w] by (simp add: le32_def)

lemma u32s_round [simp]: "u32s_of (u32s_bytes ws) = ws"
  by (induction ws) simp_all

lemma u32s_bytes_of: "length bs = 4 * n \<Longrightarrow> u32s_bytes (u32s_of bs) = bs"
proof (induction bs arbitrary: n rule: u32s_of.induct)
  case (1 a b c d bs)
  then obtain m where "n = Suc m" by (cases n) auto
  with 1 show ?case using le32_of_le32[of "[a, b, c, d]"] by (simp del: of_le32.simps)
qed (simp_all, presburger+)

lemma length_u32s_of: "length bs = 4 * n \<Longrightarrow> length (u32s_of bs) = n"
proof (induction bs arbitrary: n rule: u32s_of.induct)
  case (1 a b c d bs)
  then obtain m where "n = Suc m" by (cases n) auto
  with 1 show ?case by simp
qed auto

section \<open>Superblock\<close>

record superblock =
  sb_size :: u32
  sb_nblocks :: u32
  sb_ninodes :: u32
  sb_nlog :: u32
  sb_logstart :: u32
  sb_inodestart :: u32
  sb_bmapstart :: u32

definition sb_zero :: superblock where
  "sb_zero = \<lparr>sb_size = 0, sb_nblocks = 0, sb_ninodes = 0, sb_nlog = 0, sb_logstart = 0,
     sb_inodestart = 0, sb_bmapstart = 0\<rparr>"

definition sb_of :: "u8 list \<Rightarrow> superblock" where
  "sb_of bs = \<lparr>sb_size = get_u32 bs 0, sb_nblocks = get_u32 bs 4, sb_ninodes = get_u32 bs 8,
     sb_nlog = get_u32 bs 12, sb_logstart = get_u32 bs 16, sb_inodestart = get_u32 bs 20,
     sb_bmapstart = get_u32 bs 24\<rparr>"

definition sb_bytes :: "superblock \<Rightarrow> u8 list" where
  "sb_bytes sb = u32s_bytes [sb_size sb, sb_nblocks sb, sb_ninodes sb, sb_nlog sb, sb_logstart sb,
     sb_inodestart sb, sb_bmapstart sb]"

lemma slice_append_left: "off + n \<le> length xs \<Longrightarrow> slice off n (xs @ ys) = slice off n xs"
  by (simp add: slice_def)

lemma slice_append_right: "length xs \<le> off \<Longrightarrow> slice off n (xs @ ys) = slice (off - length xs) n ys"
  by (simp add: slice_def)

lemma sb_round: "sb_of (sb_bytes sb @ rest) = sb"
  by (simp add: sb_of_def sb_bytes_def get_u32_def slice_append_left slice_append_right)

section \<open>Disk inodes\<close>

record dinode =
  di_type :: u16
  di_major :: u16
  di_minor :: u16
  di_nlink :: u16
  di_size :: u32
  di_addrs :: "u32 list"

definition dinode_of :: "u8 list \<Rightarrow> dinode" where
  "dinode_of bs = \<lparr>di_type = get_u16 bs 0, di_major = get_u16 bs 2, di_minor = get_u16 bs 4,
     di_nlink = get_u16 bs 6, di_size = get_u32 bs 8,
     di_addrs = u32s_of (slice 12 (4 * (NDIRECT + 1)) bs)\<rparr>"

definition dinode_bytes :: "dinode \<Rightarrow> u8 list" where
  "dinode_bytes d = le16 (di_type d) @ le16 (di_major d) @ le16 (di_minor d) @ le16 (di_nlink d)
     @ le32 (di_size d) @ u32s_bytes (di_addrs d)"

lemma length_dinode_bytes: "length (di_addrs d) = NDIRECT + 1 \<Longrightarrow> length (dinode_bytes d) = DINODE_SIZE"
  by (simp add: dinode_bytes_def)

lemma dinode_round: "length (di_addrs d) = NDIRECT + 1 \<Longrightarrow> dinode_of (dinode_bytes d) = d"
  by (simp add: dinode_of_def dinode_bytes_def get_u16_def get_u32_def slice_append_left
      slice_append_right)

text \<open>Disk inode number \<open>k\<close> of a block.\<close>

definition get_dinode :: "u8 list \<Rightarrow> nat \<Rightarrow> dinode" where
  "get_dinode bs k = dinode_of (slice (k * DINODE_SIZE) DINODE_SIZE bs)"

definition put_dinode :: "nat \<Rightarrow> dinode \<Rightarrow> u8 list \<Rightarrow> u8 list" where
  "put_dinode k d bs = copy_at (k * DINODE_SIZE) (dinode_bytes d) bs"

definition dinode_zero :: dinode where
  "dinode_zero = \<lparr>di_type = 0, di_major = 0, di_minor = 0, di_nlink = 0, di_size = 0,
     di_addrs = replicate (NDIRECT + 1) 0\<rparr>"

lemma get_put_dinode:
  assumes "length bs = BSIZE" "k < IPB" "j < IPB" "length (di_addrs d) = NDIRECT + 1"
  shows "get_dinode (put_dinode k d bs) j = (if j = k then d else get_dinode bs j)"
proof (cases "j = k")
  case True
  then show ?thesis
    using assms length_dinode_bytes[OF assms(4)]
    by (simp add: get_dinode_def put_dinode_def dinode_round)
next
  case False
  then have "j * 64 + 64 \<le> k * 64 \<or> k * 64 + 64 \<le> j * 64" by arith
  then show ?thesis
    using False assms length_dinode_bytes[OF assms(4)]
      slice_copy_at_other[of "k * 64" "dinode_bytes d" bs "j * 64" 64]
    by (simp add: get_dinode_def put_dinode_def)
qed

lemma length_put_dinode [simp]:
  "length bs = BSIZE \<Longrightarrow> k < IPB \<Longrightarrow> length (di_addrs d) = NDIRECT + 1 \<Longrightarrow>
   length (put_dinode k d bs) = BSIZE"
  using length_dinode_bytes[of d] by (simp add: put_dinode_def)

section \<open>Directory entries\<close>

record dirent =
  de_inum :: u16
  de_name :: "u8 list"

definition DIRENT_SIZE :: nat where [simp]: "DIRENT_SIZE = 16"

definition dirent_of :: "u8 list \<Rightarrow> dirent" where
  "dirent_of bs = \<lparr>de_inum = get_u16 bs 0, de_name = slice 2 DIRSIZ bs\<rparr>"

definition dirent_bytes :: "dirent \<Rightarrow> u8 list" where
  "dirent_bytes d = le16 (de_inum d) @ de_name d"

definition dirent_empty :: dirent where
  "dirent_empty = \<lparr>de_inum = 0, de_name = replicate DIRSIZ 0\<rparr>"

lemma dirent_round: "length (de_name d) = DIRSIZ \<Longrightarrow> dirent_of (dirent_bytes d) = d"
  by (simp add: dirent_of_def dirent_bytes_def get_u16_def slice_append_left slice_append_right)

lemma dirent_round': "length bs = DIRENT_SIZE \<Longrightarrow> dirent_bytes (dirent_of bs) = bs"
  by (simp add: dirent_of_def dirent_bytes_def get_u16_def slice_def le16_of_le16)

section \<open>Block arithmetic\<close>

definition iblock :: "u32 \<Rightarrow> superblock \<Rightarrow> ('s, u32) kop" where
  "iblock i sb = u32_add (i div of_nat IPB) (sb_inodestart sb)"

definition bblock :: "u32 \<Rightarrow> superblock \<Rightarrow> ('s, u32) kop" where
  "bblock b sb = u32_add (b div BPB) (sb_bmapstart sb)"

end
