(* ===== verification/Xv6_Log.thy ===== *)
theory Xv6_Log
  imports Xv6_Layout
begin

text \<open>
  The logging layer (\<^verbatim>\<open>crates/fs/src/log.rs\<close>), with \<open>readsb\<close> of \<^verbatim>\<open>crates/fs/src/fs.rs\<close>.

  \<open>LogHeader\<close> in memory is \<open>lh_n\<close> with the array \<open>lh_block\<close> of \<open>LOGSIZE\<close> entries; on disk it is the
  first words of the header block. Buffers are released in the order in which Rust drops the
  guards: the last one read first. The main result is that a crash between any two disk writes of
  a commit, followed by recovery at boot, leaves either all or none of the transaction on disk.
\<close>

section \<open>State and operations\<close>

definition LOGSIZE :: nat where [simp]: "LOGSIZE = 30"
definition MAXOPBLOCKS :: int where [simp]: "MAXOPBLOCKS = 10"

record klog = kbuf +
  lg_start :: i32
  lg_size :: i32
  lg_outstanding :: i32
  lg_committing :: bool
  lg_dev :: i32
  lh_n :: i32
  lh_block :: "i32 list"

definition out_of_bounds :: stop where "out_of_bounds = Panic ''index out of bounds''"

definition readsb :: "i32 \<Rightarrow> ('z kbuf_scheme, superblock) kop" where
  "readsb dev = bnd (bread (u32_of_i32 dev) 1) (\<lambda>b.
     bnd (gets (\<lambda>s. sb_of (buf_data s b))) (\<lambda>sb.
     bnd (brelse b) (\<lambda>_. ret sb)))"

definition log_dev :: "('z klog_scheme, u32) kop" where
  "log_dev = gets (\<lambda>s. u32_of_i32 (lg_dev s))"

text \<open>\<open>(lg.start + tail as i32 + 1) as u32\<close> and \<open>lg.lh.block[tail] as u32\<close>.\<close>

definition log_block :: "nat \<Rightarrow> ('z klog_scheme, u32) kop" where
  "log_block tail = bnd (gets lg_start) (\<lambda>st.
     bnd (i32_add st (int tail)) (\<lambda>x. bnd (i32_add x 1) (\<lambda>y. ret (u32_of_i32 y))))"

definition home_block :: "nat \<Rightarrow> ('z klog_scheme, u32) kop" where
  "home_block tail = bnd (gets lh_block) (\<lambda>bs.
     bnd (guardk (tail < length bs) out_of_bounds) (\<lambda>_. ret (u32_of_i32 (bs ! tail))))"

definition install_trans :: "('z klog_scheme, unit) kop" where
  "install_trans = bnd (gets lh_n) (\<lambda>n. for_each (\<lambda>tail.
     bnd log_dev (\<lambda>dev.
     bnd (log_block tail) (\<lambda>lb.
     bnd (bread dev lb) (\<lambda>lbuf.
     bnd (home_block tail) (\<lambda>hb.
     bnd (bread dev hb) (\<lambda>dbuf.
     bnd (modify (\<lambda>s. set_data dbuf (buf_data s lbuf) s)) (\<lambda>_.
     bnd (bwrite dbuf) (\<lambda>_.
     bnd (brelse dbuf) (\<lambda>_.
     brelse lbuf))))))))) [0..<usize_of_i32 n])"

definition read_head :: "('z klog_scheme, unit) kop" where
  "read_head = bnd log_dev (\<lambda>dev.
     bnd (gets (\<lambda>s. u32_of_i32 (lg_start s))) (\<lambda>st.
     bnd (bread dev st) (\<lambda>b.
     bnd (gets (\<lambda>s. buf_data s b)) (\<lambda>d.
     bnd (modify (\<lambda>s. s\<lparr>lh_n := i32_of_u32 (get_u32 d 0)\<rparr>)) (\<lambda>_.
     bnd (gets lh_n) (\<lambda>n.
     bnd (for_each (\<lambda>i.
       bnd (guardk (i < LOGSIZE) out_of_bounds) (\<lambda>_.
       modify (\<lambda>s. s\<lparr>lh_block := (lh_block s)[i := i32_of_u32 (get_u32 d (4 + 4 * i))]\<rparr>)))
       [0..<usize_of_i32 n]) (\<lambda>_.
     brelse b)))))))"

definition write_head :: "('z klog_scheme, unit) kop" where
  "write_head = bnd log_dev (\<lambda>dev.
     bnd (gets (\<lambda>s. u32_of_i32 (lg_start s))) (\<lambda>st.
     bnd (bread dev st) (\<lambda>b.
     bnd (modify (\<lambda>s. set_data b (put_u32 0 (u32_of_i32 (lh_n s)) (buf_data s b)) s)) (\<lambda>_.
     bnd (gets lh_n) (\<lambda>n.
     bnd (for_each (\<lambda>i.
       bnd (guardk (i < LOGSIZE) out_of_bounds) (\<lambda>_.
       modify (\<lambda>s. set_data b (put_u32 (4 + 4 * i) (u32_of_i32 (lh_block s ! i)) (buf_data s b)) s)))
       [0..<usize_of_i32 n]) (\<lambda>_.
     bnd (bwrite b) (\<lambda>_.
     brelse b)))))))"

definition recover_from_log :: "('z klog_scheme, unit) kop" where
  "recover_from_log = bnd read_head (\<lambda>_.
     bnd install_trans (\<lambda>_.
     bnd (modify (\<lambda>s. s\<lparr>lh_n := 0\<rparr>)) (\<lambda>_.
     write_head)))"

definition write_log :: "('z klog_scheme, unit) kop" where
  "write_log = bnd (gets lh_n) (\<lambda>n. for_each (\<lambda>tail.
     bnd log_dev (\<lambda>dev.
     bnd (home_block tail) (\<lambda>hb.
     bnd (bread dev hb) (\<lambda>frm.
     bnd (log_block tail) (\<lambda>lb.
     bnd (bread dev lb) (\<lambda>dst.
     bnd (modify (\<lambda>s. set_data dst (buf_data s frm) s)) (\<lambda>_.
     bnd (bwrite dst) (\<lambda>_.
     bnd (brelse dst) (\<lambda>_.
     brelse frm))))))))) [0..<usize_of_i32 n])"

definition commit :: "('z klog_scheme, unit) kop" where
  "commit = bnd (gets lh_n) (\<lambda>n. whenk (0 < n)
     (bnd write_log (\<lambda>_.
      bnd write_head (\<lambda>_.
      bnd install_trans (\<lambda>_.
      bnd (modify (\<lambda>s. s\<lparr>lh_n := 0\<rparr>)) (\<lambda>_.
      write_head))))))"

text \<open>The header's size, 124 bytes, is below \<open>BSIZE\<close>: the check of \<open>initlog\<close> never fires.\<close>

definition LOGHEADER_SIZE :: nat where [simp]: "LOGHEADER_SIZE = 4 + 4 * LOGSIZE"

definition initlog :: "i32 \<Rightarrow> ('z klog_scheme, unit) kop" where
  "initlog dev = bnd (guardk (LOGHEADER_SIZE < BSIZE) (Panic ''initlog: too big logheader'')) (\<lambda>_.
     bnd (initlock LkLog ''log'') (\<lambda>_.
     bnd (readsb dev) (\<lambda>sb.
     bnd (modify (\<lambda>s. s\<lparr>lg_start := i32_of_u32 (sb_logstart sb),
                          lg_size := i32_of_u32 (sb_nlog sb), lg_dev := dev\<rparr>)) (\<lambda>_.
     recover_from_log))))"

text \<open>\<open>begin_op\<close>: where the code sleeps, the operation stops with the channel it sleeps on.\<close>

definition begin_op :: "('z klog_scheme, unit) kop" where
  "begin_op = bnd (acquire LkLog) (\<lambda>_.
     bnd (gets (\<lambda>s. s)) (\<lambda>s.
     bnd (guardk (\<not> lg_committing s) (Sleep ChLog)) (\<lambda>_.
     bnd (i32_add (lg_outstanding s) 1) (\<lambda>o1.
     bnd (guardk (i32_range (o1 * MAXOPBLOCKS)) mul_overflow) (\<lambda>_.
     bnd (i32_add (lh_n s) (o1 * MAXOPBLOCKS)) (\<lambda>need.
     bnd (guardk (\<not> need > int LOGSIZE) (Sleep ChLog)) (\<lambda>_.
     bnd (modify (\<lambda>s. s\<lparr>lg_outstanding := o1\<rparr>)) (\<lambda>_.
     release LkLog))))))))"

definition end_op :: "('z klog_scheme, unit) kop" where
  "end_op = bnd (acquire LkLog) (\<lambda>_.
     bnd (gets lg_outstanding) (\<lambda>o0.
     bnd (i32_sub o0 1) (\<lambda>o1.
     bnd (modify (\<lambda>s. s\<lparr>lg_outstanding := o1\<rparr>)) (\<lambda>_.
     bnd (gets lg_committing) (\<lambda>c.
     bnd (guardk (\<not> c) (Panic ''log.committing'')) (\<lambda>_.
     bnd (if o1 = 0 then modify (\<lambda>s. s\<lparr>lg_committing := True\<rparr>) else wakeup ChLog) (\<lambda>_.
     bnd (release LkLog) (\<lambda>_.
     whenk (o1 = 0)
       (bnd commit (\<lambda>_.
        bnd (acquire LkLog) (\<lambda>_.
        bnd (modify (\<lambda>s. s\<lparr>lg_committing := False\<rparr>)) (\<lambda>_.
        bnd (wakeup ChLog) (\<lambda>_.
        release LkLog)))))))))))))"

text \<open>The absorption loop of \<open>log_write\<close>: the first index below \<open>n\<close> that logs the block, or \<open>n\<close>.\<close>

fun log_index :: "nat \<Rightarrow> i32 \<Rightarrow> i32 list \<Rightarrow> nat" where
  "log_index 0 bn bs = 0"
| "log_index (Suc n) bn [] = 0"
| "log_index (Suc n) bn (b # bs) = (if b = bn then 0 else Suc (log_index n bn bs))"

definition log_write :: "nat \<Rightarrow> ('z klog_scheme, unit) kop" where
  "log_write b = bnd (gets (\<lambda>s. s)) (\<lambda>s.
     bnd (guardk (\<not> lh_n s \<ge> int LOGSIZE) (Panic ''too big a transaction'')) (\<lambda>_.
     bnd (i32_sub (lg_size s) 1) (\<lambda>cap.
     bnd (guardk (\<not> lh_n s \<ge> cap) (Panic ''too big a transaction'')) (\<lambda>_.
     bnd (guardk (\<not> lg_outstanding s < 1) (Panic ''log_write outside of trans'')) (\<lambda>_.
     bnd (acquire LkLog) (\<lambda>_.
     let bn = i32_of_u32 (b_blockno (bufs s b)); i = log_index (nat (lh_n s)) bn (lh_block s) in
     bnd (modify (\<lambda>s. s\<lparr>lh_block := (lh_block s)[i := bn]\<rparr>)) (\<lambda>_.
     bnd (whenk (int i = lh_n s) (bnd (i32_add (lh_n s) 1) (\<lambda>n1. modify (\<lambda>s. s\<lparr>lh_n := n1\<rparr>)))) (\<lambda>_.
     bnd (modify (pin b)) (\<lambda>_.
     release LkLog)))))))))"

section \<open>Frames\<close>

lemma klog_frame:
  fixes s s' :: "'z klog_scheme"
  assumes "cache_ext s' = cache_ext s"
  shows "lg_start s' = lg_start s" "lg_size s' = lg_size s" "lg_outstanding s' = lg_outstanding s"
    "lg_committing s' = lg_committing s" "lg_dev s' = lg_dev s" "lh_n s' = lh_n s"
    "lh_block s' = lh_block s" "klog.more s' = klog.more s" "myproc s' = myproc s"
  using assms by (cases s; cases s'; simp add: cache_ext_def)+

lemma cache_cong:
  assumes "bufs s' = bufs s" "slp s' = slp s" "hw_disk s' = hw_disk s" "ide_queue s' = ide_queue s"
    "hw_fail s' = hw_fail s" "have_disk1 s' = have_disk1 s" "myproc s' = myproc s"
    "hw_writes s' = hw_writes s"
  shows "cache_inv s' = cache_inv s" "cache_abs s' = cache_abs s"
  using assms by (simp_all add: cache_inv_def cache_abs_def lru_def locked_def[abs_def])

lemma cache_lock [simp]:
  "cache_inv (kacq lk s) = cache_inv s" "cache_abs (kacq lk s) = cache_abs s"
  "cache_inv (krel lk s) = cache_inv s" "cache_abs (krel lk s) = cache_abs s"
  "cache_inv (kwake ch s) = cache_inv s" "cache_abs (kwake ch s) = cache_abs s"
  by (rule cache_cong; simp)+

lemma cache_log_fields [simp]:
  "cache_inv (lh_n_update f s) = cache_inv s" "cache_abs (lh_n_update f s) = cache_abs s"
  "cache_inv (lh_block_update g s) = cache_inv s" "cache_abs (lh_block_update g s) = cache_abs s"
  "cache_inv (lg_outstanding_update f s) = cache_inv s"
  "cache_abs (lg_outstanding_update f s) = cache_abs s"
  "cache_inv (lg_committing_update h s) = cache_inv s"
  "cache_abs (lg_committing_update h s) = cache_abs s"
  "cache_inv (lg_start_update f s) = cache_inv s" "cache_abs (lg_start_update f s) = cache_abs s"
  "cache_inv (lg_size_update f s) = cache_inv s" "cache_abs (lg_size_update f s) = cache_abs s"
  "cache_inv (lg_dev_update f s) = cache_inv s" "cache_abs (lg_dev_update f s) = cache_abs s"
  "cache_inv (spin_update k t) = cache_inv t" "cache_abs (spin_update k t) = cache_abs t"
  by (rule cache_cong; simp)+

lemma set_data_simps [simp]:
  "set_data b d' (set_data b d s) = set_data b d' s" "buf_data (set_data b d s) b = d"
  by (simp_all add: set_data_def upd_buf_def buf_data_def)

lemma klog_upd_buf [simp]:
  "lh_block (upd_buf i f s) = lh_block s" "lh_n (upd_buf i f s) = lh_n s"
  "lg_start (upd_buf i f s) = lg_start s" "lg_dev (upd_buf i f s) = lg_dev s"
  "lg_size (upd_buf i f s) = lg_size s" "lg_outstanding (upd_buf i f s) = lg_outstanding s"
  "lg_committing (upd_buf i f s) = lg_committing s" "klog.more (upd_buf i f s) = klog.more s"
  by (simp_all add: upd_buf_def)

lemma klog_set_data [simp]:
  "lh_block (set_data b d s) = lh_block s" "lh_n (set_data b d s) = lh_n s"
  by (simp_all add: set_data_def)

lemma klog_ktrans [simp]:
  "lh_block (kacq lk s) = lh_block s" "lh_n (kacq lk s) = lh_n s"
  "lg_start (kacq lk s) = lg_start s" "lg_dev (kacq lk s) = lg_dev s"
  "lg_size (kacq lk s) = lg_size s" "lg_outstanding (kacq lk s) = lg_outstanding s"
  "lg_committing (kacq lk s) = lg_committing s" "klog.more (kacq lk s) = klog.more s"
  "lh_block (krel lk s) = lh_block s" "lh_n (krel lk s) = lh_n s"
  "lg_start (krel lk s) = lg_start s" "lg_dev (krel lk s) = lg_dev s"
  "lg_size (krel lk s) = lg_size s" "lg_outstanding (krel lk s) = lg_outstanding s"
  "lg_committing (krel lk s) = lg_committing s" "klog.more (krel lk s) = klog.more s"
  "lh_block (kwake ch s) = lh_block s" "lh_n (kwake ch s) = lh_n s"
  "lg_start (kwake ch s) = lg_start s" "lg_dev (kwake ch s) = lg_dev s"
  "lg_size (kwake ch s) = lg_size s" "lg_outstanding (kwake ch s) = lg_outstanding s"
  "lg_committing (kwake ch s) = lg_committing s" "klog.more (kwake ch s) = klog.more s"
  by (simp_all add: ktrans_defs)

section \<open>The header block\<close>

definition head_bytes :: "nat \<Rightarrow> (nat \<Rightarrow> u32) \<Rightarrow> u8 list \<Rightarrow> u8 list" where
  "head_bytes n h d = fold (\<lambda>i. put_u32 (4 + 4 * i) (h i)) [0..<n] (put_u32 0 (of_nat n) d)"

lemma head_bytes_0: "head_bytes 0 h d = put_u32 0 0 d"
  by (simp add: head_bytes_def)

lemma head_fold:
  "n \<le> LOGSIZE \<Longrightarrow> length d = BSIZE \<Longrightarrow>
   length (fold (\<lambda>i. put_u32 (4 + 4 * i) (h i)) [0..<n] d) = BSIZE \<and>
   get_u32 (fold (\<lambda>i. put_u32 (4 + 4 * i) (h i)) [0..<n] d) 0 = get_u32 d 0 \<and>
   (\<forall>i < n. get_u32 (fold (\<lambda>i. put_u32 (4 + 4 * i) (h i)) [0..<n] d) (4 + 4 * i) = h i)"
proof (induction n)
  case (Suc n)
  then show ?case by (auto simp: get_put_u32_other less_Suc_eq)
qed simp

lemma head_bytes:
  assumes "n \<le> LOGSIZE" "length d = BSIZE"
  shows "length (head_bytes n h d) = BSIZE" "get_u32 (head_bytes n h d) 0 = of_nat n"
    "\<And>i. i < n \<Longrightarrow> get_u32 (head_bytes n h d) (4 + 4 * i) = h i"
  using head_fold[OF assms(1), of "put_u32 0 (of_nat n) d" h] assms by (simp_all add: head_bytes_def)

lemma head_fold_state:
  "fold (\<lambda>i s. set_data b (put_u32 (4 + 4 * i) (u32_of_i32 (lh_block s ! i)) (buf_data s b)) s) is
     (set_data b d s)
   = set_data b (fold (\<lambda>i. put_u32 (4 + 4 * i) (u32_of_i32 (lh_block s ! i))) is d) s"
  by (induction "is" arbitrary: d) simp_all

section \<open>The operations in terms of the contract\<close>

lemma u32_of_i32_int [simp]: "u32_of_i32 (int n) = of_nat n"
  by (simp add: u32_of_i32_def)

text \<open>Where the log lies: the header at block \<open>st\<close>, logged blocks from \<open>st + 1\<close>.\<close>

definition log_at :: "nat \<Rightarrow> nat \<Rightarrow> u32" where "log_at st i = of_nat (st + 1 + i)"

text \<open>The log proper: the superblock reserves \<open>LOGSIZE\<close> blocks, the first of them for the header.\<close>

definition LOGCAP :: nat where [simp]: "LOGCAP = 29"

definition log_layout :: "'z klog_scheme \<Rightarrow> nat \<Rightarrow> bool" where
  "log_layout s st \<longleftrightarrow> lg_dev s = 1 \<and> lg_start s = int st \<and> st + 1 + LOGSIZE \<le> unat FSSIZE"

lemma log_layout_ext:
  fixes s s' :: "'z klog_scheme"
  shows "cache_ext s' = cache_ext s \<Longrightarrow> log_layout s' st = log_layout s st"
  using klog_frame[of s' s] by (simp add: log_layout_def)

lemma of_nat_lt_FSSIZE: "n < 2000 \<Longrightarrow> (of_nat n :: u32) < FSSIZE"
  by (simp add: word_less_nat_alt unat_of_nat)

lemma of_nat_u32_inj: "m < 2000 \<Longrightarrow> n < 2000 \<Longrightarrow> (of_nat m :: u32) = of_nat n \<longleftrightarrow> m = n"
  by (simp add: word_unat_eq_iff unat_of_nat)

lemma runs_log_dev [wp]: "log_layout s st \<Longrightarrow> runs log_dev s Q = Q ROOTDEV s"
  by (simp add: log_dev_def log_layout_def u32_of_i32_def ROOTDEV_def)

lemma runs_log_block [wp]:
  assumes "log_layout s st" "i < LOGSIZE"
  shows "runs (log_block i) s Q = Q (log_at st i) s"
proof -
  have "int st + int i + 1 = int (st + 1 + i)" by simp
  then have "u32_of_i32 (int st + int i + 1) = log_at st i"
    by (simp only: u32_of_i32_int log_at_def)
  then show ?thesis
    using assms by (simp add: log_block_def log_layout_def i32_range_def)
qed

lemma runs_home_block [wp]:
  "i < length (lh_block s) \<Longrightarrow> runs (home_block i) s Q = Q (u32_of_i32 (lh_block s ! i)) s"
  by (simp add: home_block_def)

lemma log_at_lt: "log_layout s st \<Longrightarrow> i < LOGSIZE \<Longrightarrow> log_at st i < FSSIZE"
  unfolding log_at_def by (rule of_nat_lt_FSSIZE) (simp add: log_layout_def)

lemma head_lt: "log_layout s st \<Longrightarrow> (of_nat st :: u32) < FSSIZE"
  by (rule of_nat_lt_FSSIZE) (simp add: log_layout_def)

text \<open>The blocks the header in memory names.\<close>

definition logged :: "'z klog_scheme \<Rightarrow> nat \<Rightarrow> u32" where
  "logged s i = u32_of_i32 (lh_block s ! i)"

lemma usize_of_i32_int: "n \<le> LOGSIZE \<Longrightarrow> usize_of_i32 (int n) = n"
  by simp

lemma runs_write_head:
  fixes s :: "'z klog_scheme"
  assumes inv: "cache_inv s" "log_layout s st" "cs_held (cache_abs s) (of_nat st) = None"
    and room: "card (insert (of_nat st) (dom (cs_held (cache_abs s)) \<union> cs_dirty (cache_abs s))) \<le> NBUF"
    and n: "lh_n s = int n" "n \<le> LOGSIZE"
    and Q: "\<And>s'. cache_inv s' \<Longrightarrow> cache_ext s' = cache_ext s \<Longrightarrow>
      cache_abs s' = cs_put (of_nat st)
        (head_bytes n (logged s) (cs_view (cache_abs s) (of_nat st))) (cache_abs s) \<Longrightarrow> Q () s'"
  shows "runs write_head s Q"
proof -
  let ?d = "head_bytes n (logged s) (cs_view (cache_abs s) (of_nat st))"
  let ?M = "\<lambda>b. bnd (modify (\<lambda>s. set_data b (put_u32 0 (u32_of_i32 (lh_n s)) (buf_data s b)) s)) (\<lambda>_.
     bnd (gets lh_n) (\<lambda>n. for_each (\<lambda>i. bnd (guardk (i < LOGSIZE) out_of_bounds) (\<lambda>_.
       modify (\<lambda>s. set_data b (put_u32 (4 + 4 * i) (u32_of_i32 (lh_block s ! i)) (buf_data s b)) s)))
       [0..<usize_of_i32 n]))"
  have start: "u32_of_i32 (lg_start s) = of_nat st" using inv by (simp add: log_layout_def)
  have "runs write_head s Q \<longleftrightarrow> runs (bnd (bread ROOTDEV (of_nat st)) (\<lambda>b. bnd (?M b) (\<lambda>_.
      bnd (bwrite b) (\<lambda>_. brelse b)))) s Q"
    by (simp add: write_head_def runs_log_dev[OF inv(2)] start)
  also have "\<dots>"
  proof (rule bc.overwrite[OF inv(1) head_lt[OF inv(2)] inv(3) room, where d = ?d])
    fix b P and s1 :: "'z klog_scheme"
    assume s1: "cache_inv s1" "cache_ext s1 = cache_ext s"
      "cache_abs s1 = (cache_abs s)\<lparr>cs_held := (cs_held (cache_abs s))(of_nat st \<mapsto> b)\<rparr>"
      and P: "P () (set_data b ?d s1)"
    have d: "buf_data s1 b = cs_view (cache_abs s) (of_nat st)"
      using bc.dat[OF s1(1), of "of_nat st" b] s1(3) by simp
    have "\<forall>i \<in> set [0..<n]. i < LOGSIZE" using n(2) by auto
    note loop = runs_for_each_guarded[OF this]
    show "runs (?M b) s1 P"
      using P klog_frame[OF s1(2)] n(1) d usize_of_i32_int[OF n(2)]
      by (simp add: loop head_fold_state head_bytes_def logged_def[abs_def] del: LOGSIZE_def)
  next
    show "length ?d = BSIZE" using head_bytes(1)[OF n(2) bc.view_length[OF inv(1)]] .
  qed (auto simp: cs_put_def intro!: Q)
  finally show ?thesis .
qed

text \<open>The two copying loops: from the cache to the log, and from the log to the home blocks.\<close>

definition log_ready :: "'z klog_scheme \<Rightarrow> nat \<Rightarrow> nat \<Rightarrow> bool" where
  "log_ready s st n \<longleftrightarrow> cache_inv s \<and> log_layout s st \<and> cs_held (cache_abs s) = Map.empty \<and>
     lh_n s = int n \<and> n < LOGSIZE \<and> length (lh_block s) = LOGSIZE \<and>
     (\<forall>i < n. logged s i < FSSIZE \<and> logged s i \<noteq> of_nat st \<and>
        (\<forall>j < LOGCAP. logged s i \<noteq> log_at st j)) \<and>
     card (cs_dirty (cache_abs s)) < NBUF \<and> (\<forall>i < n. logged s i \<in> cs_dirty (cache_abs s))"

lemma card_insert_le:
  assumes "finite A" "card A < n" "a \<in> A" "B \<subseteq> A"
  shows "card (insert b (insert a B)) \<le> n"
proof -
  have "card (insert b (insert a B)) \<le> card (insert b A)"
    using assms by (intro card_mono) auto
  also have "\<dots> \<le> Suc (card A)" by (simp add: assms(1) card_insert_if)
  finally show ?thesis using assms(2) by simp
qed

lemma runs_write_log:
  fixes s :: "'z klog_scheme"
  assumes r: "log_ready s st n"
  shows "runs write_log s (\<lambda>_ s'. cache_inv s' \<and> cache_ext s' = cache_ext s \<and>
    cache_abs s' = cs_writes (map (\<lambda>i. (log_at st i, cs_view (cache_abs s) (logged s i))) [0..<n])
      (cache_abs s))"
proof -
  let ?step = "\<lambda>tail. bnd log_dev (\<lambda>dev. bnd (home_block tail) (\<lambda>hb. bnd (bread dev hb) (\<lambda>frm.
     bnd (log_block tail) (\<lambda>lb. bnd (bread dev lb) (\<lambda>dst.
     bnd (modify (\<lambda>s. set_data dst (buf_data s frm) s)) (\<lambda>_.
     bnd (bwrite dst) (\<lambda>_. bnd (brelse dst) (\<lambda>_. brelse frm))))))))"
  have n: "lh_n s = int n" "n \<le> LOGCAP" and len: "length (lh_block s) = LOGSIZE"
    and lay: "log_layout s st" and inv: "cache_inv s" and none: "cs_held (cache_abs s) = Map.empty"
    and home: "\<And>i. i < n \<Longrightarrow> logged s i < FSSIZE" "\<And>i. i < n \<Longrightarrow> logged s i \<in> cs_dirty (cache_abs s)"
    and disj: "\<And>i j. i < n \<Longrightarrow> j < LOGCAP \<Longrightarrow> logged s i \<noteq> log_at st j"
    using r by (auto simp: log_ready_def)
  have "runs (for_each ?step [0..<n]) s (\<lambda>_ s'. cache_inv s' \<and> cache_ext s' = cache_ext s \<and>
    cache_abs s' = cs_writes (map (\<lambda>i. (log_at st i, cs_view (cache_abs s) (logged s i))) [0..<n])
      (cache_abs s))"
  proof (rule bc.copy_loop[OF inv])
    fix i and s' :: "'z klog_scheme" and Q
    assume i: "i < n" and s': "cache_inv s'" "cache_ext s' = cache_ext s"
      "cs_held (cache_abs s') = cs_held (cache_abs s)"
      and dirty: "cs_dirty (cache_abs s') \<subseteq> cs_dirty (cache_abs s)"
      and Q: "\<And>s''. cache_inv s'' \<Longrightarrow> cache_ext s'' = cache_ext s' \<Longrightarrow> cache_abs s'' =
        cs_put (log_at st i) (cs_view (cache_abs s') (logged s i)) (cache_abs s') \<Longrightarrow> Q () s''"
    have lay': "log_layout s1 st" if "cache_ext s1 = cache_ext s'" for s1 :: "'z klog_scheme"
      using that s'(2) lay log_layout_ext[of s1 s st] by simp
    have hb: "u32_of_i32 (lh_block s' ! i) = logged s i" "i < length (lh_block s')"
      using klog_frame[OF s'(2)] len i n(2) by (simp_all add: logged_def)
    have iL: "i < LOGSIZE" and iC: "i < LOGCAP" using i n(2) by simp_all
    have fin: "finite (cs_dirty (cache_abs s))" using busy_slots[of s] by simp
    have "runs (bnd (bread ROOTDEV (logged s i)) (\<lambda>frm. bnd (log_block i) (\<lambda>lb. bnd (bread ROOTDEV lb) (\<lambda>dst.
       bnd (modify (\<lambda>s. set_data dst (buf_data s frm) s)) (\<lambda>_.
       bnd (bwrite dst) (\<lambda>_. bnd (brelse dst) (\<lambda>_. brelse frm))))))) s' Q"
    proof (rule bc.copy_block[OF s'(1), where dst = "log_at st i"])
      show "card (insert (log_at st i) (insert (logged s i)
          (dom (cs_held (cache_abs s')) \<union> cs_dirty (cache_abs s')))) \<le> NBUF"
        using card_insert_le[OF fin _ home(2)[OF i] dirty] r s'(3) none by (simp add: log_ready_def)
    qed (use home(1)[OF i] none s'(3) disj[OF i iC] log_at_lt[OF lay iL] runs_log_block[OF lay' iL]
          in \<open>auto simp: cs_put_def intro!: Q\<close>)
    then show "runs (?step i) s' Q"
      using runs_log_dev[OF lay'[OF refl]] runs_home_block[OF hb(2)] hb(1) by simp
  qed (use disj n(2) in auto)
  then show ?thesis using n usize_of_i32_int[of n] by (simp add: write_log_def)
qed

lemma runs_install_trans:
  fixes s :: "'z klog_scheme"
  assumes inv: "cache_inv s" and lay: "log_layout s st" and none: "cs_held (cache_abs s) = Map.empty"
    and n: "lh_n s = int n" "n \<le> LOGCAP" and len: "length (lh_block s) = LOGSIZE"
    and home: "\<And>i. i < n \<Longrightarrow> logged s i < FSSIZE"
    and disj: "\<And>i j. i < n \<Longrightarrow> j < LOGCAP \<Longrightarrow> logged s i \<noteq> log_at st j"
    and room: "\<And>i. i < n \<Longrightarrow> card (insert (logged s i) (insert (log_at st i) (cs_dirty (cache_abs s)))) \<le> NBUF"
  shows "runs install_trans s (\<lambda>_ s'. cache_inv s' \<and> cache_ext s' = cache_ext s \<and>
    cache_abs s' = cs_writes (map (\<lambda>i. (logged s i, cs_view (cache_abs s) (log_at st i))) [0..<n])
      (cache_abs s))"
proof -
  let ?step = "\<lambda>tail. bnd log_dev (\<lambda>dev. bnd (log_block tail) (\<lambda>lb. bnd (bread dev lb) (\<lambda>lbuf.
     bnd (home_block tail) (\<lambda>hb. bnd (bread dev hb) (\<lambda>dbuf.
     bnd (modify (\<lambda>s. set_data dbuf (buf_data s lbuf) s)) (\<lambda>_.
     bnd (bwrite dbuf) (\<lambda>_. bnd (brelse dbuf) (\<lambda>_. brelse lbuf))))))))"
  have "runs (for_each ?step [0..<n]) s (\<lambda>_ s'. cache_inv s' \<and> cache_ext s' = cache_ext s \<and>
    cache_abs s' = cs_writes (map (\<lambda>i. (logged s i, cs_view (cache_abs s) (log_at st i))) [0..<n])
      (cache_abs s))"
  proof (rule bc.copy_loop[OF inv])
    fix i and s' :: "'z klog_scheme" and Q
    assume i: "i < n" and s': "cache_inv s'" "cache_ext s' = cache_ext s"
      "cs_held (cache_abs s') = cs_held (cache_abs s)"
      and dirty: "cs_dirty (cache_abs s') \<subseteq> cs_dirty (cache_abs s)"
      and Q: "\<And>s''. cache_inv s'' \<Longrightarrow> cache_ext s'' = cache_ext s' \<Longrightarrow> cache_abs s'' =
        cs_put (logged s i) (cs_view (cache_abs s') (log_at st i)) (cache_abs s') \<Longrightarrow> Q () s''"
    have iL: "i < LOGSIZE" and iC: "i < LOGCAP" using i n(2) by simp_all
    have lay': "log_layout s' st" using s'(2) lay log_layout_ext[of s' s st] by simp
    have hb: "runs (home_block i) s1 P" if "cache_ext s1 = cache_ext s'" "P (logged s i) s1"
      for P and s1 :: "'z klog_scheme"
      using that klog_frame[of s1 s] s'(2) len iL by (simp add: runs_home_block logged_def)
    have fin: "finite (cs_dirty (cache_abs s))" using busy_slots[of s] by simp
    have "runs (bnd (bread ROOTDEV (log_at st i)) (\<lambda>lbuf. bnd (home_block i) (\<lambda>hb. bnd (bread ROOTDEV hb) (\<lambda>dbuf.
       bnd (modify (\<lambda>s. set_data dbuf (buf_data s lbuf) s)) (\<lambda>_.
       bnd (bwrite dbuf) (\<lambda>_. bnd (brelse dbuf) (\<lambda>_. brelse lbuf))))))) s' Q"
    proof (rule bc.copy_block[OF s'(1), where dst = "logged s i"])
      have "card (insert (logged s i) (insert (log_at st i) (cs_dirty (cache_abs s'))))
          \<le> card (insert (logged s i) (insert (log_at st i) (cs_dirty (cache_abs s))))"
        using dirty fin by (intro card_mono) auto
      then show "card (insert (logged s i) (insert (log_at st i)
          (dom (cs_held (cache_abs s')) \<union> cs_dirty (cache_abs s')))) \<le> NBUF"
        using room[OF i] s'(3) none by simp
      show "log_at st i \<noteq> logged s i" using disj[OF i iC] by simp
    qed (use home[OF i] none s'(3) log_at_lt[OF lay iL] in \<open>auto simp: cs_put_def intro!: Q hb\<close>)
    then show "runs (?step i) s' Q"
      using runs_log_dev[OF lay'] runs_log_block[OF lay' iL] by simp
  qed (metis disj n(2) less_le_trans)
  then show ?thesis using n usize_of_i32_int[of n] by (simp add: install_trans_def)
qed

lemma fold_lh_block:
  "fold (\<lambda>i s. s\<lparr>lh_block := (lh_block s)[i := g i]\<rparr>) is s
   = s\<lparr>lh_block := fold (\<lambda>i bs. bs[i := g i]) is (lh_block s)\<rparr>"
  by (induction "is" arbitrary: s) simp_all

lemma fold_list_update:
  "n \<le> length bs \<Longrightarrow> length (fold (\<lambda>i bs. bs[i := g i]) [0..<n] bs) = length bs \<and>
   (\<forall>i < n. fold (\<lambda>i bs. bs[i := g i]) [0..<n] bs ! i = g i)"
  by (induction n) (auto simp: nth_list_update less_Suc_eq)

lemma cache_ext_log_fields:
  fixes s s' :: "'z klog_scheme"
  shows "cache_ext s' = cache_ext s \<Longrightarrow>
    cache_ext (s'\<lparr>lh_n := n, lh_block := bs\<rparr>) = cache_ext (s\<lparr>lh_n := n, lh_block := bs\<rparr>)"
  by (cases s; cases s') (simp add: cache_ext_def)

lemma i32_of_u32_nat: "n < 2 ^ 31 \<Longrightarrow> i32_of_u32 (of_nat n) = int n"
  by (simp add: i32_of_u32_def signed_of_nat signed_take_bit_int_eq_self)

text \<open>\<open>read_head\<close> loads the header that is on the disk.\<close>

definition head_of :: "u8 list \<Rightarrow> nat \<Rightarrow> u32" where "head_of d i = get_u32 d (4 + 4 * i)"

lemma runs_read_head:
  fixes s :: "'z klog_scheme"
  assumes inv: "cache_inv s" and lay: "log_layout s st" and none: "cs_held (cache_abs s) (of_nat st) = None"
    and room: "card (insert (of_nat st) (dom (cs_held (cache_abs s)) \<union> cs_dirty (cache_abs s))) \<le> NBUF"
    and n: "get_u32 (cs_view (cache_abs s) (of_nat st)) 0 = of_nat n" "n \<le> LOGSIZE"
    and len: "length (lh_block s) = LOGSIZE"
    and Q: "\<And>s'. cache_inv s' \<Longrightarrow> cache_abs s' = cache_abs s \<Longrightarrow> log_layout s' st \<Longrightarrow> lh_n s' = int n \<Longrightarrow>
      length (lh_block s') = LOGSIZE \<Longrightarrow> (\<And>i. i < n \<Longrightarrow> logged s' i = head_of (cs_view (cache_abs s) (of_nat st)) i)
      \<Longrightarrow> lg_size s' = lg_size s \<Longrightarrow> lg_outstanding s' = lg_outstanding s \<Longrightarrow>
      lg_committing s' = lg_committing s \<Longrightarrow> klog.more s' = klog.more s \<Longrightarrow> Q () s'"
  shows "runs read_head s Q"
proof -
  let ?d = "cs_view (cache_abs s) (of_nat st)"
  let ?bs = "fold (\<lambda>i bs. bs[i := i32_of_u32 (get_u32 ?d (4 + 4 * i))]) [0..<n] (lh_block s)"
  have start: "u32_of_i32 (lg_start s) = of_nat st" using lay by (simp add: log_layout_def)
  have "\<forall>i \<in> set [0..<n]. i < LOGSIZE" using n(2) by auto
  note loop = runs_for_each_guarded[OF this]
  have "runs (brelse b) (s1\<lparr>lh_n := int n, lh_block := ?bs\<rparr>) Q"
    if s1: "cache_inv s1" "cache_ext s1 = cache_ext s"
      "cache_abs s1 = (cache_abs s)\<lparr>cs_held := (cs_held (cache_abs s))(of_nat st \<mapsto> b)\<rparr>"
    for b and s1 :: "'z klog_scheme"
  proof (rule runs_mono[OF bc.rel_unchanged[of "s\<lparr>lh_n := int n, lh_block := ?bs\<rparr>" "of_nat st"]])
    fix u and s2 :: "'z klog_scheme"
    assume s2: "cache_inv s2 \<and> cache_ext s2 = cache_ext (s\<lparr>lh_n := int n, lh_block := ?bs\<rparr>) \<and>
      cache_abs s2 = cache_abs (s\<lparr>lh_n := int n, lh_block := ?bs\<rparr>)"
    have fr: "lg_start s2 = lg_start s" "lg_dev s2 = lg_dev s" "lh_n s2 = int n" "lh_block s2 = ?bs"
      "lg_size s2 = lg_size s" "lg_outstanding s2 = lg_outstanding s" "lg_committing s2 = lg_committing s"
      "klog.more s2 = klog.more s"
      using klog_frame[of s2 "s\<lparr>lh_n := int n, lh_block := ?bs\<rparr>"] s2 by simp_all
    moreover have "log_layout s2 st" using lay fr by (simp add: log_layout_def)
    ultimately have "Q () s2"
      using s2 fold_list_update[of n "lh_block s" "\<lambda>i. i32_of_u32 (get_u32 ?d (4 + 4 * i))"] len n(2)
      by (intro Q) (auto simp: logged_def head_of_def)
    then show "Q u s2" by simp
  qed (use s1 inv none cache_ext_log_fields[OF s1(2)] in simp_all)
  note rest = this
  have nn: "i32_of_u32 (of_nat n) = int n" "usize_of_i32 (int n) = n"
    using i32_of_u32_nat[of n] n(2) by simp_all
  have "runs (bread ROOTDEV (of_nat st)) s (\<lambda>b s1. runs (bnd (gets (\<lambda>s. buf_data s b)) (\<lambda>d.
     bnd (modify (\<lambda>s. s\<lparr>lh_n := i32_of_u32 (get_u32 d 0)\<rparr>)) (\<lambda>_. bnd (gets lh_n) (\<lambda>n.
     bnd (for_each (\<lambda>i. bnd (guardk (i < LOGSIZE) out_of_bounds) (\<lambda>_.
       modify (\<lambda>s. s\<lparr>lh_block := (lh_block s)[i := i32_of_u32 (get_u32 d (4 + 4 * i))]\<rparr>)))
       [0..<usize_of_i32 n]) (\<lambda>_. brelse b))))) s1 Q)"
  proof (rule runs_mono[OF bc.rd[OF inv head_lt[OF lay] none room]])
    fix b and s1 :: "'z klog_scheme"
    assume s1: "cache_inv s1 \<and> cache_ext s1 = cache_ext s \<and>
      cache_abs s1 = (cache_abs s)\<lparr>cs_held := (cs_held (cache_abs s))(of_nat st \<mapsto> b)\<rparr>"
    then have "buf_data s1 b = ?d" "lh_block s1 = lh_block s"
      using bc.dat[of s1 "of_nat st" b] klog_frame(7)[of s1 s] by simp_all
    then show "runs (bnd (gets (\<lambda>s. buf_data s b)) (\<lambda>d.
     bnd (modify (\<lambda>s. s\<lparr>lh_n := i32_of_u32 (get_u32 d 0)\<rparr>)) (\<lambda>_. bnd (gets lh_n) (\<lambda>n.
     bnd (for_each (\<lambda>i. bnd (guardk (i < LOGSIZE) out_of_bounds) (\<lambda>_.
       modify (\<lambda>s. s\<lparr>lh_block := (lh_block s)[i := i32_of_u32 (get_u32 d (4 + 4 * i))]\<rparr>)))
       [0..<usize_of_i32 n]) (\<lambda>_. brelse b))))) s1 Q"
      using rest s1 by (simp add: loop fold_lh_block n(1) nn del: LOGSIZE_def)
  qed
  then show ?thesis by (simp add: read_head_def runs_log_dev[OF lay] start)
qed

section \<open>Commit and recovery\<close>

text \<open>
  The disk writes of a commit, in order, for the contents \<open>f\<close> of the cache: the blocks to the log,
  the header, the blocks to their homes, the empty header.
\<close>

definition log_writes :: "nat \<Rightarrow> nat \<Rightarrow> (nat \<Rightarrow> u32) \<Rightarrow> (u32 \<Rightarrow> u8 list) \<Rightarrow> (u32 \<times> u8 list) list" where
  "log_writes st n h f = map (\<lambda>i. (log_at st i, f (h i))) [0..<n]"

definition home_writes :: "nat \<Rightarrow> (nat \<Rightarrow> u32) \<Rightarrow> (u32 \<Rightarrow> u8 list) \<Rightarrow> (u32 \<times> u8 list) list" where
  "home_writes n h f = map (\<lambda>i. (h i, f (h i))) [0..<n]"

definition commit_writes :: "nat \<Rightarrow> nat \<Rightarrow> (nat \<Rightarrow> u32) \<Rightarrow> (u32 \<Rightarrow> u8 list) \<Rightarrow> (u32 \<times> u8 list) list" where
  "commit_writes st n h f = log_writes st n h f
     @ [(of_nat st, head_bytes n h (f (of_nat st)))]
     @ home_writes n h f
     @ [(of_nat st, put_u32 0 0 (head_bytes n h (f (of_nat st))))]"

text \<open>The logged blocks lie outside the log.\<close>

definition geom :: "nat \<Rightarrow> nat \<Rightarrow> (nat \<Rightarrow> u32) \<Rightarrow> bool" where
  "geom st n h \<longleftrightarrow> st + 1 + LOGSIZE \<le> unat FSSIZE \<and> n \<le> LOGCAP \<and>
     (\<forall>i < n. h i \<noteq> of_nat st \<and> (\<forall>j < LOGCAP. h i \<noteq> log_at st j))"

lemma apply_writes_at:
  assumes "k < n" "\<And>i j. i < n \<Longrightarrow> j < n \<Longrightarrow> a i = a j \<Longrightarrow> x i = x j"
  shows "apply_writes (map (\<lambda>i. (a i, x i)) [0..<n]) d (a k) = x k"
  using assms
proof (induction n)
  case (Suc n)
  show ?case
  proof (cases "a k = a n")
    case True
    then have "x k = x n" using Suc.prems by blast
    with True show ?thesis by simp
  next
    case False
    then have "k < n" using Suc.prems(1) by (cases "k = n") auto
    then have "apply_writes (map (\<lambda>i. (a i, x i)) [0..<n]) d (a k) = x k"
      using Suc.prems(2) by (intro Suc.IH) auto
    with False show ?thesis by simp
  qed
qed simp

lemma log_at_inj: "geom st n h \<Longrightarrow> i < LOGCAP \<Longrightarrow> j < LOGCAP \<Longrightarrow> log_at st i = log_at st j \<longleftrightarrow> i = j"
  unfolding log_at_def by (subst of_nat_u32_inj) (auto simp: geom_def)

lemma log_at_head: "geom st n h \<Longrightarrow> i < LOGCAP \<Longrightarrow> log_at st i \<noteq> of_nat st"
  unfolding log_at_def by (subst of_nat_u32_inj) (auto simp: geom_def)

lemma log_writes_other: "(\<And>i. i < n \<Longrightarrow> a \<noteq> log_at st i) \<Longrightarrow> apply_writes (log_writes st n h f) d a = d a"
  by (rule apply_writes_other) (auto simp: log_writes_def, blast)

lemma home_writes_other: "(\<And>i. i < n \<Longrightarrow> a \<noteq> h i) \<Longrightarrow> apply_writes (home_writes n h f) d a = d a"
  by (rule apply_writes_other) (auto simp: home_writes_def, blast)

lemma home_writes_at: "k < n \<Longrightarrow> apply_writes (home_writes n h f) d (h k) = f (h k)"
  unfolding home_writes_def by (rule apply_writes_at) auto

lemma log_writes_at: "geom st n h \<Longrightarrow> k < n \<Longrightarrow> apply_writes (log_writes st n h f) d (log_at st k) = f (h k)"
  unfolding log_writes_def by (rule apply_writes_at, assumption) (metis geom_def less_le_trans log_at_inj)

lemma log_writes_head: "geom st n h \<Longrightarrow> apply_writes (log_writes st n h f) d (of_nat st) = d (of_nat st)"
  by (rule log_writes_other) (metis geom_def less_le_trans log_at_head)

lemma home_writes_head: "geom st n h \<Longrightarrow> apply_writes (home_writes n h f) d (of_nat st) = d (of_nat st)"
  by (rule home_writes_other) (metis geom_def)

lemma cache_ext_lh_n:
  fixes s s' :: "'z klog_scheme"
  shows "cache_ext s' = cache_ext s \<Longrightarrow> cache_ext (s'\<lparr>lh_n := n\<rparr>) = cache_ext (s\<lparr>lh_n := n\<rparr>)"
  by (cases s; cases s') (simp add: cache_ext_def)

lemma runs_erase:
  fixes s :: "'z klog_scheme"
  assumes "cache_inv s" "log_layout s st" "cs_held (cache_abs s) = Map.empty"
    and "card (cs_dirty (cache_abs s)) < NBUF"
    and Q: "\<And>s'. cache_inv s' \<Longrightarrow> cache_ext s' = cache_ext (s\<lparr>lh_n := 0\<rparr>) \<Longrightarrow>
      cache_abs s' = cs_put (of_nat st) (put_u32 0 0 (cs_view (cache_abs s) (of_nat st))) (cache_abs s)
      \<Longrightarrow> Q () s'"
  shows "runs write_head (s\<lparr>lh_n := 0\<rparr>) Q"
proof (rule runs_write_head[where n = 0 and st = st])
  show "card (insert (of_nat st) (dom (cs_held (cache_abs (s\<lparr>lh_n := 0\<rparr>))) \<union>
      cs_dirty (cache_abs (s\<lparr>lh_n := 0\<rparr>)))) \<le> NBUF"
    using assms(3,4) busy_slots[of s] by (simp add: card_insert_if)
  show "log_layout (s\<lparr>lh_n := 0\<rparr>) st" using assms(2) by (simp add: log_layout_def)
next
  fix s' :: "'z klog_scheme"
  assume "cache_inv s'" "cache_ext s' = cache_ext (s\<lparr>lh_n := 0\<rparr>)"
    "cache_abs s' = cs_put (of_nat st) (head_bytes 0 (logged (s\<lparr>lh_n := 0\<rparr>))
      (cs_view (cache_abs (s\<lparr>lh_n := 0\<rparr>)) (of_nat st))) (cache_abs (s\<lparr>lh_n := 0\<rparr>))"
  then show "Q () s'" by (intro Q) (simp_all add: head_bytes_0)
qed (use assms in simp_all)

lemma log_ready_geom: "log_ready s st n \<Longrightarrow> geom st n (logged s)"
  by (auto simp: log_ready_def log_layout_def geom_def)

lemma runs_commit:
  fixes s :: "'z klog_scheme"
  assumes r: "log_ready s st n" and n0: "0 < n"
    and Q: "\<And>s'. cache_inv s' \<Longrightarrow> cache_ext s' = cache_ext (s\<lparr>lh_n := 0\<rparr>) \<Longrightarrow>
      cache_abs s' = cs_writes (commit_writes st n (logged s) (cs_view (cache_abs s))) (cache_abs s)
      \<Longrightarrow> Q () s'"
  shows "runs commit s Q"
proof -
  let ?f = "cs_view (cache_abs s)" and ?h = "logged s" and ?st = "of_nat st :: u32"
  let ?w1 = "log_writes st n ?h ?f" and ?w2 = "[(?st, head_bytes n ?h (?f ?st))]"
    and ?w3 = "home_writes n ?h ?f"
  note g = log_ready_geom[OF r]
  have lay: "log_layout s st" and n: "lh_n s = int n" "n \<le> LOGSIZE" "n \<le> LOGCAP" and len: "length (lh_block s) = LOGSIZE"
    and home: "\<And>i. i < n \<Longrightarrow> ?h i < FSSIZE" and disj: "\<And>i j. i < n \<Longrightarrow> j < LOGCAP \<Longrightarrow> ?h i \<noteq> log_at st j"
    and none: "cs_held (cache_abs s) = Map.empty" and few: "card (cs_dirty (cache_abs s)) < NBUF"
    and hd: "\<And>i. i < n \<Longrightarrow> ?h i \<in> cs_dirty (cache_abs s)"
    using r by (auto simp: log_ready_def)
  have fin: "finite (cs_dirty (cache_abs s))" using busy_slots[of s] by simp
  have few': "card A < NBUF" if "A \<subseteq> cs_dirty (cache_abs s)" for A
    using few card_mono[OF fin that] by simp
  have ext: "log_layout t st" "logged t = ?h" "lh_n t = int n" "length (lh_block t) = LOGSIZE"
    if "cache_ext t = cache_ext s" for t :: "'z klog_scheme"
    using klog_frame[OF that] log_layout_ext[OF that] lay n len by (simp_all add: logged_def[abs_def])
  have erase: "runs write_head (t\<lparr>lh_n := 0\<rparr>) Q"
    if t: "cache_inv t" "cache_ext t = cache_ext s" "cache_abs t = cs_writes (?w1 @ ?w2 @ ?w3) (cache_abs s)"
    for t :: "'z klog_scheme"
  proof (rule runs_erase[OF t(1) ext(1)[OF t(2)]])
    show "card (cs_dirty (cache_abs t)) < NBUF" by (rule few') (use t(3) in auto)
    fix s' :: "'z klog_scheme"
    assume s': "cache_inv s'" "cache_ext s' = cache_ext (t\<lparr>lh_n := 0\<rparr>)"
      "cache_abs s' = cs_put ?st (put_u32 0 0 (cs_view (cache_abs t) ?st)) (cache_abs t)"
    have "cs_view (cache_abs t) ?st = head_bytes n ?h (?f ?st)"
      using t(3) by (simp add: home_writes_head[OF g])
    then show "Q () s'"
      using s' t cache_ext_lh_n[OF t(2), of 0] by (auto simp: commit_writes_def intro!: Q)
  qed (use t none in simp_all)
  have install: "runs (bnd install_trans (\<lambda>_. bnd (modify (\<lambda>s. s\<lparr>lh_n := 0\<rparr>)) (\<lambda>_. write_head))) t Q"
    if t: "cache_inv t" "cache_ext t = cache_ext s" "cache_abs t = cs_writes (?w1 @ ?w2) (cache_abs s)"
    for t :: "'z klog_scheme"
  proof -
    have disj': "logged t i \<noteq> log_at st j" if "i < n" "j < LOGCAP" for i j
      using that disj ext(2)[OF t(2)] by simp
    have room: "card (insert (logged t i) (insert (log_at st i) (cs_dirty (cache_abs t)))) \<le> NBUF"
      if i: "i < n" for i
    proof -
      have "cs_dirty (cache_abs t) \<subseteq> cs_dirty (cache_abs s)" using t(3) by auto
      from card_insert_le[OF fin few hd[OF i] this] show ?thesis
        using ext(2)[OF t(2)] by (simp add: insert_commute)
    qed
    have w3: "map (\<lambda>i. (logged t i, cs_view (cache_abs t) (log_at st i))) [0..<n] = ?w3"
      using t(3) ext(2)[OF t(2)] log_writes_at[OF g] log_at_head[OF g] n(3)
      by (auto simp: home_writes_def)
    show ?thesis
      unfolding runs_bnd
    proof (rule runs_mono[OF runs_install_trans[OF t(1) ext(1)[OF t(2)] _ ext(3)[OF t(2)] n(3)
              ext(4)[OF t(2)] _ disj' room]])
      fix u and s' :: "'z klog_scheme"
      assume "cache_inv s' \<and> cache_ext s' = cache_ext t \<and> cache_abs s' = cs_writes
        (map (\<lambda>i. (logged t i, cs_view (cache_abs t) (log_at st i))) [0..<n]) (cache_abs t)"
      then have "runs write_head (s'\<lparr>lh_n := 0\<rparr>) Q"
        unfolding w3 using t by (intro erase) simp_all
      then show "runs (modify (\<lambda>s. s\<lparr>lh_n := 0\<rparr>)) s' (\<lambda>x s'. runs write_head s' Q)" by simp
    qed (use t none home ext(2)[OF t(2)] in simp_all)
  qed
  have head: "runs (bnd write_head (\<lambda>_. bnd install_trans (\<lambda>_.
      bnd (modify (\<lambda>s. s\<lparr>lh_n := 0\<rparr>)) (\<lambda>_. write_head)))) t Q"
    if t: "cache_inv t" "cache_ext t = cache_ext s" "cache_abs t = cs_writes ?w1 (cache_abs s)"
    for t :: "'z klog_scheme"
    unfolding runs_bnd[of write_head]
  proof (rule runs_write_head[OF t(1) ext(1)[OF t(2)] _ _ ext(3)[OF t(2)] n(2)])
    have "card (cs_dirty (cache_abs t)) < NBUF" by (rule few') (use t(3) in auto)
    then show "card (insert ?st (dom (cs_held (cache_abs t)) \<union> cs_dirty (cache_abs t))) \<le> NBUF"
      using busy_slots[of t] t(3) none by (simp add: card_insert_if)
    fix s' :: "'z klog_scheme"
    assume "cache_inv s'" "cache_ext s' = cache_ext t" "cache_abs s' = cs_put ?st
      (head_bytes n (logged t) (cs_view (cache_abs t) ?st)) (cache_abs t)"
    then show "runs (bnd install_trans (\<lambda>_. bnd (modify (\<lambda>s. s\<lparr>lh_n := 0\<rparr>)) (\<lambda>_. write_head))) s' Q"
      using t ext(2)[OF t(2)] log_writes_head[OF g] by (intro install) simp_all
  qed (use t none in simp)
  have "runs write_log s (\<lambda>_ s'. runs (bnd write_head (\<lambda>_. bnd install_trans (\<lambda>_.
      bnd (modify (\<lambda>s. s\<lparr>lh_n := 0\<rparr>)) (\<lambda>_. write_head)))) s' Q)"
    by (rule runs_mono[OF runs_write_log[OF r]]) (auto intro!: head simp: log_writes_def simp del: runs_bnd)
  then show ?thesis using n0 n(1) by (simp add: commit_def)
qed

text \<open>The disk writes of recovery on a disk \<open>d\<close>: what the header names, then the empty header.\<close>

definition recover_writes :: "nat \<Rightarrow> (u32 \<Rightarrow> u8 list) \<Rightarrow> (u32 \<times> u8 list) list" where
  "recover_writes st d = map (\<lambda>i. (head_of (d (of_nat st)) i, d (log_at st i)))
       [0..<unat (get_u32 (d (of_nat st)) 0)] @ [(of_nat st, put_u32 0 0 (d (of_nat st)))]"

definition header_ok :: "nat \<Rightarrow> u8 list \<Rightarrow> bool" where
  "header_ok st b \<longleftrightarrow> geom st (unat (get_u32 b 0)) (head_of b) \<and>
     (\<forall>i < unat (get_u32 b 0). head_of b i < FSSIZE)"

lemma runs_recover:
  fixes s :: "'z klog_scheme"
  assumes inv: "cache_inv s" and lay: "log_layout s st" and none: "cs_held (cache_abs s) = Map.empty"
    and cold: "cs_dirty (cache_abs s) = {}" and len: "length (lh_block s) = LOGSIZE"
    and hd: "header_ok st (cs_view (cache_abs s) (of_nat st))"
    and Q: "\<And>s'. cache_inv s' \<Longrightarrow> log_layout s' st \<Longrightarrow> lh_n s' = 0 \<Longrightarrow> length (lh_block s') = LOGSIZE \<Longrightarrow>
      lg_size s' = lg_size s \<Longrightarrow> lg_outstanding s' = lg_outstanding s \<Longrightarrow> lg_committing s' = lg_committing s \<Longrightarrow>
      klog.more s' = klog.more s \<Longrightarrow> cache_abs s' = cs_writes (recover_writes st (cs_view (cache_abs s))) (cache_abs s) \<Longrightarrow> Q () s'"
  shows "runs recover_from_log s Q"
  unfolding recover_from_log_def runs_bnd
proof -
  let ?d = "cs_view (cache_abs s)" and ?st = "of_nat st :: u32"
  define n where "n = unat (get_u32 (?d ?st) 0)"
  have g: "geom st n (head_of (?d ?st))" and fs: "\<And>i. i < n \<Longrightarrow> head_of (?d ?st) i < FSSIZE"
    using hd by (auto simp: header_ok_def n_def)
  have nL: "n \<le> LOGSIZE" "n \<le> LOGCAP" using g by (simp_all add: geom_def)
  have two: "card (insert a (insert b {})) \<le> NBUF" for a b :: u32
    by (simp add: card_insert_if NBUF_def)
  show "runs read_head s (\<lambda>x s'. runs install_trans s' (\<lambda>x s'.
      runs (modify (\<lambda>s. s\<lparr>lh_n := 0\<rparr>)) s' (\<lambda>x s'. runs write_head s' Q)))"
  proof (rule runs_read_head[OF inv lay, where n = n])
    fix s1 :: "'z klog_scheme"
    assume s1: "cache_inv s1" "cache_abs s1 = cache_abs s" "log_layout s1 st" "lh_n s1 = int n"
      "length (lh_block s1) = LOGSIZE" "lg_size s1 = lg_size s" "lg_outstanding s1 = lg_outstanding s"
      "lg_committing s1 = lg_committing s" "klog.more s1 = klog.more s"
      and h: "\<And>i. i < n \<Longrightarrow> logged s1 i = head_of (?d ?st) i"
    have w: "map (\<lambda>i. (logged s1 i, cs_view (cache_abs s1) (log_at st i))) [0..<n]
        = map (\<lambda>i. (head_of (?d ?st) i, ?d (log_at st i))) [0..<n]"
      using h s1(2) by simp
    show "runs install_trans s1 (\<lambda>x s'.
      runs (modify (\<lambda>s. s\<lparr>lh_n := 0\<rparr>)) s' (\<lambda>x s'. runs write_head s' Q))"
    proof (rule runs_mono[OF runs_install_trans[OF s1(1,3) _ s1(4) nL(2) s1(5)]])
      show "logged s1 i \<noteq> log_at st j" if "i < n" "j < LOGCAP" for i j
        using g h that by (auto simp: geom_def)
      show "card (insert (logged s1 i) (insert (log_at st i) (cs_dirty (cache_abs s1)))) \<le> NBUF" for i
        using two s1(2) cold by simp
    next
      fix u and s2 :: "'z klog_scheme"
      assume s2: "cache_inv s2 \<and> cache_ext s2 = cache_ext s1 \<and> cache_abs s2 = cs_writes
        (map (\<lambda>i. (logged s1 i, cs_view (cache_abs s1) (log_at st i))) [0..<n]) (cache_abs s1)"
      note fr = klog_frame[OF conjunct1[OF conjunct2[OF s2]]]
      have "runs write_head (s2\<lparr>lh_n := 0\<rparr>) Q"
      proof (rule runs_erase[where st = st])
        show "log_layout s2 st" using log_layout_ext[of s2 s1] s2 s1(3) by simp
        show "card (cs_dirty (cache_abs s2)) < NBUF" using s2 s1(2) cold by (simp add: NBUF_def)
      next
        fix s3 :: "'z klog_scheme"
        assume s3: "cache_inv s3" "cache_ext s3 = cache_ext (s2\<lparr>lh_n := 0\<rparr>)" "cache_abs s3 =
          cs_put ?st (put_u32 0 0 (cs_view (cache_abs s2) ?st)) (cache_abs s2)"
        have "apply_writes (map (\<lambda>i. (head_of (?d ?st) i, ?d (log_at st i))) [0..<n]) ?d ?st = ?d ?st"
          by (rule apply_writes_other) (use g in \<open>auto simp: geom_def\<close>)
        then have "cache_abs s3 = cs_writes (recover_writes st ?d) (cache_abs s)"
          using s3(3) s2 s1(2) unfolding w by (simp add: recover_writes_def n_def)
        moreover note fr3 = klog_frame[OF s3(2)]
        moreover have "log_layout s3 st" using fr3 fr s1(3) by (simp add: log_layout_def)
        ultimately show "Q () s3" using s3(1) fr s1 by (intro Q) simp_all
      qed (use s2 s1(2) none in simp_all)
      then show "runs (modify (\<lambda>s. s\<lparr>lh_n := 0\<rparr>)) s2 (\<lambda>x s'. runs write_head s' Q)" by simp
    qed (use s1(2) none fs h in simp_all)
  qed (use none cold len nL two[of ?st ?st] in \<open>simp_all add: n_def\<close>)
qed

section \<open>Atomicity\<close>

text \<open>The log's own blocks.\<close>

definition in_log :: "nat \<Rightarrow> u32 \<Rightarrow> bool" where
  "in_log st a \<longleftrightarrow> a = of_nat st \<or> (\<exists>i < LOGCAP. a = log_at st i)"

text \<open>A disk on which the log is empty, and the disk after recovery of a crashed one.\<close>

definition log_empty :: "nat \<Rightarrow> (u32 \<Rightarrow> u8 list) \<Rightarrow> bool" where
  "log_empty st d \<longleftrightarrow> get_u32 (d (of_nat st)) 0 = 0"

definition recovered :: "nat \<Rightarrow> (u32 \<Rightarrow> u8 list) \<Rightarrow> u32 \<Rightarrow> u8 list" where
  "recovered st d = apply_writes (recover_writes st d) d"

lemma recovered_empty: "log_empty st d \<Longrightarrow> a \<noteq> of_nat st \<Longrightarrow> recovered st d a = d a"
  by (simp add: recovered_def recover_writes_def log_empty_def)

lemma recovered_header:
  assumes g: "geom st n h" and hd: "d (of_nat st) = head_bytes n h b" "length b = BSIZE"
    and lg: "\<And>i. i < n \<Longrightarrow> d (log_at st i) = f (h i)" and a: "a \<noteq> of_nat st"
  shows "recovered st d a = (if a \<in> h ` {..<n} then f a else d a)"
proof -
  have n: "n \<le> LOGSIZE" using g by (simp add: geom_def)
  have "unat (get_u32 (d (of_nat st)) 0) = n"
    using head_bytes(2)[OF n hd(2)] n unfolding hd(1) by (simp add: unat_of_nat)
  moreover have "map (\<lambda>i. (head_of (d (of_nat st)) i, d (log_at st i))) [0..<n] = home_writes n h f"
    using head_bytes(3)[OF n hd(2)] lg unfolding hd(1) by (simp add: home_writes_def head_of_def)
  ultimately have "recovered st d a = apply_writes (home_writes n h f) d a"
    using a by (simp add: recovered_def recover_writes_def)
  then show ?thesis
    using home_writes_at[of _ n h f d] home_writes_other[of n a h f d] by auto
qed

lemma take_home_writes: "take m (home_writes n h f) = home_writes (min m n) h f"
  by (cases "m \<le> n") (simp_all add: home_writes_def take_map take_upt min_def)

lemma length_home_writes [simp]: "length (home_writes n h f) = n"
  by (simp add: home_writes_def)

lemma fst_home_writes: "fst ` set (home_writes n h f) = h ` {..<n}"
  by (force simp: home_writes_def image_iff)

lemma home_writes_apply:
  "apply_writes (home_writes n h f) d a = (if a \<in> h ` {..<n} then f a else d a)"
  using home_writes_at[of _ n h f d] home_writes_other[of n a h f d] by auto

text \<open>
  Cut the writes of a commit after \<open>k\<close> of them: recovery gives the old disk as long as the header
  has not been written, and the new one from then on.
\<close>

lemma crash_cases:
  assumes g: "geom st n h" and e: "log_empty st d0" and b: "f (of_nat st) = d0 (of_nat st)" "length (d0 (of_nat st)) = BSIZE"
    and a: "\<not> in_log st a"
  shows "recovered st (apply_writes (take k (commit_writes st n h f)) d0) a
    = (if k \<le> n then d0 a else if a \<in> h ` {..<n} then f a else d0 a)"
proof -
  let ?L = "log_writes st n h f" and ?hd = "head_bytes n h (f (of_nat st))"
  have n: "n \<le> LOGSIZE" "n \<le> LOGCAP" and lenL: "length ?L = n" and a1: "a \<noteq> of_nat st" and a2: "\<And>i. i < n \<Longrightarrow> a \<noteq> log_at st i"
    using g a by (auto simp: geom_def in_log_def log_writes_def)
  consider "k \<le> n" | "n < k" "k \<le> 2 * n + 1" | "2 * n + 1 < k" by linarith
  then show ?thesis
  proof cases
    case 1
    then have tk: "take k (commit_writes st n h f) = log_writes st k h f"
      using lenL by (simp add: commit_writes_def log_writes_def take_map take_upt)
    have "apply_writes (log_writes st k h f) d0 (of_nat st) = d0 (of_nat st)"
      using log_at_head[OF g] 1 n by (intro log_writes_other) (metis less_le_trans)
    then show ?thesis
      using 1 recovered_empty[OF _ a1, of "apply_writes (log_writes st k h f) d0"] e
        log_writes_other[of k a st h f d0] a2 by (simp add: tk log_empty_def)
  next
    case 2
    define m where "m = k - n - 1"
    have tk: "take k (commit_writes st n h f) = ?L @ [(of_nat st, ?hd)] @ home_writes (min m n) h f"
      using 2 lenL by (simp add: commit_writes_def m_def take_home_writes take_Cons')
    let ?d = "apply_writes (take k (commit_writes st n h f)) d0"
    have gm: "geom st (min m n) h" using g by (auto simp: geom_def)
    have "?d (of_nat st) = ?hd" unfolding tk by (simp add: home_writes_head[OF gm])
    moreover have "?d (log_at st i) = f (h i)" if i: "i < n" for i
    proof -
      have ne: "log_at st i \<noteq> h j" if "j < min m n" for j
        using g i n that by (metis geom_def less_le_trans min_less_iff_conj)
      have "apply_writes (home_writes (min m n) h f) D (log_at st i) = D (log_at st i)" for D
        by (rule home_writes_other) (rule ne)
      moreover have "log_at st i \<noteq> of_nat st" using log_at_head[OF g] i n by simp
      ultimately show ?thesis
        unfolding tk using log_writes_at[OF g i, of f d0] by simp
    qed
    ultimately have "recovered st ?d a = (if a \<in> h ` {..<n} then f a else ?d a)"
      using recovered_header[OF g _ _ _ a1] b by auto
    moreover have "a \<notin> h ` {..<n} \<Longrightarrow> ?d a = d0 a"
      unfolding tk using log_writes_other[of n a st h f d0] a2 a1 by (auto simp: home_writes_apply)
    ultimately show ?thesis using 2 by auto
  next
    case 3
    have tk: "take k (commit_writes st n h f) = commit_writes st n h f"
      using 3 lenL by (simp add: commit_writes_def)
    let ?d = "apply_writes (commit_writes st n h f) d0"
    have "?d (of_nat st) = put_u32 0 0 ?hd" by (simp add: commit_writes_def)
    then have "log_empty st ?d"
      using head_bytes(1)[OF n(1), of "f (of_nat st)" h] b by (simp add: log_empty_def)
    then have "recovered st ?d a = ?d a" by (rule recovered_empty[OF _ a1])
    also have "\<dots> = (if a \<in> h ` {..<n} then f a else d0 a)"
      using log_writes_other[of n a st h f d0] a2 a1
      by (simp add: commit_writes_def home_writes_apply)
    finally show ?thesis using 3 tk by simp
  qed
qed

lemma crash_header:
  assumes g: "geom st n h"
  shows "apply_writes (take k (commit_writes st n h f)) d0 (of_nat st) =
    (if k \<le> n then d0 (of_nat st) else if k \<le> 2 * n + 1 then head_bytes n h (f (of_nat st))
     else put_u32 0 0 (head_bytes n h (f (of_nat st))))"
proof -
  let ?L = "log_writes st n h f" and ?hd = "head_bytes n h (f (of_nat st))"
  have n: "n \<le> LOGSIZE" "n \<le> LOGCAP" and lenL: "length ?L = n"
    using g by (auto simp: geom_def log_writes_def)
  consider "k \<le> n" | "n < k" "k \<le> 2 * n + 1" | "2 * n + 1 < k" by linarith
  then show ?thesis
  proof cases
    case 1
    then have "take k (commit_writes st n h f) = log_writes st k h f"
      by (simp add: commit_writes_def log_writes_def take_map take_upt)
    moreover have "geom st k h" using g 1 by (auto simp: geom_def)
    ultimately show ?thesis using 1 by (simp add: log_writes_head)
  next
    case 2
    then have "take k (commit_writes st n h f) = ?L @ [(of_nat st, ?hd)] @ home_writes (min (k - n - 1) n) h f"
      using lenL by (simp add: commit_writes_def take_home_writes take_Cons')
    moreover have "geom st (k - n - 1) h" using g 2 by (auto simp: geom_def)
    ultimately show ?thesis using 2 by (simp add: home_writes_head)
  next
    case 3
    then have "take k (commit_writes st n h f) = commit_writes st n h f"
      using lenL by (simp add: commit_writes_def)
    then show ?thesis using 3 by (simp add: commit_writes_def)
  qed
qed

lemma header_ok_empty: "get_u32 b 0 = 0 \<Longrightarrow> st + 1 + LOGSIZE \<le> unat FSSIZE \<Longrightarrow> header_ok st b"
  by (simp add: header_ok_def geom_def)

lemma header_ok_crash:
  assumes g: "geom st n h" and fs: "\<And>i. i < n \<Longrightarrow> h i < FSSIZE" and e: "log_empty st d0"
    and len: "length (f (of_nat st)) = BSIZE"
  shows "header_ok st (apply_writes (take k (commit_writes st n h f)) d0 (of_nat st))"
proof -
  have n: "n \<le> LOGSIZE" "n \<le> LOGCAP" and st: "st + 1 + LOGSIZE \<le> unat FSSIZE" using g by (auto simp: geom_def)
  note hb = head_bytes[OF n(1) len, where h = h]
  have "header_ok st (head_bytes n h (f (of_nat st)))"
    using hb(2,3) g fs n by (auto simp: header_ok_def geom_def head_of_def unat_of_nat)
  moreover have "header_ok st (put_u32 0 0 (head_bytes n h (f (of_nat st))))"
    using hb(1) st by (intro header_ok_empty) simp_all
  moreover have "header_ok st (d0 (of_nat st))" using e st by (intro header_ok_empty) (simp_all add: log_empty_def)
  ultimately show ?thesis by (simp add: crash_header[OF g])
qed

lemma u32_of_i32_1 [simp]: "u32_of_i32 1 = ROOTDEV"
  by (simp add: u32_of_i32_def ROOTDEV_def)

lemma runs_readsb:
  assumes "cache_inv s" "cs_held (cache_abs s) 1 = None"
    and "card (insert 1 (dom (cs_held (cache_abs s)) \<union> cs_dirty (cache_abs s))) \<le> NBUF"
    and "\<And>s'. cache_inv s' \<Longrightarrow> cache_abs s' = cache_abs s \<Longrightarrow> cache_ext s' = cache_ext s \<Longrightarrow>
      Q (sb_of (cs_view (cache_abs s) 1)) s'"
  shows "runs (readsb 1) s Q"
  unfolding readsb_def u32_of_i32_1 by (rule bc.peek[OF assms(1) _ assms(2,3)]) (use assms(4) in simp_all)

lemma runs_initlog:
  fixes s :: "'z klog_scheme"
  assumes inv: "cache_inv s" and none: "cs_held (cache_abs s) = Map.empty"
    and cold: "cs_dirty (cache_abs s) = {}" and len: "length (lh_block s) = LOGSIZE"
    and sb: "sb_logstart (sb_of (cs_view (cache_abs s) 1)) = of_nat st" "st + 1 + LOGSIZE \<le> unat FSSIZE"
    and hd: "header_ok st (cs_view (cache_abs s) (of_nat st))"
    and Q: "\<And>s'. cache_inv s' \<Longrightarrow> log_layout s' st \<Longrightarrow> lh_n s' = 0 \<Longrightarrow> length (lh_block s') = LOGSIZE \<Longrightarrow>
      lg_size s' = i32_of_u32 (sb_nlog (sb_of (cs_view (cache_abs s) 1))) \<Longrightarrow>
      lg_outstanding s' = lg_outstanding s \<Longrightarrow> lg_committing s' = lg_committing s \<Longrightarrow> klog.more s' = klog.more s \<Longrightarrow>
      cache_abs s' = cs_writes (recover_writes st (cs_view (cache_abs s))) (cache_abs s) \<Longrightarrow> Q () s'"
  shows "runs (initlog 1) s Q"
proof -
  let ?s0 = "s\<lparr>spin := (spin s)(LkLog := (spin s LkLog)\<lparr>lk_locked := 0, lk_name := ''log'', lk_cpu := None\<rparr>)\<rparr>"
  let ?sb = "sb_of (cs_view (cache_abs s) 1)"
  have st: "i32_of_u32 (of_nat st) = int st" using sb(2) by (intro i32_of_u32_nat) simp
  have "runs recover_from_log (s1\<lparr>lg_start := int st, lg_size := i32_of_u32 (sb_nlog ?sb), lg_dev := 1\<rparr>) Q"
    if s1: "cache_inv s1" "cache_abs s1 = cache_abs ?s0" "cache_ext s1 = cache_ext ?s0" for s1 :: "'z klog_scheme"
    by (rule runs_recover[where st = st])
       (use s1 none cold len sb(2) hd klog_frame[OF s1(3)] in \<open>auto simp: log_layout_def intro!: Q\<close>)
  then show ?thesis
    using sb(1) inv none cold st
    by (auto simp: initlog_def initlock_def intro!: runs_readsb[of ?s0] simp add: NBUF_def)
qed

section \<open>Transactions\<close>

lemma log_index:
  "n \<le> length bs \<Longrightarrow> log_index n bn bs \<le> n \<and>
   (log_index n bn bs < n \<longrightarrow> bs ! log_index n bn bs = bn) \<and>
   (log_index n bn bs = n \<longrightarrow> (\<forall>j < n. bs ! j \<noteq> bn))"
proof (induction n bn bs rule: log_index.induct)
  case (3 n bn b bs)
  then show ?case by (auto simp: less_Suc_eq_0_disj)
qed auto

text \<open>
  The state between file-system operations: the header in memory names exactly the dirty blocks,
  each once, all of them outside the log, and the log on the disk is empty.
\<close>

definition log_inv :: "'z klog_scheme \<Rightarrow> nat \<Rightarrow> nat \<Rightarrow> bool" where
  "log_inv s st n \<longleftrightarrow> cache_inv s \<and> log_layout s st \<and> lh_n s = int n \<and> n < LOGSIZE \<and>
     length (lh_block s) = LOGSIZE \<and> inj_on (logged s) {..<n} \<and>
     (\<forall>i < n. lh_block s ! i = i32_of_u32 (logged s i) \<and> logged s i < FSSIZE \<and> \<not> in_log st (logged s i)) \<and>
     cs_dirty (cache_abs s) = logged s ` {..<n} \<and> log_empty st (cs_media (cache_abs s)) \<and>
     cs_view (cache_abs s) (of_nat st) = cs_media (cache_abs s) (of_nat st)"

lemma log_inv_ready:
  "log_inv s st n \<Longrightarrow> cs_held (cache_abs s) = Map.empty \<Longrightarrow> log_ready s st n"
  by (auto simp: log_inv_def log_ready_def in_log_def card_image NBUF_def)

lemma i32_of_u32_inj: "i32_of_u32 a = i32_of_u32 b \<longleftrightarrow> a = b"
  by (metis u32_of_i32_of_u32)

text \<open>The kernel outside the log and the cache, and the parts of the log a block update keeps.\<close>

definition log_ext :: "'z klog_scheme \<Rightarrow> 'z \<times> i32 \<times> i32 \<times> bool \<times> nat option \<times> (nat \<Rightarrow> sleeplock) \<times> (nat \<Rightarrow> proc)" where
  "log_ext s = (klog.more s, lg_size s, lg_outstanding s, lg_committing s, myproc s,
     (\<lambda>i. slp s (SlInode i)), (\<lambda>i. (ptable s i)\<lparr>pr_state := UNUSED\<rparr>))"

lemma log_ext_cache:
  fixes s s' :: "'z klog_scheme"
  assumes "cache_ext s' = cache_ext s"
  shows "log_ext s' = log_ext s"
  using klog_frame[OF assms] assms by (simp add: log_ext_def cache_ext_def)

lemma log_inv_cong:
  fixes s s' :: "'z klog_scheme"
  assumes "log_inv s st n" "cache_ext s' = cache_ext s" "cache_inv s'"
    and "cs_dirty (cache_abs s') = cs_dirty (cache_abs s)" "cs_media (cache_abs s') = cs_media (cache_abs s)"
    and "cs_view (cache_abs s') (of_nat st) = cs_view (cache_abs s) (of_nat st)"
  shows "log_inv s' st n"
  using assms klog_frame[OF assms(2)] log_layout_ext[OF assms(2)]
  by (simp add: log_inv_def logged_def[abs_def])

text \<open>Room for one more block in the transaction.\<close>

definition log_room :: "'z klog_scheme \<Rightarrow> nat \<Rightarrow> bool" where
  "log_room s n \<longleftrightarrow> int n < lg_size s - 1 \<and> i32_range (lg_size s - 1) \<and> 1 \<le> lg_outstanding s \<and> Suc n < LOGSIZE"

lemma log_ext_fields:
  "log_ext s' = log_ext s \<Longrightarrow> lg_size s' = lg_size s" "log_ext s' = log_ext s \<Longrightarrow> lg_outstanding s' = lg_outstanding s"
  "log_ext s' = log_ext s \<Longrightarrow> lg_committing s' = lg_committing s" "log_ext s' = log_ext s \<Longrightarrow> klog.more s' = klog.more s"
  "log_ext s' = log_ext s \<Longrightarrow> myproc s' = myproc s" "log_ext s' = log_ext s \<Longrightarrow> slp s' (SlInode i) = slp s (SlInode i)"
  by (auto simp: log_ext_def dest: fun_cong)

lemma runs_log_write:
  fixes s :: "'z klog_scheme"
  assumes I: "log_inv s st n" and own: "cs_held (cache_abs s) bn = Some b" and bn: "\<not> in_log st bn"
    and rm: "log_room s n"
    and Q: "\<And>s' n'. log_inv s' st n' \<Longrightarrow> n' \<le> Suc n \<Longrightarrow> (bn \<in> cs_dirty (cache_abs s) \<Longrightarrow> n' = n) \<Longrightarrow>
      cache_abs s' = (cache_abs s)\<lparr>cs_dirty := insert bn (cs_dirty (cache_abs s))\<rparr> \<Longrightarrow>
      log_ext s' = log_ext s \<Longrightarrow> Q () s'"
  shows "runs (log_write b) s Q"
proof -
  from rm have room: "int n < lg_size s - 1" "i32_range (lg_size s - 1)" and out: "1 \<le> lg_outstanding s"
    and cap: "Suc n < LOGSIZE"
    by (simp_all add: log_room_def)
  let ?i32 = "i32_of_u32 bn" and ?i = "log_index n (i32_of_u32 bn) (lh_block s)"
  let ?n' = "if ?i = n then Suc n else n"
  let ?s' = "krel LkLog (pin b ((kacq LkLog s)\<lparr>lh_block := (lh_block s)[?i := ?i32], lh_n := int ?n'\<rparr>))"
  have inv: "cache_inv s" and n: "lh_n s = int n" "n < LOGSIZE" and len: "length (lh_block s) = LOGSIZE"
    and inj: "inj_on (logged s) {..<n}"
    and bs: "\<And>i. i < n \<Longrightarrow> lh_block s ! i = i32_of_u32 (logged s i) \<and> logged s i < FSSIZE \<and> \<not> in_log st (logged s i)"
    and dirty: "cs_dirty (cache_abs s) = logged s ` {..<n}"
    using I by (auto simp: log_inv_def)
  note p = cache_inv_parts[OF inv own]
  have li: "?i \<le> n" "?i < n \<Longrightarrow> lh_block s ! ?i = ?i32" "?i = n \<Longrightarrow> j < n \<Longrightarrow> lh_block s ! j \<noteq> ?i32" for j
    using log_index[of n "lh_block s" ?i32] n len by auto
  have bnF: "bn < FSSIZE" using bc.dat[OF inv own] by simp
  have r: "runs (log_write b) s (\<lambda>x s'. x = () \<and> s' = ?s')"
  proof -
    have e: "(kacq LkLog s)\<lparr>lh_block := X, lh_n := int n\<rparr> = (kacq LkLog s)\<lparr>lh_block := X\<rparr>" for X
      using n(1) by (simp add: kacq_def)
    have r1: "i32_range (int n + 1)" using n(2) by (simp add: i32_range_def)
    show ?thesis
    proof (cases "?i = n")
      case True
      then show ?thesis using n room out p(6) r1 by (simp add: log_write_def Let_def add.commute)
    next
      case False
      then show ?thesis using n room out p(6) by (simp add: log_write_def Let_def e)
    qed
  qed
  have new: "?i = n \<Longrightarrow> bn \<notin> logged s ` {..<n}"
    using li(3) bs by (metis imageE lessThan_iff)
  have lg: "logged ?s' j = (if j = ?i then bn else logged s j)" if "j < ?n'" for j
    using that li(1) n len by (auto simp: logged_def pin_def nth_list_update)
  have old: "?i < n \<Longrightarrow> logged s ?i = bn" using li(2) bs i32_of_u32_inj by (metis)
  let ?t = "(kacq LkLog s)\<lparr>lh_block := (lh_block s)[?i := ?i32], lh_n := int ?n'\<rparr>"
  have "cache_inv ?t" "cache_abs ?t = cache_abs s" using inv by simp_all
  then have mk: "cache_inv (pin b ?t)"
    "cache_abs (pin b ?t) = (cache_abs s)\<lparr>cs_dirty := insert bn (cs_dirty (cache_abs s))\<rparr>"
    using bc.mark[of ?t bn b] own by auto
  have a: "cache_abs ?s' = (cache_abs s)\<lparr>cs_dirty := insert bn (cs_dirty (cache_abs s))\<rparr>"
    using mk(2) by simp
  have img: "logged ?s' ` {..<?n'} = insert bn (logged s ` {..<n})"
  proof (cases "?i = n")
    case True
    then show ?thesis using lg by (auto simp: lessThan_Suc)
  next
    case False
    then have "logged ?s' j = logged s j" if "j < n" for j using lg[of j] old that li(1) by auto
    then have "logged ?s' ` {..<n} = logged s ` {..<n}" by (intro image_cong) simp_all
    moreover have "bn \<in> logged s ` {..<n}" using old False li(1)
      by (metis imageI le_neq_implies_less lessThan_iff)
    ultimately show ?thesis using False by auto
  qed
  have inj': "inj_on (logged ?s') {..<?n'}"
  proof (cases "?i = n")
    case True
    then show ?thesis using lg inj new by (auto simp: inj_on_def less_Suc_eq)
  next
    case False
    then have "logged ?s' j = logged s j" if "j < n" for j using lg[of j] old that li(1) by auto
    then show ?thesis using inj False by (auto simp: inj_on_def)
  qed
  have blk: "lh_block ?s' ! j = i32_of_u32 (logged ?s' j) \<and> logged ?s' j < FSSIZE \<and> \<not> in_log st (logged ?s' j)"
    if "j < ?n'" for j
    using that lg[OF that] bs[of j] bn bnF li(1) n len
    by (auto simp: pin_def nth_list_update split: if_splits)
  have "log_inv ?s' st ?n'"
    unfolding log_inv_def a img[symmetric]
    using mk(1) I img inj' blk cap n by (auto simp: log_inv_def log_layout_def pin_def)
  then show ?thesis
    unfolding runs_det[OF r] by (rule Q) (use a li(1) new dirty in \<open>auto simp: pin_def log_ext_def\<close>)
qed

text \<open>The update step of every file-system operation: read, change, log, release.\<close>

lemma runs_logged_update:
  fixes s :: "'z klog_scheme"
  assumes I: "log_inv s st n" and bn: "\<not> in_log st bn" "bn < FSSIZE" "cs_held (cache_abs s) bn = None"
    and room: "card (insert bn (dom (cs_held (cache_abs s)) \<union> cs_dirty (cache_abs s))) \<le> NBUF"
    and rm: "log_room s n"
    and M: "\<And>b s1 P. cache_inv s1 \<Longrightarrow> cache_ext s1 = cache_ext s \<Longrightarrow>
      cache_abs s1 = (cache_abs s)\<lparr>cs_held := (cs_held (cache_abs s))(bn \<mapsto> b)\<rparr> \<Longrightarrow>
      P () (set_data b d s1) \<Longrightarrow> runs (M b) s1 P"
    and len: "length d = BSIZE"
    and Q: "\<And>s' n'. log_inv s' st n' \<Longrightarrow> n' \<le> Suc n \<Longrightarrow> (bn \<in> cs_dirty (cache_abs s) \<Longrightarrow> n' = n) \<Longrightarrow>
      cache_abs s' = (cache_abs s)\<lparr>cs_view := (cs_view (cache_abs s))(bn := d),
        cs_dirty := insert bn (cs_dirty (cache_abs s))\<rparr> \<Longrightarrow> log_ext s' = log_ext s \<Longrightarrow> Q () s'"
  shows "runs (bnd (bread ROOTDEV bn) (\<lambda>b. bnd (M b) (\<lambda>_. bnd (log_write b) (\<lambda>_. brelse b)))) s Q"
  unfolding runs_bnd[of "bread ROOTDEV bn"]
proof (rule runs_mono[OF bc.rd[OF _ bn(2,3) room]])
  show inv: "cache_inv s" using I by (simp add: log_inv_def)
  fix b and s1 :: "'z klog_scheme"
  assume "cache_inv s1 \<and> cache_ext s1 = cache_ext s \<and>
    cache_abs s1 = (cache_abs s)\<lparr>cs_held := (cs_held (cache_abs s))(bn \<mapsto> b)\<rparr>"
  then have s1: "cache_inv s1" "cache_ext s1 = cache_ext s"
    "cache_abs s1 = (cache_abs s)\<lparr>cs_held := (cs_held (cache_abs s))(bn \<mapsto> b)\<rparr>" by auto
  have own: "cs_held (cache_abs s1) bn = Some b" using s1(3) by simp
  let ?s2 = "set_data b d s1"
  note p = bc.put[OF s1(1) own len]
  have ne: "bn \<noteq> of_nat st" using bn(1) by (auto simp: in_log_def)
  have I2: "log_inv ?s2 st n"
    by (rule log_inv_cong[OF I]) (use p s1 ne in auto)
  have own2: "cs_held (cache_abs ?s2) bn = Some b" using p own by simp
  have e2: "log_ext ?s2 = log_ext s" using p s1(2) by (intro log_ext_cache) simp
  have "runs (log_write b) ?s2 (\<lambda>_ s'. runs (brelse b) s' Q)"
  proof (rule runs_log_write[OF I2 own2 bn(1)])
    show "log_room ?s2 n" using rm log_ext_fields[OF e2] by (simp add: log_room_def)
    fix s3 :: "'z klog_scheme" and n'
    assume s3: "log_inv s3 st n'" "n' \<le> Suc n" "bn \<in> cs_dirty (cache_abs ?s2) \<Longrightarrow> n' = n"
      "cache_abs s3 = (cache_abs ?s2)\<lparr>cs_dirty := insert bn (cs_dirty (cache_abs ?s2))\<rparr>"
      "log_ext s3 = log_ext ?s2"
    have inv3: "cache_inv s3" using s3(1) by (simp add: log_inv_def)
    show "runs (brelse b) s3 Q"
    proof (rule runs_mono[OF bc.rel[OF inv3, of bn]])
      fix u and s4 :: "'z klog_scheme"
      assume s4: "cache_inv s4 \<and> cache_ext s4 = cache_ext s3 \<and>
        cache_abs s4 = (cache_abs s3)\<lparr>cs_held := (cs_held (cache_abs s3))(bn := None)\<rparr>"
      have "log_inv s4 st n'" by (rule log_inv_cong[OF s3(1)]) (use s4 in auto)
      moreover have "log_ext s4 = log_ext s" using s4 s3(5) e2 log_ext_cache[of s4 s3] by simp
      ultimately have "Q () s4"
        using s4 s3 p s1(3) bn(3) by (intro Q[of s4 n']) (auto simp: bc.unheld)
      then show "Q u s4" by simp
    qed (use s3(4) own2 in simp_all)
  qed
  then show "runs (bnd (M b) (\<lambda>_. bnd (log_write b) (\<lambda>_. brelse b))) s1 Q"
    using s1 by (auto intro!: M)
qed

lemma runs_begin_op:
  assumes "\<not> lg_committing s" "0 \<le> lh_n s" "0 \<le> lg_outstanding s"
    and "lh_n s + (lg_outstanding s + 1) * MAXOPBLOCKS \<le> int LOGSIZE"
  shows "runs begin_op s Q = Q () (krel LkLog ((kacq LkLog s)\<lparr>lg_outstanding := lg_outstanding s + 1\<rparr>))"
  using assms by (simp add: begin_op_def i32_range_def)

lemma log_inv_acq:
  fixes s :: "'z klog_scheme"
  assumes "log_inv s st n"
  shows "log_inv (krel LkLog ((kacq LkLog s)\<lparr>lg_outstanding := o1, lg_committing := c\<rparr>)) st n"
  using assms by (simp add: log_inv_def log_layout_def logged_def[abs_def])

lemma commit_writes_apply:
  assumes "geom st n h" "\<not> in_log st a"
  shows "apply_writes (commit_writes st n h f) d a = (if a \<in> h ` {..<n} then f a else d a)"
  using assms log_writes_other[of n a st h f d]
  by (auto simp: commit_writes_def home_writes_apply in_log_def geom_def)

text \<open>A commit empties the log and makes the disk agree with the cache.\<close>

lemma commit_post:
  fixes s s' :: "'z klog_scheme"
  assumes I: "log_inv s st n" and none: "cs_held (cache_abs s) = Map.empty"
    and inv: "cache_inv s'" and ext: "cache_ext s' = cache_ext (s\<lparr>lh_n := 0\<rparr>)"
    and abs: "cache_abs s' = cs_writes (commit_writes st n (logged s) (cs_view (cache_abs s))) (cache_abs s)"
  shows "log_inv s' st 0" "cs_held (cache_abs s') = Map.empty" "cs_dirty (cache_abs s') = {}"
    "\<not> in_log st a \<Longrightarrow> cs_media (cache_abs s') a = cs_view (cache_abs s) a"
    "\<not> in_log st a \<Longrightarrow> cs_view (cache_abs s') a = cs_view (cache_abs s) a"
proof -
  note fr = klog_frame[OF ext]
  have g: "geom st n (logged s)" using log_ready_geom[OF log_inv_ready[OF I none]] .
  have n: "n \<le> LOGSIZE" using g by (simp add: geom_def)
  show held: "cs_held (cache_abs s') = Map.empty" using abs none by simp
  show dirty: "cs_dirty (cache_abs s') = {}"
    using abs I by (auto simp: log_inv_def commit_writes_def fst_home_writes)
  show m: "cs_media (cache_abs s') a = cs_view (cache_abs s) a" if "\<not> in_log st a" for a
  proof (cases "a \<in> logged s ` {..<n}")
    case True
    then show ?thesis using abs commit_writes_apply[OF g that] by simp
  next
    case False
    then have "cs_view (cache_abs s) a = cs_media (cache_abs s) a"
      using I none by (intro bc.clean) (auto simp: log_inv_def)
    then show ?thesis using False abs commit_writes_apply[OF g that] by simp
  qed
  show "cs_view (cache_abs s') a = cs_view (cache_abs s) a" if "\<not> in_log st a" for a
    using abs commit_writes_apply[OF g that] by simp
  have hd: "cs_media (cache_abs s') (of_nat st) = put_u32 0 0 (head_bytes n (logged s) (cs_view (cache_abs s) (of_nat st)))"
    using abs by (simp add: commit_writes_def)
  have "length (cs_view (cache_abs s) (of_nat st)) = BSIZE"
    using I by (intro bc.view_length) (simp add: log_inv_def)
  from head_bytes(1)[OF n this, of "logged s"] hd have "log_empty st (cs_media (cache_abs s'))"
    by (simp add: log_empty_def)
  then show "log_inv s' st 0"
    using I inv fr dirty abs hd by (simp add: log_inv_def log_layout_def commit_writes_def)
qed

lemma runs_end_op_last:
  fixes s :: "'z klog_scheme"
  assumes I: "log_inv s st n" and none: "cs_held (cache_abs s) = Map.empty"
    and o: "lg_outstanding s = 1" "\<not> lg_committing s"
    and Q: "\<And>s'. log_inv s' st 0 \<Longrightarrow> lg_outstanding s' = 0 \<Longrightarrow> \<not> lg_committing s' \<Longrightarrow> lg_size s' = lg_size s \<Longrightarrow>
      klog.more s' = klog.more s \<Longrightarrow> cs_held (cache_abs s') = Map.empty \<Longrightarrow> cs_dirty (cache_abs s') = {} \<Longrightarrow>
      (\<And>a. \<not> in_log st a \<Longrightarrow> cs_media (cache_abs s') a = cs_view (cache_abs s) a) \<Longrightarrow>
      (\<And>a. \<not> in_log st a \<Longrightarrow> cs_view (cache_abs s') a = cs_view (cache_abs s) a) \<Longrightarrow> Q () s'"
  shows "runs end_op s Q"
proof -
  let ?s1 = "krel LkLog ((kacq LkLog s)\<lparr>lg_outstanding := 0, lg_committing := True\<rparr>)"
  let ?fin = "\<lambda>t. krel LkLog (woken ChLog ((kacq LkLog t)\<lparr>lg_committing := False\<rparr>))"
  have I1: "log_inv ?s1 st n" by (rule log_inv_acq[OF I])
  have a1: "cache_abs ?s1 = cache_abs s" by simp
  have fin: "Q () (?fin t)"
    if t: "log_inv t st 0" "cs_held (cache_abs t) = Map.empty" "cs_dirty (cache_abs t) = {}"
      "\<And>a. \<not> in_log st a \<Longrightarrow> cs_media (cache_abs t) a = cs_view (cache_abs s) a"
      "\<And>a. \<not> in_log st a \<Longrightarrow> cs_view (cache_abs t) a = cs_view (cache_abs s) a"
      "lg_outstanding t = 0" "lg_size t = lg_size s" "klog.more t = klog.more s" for t :: "'z klog_scheme"
    by (rule Q) (use t in \<open>simp_all add: log_inv_def log_layout_def logged_def[abs_def]\<close>)
  have "runs commit ?s1 (\<lambda>_ t. Q () (?fin t))"
  proof (cases "n = 0")
    case True
    have "cs_view (cache_abs s) a = cs_media (cache_abs s) a" for a
      using I none True by (intro bc.clean) (auto simp: log_inv_def)
    then have "Q () (?fin ?s1)" using I1 none True I by (intro fin) (auto simp: log_inv_def)
    then show ?thesis using I True by (simp add: commit_def log_inv_def)
  next
    case False
    show ?thesis
    proof (rule runs_commit[OF log_inv_ready[OF I1]])
      fix t :: "'z klog_scheme"
      assume t: "cache_inv t" "cache_ext t = cache_ext (?s1\<lparr>lh_n := 0\<rparr>)" "cache_abs t =
        cs_writes (commit_writes st n (logged ?s1) (cs_view (cache_abs ?s1))) (cache_abs ?s1)"
      from commit_post[OF I1 _ t] none klog_frame[OF t(2)]
      show "Q () (?fin t)" by (intro fin) simp_all
    qed (use False none in simp_all)
  qed
  then show ?thesis using o by (simp add: end_op_def i32_range_def)
qed

section \<open>Properties\<close>

text \<open>The disk writes between two states, and a freshly booted cache over a disk \<open>d\<close>.\<close>

definition new_writes :: "'z kbuf_scheme \<Rightarrow> 'z kbuf_scheme \<Rightarrow> (u32 \<times> u8 list) list" where
  "new_writes s s' = drop (length (cs_hist (cache_abs s))) (cs_hist (cache_abs s'))"

definition cold_boot :: "'z klog_scheme \<Rightarrow> (u32 \<Rightarrow> u8 list) \<Rightarrow> bool" where
  "cold_boot t d \<longleftrightarrow> cache_inv t \<and> cs_held (cache_abs t) = Map.empty \<and> cs_dirty (cache_abs t) = {} \<and>
     cs_view (cache_abs t) = d \<and> length (lh_block t) = LOGSIZE"

lemma apply_writes_append: "apply_writes (xs @ ys) d = apply_writes ys (apply_writes xs d)"
  by simp

lemma recovery_correct:
  fixes t :: "'z klog_scheme"
  assumes g: "geom st n h" and fs: "\<And>i. i < n \<Longrightarrow> h i < FSSIZE" and e: "log_empty st d0"
    and b: "f (of_nat st) = d0 (of_nat st)" "length (d0 (of_nat st)) = BSIZE"
    and sb: "sb_logstart (sb_of (d0 1)) = of_nat st" "\<not> in_log st 1" "1 \<notin> h ` {..<n}"
    and t: "cold_boot t (apply_writes (take k (commit_writes st n h f)) d0)"
  shows "\<exists>t'. initlog 1 t = Inr ((), t') \<and> log_layout t' st \<and> lh_n t' = 0 \<and>
    (\<forall>a. \<not> in_log st a \<longrightarrow> cs_view (cache_abs t') a =
       (if k \<le> n then d0 a else if a \<in> h ` {..<n} then f a else d0 a))"
proof -
  let ?d = "apply_writes (take k (commit_writes st n h f)) d0"
  have st: "st + 1 + LOGSIZE \<le> unat FSSIZE" using g by (simp add: geom_def)
  have "1 \<notin> fst ` set (commit_writes st n h f)"
    using sb(2,3) g by (force simp: commit_writes_def log_writes_def home_writes_def in_log_def geom_def)
  then have "1 \<notin> fst ` set (take k (commit_writes st n h f))" by (auto dest: in_set_takeD)
  then have sb1: "sb_logstart (sb_of (?d 1)) = of_nat st" using sb(1) by (simp add: apply_writes_other)
  have "runs (initlog 1) t (\<lambda>_ t'. log_layout t' st \<and> lh_n t' = 0 \<and>
      cs_view (cache_abs t') = recovered st ?d)"
    using t sb1 st header_ok_crash[OF g fs e, of f k] b
    by (intro runs_initlog[where st = st]) (auto simp: cold_boot_def recovered_def)
  then show ?thesis
    using crash_cases[where f = f and ?d0.0 = d0, OF g e b] by (auto simp: runs_Inr)
qed

text \<open>
  A machine with a formatted disk, for the witnesses: boot, recover the (empty) log, begin an
  operation and log one block.
\<close>

definition klog_zero :: "(u32 \<Rightarrow> u8 list) \<Rightarrow> 'z \<Rightarrow> 'z klog_scheme" where
  "klog_zero d z = (kbuf_zero d \<lparr>lg_start = 0, lg_size = 0, lg_outstanding = 0, lg_committing = False,
     lg_dev = 0, lh_n = 0, lh_block = replicate LOGSIZE 0, \<dots> = z\<rparr>)\<lparr>myproc := Some 0\<rparr>"

definition demo_sb :: superblock where
  "demo_sb = \<lparr>sb_size = 1000, sb_nblocks = 941, sb_ninodes = 200, sb_nlog = 30, sb_logstart = 2,
     sb_inodestart = 32, sb_bmapstart = 58\<rparr>"

definition demo_disk :: "u32 \<Rightarrow> u8 list" where
  "demo_disk bn = (if bn = 1 then sb_bytes demo_sb @ replicate 484 0 else replicate BSIZE 0)"

definition demo_setup :: "('z klog_scheme, unit) kop" where
  "demo_setup = bnd binit (\<lambda>_. bnd (initlog 1) (\<lambda>_. begin_op))"

definition demo_update :: "('z klog_scheme, unit) kop" where
  "demo_update = bnd (bread ROOTDEV 50) (\<lambda>b. bnd (modify (set_data b (replicate BSIZE 7))) (\<lambda>_.
     bnd (log_write b) (\<lambda>_. brelse b)))"

lemma klog_more_fields:
  fixes s s' :: "'z klog_scheme"
  assumes "kbuf.more s' = kbuf.more s"
  shows "lh_block s' = lh_block s" "lg_outstanding s' = lg_outstanding s" "lg_committing s' = lg_committing s"
    "lh_n s' = lh_n s" "klog.more s' = klog.more s"
  using assms by (cases s; cases s'; simp)+

lemma runs_binit_klog:
  fixes z :: 'z
  assumes "\<And>a. length (d a) = BSIZE"
  shows "runs binit (klog_zero d z) (\<lambda>_ t. cold_boot t d \<and> lg_outstanding t = 0 \<and> \<not> lg_committing t \<and> klog.more t = z)"
proof (rule runs_mono, rule runs_binit)
  fix u and t :: "'z klog_scheme"
  assume t: "cache_inv t \<and> lru t (rev [0..<NBUF]) \<and> cs_view (cache_abs t) = hw_disk (klog_zero d z) 1 \<and>
     cs_media (cache_abs t) = hw_disk (klog_zero d z) 1 \<and> cs_held (cache_abs t) = Map.empty \<and>
     cs_dirty (cache_abs t) = {} \<and> (\<forall>i. fresh_buf (bufs t i)) \<and> kbuf.more t = kbuf.more (klog_zero d z)"
  then have "kbuf.more t = kbuf.more (klog_zero d z)" by blast
  from klog_more_fields[OF this] t show "cold_boot t d \<and> lg_outstanding t = 0 \<and> \<not> lg_committing t \<and> klog.more t = z"
    by (simp add: cold_boot_def klog_zero_def kbuf_zero_def kern_zero_def)
qed (use assms in \<open>simp_all add: klog_zero_def kbuf_zero_def kern_zero_def fresh_buf_def buf_zero_def\<close>)

lemma length_demo_disk: "length (demo_disk a) = BSIZE"
  by (simp add: demo_disk_def sb_bytes_def)

lemma demo_disk_facts:
  "sb_of (demo_disk 1) = demo_sb" "get_u32 (demo_disk 2) 0 = 0"
  by (simp_all add: demo_disk_def sb_round get_u32_def slice_def) (simp add: numeral_eq_Suc)

lemma not_in_log_demo: "\<not> in_log 2 50" "\<not> in_log 2 1"
proof -
  have "log_at 2 i \<noteq> 50 \<and> log_at 2 i \<noteq> 1" if "i < LOGSIZE" for i
    using that of_nat_u32_inj[of "2 + 1 + i" 50] of_nat_u32_inj[of "2 + 1 + i" 1]
    by (simp add: log_at_def)
  then show "\<not> in_log 2 50" "\<not> in_log 2 1" by (auto simp: in_log_def)
qed

lemma cold_boot_media: "cold_boot t d \<Longrightarrow> cs_media (cache_abs t) = d"
  using bc.clean[of t] by (auto simp: cold_boot_def fun_eq_iff)

definition demo_ready :: "klog \<Rightarrow> bool" where
  "demo_ready s \<longleftrightarrow> log_inv s 2 0 \<and> cs_held (cache_abs s) = Map.empty \<and> lg_outstanding s = 1 \<and>
     \<not> lg_committing s \<and> lg_size s = 30 \<and> cs_media (cache_abs s) 1 = demo_disk 1 \<and>
     cs_media (cache_abs s) 50 = demo_disk 50"

definition boot_log :: "('z klog_scheme, unit) kop" where
  "boot_log = bnd binit (\<lambda>_. initlog 1)"

lemma runs_boot_log:
  fixes z :: 'z
  assumes d: "\<And>a. length (d a) = BSIZE" "sb_logstart (sb_of (d 1)) = of_nat st" "get_u32 (d (of_nat st)) 0 = 0"
    and st: "st + 1 + LOGSIZE \<le> unat FSSIZE"
  shows "runs boot_log (klog_zero d z) (\<lambda>_ s. log_inv s st 0 \<and> cs_held (cache_abs s) = Map.empty \<and> lg_outstanding s = 0 \<and>
    \<not> lg_committing s \<and> lg_size s = i32_of_u32 (sb_nlog (sb_of (d 1))) \<and> klog.more s = z \<and>
    (\<forall>x. x \<noteq> of_nat st \<longrightarrow> cs_view (cache_abs s) x = d x \<and> cs_media (cache_abs s) x = d x))"
proof -
  have "runs (initlog 1) t (\<lambda>_ s. log_inv s st 0 \<and> cs_held (cache_abs s) = Map.empty \<and> lg_outstanding s = 0 \<and>
    \<not> lg_committing s \<and> lg_size s = i32_of_u32 (sb_nlog (sb_of (d 1))) \<and> klog.more s = z \<and>
    (\<forall>x. x \<noteq> of_nat st \<longrightarrow> cs_view (cache_abs s) x = d x \<and> cs_media (cache_abs s) x = d x))"
    if t: "cold_boot t d" "lg_outstanding t = 0" "\<not> lg_committing t" "klog.more t = z" for t :: "'z klog_scheme"
  proof (rule runs_initlog[where st = st], goal_cases)
    have v: "cs_view (cache_abs t) = d" using t(1) by (simp add: cold_boot_def)
    case 7
    show ?case unfolding v by (rule header_ok_empty) (use d(3) st in simp_all)
  next
    have v: "cs_view (cache_abs t) = d" using t(1) by (simp add: cold_boot_def)
    case (8 s)
    have w: "recover_writes st d = [(of_nat st, put_u32 0 0 (d (of_nat st)))]" by (simp add: recover_writes_def d(3))
    show ?case
      using 8 t cold_boot_media[OF t(1)] d(1)[of "of_nat st"]
      by (simp add: log_inv_def w v log_layout_def logged_def[abs_def] log_empty_def) (simp add: cold_boot_def)
  qed (use t d st in \<open>simp_all add: cold_boot_def\<close>)
  then show ?thesis using runs_binit_klog[where z = z and d = d, OF d(1)] by (auto simp: boot_log_def elim!: runs_mono)
qed

lemma runs_demo_setup: "runs demo_setup (klog_zero demo_disk ()) (\<lambda>_ s. demo_ready s)"
proof -
  have "runs begin_op s (\<lambda>_ s. demo_ready s)"
    if s: "log_inv s 2 0" "cs_held (cache_abs s) = Map.empty" "lg_outstanding s = 0" "\<not> lg_committing s" "lg_size s = 30"
      "\<forall>x. x \<noteq> 2 \<longrightarrow> cs_media (cache_abs s) x = demo_disk x" for s :: klog
    using s by (simp add: runs_begin_op demo_ready_def log_inv_def log_layout_def logged_def[abs_def])
  then have "runs (bnd boot_log (\<lambda>_. begin_op)) (klog_zero demo_disk ()) (\<lambda>_ s. demo_ready s)"
    using runs_boot_log[where z = "()" and d = demo_disk and st = 2] length_demo_disk i32_of_u32_nat[of 30]
    by (auto simp: demo_disk_facts demo_sb_def elim!: runs_mono)
  then show ?thesis by (simp add: demo_setup_def boot_log_def)
qed

lemma runs_demo_update:
  assumes s: "demo_ready s"
  shows "runs demo_update s (\<lambda>_ s'. log_inv s' 2 1 \<and> cs_held (cache_abs s') = Map.empty \<and>
    cs_dirty (cache_abs s') = {50} \<and> cs_media (cache_abs s') = cs_media (cache_abs s) \<and>
    cs_view (cache_abs s') 50 = replicate BSIZE 7 \<and> lg_outstanding s' = 1 \<and> \<not> lg_committing s')"
  unfolding demo_update_def
proof (rule runs_logged_update[where st = 2 and n = 0 and d = "replicate BSIZE 7"])
  have d: "cs_dirty (cache_abs s) = {}" and h: "cs_held (cache_abs s) = Map.empty"
    using s by (auto simp: demo_ready_def log_inv_def)
  show "log_room s 0" using s by (simp add: demo_ready_def log_room_def i32_range_def)
  show "card (insert 50 (dom (cs_held (cache_abs s)) \<union> cs_dirty (cache_abs s))) \<le> NBUF"
    using d h by (simp add: NBUF_def)
  fix s' :: klog and n'
  assume s': "log_inv s' 2 n'" "n' \<le> Suc 0" "cache_abs s' = (cache_abs s)\<lparr>cs_view :=
      (cs_view (cache_abs s))(50 := replicate BSIZE 7), cs_dirty := insert 50 (cs_dirty (cache_abs s))\<rparr>"
    "log_ext s' = log_ext s"
  then have "n' = 1" using d by (cases n') (auto simp: log_inv_def)
  with s' show "log_inv s' 2 1 \<and> cs_held (cache_abs s') = Map.empty \<and>
    cs_dirty (cache_abs s') = {50} \<and> cs_media (cache_abs s') = cs_media (cache_abs s) \<and>
    cs_view (cache_abs s') 50 = replicate BSIZE 7 \<and> lg_outstanding s' = 1 \<and> \<not> lg_committing s'"
    using d h s log_ext_fields[OF s'(4)] by (simp add: demo_ready_def)
qed (use s not_in_log_demo in \<open>auto simp: demo_ready_def\<close>)

lemma demo_transaction:
  "\<exists>s. bnd demo_setup (\<lambda>_. demo_update) (klog_zero demo_disk ()) = Inr ((), s) \<and> log_inv s 2 1 \<and>
    cs_held (cache_abs s) = Map.empty \<and> cs_dirty (cache_abs s) = {50} \<and>
    cs_media (cache_abs s) 1 = demo_disk 1 \<and> cs_media (cache_abs s) 50 = demo_disk 50 \<and>
    cs_view (cache_abs s) 50 = replicate BSIZE 7 \<and>
    lg_outstanding s = 1 \<and> \<not> lg_committing s"
proof -
  have "runs (bnd demo_setup (\<lambda>_. demo_update)) (klog_zero demo_disk ()) (\<lambda>_ s. log_inv s 2 1 \<and>
    cs_held (cache_abs s) = Map.empty \<and> cs_dirty (cache_abs s) = {50} \<and>
    cs_media (cache_abs s) 1 = demo_disk 1 \<and> cs_media (cache_abs s) 50 = demo_disk 50 \<and>
    cs_view (cache_abs s) 50 = replicate BSIZE 7 \<and>
    lg_outstanding s = 1 \<and> \<not> lg_committing s)"
    unfolding runs_bnd
    by (rule runs_mono[OF runs_demo_setup], rule runs_mono[OF runs_demo_update])
       (auto simp: demo_ready_def)
  then show ?thesis unfolding runs_Inr by auto
qed

lemma length_apply_writes:
  "(\<forall>w \<in> set ws. length (snd w) = m) \<Longrightarrow> (\<forall>a. length (d a) = m) \<Longrightarrow> length (apply_writes ws d a) = m"
  by (induction ws arbitrary: d) (auto simp: apply_writes_def)

lemma length_commit_writes:
  assumes "n \<le> LOGSIZE" "\<And>a. length (f a) = BSIZE"
  shows "\<forall>w \<in> set (commit_writes st n h f). length (snd w) = BSIZE"
  using assms head_bytes[OF assms(1,2), where h = h]
  by (auto simp: commit_writes_def log_writes_def home_writes_def)

text \<open>Restarting the demonstration machine from the disk a crash leaves is a cold boot.\<close>

lemma demo_reboot:
  fixes s :: klog
  assumes s: "log_inv s 2 1" "cs_held (cache_abs s) = Map.empty" "cs_dirty (cache_abs s) = {50}"
    "cs_media (cache_abs s) 50 = demo_disk 50" "commit s = Inr ((), s')"
  shows "\<exists>t. binit (klog_zero (apply_writes (take k (new_writes s s')) (cs_media (cache_abs s))) ()) = Inr ((), t) \<and>
    cold_boot t (apply_writes (take k (new_writes s s')) (cs_media (cache_abs s)))"
proof -
  have inv: "cache_inv s" using s(1) by (simp add: log_inv_def)
  have "runs commit s (\<lambda>_ s'. new_writes s s' = commit_writes 2 1 (logged s) (cs_view (cache_abs s)))"
    by (rule runs_commit[OF log_inv_ready[OF s(1,2)]]) (simp_all add: new_writes_def)
  then have w: "new_writes s s' = commit_writes 2 1 (logged s) (cs_view (cache_abs s))"
    using s(5) by (simp add: runs_Inr)
  have "length (cs_media (cache_abs s) a) = BSIZE" for a
    using bc.view_length[OF inv, of a] bc.clean[OF inv, of a] s(2,3,4) length_demo_disk[of 50]
    by (cases "a = 50") simp_all
  moreover have "\<forall>w \<in> set (take k (new_writes s s')). length (snd w) = BSIZE"
    unfolding w
    using length_commit_writes[where f = "cs_view (cache_abs s)", OF _ bc.view_length[OF inv], of 1 2 "logged s"]
    by (auto dest!: in_set_takeD)
  ultimately have "length (apply_writes (take k (new_writes s s')) (cs_media (cache_abs s)) a) = BSIZE" for a
    by (intro length_apply_writes) blast+
  then have "runs binit (klog_zero (apply_writes (take k (new_writes s s')) (cs_media (cache_abs s))) ())
    (\<lambda>_ t. cold_boot t (apply_writes (take k (new_writes s s')) (cs_media (cache_abs s))))"
    by (rule runs_mono[OF runs_binit_klog]) simp
  then show ?thesis by (auto simp: runs_Inr)
qed

text \<open>
  C1: crash atomicity of a commit. Let a transaction with \<open>n\<close> logged blocks be committed, and let
  the machine stop after any number \<open>k\<close> of the disk writes of that commit. Booting from the disk
  so left and running \<open>initlog\<close> succeeds, and then every block outside the log has its old contents
  if the header write was not among the \<open>k\<close> writes, and its new contents if it was: never a mix.
\<close>

theorem commit_crash_atomic:
  fixes s :: "'z klog_scheme"
  assumes "log_inv s st n" "0 < n" "cs_held (cache_abs s) = Map.empty"
    and "sb_logstart (sb_of (cs_media (cache_abs s) 1)) = of_nat st" "\<not> in_log st 1" "1 \<notin> cs_dirty (cache_abs s)"
  shows "\<exists>s'. commit s = Inr ((), s') \<and>
    (\<forall>k (t :: 'z klog_scheme). cold_boot t (apply_writes (take k (new_writes s s')) (cs_media (cache_abs s)))
      \<longrightarrow> (\<exists>t'. initlog 1 t = Inr ((), t') \<and> (\<forall>a. \<not> in_log st a \<longrightarrow> cs_view (cache_abs t') a =
             (if k \<le> n then cs_media (cache_abs s) a else cs_view (cache_abs s) a))))"
proof -
  let ?f = "cs_view (cache_abs s)" and ?d0 = "cs_media (cache_abs s)"
  note r = log_inv_ready[OF assms(1,3)]
  have inv: "cache_inv s" and dirty: "cs_dirty (cache_abs s) = logged s ` {..<n}"
    and fs: "\<And>i. i < n \<Longrightarrow> logged s i < FSSIZE" and e: "log_empty st ?d0" and b: "?f (of_nat st) = ?d0 (of_nat st)"
    using assms(1) by (auto simp: log_inv_def)
  have len: "length (?d0 (of_nat st)) = BSIZE" using bc.view_length[OF inv, of "of_nat st"] b by simp
  have new: "(if a \<in> logged s ` {..<n} then ?f a else ?d0 a) = ?f a" for a
    using bc.clean[OF inv, of a] assms(3) dirty by auto
  have "runs commit s (\<lambda>_ s'. new_writes s s' = commit_writes st n (logged s) ?f)"
    by (rule runs_commit[OF r assms(2)]) (simp add: new_writes_def)
  then obtain s' where s': "commit s = Inr ((), s')" "new_writes s s' = commit_writes st n (logged s) ?f"
    by (auto simp: runs_Inr)
  have "\<exists>t'. initlog 1 t = Inr ((), t') \<and> (\<forall>a. \<not> in_log st a \<longrightarrow> cs_view (cache_abs t') a =
      (if k \<le> n then ?d0 a else ?f a))"
    if t: "cold_boot t (apply_writes (take k (commit_writes st n (logged s) ?f)) ?d0)"
    for k and t :: "'z klog_scheme"
  proof -
    have "1 \<notin> logged s ` {..<n}" using assms(6) dirty by simp
    from recovery_correct[where f = ?f and ?d0.0 = ?d0, OF log_ready_geom[OF r] fs e b len assms(4,5) this t]
    show ?thesis unfolding new by blast
  qed
  then show ?thesis unfolding s'(2)[symmetric] using s'(1) by blast
qed

theorem commit_crash_atomic_witness:
  "\<exists>s s' t t' u u'. bnd demo_setup (\<lambda>_. demo_update) (klog_zero demo_disk ()) = Inr ((), s) \<and>
    commit s = Inr ((), s') \<and>
    binit (klog_zero (apply_writes (take 1 (new_writes s s')) (cs_media (cache_abs s))) ()) = Inr ((), t) \<and>
    initlog 1 t = Inr ((), t') \<and> cs_view (cache_abs t') 50 = replicate BSIZE 0 \<and>
    binit (klog_zero (apply_writes (take 2 (new_writes s s')) (cs_media (cache_abs s))) ()) = Inr ((), u) \<and>
    initlog 1 u = Inr ((), u') \<and> cs_view (cache_abs u') 50 = replicate BSIZE 7"
proof -
  obtain s where s: "bnd demo_setup (\<lambda>_. demo_update) (klog_zero demo_disk ()) = Inr ((), s)" "log_inv s 2 1"
    "cs_held (cache_abs s) = Map.empty" "cs_dirty (cache_abs s) = {50}" "cs_media (cache_abs s) 1 = demo_disk 1"
    "cs_media (cache_abs s) 50 = demo_disk 50" "cs_view (cache_abs s) 50 = replicate BSIZE 7"
    using demo_transaction by blast
  obtain s' where c: "commit s = Inr ((), s')" and r: "\<And>k (t :: klog).
      cold_boot t (apply_writes (take k (new_writes s s')) (cs_media (cache_abs s))) \<Longrightarrow>
      \<exists>t'. initlog 1 t = Inr ((), t') \<and> (\<forall>a. \<not> in_log 2 a \<longrightarrow> cs_view (cache_abs t') a =
        (if k \<le> 1 then cs_media (cache_abs s) a else cs_view (cache_abs s) a))"
    using commit_crash_atomic[OF s(2) _ s(3)] s(4,5) not_in_log_demo by (auto simp: demo_disk_facts demo_sb_def)
  note b = demo_reboot[OF s(2,3,4,6) c]
  obtain t where t: "binit (klog_zero (apply_writes (take 1 (new_writes s s')) (cs_media (cache_abs s))) ()) = Inr ((), t)"
    "cold_boot t (apply_writes (take 1 (new_writes s s')) (cs_media (cache_abs s)))" using b[of 1] by blast
  obtain u where u: "binit (klog_zero (apply_writes (take 2 (new_writes s s')) (cs_media (cache_abs s))) ()) = Inr ((), u)"
    "cold_boot u (apply_writes (take 2 (new_writes s s')) (cs_media (cache_abs s)))" using b[of 2] by blast
  have "demo_disk 50 = replicate BSIZE 0" by (simp add: demo_disk_def)
  then show ?thesis
    using s(1,6,7) c t(1) u(1) r[OF t(2)] r[OF u(2)] not_in_log_demo(1) by fastforce
qed

text \<open>
  C2: durability. When the last outstanding operation ends, \<open>end_op\<close> returns with the log empty in
  memory and on disk, no block pinned, and the disk equal to the logical contents of every block
  outside the log.
\<close>

theorem end_op_durable:
  fixes s :: "'z klog_scheme"
  assumes "log_inv s st n" "cs_held (cache_abs s) = Map.empty" "lg_outstanding s = 1" "\<not> lg_committing s"
  shows "\<exists>s'. end_op s = Inr ((), s') \<and> log_inv s' st 0 \<and> cs_dirty (cache_abs s') = {}
    \<and> lg_outstanding s' = 0 \<and> \<not> lg_committing s'
    \<and> (\<forall>a. \<not> in_log st a \<longrightarrow> cs_media (cache_abs s') a = cs_view (cache_abs s) a
                            \<and> cs_view (cache_abs s') a = cs_view (cache_abs s) a)"
proof -
  have "runs end_op s (\<lambda>_ s'. log_inv s' st 0 \<and> cs_dirty (cache_abs s') = {}
    \<and> lg_outstanding s' = 0 \<and> \<not> lg_committing s'
    \<and> (\<forall>a. \<not> in_log st a \<longrightarrow> cs_media (cache_abs s') a = cs_view (cache_abs s) a
                            \<and> cs_view (cache_abs s') a = cs_view (cache_abs s) a))"
    by (rule runs_end_op_last[OF assms]) auto
  then show ?thesis by (auto simp: runs_Inr)
qed

theorem end_op_durable_witness:
  "\<exists>s s'. bnd demo_setup (\<lambda>_. demo_update) (klog_zero demo_disk ()) = Inr ((), s) \<and>
    cs_media (cache_abs s) 50 = replicate BSIZE 0 \<and>
    end_op s = Inr ((), s') \<and> cs_media (cache_abs s') 50 = replicate BSIZE 7 \<and> lg_outstanding s' = 0"
proof -
  have "demo_disk 50 = replicate BSIZE 0" by (simp add: demo_disk_def)
  then show ?thesis
    using demo_transaction end_op_durable[of _ 2 1] not_in_log_demo(1) by metis
qed

text \<open>
  C15: \<open>log_write\<close>. Inside a transaction with room, logging a held block outside the log keeps the
  log invariant, pins exactly that block, changes neither contents nor disk, and uses a new header
  slot only when the block was not in the transaction already.
\<close>

theorem log_write_absorbs:
  fixes s :: "'z klog_scheme"
  assumes "log_inv s st n" "cs_held (cache_abs s) bn = Some b" "\<not> in_log st bn" "log_room s n"
  shows "\<exists>s' n'. log_write b s = Inr ((), s') \<and> log_inv s' st n'
    \<and> n' = (if bn \<in> cs_dirty (cache_abs s) then n else Suc n)
    \<and> cache_abs s' = (cache_abs s)\<lparr>cs_dirty := insert bn (cs_dirty (cache_abs s))\<rparr>"
proof -
  have "runs (log_write b) s (\<lambda>_ s'. \<exists>n'. log_inv s' st n' \<and> n' = (if bn \<in> cs_dirty (cache_abs s) then n else Suc n)
    \<and> cache_abs s' = (cache_abs s)\<lparr>cs_dirty := insert bn (cs_dirty (cache_abs s))\<rparr>)"
  proof (rule runs_log_write[OF assms])
    fix s' :: "'z klog_scheme" and n'
    assume s': "log_inv s' st n'" "n' \<le> Suc n" "bn \<in> cs_dirty (cache_abs s) \<Longrightarrow> n' = n"
      "cache_abs s' = (cache_abs s)\<lparr>cs_dirty := insert bn (cs_dirty (cache_abs s))\<rparr>"
    have "card (cs_dirty (cache_abs s')) = n'" "card (cs_dirty (cache_abs s)) = n"
      using s'(1) assms(1) by (auto simp: log_inv_def card_image)
    moreover have "finite (cs_dirty (cache_abs s))" using busy_slots[of s] by simp
    ultimately have "n' = (if bn \<in> cs_dirty (cache_abs s) then n else Suc n)"
      using s'(4) by (auto simp: card_insert_if insert_absorb)
    with s' show "\<exists>n'. log_inv s' st n' \<and> n' = (if bn \<in> cs_dirty (cache_abs s) then n else Suc n)
      \<and> cache_abs s' = (cache_abs s)\<lparr>cs_dirty := insert bn (cs_dirty (cache_abs s))\<rparr>" by blast
  qed
  then show ?thesis by (auto simp: runs_Inr)
qed

theorem log_write_absorbs_witness:
  "\<exists>s b s1 s2. demo_setup (klog_zero demo_disk ()) = Inr ((), s) \<and> bread ROOTDEV 50 s = Inr (b, s1) \<and>
    log_write b s1 = Inr ((), s2) \<and> lh_n s2 = 1 \<and> cs_dirty (cache_abs s2) = {50}"
proof -
  obtain s where s: "demo_setup (klog_zero demo_disk ()) = Inr ((), s)" "demo_ready s"
    using runs_demo_setup by (auto simp: runs_Inr)
  then have h: "cs_held (cache_abs s) = Map.empty" "cs_dirty (cache_abs s) = {}" "log_inv s 2 0" "lg_size s = 30"
    by (auto simp: demo_ready_def log_inv_def)
  have "runs (bread ROOTDEV 50) s (\<lambda>b s1. cache_inv s1 \<and> cache_ext s1 = cache_ext s \<and>
      cache_abs s1 = (cache_abs s)\<lparr>cs_held := (cs_held (cache_abs s))(50 \<mapsto> b)\<rparr>)"
    by (rule bc.rd) (use h in \<open>auto simp: log_inv_def NBUF_def\<close>)
  then obtain b s1 where b: "bread ROOTDEV 50 s = Inr (b, s1)" "cache_inv s1" "cache_ext s1 = cache_ext s"
    "cache_abs s1 = (cache_abs s)\<lparr>cs_held := (cs_held (cache_abs s))(50 \<mapsto> b)\<rparr>" by (auto simp: runs_Inr)
  have i: "log_inv s1 2 0" "lg_size s1 = 30" "lg_outstanding s1 = 1"
    using h b s(2) klog_frame[OF b(3)] by (auto simp: log_inv_def log_layout_def logged_def[abs_def] demo_ready_def)
  have "\<exists>s' n'. log_write b s1 = Inr ((), s') \<and> log_inv s' 2 n'
    \<and> n' = (if 50 \<in> cs_dirty (cache_abs s1) then 0 else Suc 0)
    \<and> cache_abs s' = (cache_abs s1)\<lparr>cs_dirty := insert 50 (cs_dirty (cache_abs s1))\<rparr>"
    by (rule log_write_absorbs[OF i(1)])
       (use b(4) i not_in_log_demo in \<open>auto simp: log_room_def i32_range_def\<close>)
  then show ?thesis using s(1) b(1,4) h(2) by (auto simp: log_inv_def)
qed

end
