(* ===== verification/Xv6_Ring.thy ===== *)
theory Xv6_Ring
  imports Xv6_Prelude
begin

text \<open>
  Circular buffers addressed by counters that only grow: the console input line
  (\<^verbatim>\<open>crates/console/src/lib.rs\<close>) and pipes (\<^verbatim>\<open>crates/fs/src/pipe.rs\<close>) both store the byte with running
  number \<open>i\<close> at index \<open>i mod N\<close>. The locale holds the facts both need.
\<close>

definition ring_seq :: "nat \<Rightarrow> 'a list \<Rightarrow> nat \<Rightarrow> nat \<Rightarrow> 'a list" where
  "ring_seq N buf r w = map (\<lambda>i. buf ! (i mod N)) [r..<w]"

lemma length_ring_seq [simp]: "length (ring_seq N buf r w) = w - r"
  by (simp add: ring_seq_def)

lemma ring_seq_Nil [simp]: "ring_seq N buf r w = [] \<longleftrightarrow> w \<le> r"
  by (auto simp: ring_seq_def)

lemma ring_seq_self [simp]: "ring_seq N buf r r = []"
  by simp

lemma ring_seq_pop: "r < w \<Longrightarrow> ring_seq N buf r w = buf ! (r mod N) # ring_seq N buf (Suc r) w"
  by (simp add: ring_seq_def upt_conv_Cons)

lemma ring_seq_unpush: "r < w \<Longrightarrow> ring_seq N buf r (w - 1) = butlast (ring_seq N buf r w)"
  by (cases w) (simp_all add: ring_seq_def butlast_append)

lemma ring_seq_split: "r \<le> w \<Longrightarrow> w \<le> e \<Longrightarrow> ring_seq N buf r e = ring_seq N buf r w @ ring_seq N buf w e"
  using upt_add_eq_append[of r w "e - w"] by (simp add: ring_seq_def flip: map_append)

locale ring =
  fixes N :: nat
  assumes N_pos: "0 < N"
begin

lemma mod_apart: "r \<le> i \<Longrightarrow> i < w \<Longrightarrow> w < r + N \<Longrightarrow> i mod N \<noteq> w mod N"
proof
  assume a: "r \<le> i" "i < w" "w < r + N" and e: "i mod N = w mod N"
  from e a(2) have "N dvd w - i" by (metis mod_eq_dvd_iff_nat less_imp_le)
  then have "N \<le> w - i" using a(2) by (simp add: dvd_imp_le)
  then show False using a by simp
qed

lemma seq_other:
  assumes "w < r + N" "e \<le> w"
  shows "ring_seq N (buf[w mod N := x]) r e = ring_seq N buf r e"
  unfolding ring_seq_def
proof (rule map_cong[OF refl])
  fix i assume "i \<in> set [r..<e]"
  then have "i mod N \<noteq> w mod N" using assms by (intro mod_apart[of r]) auto
  then show "buf[w mod N := x] ! (i mod N) = buf ! (i mod N)" by simp
qed

lemma seq_push:
  assumes "r \<le> w" "w < r + N" "length buf = N"
  shows "ring_seq N (buf[w mod N := x]) r (Suc w) = ring_seq N buf r w @ [x]"
proof -
  have "ring_seq N (buf[w mod N := x]) r (Suc w) = ring_seq N (buf[w mod N := x]) r w @ [x]"
    using assms N_pos by (simp add: ring_seq_def)
  then show ?thesis using seq_other[OF assms(2) order_refl] by simp
qed

end

end
