(* ===== verification/Xv6_Console.thy ===== *)
theory Xv6_Console
  imports Xv6_Log Xv6_Ring
begin

text \<open>
  The console: keyboard (\<^verbatim>\<open>crates/drivers/src/kbd.rs\<close>), serial port (\<^verbatim>\<open>crates/drivers/src/uart.rs\<close>),
  screen and input line (\<^verbatim>\<open>crates/console/src/lib.rs\<close>), and the device read and write functions of
  \<^verbatim>\<open>kernel/src/glue.rs\<close>.

  The devices behind \<open>inb\<close> and \<open>outb\<close> are part of the state: the cursor registers of the CRT
  controller, the registers of an 8250 serial port with the bytes it has received and sent, and the
  pending scan codes of the keyboard controller. Whether the transmitter is ready at a poll is
  arbitrary (\<open>uart_ready\<close> lists the answers). Video memory is a map from cell numbers. The guards of
  \<open>CONS_LOCK\<close> and \<open>INPUT_LOCK\<close> have no effect in this kernel and are left out.
\<close>

section \<open>Devices\<close>

definition CRTPORT :: u16 where "CRTPORT = 0x3d4"
definition COM1 :: u16 where "COM1 = 0x3f8"
definition KBSTATP :: u16 where "KBSTATP = 0x64"
definition KBDATAP :: u16 where "KBDATAP = 0x60"
definition KBS_DIB :: u8 where "KBS_DIB = 1"
definition BACKSPACE :: i32 where [simp]: "BACKSPACE = 0x100"
definition INPUT_BUF_SIZE :: nat where [simp]: "INPUT_BUF_SIZE = 128"

record kcons = klog +
  crt :: "nat \<Rightarrow> u16"
  crt_index :: u8
  crt_hi :: u8
  crt_lo :: u8
  uart_present :: bool
  uart_ready :: "bool list"
  uart_lcr :: u8
  uart_div :: "u8 \<times> u8"
  uart_ier :: u8
  uart_rx :: "u8 list"
  uart_tx :: "u8 list"
  uart_exists :: bool
  kb_queue :: "u8 list"
  shift_state :: u32
  in_buf :: "u8 list"
  in_r :: nat
  in_w :: nat
  in_e :: nat

definition inb :: "u16 \<Rightarrow> ('z kcons_scheme, u8) kop" where
  "inb p s =
    (if p = CRTPORT + 1 then
       Inr (if crt_index s = 14 then crt_hi s else if crt_index s = 15 then crt_lo s else 0, s)
     else if p = KBSTATP then Inr (if kb_queue s = [] then 0 else KBS_DIB, s)
     else if p = KBDATAP then
       (case kb_queue s of [] \<Rightarrow> Inr (0, s) | c # cs \<Rightarrow> Inr (c, s\<lparr>kb_queue := cs\<rparr>))
     else if \<not> uart_present s then Inr (0xFF, s)
     else if p = COM1 + 5 then
       Inr ((if uart_rx s = [] then 0 else 1) OR
            (case uart_ready s of False # _ \<Rightarrow> 0 | _ \<Rightarrow> 0x20), s\<lparr>uart_ready := tl (uart_ready s)\<rparr>)
     else if p = COM1 then
       (case uart_rx s of [] \<Rightarrow> Inr (0, s) | c # cs \<Rightarrow> Inr (c, s\<lparr>uart_rx := cs\<rparr>))
     else Inr (0, s))"

definition outb :: "u16 \<Rightarrow> u8 \<Rightarrow> ('z kcons_scheme, unit) kop" where
  "outb p v = modify (\<lambda>s.
     if p = CRTPORT then s\<lparr>crt_index := v\<rparr>
     else if p = CRTPORT + 1 then
       (if crt_index s = 14 then s\<lparr>crt_hi := v\<rparr> else if crt_index s = 15 then s\<lparr>crt_lo := v\<rparr> else s)
     else if \<not> uart_present s then s
     else if p = COM1 + 3 then s\<lparr>uart_lcr := v\<rparr>
     else if p = COM1 + 1 then
       (if uart_lcr s AND 0x80 \<noteq> 0 then s\<lparr>uart_div := (fst (uart_div s), v)\<rparr> else s\<lparr>uart_ier := v\<rparr>)
     else if p = COM1 then
       (if uart_lcr s AND 0x80 \<noteq> 0 then s\<lparr>uart_div := (v, snd (uart_div s))\<rparr>
        else s\<lparr>uart_tx := uart_tx s @ [v]\<rparr>)
     else s)"

section \<open>Serial port\<close>

fun uart_poll :: "nat \<Rightarrow> ('z kcons_scheme, unit) kop" where
  "uart_poll 0 = ret ()"
| "uart_poll (Suc n) = bnd (inb (COM1 + 5)) (\<lambda>v. if v AND 0x20 \<noteq> 0 then ret () else uart_poll n)"

definition u8_of_i32 :: "i32 \<Rightarrow> u8" where "u8_of_i32 i = word_of_int i"

definition uartputc :: "i32 \<Rightarrow> ('z kcons_scheme, unit) kop" where
  "uartputc c = bnd (gets uart_exists) (\<lambda>ex. whenk ex
     (bnd (uart_poll 128) (\<lambda>_. outb COM1 (u8_of_i32 c))))"

definition bytes_of :: "string \<Rightarrow> u8 list" where "bytes_of cs = map of_char cs"

definition uartearlyinit :: "('z kcons_scheme, unit) kop" where
  "uartearlyinit =
     bnd (outb (COM1 + 2) 0) (\<lambda>_.
     bnd (outb (COM1 + 3) 0x80) (\<lambda>_.
     bnd (outb COM1 (of_nat (115200 div 9600))) (\<lambda>_.
     bnd (outb (COM1 + 1) 0) (\<lambda>_.
     bnd (outb (COM1 + 3) 3) (\<lambda>_.
     bnd (outb (COM1 + 4) 0) (\<lambda>_.
     bnd (outb (COM1 + 1) 1) (\<lambda>_.
     bnd (inb (COM1 + 5)) (\<lambda>st. whenk (st \<noteq> 0xFF)
       (bnd (modify (\<lambda>s. s\<lparr>uart_exists := True\<rparr>)) (\<lambda>_.
        for_each (\<lambda>c. uartputc (uint c)) (bytes_of ''xv6-rust...'' @ [10])))))))))))"

definition uartinit :: "('z kcons_scheme, unit) kop" where
  "uartinit = bnd (gets uart_exists) (\<lambda>ex. whenk ex
     (bnd (inb (COM1 + 2)) (\<lambda>_. bnd (inb COM1) (\<lambda>_. ret ()))))"

definition uartgetc :: "('z kcons_scheme, i32) kop" where
  "uartgetc = bnd (gets uart_exists) (\<lambda>ex. if \<not> ex then ret (-1) else
     bnd (inb (COM1 + 5)) (\<lambda>st. if st AND 1 = 0 then ret (-1) else
     bnd (inb COM1) (\<lambda>c. ret (uint c))))"

section \<open>Screen\<close>

definition usize_sub :: "nat \<Rightarrow> nat \<Rightarrow> ('s, nat) kop" where
  "usize_sub a b = (if b \<le> a then ret (a - b) else stopk sub_overflow)"

definition usize_add :: "nat \<Rightarrow> nat \<Rightarrow> ('s, nat) kop" where
  "usize_add a b = (if a + b < 2 ^ 64 then ret (a + b) else stopk add_overflow)"

definition scroll :: "nat \<Rightarrow> nat \<Rightarrow> (nat \<Rightarrow> u16) \<Rightarrow> nat \<Rightarrow> u16" where
  "scroll pos n v = (\<lambda>i.
     if pos \<le> i \<and> i < pos + n then 0 else if i < 23 * 80 then v (80 + i) else v i)"

definition cga_getpos :: "('z kcons_scheme, nat) kop" where
  "cga_getpos =
     bnd (outb CRTPORT 14) (\<lambda>_.
     bnd (inb (CRTPORT + 1)) (\<lambda>hi.
     bnd (outb CRTPORT 15) (\<lambda>_.
     bnd (inb (CRTPORT + 1)) (\<lambda>lo.
     ret (push_bit 8 (unat hi) OR unat lo)))))"

definition cga_setpos :: "nat \<Rightarrow> ('z kcons_scheme, unit) kop" where
  "cga_setpos pos =
     bnd (outb CRTPORT 14) (\<lambda>_.
     bnd (outb (CRTPORT + 1) (of_nat (drop_bit 8 pos))) (\<lambda>_.
     bnd (outb CRTPORT 15) (\<lambda>_.
     outb (CRTPORT + 1) (of_nat (pos AND 0xff)))))"

definition cga_scroll :: "nat \<Rightarrow> ('z kcons_scheme, nat) kop" where
  "cga_scroll pos =
     (if 24 \<le> pos div 80
      then bnd (usize_sub pos 80) (\<lambda>pos.
           bnd (usize_sub (24 * 80) pos) (\<lambda>n.
           bnd (modify (\<lambda>s. s\<lparr>crt := scroll pos n (crt s)\<rparr>)) (\<lambda>_. ret pos)))
      else ret pos)"

definition cgaputc :: "i32 \<Rightarrow> ('z kcons_scheme, unit) kop" where
  "cgaputc c =
     bnd cga_getpos (\<lambda>pos.
     bnd (if c = 10 then ret (pos + (80 - pos mod 80))
          else if c = BACKSPACE then ret (if 0 < pos then pos - 1 else pos)
          else bnd (modify (\<lambda>s. s\<lparr>crt := (crt s)(pos := word_of_int c AND 0xff OR 0x0700)\<rparr>))
                 (\<lambda>_. ret (pos + 1))) (\<lambda>pos.
     bnd (cga_scroll pos) (\<lambda>pos.
     bnd (cga_setpos pos) (\<lambda>_.
     modify (\<lambda>s. s\<lparr>crt := (crt s)(pos := 0x20 OR 0x0700)\<rparr>)))))"

definition consputc :: "i32 \<Rightarrow> ('z kcons_scheme, unit) kop" where
  "consputc c =
     bnd (if c = BACKSPACE
          then bnd (uartputc 8) (\<lambda>_. bnd (uartputc 32) (\<lambda>_. uartputc 8))
          else uartputc c) (\<lambda>_.
     cgaputc c)"

section \<open>Keyboard\<close>

definition SHIFT :: u32 where "SHIFT = 1"
definition CTL :: u32 where "CTL = 2"
definition ALT :: u32 where "ALT = 4"
definition CAPSLOCK :: u32 where "CAPSLOCK = 8"
definition NUMLOCK :: u32 where "NUMLOCK = 16"
definition SCROLLLOCK :: u32 where "SCROLLLOCK = 32"
definition E0ESC :: u32 where "E0ESC = 64"

definition ctrl :: "u8 \<Rightarrow> u8" where "ctrl x = x - 0x40"

text \<open>A table of 256 entries: the listed assignments, and a default elsewhere.\<close>

definition table :: "'a \<Rightarrow> (nat \<times> 'a) list \<Rightarrow> nat \<Rightarrow> 'a" where
  "table d kvs i = (case map_of kvs i of None \<Rightarrow> d | Some v \<Rightarrow> v)"

text \<open>A row of consecutive scan codes.\<close>

definition row :: "nat \<Rightarrow> u8 list \<Rightarrow> (nat \<times> u8) list" where
  "row k cs = zip [k..<k + length cs] cs"

definition SHIFTCODE :: "nat \<Rightarrow> u32" where
  "SHIFTCODE = table 0 [(0x1D, CTL), (0x2A, SHIFT), (0x36, SHIFT), (0x38, ALT), (0x9D, CTL), (0xB8, ALT)]"

definition TOGGLECODE :: "nat \<Rightarrow> u32" where
  "TOGGLECODE = table 0 [(0x3A, CAPSLOCK), (0x45, NUMLOCK), (0x46, SCROLLLOCK)]"

text \<open>The keypad and the cursor keys, which the maps share: \<open>KEY_HOME\<close> is 0xE0, and so on to \<open>KEY_DEL\<close>.\<close>

definition keypad :: "(nat \<times> u8) list" where
  "keypad = row 0x47 (bytes_of ''789-456+1230.'')"

definition cursor_keys :: "(nat \<times> u8) list" where
  "cursor_keys = [(0xC8, 0xE2), (0xD0, 0xE3), (0xC9, 0xE6), (0xD1, 0xE7), (0xCB, 0xE4), (0xCD, 0xE5),
     (0x97, 0xE0), (0xCF, 0xE1), (0xD2, 0xE8), (0xD3, 0xE9)]"

definition NORMALMAP :: "nat \<Rightarrow> u8" where
  "NORMALMAP = table 0
    ((0x01, 0x1B) # row 0x02 (bytes_of ''1234567890-='') @ [(0x0E, 0x08), (0x0F, 0x09)] @
     row 0x10 (bytes_of ''qwertyuiop[]'') @ [(0x1C, 0x0A)] @
     row 0x1E (bytes_of ''asdfghjkl;'') @ [(0x28, 0x27), (0x29, 0x60), (0x2B, 0x5C)] @
     row 0x2C (bytes_of ''zxcvbnm,./'') @ [(0x37, 0x2A), (0x39, 0x20)] @
     keypad @ [(0x9C, 0x0A), (0xB5, 0x2F)] @ cursor_keys)"

definition SHIFTMAP :: "nat \<Rightarrow> u8" where
  "SHIFTMAP = table 0
    ((0x01, 0x1B) # row 0x02 (bytes_of ''!@#$%^&*()_+'') @ [(0x0E, 0x08), (0x0F, 0x09)] @
     row 0x10 (bytes_of ''QWERTYUIOP{}'') @ [(0x1C, 0x0A)] @
     row 0x1E (bytes_of ''ASDFGHJKL:'') @ [(0x28, 0x22), (0x29, 0x7E), (0x2B, 0x7C)] @
     row 0x2C (bytes_of ''ZXCVBNM<>?'') @ [(0x37, 0x2A), (0x39, 0x20)] @
     keypad @ [(0x9C, 0x0A), (0xB5, 0x2F)] @ cursor_keys)"

definition CTLMAP :: "nat \<Rightarrow> u8" where
  "CTLMAP = table 0
    ((0x1C, 0x0A) # row 0x1E (map ctrl (bytes_of ''ASDFGHJKL'')) @
     row 0x2C (map ctrl (bytes_of ''ZXCVBNM'')) @
     row 0x10 (map ctrl (bytes_of ''QWERTYUIOP'')) @
     [(0x39, 0x20), (0x9C, 0x0A), (0xB5, ctrl 0x2F)] @ cursor_keys)"

text \<open>The keymap the modifier state selects, and the effect of caps lock on a character.\<close>

definition keymap :: "u32 \<Rightarrow> nat \<Rightarrow> u8" where
  "keymap st = [NORMALMAP, SHIFTMAP, CTLMAP, CTLMAP] ! unat (st AND (CTL OR SHIFT))"

definition swap_case :: "u8 \<Rightarrow> u8" where
  "swap_case c =
     (if 0x61 \<le> c \<and> c \<le> 0x7A then c - (0x61 - 0x41)
      else if 0x41 \<le> c \<and> c \<le> 0x5A then c + (0x61 - 0x41) else c)"

text \<open>One scan code: the new modifier state and the result.\<close>

definition kbd_key :: "u32 \<Rightarrow> u8 \<Rightarrow> u32 \<times> i32" where
  "kbd_key ss d =
    (if unat d = 0xE0 then (ss OR E0ESC, 0)
     else if d AND 0x80 \<noteq> 0 then
       let idx = if ss AND E0ESC \<noteq> 0 then unat d else unat (d AND 0x7F) in
       (ss AND NOT (SHIFTCODE idx OR E0ESC), 0)
     else
       let data = (if ss AND E0ESC \<noteq> 0 then unat (d OR 0x80) else unat d);
           ss = (if ss AND E0ESC \<noteq> 0 then ss AND NOT E0ESC else ss);
           ss = (ss OR SHIFTCODE data) XOR TOGGLECODE data;
           c = keymap ss data in
       (ss, uint (if ss AND CAPSLOCK \<noteq> 0 then swap_case c else c)))"

definition kbdgetc :: "('z kcons_scheme, i32) kop" where
  "kbdgetc =
     bnd (inb KBSTATP) (\<lambda>st. if st AND KBS_DIB = 0 then ret (-1) else
     bnd (inb KBDATAP) (\<lambda>d.
     bnd (gets (\<lambda>s. kbd_key (shift_state s) d)) (\<lambda>r.
     bnd (modify (\<lambda>s. s\<lparr>shift_state := fst r\<rparr>)) (\<lambda>_. ret (snd r)))))"

section \<open>Input line\<close>

definition consoleintr_char :: "i32 \<Rightarrow> ('z kcons_scheme, unit) kop" where
  "consoleintr_char c = bnd (gets (\<lambda>s. s)) (\<lambda>s.
     if c = 3 then ret ()
     else if c = 8 \<or> c = 127 then
       whenk (in_e s \<noteq> in_w s)
         (bnd (usize_sub (in_e s) 1) (\<lambda>e.
          bnd (modify (\<lambda>s. s\<lparr>in_e := e\<rparr>)) (\<lambda>_. consputc BACKSPACE)))
     else
       whenk (c \<noteq> 0 \<and> (in_e s + 2 ^ 64 - in_r s) mod 2 ^ 64 < INPUT_BUF_SIZE)
         (let ch = (if c = 13 then 10 else u8_of_i32 c) in
          bnd (modify (\<lambda>s. s\<lparr>in_buf := (in_buf s)[in_e s mod INPUT_BUF_SIZE := ch]\<rparr>)) (\<lambda>_.
          bnd (usize_add (in_e s) 1) (\<lambda>e.
          bnd (modify (\<lambda>s. s\<lparr>in_e := e\<rparr>)) (\<lambda>_.
          bnd (consputc (uint ch)) (\<lambda>_.
          bnd (if ch = 10 \<or> ch = 4 then ret True
               else bnd (usize_add (in_r s) INPUT_BUF_SIZE) (\<lambda>full. ret (e = full))) (\<lambda>commit.
          whenk commit
            (bnd (modify (\<lambda>s. s\<lparr>in_w := e\<rparr>)) (\<lambda>_. wakeup ChInput)))))))))"

text \<open>
  The loop ends when \<open>getc\<close> has nothing more. It runs once per pending character, and the fuel is a
  bound on their number; a run that exhausts it is a fault, which \<open>consoleintr_edits\<close> excludes.
\<close>

fun consoleintr :: "nat \<Rightarrow> ('z kcons_scheme, i32) kop \<Rightarrow> ('z kcons_scheme, unit) kop" where
  "consoleintr 0 getc = stopk (Fault ''consoleintr: fuel'')"
| "consoleintr (Suc n) getc = bnd getc (\<lambda>c. if c < 0 then ret ()
     else bnd (consoleintr_char c) (\<lambda>_. consoleintr n getc))"

definition kbdintr :: "('z kcons_scheme, unit) kop" where
  "kbdintr = bnd (gets (\<lambda>s. Suc (length (kb_queue s)))) (\<lambda>n. consoleintr n kbdgetc)"

definition uartintr :: "('z kcons_scheme, unit) kop" where
  "uartintr = bnd (gets (\<lambda>s. Suc (length (uart_rx s)))) (\<lambda>n. consoleintr n uartgetc)"

section \<open>Device functions\<close>

text \<open>
  The bytes read are part of the result. \<open>consoleread\<close> asks for at most \<open>n\<close> characters: the
  argument counts those left.
\<close>

fun console_poll :: "nat \<Rightarrow> ('z kcons_scheme, u8 list) kop" where
  "console_poll 0 = ret []"
| "console_poll (Suc n) = bnd uartgetc (\<lambda>c. if c < 0 then ret [] else
     if c = 10 then ret [10] else bnd (console_poll n) (\<lambda>cs. ret (u8_of_i32 c # cs)))"

definition consoleread :: "i32 \<Rightarrow> ('z kcons_scheme, i32 \<times> u8 list) kop" where
  "consoleread n = bnd (console_poll (nat n)) (\<lambda>cs. ret (int (length cs), cs))"

definition consolewrite :: "u8 list \<Rightarrow> ('z kcons_scheme, i32) kop" where
  "consolewrite src = bnd (for_each (\<lambda>c. consputc (uint c)) src) (\<lambda>_. ret (int (length src)))"

definition cprintf_str :: "u8 list \<Rightarrow> ('z kcons_scheme, unit) kop" where
  "cprintf_str p = for_each (\<lambda>c. uartputc (uint c)) (takeWhile (\<lambda>c. c \<noteq> 0) p)"


section \<open>Effect of the output operations\<close>

text \<open>
  The serial port is in order when it is known to exist only if it does and its registers are not
  switched to the divisor latch; the cursor is on the screen of 25 lines.
\<close>

definition cursor :: "'z kcons_scheme \<Rightarrow> nat" where
  "cursor s = 256 * unat (crt_hi s) + unat (crt_lo s)"

definition out_ok :: "'z kcons_scheme \<Rightarrow> bool" where
  "out_ok s \<longleftrightarrow> (uart_exists s \<longrightarrow> uart_present s \<and> uart_lcr s AND 0x80 = 0) \<and> cursor s < 2000"

text \<open>The state after output of the bytes \<open>tx\<close>: only the devices change, the screen only inside its 2000 cells.\<close>

definition shown :: "u8 list \<Rightarrow> 'z kcons_scheme \<Rightarrow> 'z kcons_scheme \<Rightarrow> bool" where
  "shown tx s s' \<longleftrightarrow> (\<exists>v i h l rd. s' = s\<lparr>crt := v, crt_index := i, crt_hi := h, crt_lo := l, uart_ready := rd,
      uart_tx := uart_tx s @ (if uart_exists s then tx else [])\<rparr> \<and>
      (\<forall>k. 2000 \<le> k \<longrightarrow> v k = crt s k)) \<and> out_ok s'"

lemma ports [simp]:
  "CRTPORT + 1 \<noteq> CRTPORT" "COM1 \<noteq> CRTPORT" "COM1 \<noteq> CRTPORT + 1" "COM1 + 5 \<noteq> COM1" "COM1 + 5 \<noteq> CRTPORT + 1"
  "COM1 \<noteq> KBSTATP" "COM1 \<noteq> KBDATAP" "COM1 + 5 \<noteq> KBSTATP" "COM1 + 5 \<noteq> KBDATAP" "COM1 + 3 \<noteq> COM1"
  "COM1 + 1 \<noteq> COM1" "COM1 + 1 \<noteq> CRTPORT" "COM1 + 3 \<noteq> COM1 + 1" "COM1 \<noteq> COM1 + 3" "COM1 \<noteq> COM1 + 1"
  "KBSTATP \<noteq> CRTPORT + 1" "KBDATAP \<noteq> CRTPORT + 1" "KBDATAP \<noteq> KBSTATP" "KBSTATP \<noteq> KBDATAP"
  by (simp_all add: CRTPORT_def COM1_def KBSTATP_def KBDATAP_def)

lemma shown_refl [simp]: "out_ok s \<Longrightarrow> shown [] s s"
  unfolding shown_def by (rule conjI, rule exI[of _ "crt s"], rule exI[of _ "crt_index s"], rule exI[of _ "crt_hi s"],
    rule exI[of _ "crt_lo s"], rule exI[of _ "uart_ready s"]) simp_all

lemma shown_trans:
  assumes "shown a s s1" "shown b s1 s2"
  shows "shown (a @ b) s s2"
proof -
  from assms(1) obtain v i h l rd where 1: "s1 = s\<lparr>crt := v, crt_index := i, crt_hi := h, crt_lo := l, uart_ready := rd,
      uart_tx := uart_tx s @ (if uart_exists s then a else [])\<rparr>" "\<forall>k. 2000 \<le> k \<longrightarrow> v k = crt s k"
    unfolding shown_def by blast
  from assms(2) obtain v' i' h' l' rd' where 2: "s2 = s1\<lparr>crt := v', crt_index := i', crt_hi := h', crt_lo := l', uart_ready := rd',
      uart_tx := uart_tx s1 @ (if uart_exists s1 then b else [])\<rparr>" "\<forall>k. 2000 \<le> k \<longrightarrow> v' k = crt s1 k" "out_ok s2"
    unfolding shown_def by blast
  have "s2 = s\<lparr>crt := v', crt_index := i', crt_hi := h', crt_lo := l', uart_ready := rd',
      uart_tx := uart_tx s @ (if uart_exists s then a @ b else [])\<rparr>" "\<forall>k. 2000 \<le> k \<longrightarrow> v' k = crt s k"
    using 1 2(1,2) by simp_all
  then show ?thesis unfolding shown_def using 2(3) by blast
qed

lemma runs_lsr:
  assumes "\<And>v rd. Q v (s\<lparr>uart_ready := rd\<rparr>)"
  shows "runs (inb (COM1 + 5)) s Q"
proof -
  have "s\<lparr>uart_ready := uart_ready s\<rparr> = s" by simp
  then have "Q v s" for v using assms by metis
  then show ?thesis using assms by (simp add: runs_def inb_def)
qed

lemma runs_uart_poll:
  assumes "\<And>rd. Q () (s\<lparr>uart_ready := rd\<rparr>)"
  shows "runs (uart_poll n) s Q"
  using assms
proof (induction n arbitrary: s)
  case 0
  then show ?case using "0"[of "uart_ready s"] by simp
next
  case (Suc n)
  have same: "Q () s" using Suc.prems[of "uart_ready s"] by simp
  have "runs (uart_poll n) (s\<lparr>uart_ready := rd\<rparr>) Q" for rd
    by (rule Suc.IH) (use Suc.prems in simp)
  then show ?case using same Suc.prems by (auto intro!: runs_lsr)
qed

lemma runs_uartputc:
  assumes ok: "out_ok s" and Q: "\<And>s'. shown [u8_of_i32 c] s s' \<Longrightarrow> Q () s'"
  shows "runs (uartputc c) s Q"
proof (cases "uart_exists s")
  case True
  then have u: "uart_present s" "uart_lcr s AND 0x80 = 0" using ok by (simp_all add: out_ok_def)
  have "Q () (s\<lparr>uart_ready := rd, uart_tx := uart_tx s @ [u8_of_i32 c]\<rparr>)" for rd
  proof (rule Q)
    let ?t = "s\<lparr>uart_ready := rd, uart_tx := uart_tx s @ [u8_of_i32 c]\<rparr>"
    have "?t = s\<lparr>crt := crt s, crt_index := crt_index s, crt_hi := crt_hi s, crt_lo := crt_lo s, uart_ready := rd,
      uart_tx := uart_tx s @ (if uart_exists s then [u8_of_i32 c] else [])\<rparr>" using True by simp
    moreover have "out_ok ?t" using ok by (simp add: out_ok_def cursor_def)
    ultimately show "shown [u8_of_i32 c] s ?t" unfolding shown_def by blast
  qed
  then show ?thesis
    using True u by (simp add: uartputc_def outb_def runs_uart_poll)
next
  case False
  have "shown [u8_of_i32 c] s s" using shown_refl[OF ok] False by (simp add: shown_def)
  then show ?thesis using False Q by (simp add: uartputc_def)
qed

text \<open>Where the cursor goes.\<close>

definition cga_next :: "i32 \<Rightarrow> nat \<Rightarrow> nat" where
  "cga_next c pos = (let p = (if c = 10 then pos + (80 - pos mod 80) else if c = BACKSPACE then pos - 1 else pos + 1)
     in if 24 \<le> p div 80 then p - 80 else p)"

lemma line_end:
  fixes pos :: nat
  assumes "pos < 2000"
  shows "pos + (80 - pos mod 80) \<le> 2000"
proof -
  have "pos mod 80 < 80" "pos div 80 < 25" using assms by (simp_all add: less_mult_imp_div_less)
  moreover have "80 * (pos div 80) + pos mod 80 = pos" by simp
  ultimately show ?thesis by linarith
qed

lemma cga_next_bound:
  assumes "pos < 2000"
  shows "cga_next c pos \<le> 1920"
proof -
  have "(if 24 \<le> x div 80 then x - 80 else x) \<le> 1920" if "x \<le> 2000" for x :: nat
    using that by auto
  then show ?thesis unfolding cga_next_def Let_def using assms line_end[OF assms] by auto
qed

lemma pos_bytes: "push_bit 8 (unat (h :: u8)) OR unat (l :: u8) = 256 * unat h + unat l"
proof -
  have "push_bit 8 (unat h) AND unat l = 0"
    by (rule bit_eqI) (auto simp: bit_simps dest: bit_imp_le_length)
  then have "push_bit 8 (unat h) OR unat l = push_bit 8 (unat h) + unat l"
    by (simp add: disjunctive_add_eq_or)
  then show ?thesis by (simp add: push_bit_eq_mult)
qed

lemma cursor_put:
  "p < 65536 \<Longrightarrow> 256 * unat (of_nat (drop_bit 8 p) :: u8) + unat (of_nat (p AND 0xff) :: u8) = p"
proof -
  assume "p < 65536"
  then have "p div 256 < 256" by (simp add: less_mult_imp_div_less)
  moreover have "p AND 0xff = take_bit 8 p" by (simp add: take_bit_eq_mask mask_eq_exp_minus_1)
  then have "p AND 0xff = p mod 256" by (simp add: take_bit_eq_mod)
  ultimately show ?thesis by (simp add: drop_bit_eq_div unat_of_nat)
qed

lemma runs_crt [simp]:
  "runs (inb (CRTPORT + 1)) s R = R (if crt_index s = 14 then crt_hi s else if crt_index s = 15 then crt_lo s else 0) s"
  "runs (outb CRTPORT v) s Q = Q () (s\<lparr>crt_index := v\<rparr>)"
  "runs (outb (CRTPORT + 1) v) s Q = Q () (if crt_index s = 14 then s\<lparr>crt_hi := v\<rparr>
     else if crt_index s = 15 then s\<lparr>crt_lo := v\<rparr> else s)"
  by (simp_all add: outb_def) (simp add: runs_def inb_def)

lemma runs_cga_pos [simp]:
  "runs cga_getpos s R = R (cursor s) (s\<lparr>crt_index := 15\<rparr>)"
  "runs (cga_setpos p) s Q = Q () (s\<lparr>crt_hi := of_nat (drop_bit 8 p), crt_index := 15, crt_lo := of_nat (p AND 0xff)\<rparr>)"
  by (simp_all add: cga_getpos_def cga_setpos_def pos_bytes cursor_def)

lemma runs_cga_scroll:
  assumes "p \<le> 2000" and "\<And>v. \<forall>k. 2000 \<le> k \<longrightarrow> v k = crt s k \<Longrightarrow>
    Q (if 24 \<le> p div 80 then p - 80 else p) (s\<lparr>crt := v\<rparr>)"
  shows "runs (cga_scroll p) s Q"
proof -
  have "s\<lparr>crt := crt s\<rparr> = s" by simp
  then have "Q (if 24 \<le> p div 80 then p - 80 else p) s" using assms(2)[of "crt s"] by simp
  moreover have "80 \<le> p \<and> p \<le> 2000" if "24 \<le> p div 80" using that assms(1) by auto
  ultimately show ?thesis using assms by (auto simp: cga_scroll_def usize_sub_def scroll_def)
qed

lemma runs_cgaputc:
  assumes ok: "out_ok s" and Q: "\<And>s'. shown [] s s' \<Longrightarrow> cursor s' = cga_next c (cursor s) \<Longrightarrow> Q () s'"
  shows "runs (cgaputc c) s Q"
proof -
  let ?p = "cursor s" and ?n = "cga_next c (cursor s)"
  have p: "?p < 2000" using ok by (simp add: out_ok_def)
  have n: "?n \<le> 1920" by (rule cga_next_bound[OF p])
  let ?t = "\<lambda>v. s\<lparr>crt_hi := of_nat (drop_bit 8 ?n), crt_index := 15, crt_lo := of_nat (?n AND 0xff), crt := v\<rparr>"
  have fin: "Q () (?t v)" if v: "\<forall>k. 2000 \<le> k \<longrightarrow> v k = crt s k" for v
  proof (rule Q)
    show cur: "cursor (?t v) = ?n" using n cursor_put[of ?n] by (simp add: cursor_def)
    have "out_ok (?t v)" using ok n cur by (simp add: out_ok_def)
    moreover have "?t v = s\<lparr>crt := v, crt_index := 15, crt_hi := of_nat (drop_bit 8 ?n), crt_lo := of_nat (?n AND 0xff),
      uart_ready := uart_ready s, uart_tx := uart_tx s @ (if uart_exists s then [] else [])\<rparr>" by (rule kcons.equality) simp_all
    ultimately show "shown [] s (?t v)" unfolding shown_def using v by blast
  qed
  define q where "q = (if c = 10 then ?p + (80 - ?p mod 80) else if c = BACKSPACE then ?p - 1 else ?p + 1)"
  have nq: "?n = (if 24 \<le> q div 80 then q - 80 else q)" by (simp add: cga_next_def q_def)
  have q: "q \<le> 2000" using p line_end[OF p] by (auto simp: q_def)
  have rest: "runs (bnd (cga_scroll q) (\<lambda>pos. bnd (cga_setpos pos) (\<lambda>_.
      modify (\<lambda>s. s\<lparr>crt := (crt s)(pos := 0x20 OR 0x0700)\<rparr>)))) (s\<lparr>crt_index := 15, crt := v\<rparr>) Q"
    if v: "\<forall>k. 2000 \<le> k \<longrightarrow> v k = crt s k" for v
  proof (simp only: runs_bnd, rule runs_cga_scroll[OF q])
    fix v' assume "\<forall>k. 2000 \<le> k \<longrightarrow> v' k = crt (s\<lparr>crt_index := 15, crt := v\<rparr>) k"
    then have "Q () (?t (v'(?n := 0x20 OR 0x0700)))" using v n by (intro fin) auto
    then show "runs (cga_setpos (if 24 \<le> q div 80 then q - 80 else q)) (s\<lparr>crt_index := 15, crt := v, crt := v'\<rparr>)
        (\<lambda>x s'. runs (modify (\<lambda>s. s\<lparr>crt := (crt s)((if 24 \<le> q div 80 then q - 80 else q) := 0x20 OR 0x0700)\<rparr>)) s' Q)"
      unfolding nq[symmetric] by simp
  qed
  from rest[of "crt s"] rest[of "(crt s)(?p := word_of_int c AND 0xff OR 0x0700)"] p show ?thesis
    unfolding cgaputc_def by (cases "c = 10"; cases "c = BACKSPACE"; cases "0 < ?p") (simp_all add: q_def)
qed

lemma runs_consputc:
  assumes ok: "out_ok s"
    and Q: "\<And>s'. shown (if c = BACKSPACE then [8, 32, 8] else [u8_of_i32 c]) s s' \<Longrightarrow> Q () s'"
  shows "runs (consputc c) s Q"
proof -
  have cga: "runs (cgaputc c) s1 Q" if "shown (if c = BACKSPACE then [8, 32, 8] else [u8_of_i32 c]) s s1" for s1
  proof (rule runs_cgaputc)
    show "out_ok s1" using that by (simp add: shown_def)
    fix s2 assume "shown [] s1 s2"
    from shown_trans[OF that this] show "Q () s2" by (intro Q) simp
  qed
  have ok2: "shown tx s s1 \<Longrightarrow> out_ok s1" for tx and s1 :: "'a kcons_scheme" by (simp add: shown_def)
  show ?thesis
  proof (cases "c = BACKSPACE")
    case True
    have "runs (uartputc 8) s (\<lambda>_ s1. runs (uartputc 32) s1 (\<lambda>_ s2. runs (uartputc 8) s2 (\<lambda>_ s3. runs (cgaputc c) s3 Q)))"
    proof (rule runs_uartputc[OF ok])
      fix s1 assume 1: "shown [u8_of_i32 8] s s1"
      show "runs (uartputc 32) s1 (\<lambda>_ s2. runs (uartputc 8) s2 (\<lambda>_ s3. runs (cgaputc c) s3 Q))"
      proof (rule runs_uartputc[OF ok2[OF 1]])
        fix s2 assume 2: "shown [u8_of_i32 32] s1 s2"
        note s2 = shown_trans[OF 1 2]
        show "runs (uartputc 8) s2 (\<lambda>_ s3. runs (cgaputc c) s3 Q)"
        proof (rule runs_uartputc[OF ok2[OF s2]])
          fix s3 assume "shown [u8_of_i32 8] s2 s3"
          from shown_trans[OF s2 this] show "runs (cgaputc c) s3 Q"
            using True by (intro cga) (simp add: u8_of_i32_def)
        qed
      qed
    qed
    then show ?thesis using True by (simp add: consputc_def)
  next
    case False
    then show ?thesis using cga by (auto simp: consputc_def intro!: runs_uartputc[OF ok])
  qed
qed

section \<open>The input line\<close>

text \<open>
  What the input ring holds: the committed characters, which a reader may take, and the line being
  edited. \<open>edit\<close> is the line discipline on these two lists.
\<close>

definition line_of :: "'z kcons_scheme \<Rightarrow> u8 list \<times> u8 list" where
  "line_of s = (ring_seq INPUT_BUF_SIZE (in_buf s) (in_r s) (in_w s), ring_seq INPUT_BUF_SIZE (in_buf s) (in_w s) (in_e s))"

definition edit :: "i32 \<Rightarrow> u8 list \<times> u8 list \<Rightarrow> u8 list \<times> u8 list" where
  "edit c = (\<lambda>(kept, line).
     if c = 3 then (kept, line)
     else if c = 8 \<or> c = 127 then (kept, butlast line)
     else if c = 0 \<or> INPUT_BUF_SIZE \<le> length kept + length line then (kept, line)
     else let line' = line @ [if c = 13 then 10 else u8_of_i32 c] in
       if last line' = 10 \<or> last line' = 4 \<or> length kept + length line' = INPUT_BUF_SIZE
       then (kept @ line', []) else (kept, line'))"

definition line_ok :: "'z kcons_scheme \<Rightarrow> bool" where
  "line_ok s \<longleftrightarrow> in_r s \<le> in_w s \<and> in_w s \<le> in_e s \<and> in_e s \<le> in_r s + INPUT_BUF_SIZE \<and>
     in_r s + INPUT_BUF_SIZE < 2 ^ 64 \<and> length (in_buf s) = INPUT_BUF_SIZE"

definition cons_inv :: "'z kcons_scheme \<Rightarrow> bool" where
  "cons_inv s \<longleftrightarrow> out_ok s \<and> line_ok s"

text \<open>The part of the state that decides what the character sources deliver.\<close>

definition sources :: "'z kcons_scheme \<Rightarrow> u8 list \<times> u32 \<times> u8 list \<times> bool \<times> bool" where
  "sources s = (kb_queue s, shift_state s, uart_rx s, uart_exists s, uart_present s)"

lemma shown_frame:
  assumes "shown tx s s'"
  shows "out_ok s'" "line_ok s' = line_ok s" "line_of s' = line_of s" "sources s' = sources s"
    "in_buf s' = in_buf s" "in_r s' = in_r s" "in_w s' = in_w s" "in_e s' = in_e s"
  using assms by (auto simp: shown_def line_ok_def line_of_def sources_def)

lemma out_ok_cong:
  assumes "uart_exists s' = uart_exists s" "uart_present s' = uart_present s" "uart_lcr s' = uart_lcr s"
    "crt_hi s' = crt_hi s" "crt_lo s' = crt_lo s"
  shows "out_ok s' = out_ok s"
  using assms by (simp add: out_ok_def cursor_def)

lemma kcons_ktrans [simp]:
  "in_buf (woken ch s) = in_buf s" "in_r (woken ch s) = in_r s" "in_w (woken ch s) = in_w s" "in_e (woken ch s) = in_e s"
  "kb_queue (woken ch s) = kb_queue s" "shift_state (woken ch s) = shift_state s" "uart_rx (woken ch s) = uart_rx s"
  "uart_exists (woken ch s) = uart_exists s" "uart_present (woken ch s) = uart_present s" "uart_lcr (woken ch s) = uart_lcr s"
  "crt_hi (woken ch s) = crt_hi s" "crt_lo (woken ch s) = crt_lo s"
  by (simp_all add: ktrans_defs)

interpretation cin: ring INPUT_BUF_SIZE
  by unfold_locales simp

lemma runs_erase_char:
  assumes "cons_inv s" "in_e s \<noteq> in_w s"
    and Q: "\<And>s'. cons_inv s' \<Longrightarrow> sources s' = sources s \<Longrightarrow> line_of s' = map_prod id butlast (line_of s) \<Longrightarrow> Q () s'"
  shows "runs (consputc BACKSPACE) (s\<lparr>in_e := in_e s - 1\<rparr>) Q"
proof (rule runs_consputc)
  let ?t = "s\<lparr>in_e := in_e s - 1\<rparr>"
  show "out_ok ?t" using assms(1) by (simp add: cons_inv_def out_ok_def cursor_def)
  have e: "in_w s < in_e s" using assms by (simp add: cons_inv_def line_ok_def)
  fix s' assume s': "shown (if BACKSPACE = BACKSPACE then [8, 32, 8] else [u8_of_i32 BACKSPACE]) ?t s'"
  note f = shown_frame[OF s']
  have "line_ok ?t" using assms(1) e by (auto simp: cons_inv_def line_ok_def)
  moreover have "line_of ?t = map_prod id butlast (line_of s)"
    using ring_seq_unpush[OF e] by (simp add: line_of_def)
  ultimately show "Q () s'" using f(1-4) by (intro Q) (simp_all add: cons_inv_def sources_def)
qed

text \<open>One more character in the ring: it joins the line, or the line is committed.\<close>

lemma line_push:
  fixes ch :: u8
  assumes "line_ok s" "in_e s < in_r s + INPUT_BUF_SIZE"
  defines "t \<equiv> s\<lparr>in_buf := (in_buf s)[in_e s mod INPUT_BUF_SIZE := ch], in_e := Suc (in_e s)\<rparr>"
  shows "line_of t = (fst (line_of s), snd (line_of s) @ [ch])"
    "line_of (t\<lparr>in_w := Suc (in_e s)\<rparr>) = (fst (line_of s) @ snd (line_of s) @ [ch], [])"
    "line_ok t" "line_ok (t\<lparr>in_w := Suc (in_e s)\<rparr>)"
proof -
  have o: "in_r s \<le> in_w s" "in_w s \<le> in_e s" "length (in_buf s) = INPUT_BUF_SIZE" "in_e s < in_w s + INPUT_BUF_SIZE"
    using assms(1,2) by (simp_all add: line_ok_def)
  show "line_of t = (fst (line_of s), snd (line_of s) @ [ch])"
    using cin.seq_push[OF o(2,4,3)] cin.seq_other[OF assms(2) o(2)] by (simp add: line_of_def t_def)
  have "ring_seq INPUT_BUF_SIZE (in_buf s) (in_r s) (in_e s) = fst (line_of s) @ snd (line_of s)"
    using ring_seq_split[OF o(1,2)] by (simp add: line_of_def)
  then show "line_of (t\<lparr>in_w := Suc (in_e s)\<rparr>) = (fst (line_of s) @ snd (line_of s) @ [ch], [])"
    using cin.seq_push[OF order_trans[OF o(1,2)] assms(2) o(3)] by (simp add: line_of_def t_def)
  show "line_ok t" "line_ok (t\<lparr>in_w := Suc (in_e s)\<rparr>)"
    using assms(1,2) by (simp_all add: line_ok_def t_def)
qed

lemma line_length: "line_ok s \<Longrightarrow> length (fst (line_of s)) + length (snd (line_of s)) = in_e s - in_r s"
  by (simp add: line_of_def line_ok_def)

lemma runs_store_char:
  assumes inv: "cons_inv s" and room: "in_e s < in_r s + INPUT_BUF_SIZE" and ch: "ch = (if c = 13 then 10 else u8_of_i32 c)"
    and c: "c \<noteq> 3" "c \<noteq> 8" "c \<noteq> 127" "c \<noteq> 0"
    and Q: "\<And>s'. cons_inv s' \<Longrightarrow> sources s' = sources s \<Longrightarrow> line_of s' = edit c (line_of s) \<Longrightarrow> Q () s'"
  shows "runs (bnd (consputc (uint ch)) (\<lambda>_.
      bnd (if ch = 10 \<or> ch = 4 then ret True
           else bnd (usize_add (in_r s) INPUT_BUF_SIZE) (\<lambda>full. ret (Suc (in_e s) = full))) (\<lambda>commit.
      whenk commit (bnd (modify (\<lambda>s1. s1\<lparr>in_w := Suc (in_e s)\<rparr>)) (\<lambda>_. wakeup ChInput)))))
    (s\<lparr>in_buf := (in_buf s)[in_e s mod INPUT_BUF_SIZE := ch], in_e := Suc (in_e s)\<rparr>) Q"
proof -
  let ?t = "s\<lparr>in_buf := (in_buf s)[in_e s mod INPUT_BUF_SIZE := ch], in_e := Suc (in_e s)\<rparr>"
  let ?k = "fst (line_of s)" and ?l = "snd (line_of s)"
  have ok: "out_ok s" "line_ok s" using inv by (simp_all add: cons_inv_def)
  note lp = line_push[OF ok(2) room, of ch]
  have len: "in_r s \<le> in_e s" "in_r s + INPUT_BUF_SIZE < 2 ^ 64" using ok(2) by (simp_all add: line_ok_def)
  have ed: "edit c (line_of s) = (if ch = 10 \<or> ch = 4 \<or> Suc (in_e s) = in_r s + INPUT_BUF_SIZE
      then (?k @ ?l @ [ch], []) else (?k, ?l @ [ch]))"
  proof -
    have "\<not> INPUT_BUF_SIZE \<le> length ?k + length ?l" using line_length[OF ok(2)] room by simp
    moreover have "length ?k + length (?l @ [ch]) = INPUT_BUF_SIZE \<longleftrightarrow> Suc (in_e s) = in_r s + INPUT_BUF_SIZE"
      using line_length[OF ok(2)] len by auto
    ultimately show ?thesis using c ch by (simp add: edit_def split_beta Let_def)
  qed
  have body: "runs (bnd (if ch = 10 \<or> ch = 4 then ret True
      else bnd (usize_add (in_r s) INPUT_BUF_SIZE) (\<lambda>full. ret (Suc (in_e s) = full))) (\<lambda>commit.
      whenk commit (bnd (modify (\<lambda>s1. s1\<lparr>in_w := Suc (in_e s)\<rparr>)) (\<lambda>_. wakeup ChInput)))) s1 Q"
    if s1: "shown [u8_of_i32 (uint ch)] ?t s1" for s1
  proof -
    note f = shown_frame[OF s1]
    let ?s2 = "woken ChInput (s1\<lparr>in_w := Suc (in_e s)\<rparr>)"
    have "out_ok ?s2 = out_ok s1" by (rule out_ok_cong) simp_all
    moreover have "line_ok ?s2" using lp(4) f(5-8) by (simp add: line_ok_def)
    moreover have "line_of ?s2 = (?k @ ?l @ [ch], [])" using lp(2) f(5-8) by (simp add: line_of_def)
    moreover have "sources ?s2 = sources s" using f(4) by (simp add: sources_def)
    ultimately have "Q () ?s2" if "ch = 10 \<or> ch = 4 \<or> Suc (in_e s) = in_r s + INPUT_BUF_SIZE"
      using that ed f(1) by (intro Q) (simp_all add: cons_inv_def)
    moreover have "Q () s1" if "\<not> (ch = 10 \<or> ch = 4 \<or> Suc (in_e s) = in_r s + INPUT_BUF_SIZE)"
      using that ed f(1-4) lp(1,3) by (intro Q) (simp_all add: cons_inv_def sources_def)
    ultimately show ?thesis using len
      by (cases "ch = 10 \<or> ch = 4 \<or> Suc (in_e s) = in_r s + INPUT_BUF_SIZE") (auto simp: usize_add_def)
  qed
  have "out_ok ?t" using ok(1) by (simp add: out_ok_def cursor_def)
  moreover have "uint ch \<noteq> BACKSPACE" using uint_lt2p[of ch] by simp
  ultimately show ?thesis
    unfolding runs_bnd[of "consputc (uint ch)"] by (intro runs_consputc body) simp_all
qed

lemma runs_consoleintr_char:
  assumes inv: "cons_inv s"
    and Q: "\<And>s'. cons_inv s' \<Longrightarrow> sources s' = sources s \<Longrightarrow> line_of s' = edit c (line_of s) \<Longrightarrow> Q () s'"
  shows "runs (consoleintr_char c) s Q"
proof -
  have ok: "line_ok s" using inv by (simp add: cons_inv_def)
  have le: "in_r s \<le> in_e s" "in_e s \<le> in_r s + INPUT_BUF_SIZE" using ok by (simp_all add: line_ok_def)
  then have "in_e s + 2 ^ 64 - in_r s = (in_e s - in_r s) + 2 ^ 64" "in_e s - in_r s < 2 ^ 64" by auto
  then have sub: "(in_e s + 2 ^ 64 - in_r s) mod 2 ^ 64 = in_e s - in_r s" by (metis mod_add_self2 mod_less)
  have same: "edit c (line_of s) = line_of s \<Longrightarrow> Q () s" using inv Q by simp
  consider "c = 3" | "c = 8 \<or> c = 127" "in_e s = in_w s" | "c = 8 \<or> c = 127" "in_e s \<noteq> in_w s"
    | "c \<noteq> 3" "c \<noteq> 8" "c \<noteq> 127" "c = 0 \<or> \<not> in_e s < in_r s + INPUT_BUF_SIZE"
    | "c \<noteq> 3" "c \<noteq> 8" "c \<noteq> 127" "c \<noteq> 0" "in_e s < in_r s + INPUT_BUF_SIZE" by blast
  then show ?thesis
  proof cases
    case 1
    then show ?thesis using same by (simp add: consoleintr_char_def edit_def split_beta)
  next
    case 2
    then show ?thesis using same by (auto simp: consoleintr_char_def edit_def split_beta line_of_def)
  next
    case 3
    then have "1 \<le> in_e s" using ok by (simp add: line_ok_def)
    moreover have "runs (consputc BACKSPACE) (s\<lparr>in_e := in_e s - 1\<rparr>) Q"
      by (rule runs_erase_char[OF inv 3(2)]) (use 3(1) in \<open>auto intro!: Q simp: edit_def split_beta map_prod_def\<close>)
    ultimately show ?thesis using 3 by (auto simp: consoleintr_char_def usize_sub_def)
  next
    case 4
    have "\<not> in_e s - in_r s < INPUT_BUF_SIZE" if "c \<noteq> 0" using 4 that le by auto
    moreover have "edit c (line_of s) = line_of s"
      using 4 le ok by (auto simp: edit_def line_of_def line_ok_def)
    ultimately show ?thesis using 4 same sub by (auto simp: consoleintr_char_def)
  next
    case 5
    let ?ch = "if c = 13 then 10 else u8_of_i32 c"
    have "in_e s - in_r s < INPUT_BUF_SIZE" using 5(5) le by auto
    moreover have "in_e s + 1 < 2 ^ 64" using 5(5) ok by (simp add: line_ok_def)
    moreover note runs_store_char[OF inv 5(5) refl 5(1-4), of Q, OF Q]
    ultimately show ?thesis using 5(1-4) sub
      unfolding consoleintr_char_def Let_def
      by (simp only: runs_bnd runs_gets runs_modify usize_add_def if_True if_False runs_ret runs_whenk simp_thms Suc_eq_plus1 de_Morgan_disj)
  qed
qed

section \<open>Sources of characters\<close>

text \<open>
  The contract of the \<open>getc\<close> argument of \<open>consoleintr\<close>: it delivers a finite sequence of characters,
  determined by the source's state, and then a negative number; it does not touch the input line.
\<close>

locale char_source =
  fixes getc :: "('z kcons_scheme, i32) kop"
    and chars :: "'z kcons_scheme \<Rightarrow> i32 list"
  assumes none: "cons_inv s \<Longrightarrow> chars s = [] \<Longrightarrow> runs getc s (\<lambda>c s'. c < 0 \<and> cons_inv s' \<and> line_of s' = line_of s \<and> chars s' = [])"
    and some: "cons_inv s \<Longrightarrow> chars s = k # ks \<Longrightarrow>
      runs getc s (\<lambda>c s'. c = k \<and> 0 \<le> c \<and> cons_inv s' \<and> line_of s' = line_of s \<and> chars s' = ks)"
    and stable: "sources s' = sources s \<Longrightarrow> chars s' = chars s"
begin

lemma drains:
  assumes "cons_inv s" "length (chars s) < n"
  shows "runs (consoleintr n getc) s (\<lambda>_ s'. cons_inv s' \<and> chars s' = [] \<and> line_of s' = fold edit (chars s) (line_of s))"
  using assms
proof (induction n arbitrary: s)
  case (Suc n)
  show ?case
  proof (cases "chars s")
    case Nil
    then show ?thesis using none[OF Suc.prems(1) Nil] by (auto elim!: runs_mono)
  next
    case (Cons k ks)
    have "runs (consoleintr_char k) s1 (\<lambda>_ s2. runs (consoleintr n getc) s2
        (\<lambda>_ s'. cons_inv s' \<and> chars s' = [] \<and> line_of s' = fold edit (chars s) (line_of s)))"
      if s1: "cons_inv s1" "line_of s1 = line_of s" "chars s1 = ks" for s1
    proof (rule runs_consoleintr_char[OF s1(1)])
      fix s2 :: "'z kcons_scheme"
      assume s2: "cons_inv s2" "sources s2 = sources s1" "line_of s2 = edit k (line_of s1)"
      have c2: "chars s2 = ks" using stable[OF s2(2)] s1(3) by simp
      have "runs (consoleintr n getc) s2 (\<lambda>_ s'. cons_inv s' \<and> chars s' = [] \<and> line_of s' = fold edit (chars s2) (line_of s2))"
        by (rule Suc.IH[OF s2(1)]) (use Suc.prems(2) Cons c2 in simp)
      then show "runs (consoleintr n getc) s2 (\<lambda>_ s'. cons_inv s' \<and> chars s' = [] \<and> line_of s' = fold edit (chars s) (line_of s))"
        using s1 s2 c2 Cons by simp
    qed
    then show ?thesis using some[OF Suc.prems(1) Cons] by (auto elim!: runs_mono)
  qed
qed simp

end

fun kbd_chars :: "u32 \<Rightarrow> u8 list \<Rightarrow> i32 list" where
  "kbd_chars ss [] = []"
| "kbd_chars ss (d # ds) = snd (kbd_key ss d) # kbd_chars (fst (kbd_key ss d)) ds"

lemma length_kbd_chars [simp]: "length (kbd_chars ss ds) = length ds"
  by (induction ds arbitrary: ss) simp_all

lemma kbd_key_nonneg: "0 \<le> snd (kbd_key ss d)"
  by (simp add: kbd_key_def Let_def)

lemma runs_kbdgetc:
  "runs kbdgetc s Q = (case kb_queue s of [] \<Rightarrow> Q (-1) s
     | d # ds \<Rightarrow> Q (snd (kbd_key (shift_state s) d)) (s\<lparr>kb_queue := ds, shift_state := fst (kbd_key (shift_state s) d)\<rparr>))"
proof -
  have "runs (inb KBSTATP) s P = P (if kb_queue s = [] then 0 else KBS_DIB) s" for P
    by (simp add: runs_def inb_def)
  moreover have "runs (inb KBDATAP) s P = (case kb_queue s of [] \<Rightarrow> P 0 s | c # cs \<Rightarrow> P c (s\<lparr>kb_queue := cs\<rparr>))" for P
    by (simp add: runs_def inb_def split: list.splits)
  ultimately show ?thesis by (simp add: kbdgetc_def KBS_DIB_def split: list.splits)
qed

lemma cons_inv_source [simp]:
  "cons_inv (s\<lparr>kb_queue := q, shift_state := st\<rparr>) = cons_inv s" "line_of (s\<lparr>kb_queue := q, shift_state := st\<rparr>) = line_of s"
  "cons_inv (s\<lparr>kb_queue := q\<rparr>) = cons_inv s" "line_of (s\<lparr>kb_queue := q\<rparr>) = line_of s"
  "cons_inv (s\<lparr>uart_ready := rd\<rparr>) = cons_inv s" "line_of (s\<lparr>uart_ready := rd\<rparr>) = line_of s"
  "cons_inv (s\<lparr>uart_ready := rd, uart_rx := rx\<rparr>) = cons_inv s" "line_of (s\<lparr>uart_ready := rd, uart_rx := rx\<rparr>) = line_of s"
  by (simp_all add: cons_inv_def out_ok_def cursor_def line_ok_def line_of_def)

interpretation kbd: char_source kbdgetc "\<lambda>s. kbd_chars (shift_state s) (kb_queue s)"
proof
  fix s s' :: "'z kcons_scheme" and k ks
  show "runs kbdgetc s (\<lambda>c s'. c < 0 \<and> cons_inv s' \<and> line_of s' = line_of s \<and> kbd_chars (shift_state s') (kb_queue s') = [])"
    if "cons_inv s" "kbd_chars (shift_state s) (kb_queue s) = []"
    using that by (cases "kb_queue s") (simp_all add: runs_kbdgetc)
  show "runs kbdgetc s (\<lambda>c s'. c = k \<and> 0 \<le> c \<and> cons_inv s' \<and> line_of s' = line_of s \<and> kbd_chars (shift_state s') (kb_queue s') = ks)"
    if "cons_inv s" "kbd_chars (shift_state s) (kb_queue s) = k # ks"
    using that by (cases "kb_queue s") (auto simp: runs_kbdgetc kbd_key_nonneg)
  show "kbd_chars (shift_state s') (kb_queue s') = kbd_chars (shift_state s) (kb_queue s)" if "sources s' = sources s"
    using that by (simp add: sources_def)
qed

lemma runs_uartgetc:
  assumes "uart_exists s \<longrightarrow> uart_present s"
  shows "runs uartgetc s Q = (if \<not> uart_exists s then Q (-1) s
     else case uart_rx s of [] \<Rightarrow> Q (-1) (s\<lparr>uart_ready := tl (uart_ready s)\<rparr>)
       | c # cs \<Rightarrow> Q (uint c) (s\<lparr>uart_ready := tl (uart_ready s), uart_rx := cs\<rparr>))"
proof -
  have "runs (inb (COM1 + 5)) s P = P ((if uart_rx s = [] then 0 else 1) OR (case uart_ready s of False # _ \<Rightarrow> 0 | _ \<Rightarrow> 0x20))
      (s\<lparr>uart_ready := tl (uart_ready s)\<rparr>)" if "uart_present s" for P
    using that by (simp add: runs_def inb_def)
  moreover have "runs (inb COM1) t P = (case uart_rx t of [] \<Rightarrow> P 0 t | c # cs \<Rightarrow> P c (t\<lparr>uart_rx := cs\<rparr>))" if "uart_present t" for P and t :: "'a kcons_scheme"
    using that by (simp add: runs_def inb_def split: list.splits)
  moreover have "((if rx = [] then 0 else 1) OR (if b then 0 else 0x20 :: u8)) AND 1 = 0 \<longleftrightarrow> rx = []" for rx :: "u8 list" and b
    by simp
  ultimately show ?thesis using assms by (simp add: uartgetc_def split: list.splits bool.splits)
qed

interpretation uart: char_source uartgetc "\<lambda>s. if uart_exists s then map uint (uart_rx s) else []"
proof
  fix s s' :: "'z kcons_scheme" and k ks
  have u: "uart_exists s \<longrightarrow> uart_present s" if "cons_inv s" using that by (simp add: cons_inv_def out_ok_def)
  show "runs uartgetc s (\<lambda>c s'. c < 0 \<and> cons_inv s' \<and> line_of s' = line_of s \<and> (if uart_exists s' then map uint (uart_rx s') else []) = [])"
    if "cons_inv s" "(if uart_exists s then map uint (uart_rx s) else []) = []"
    using that by (auto simp: runs_uartgetc[OF u])
  show "runs uartgetc s (\<lambda>c s'. c = k \<and> 0 \<le> c \<and> cons_inv s' \<and> line_of s' = line_of s \<and>
      (if uart_exists s' then map uint (uart_rx s') else []) = ks)"
    if "cons_inv s" "(if uart_exists s then map uint (uart_rx s) else []) = k # ks"
    using that by (cases "uart_rx s") (auto simp: runs_uartgetc[OF u] split: if_splits)
  show "(if uart_exists s' then map uint (uart_rx s') else []) = (if uart_exists s then map uint (uart_rx s) else [])"
    if "sources s' = sources s"
    using that by (simp add: sources_def)
qed

section \<open>Properties\<close>

lemma shown_each:
  assumes f: "\<And>c t Q. out_ok t \<Longrightarrow> (\<And>t'. shown [c] t t' \<Longrightarrow> Q () t') \<Longrightarrow> runs (f c) t Q" and ok: "out_ok s"
  shows "runs (for_each f cs) s (\<lambda>_ s'. shown cs s s')"
  using ok
proof (induction cs arbitrary: s)
  case (Cons c cs)
  have "runs (f c) s (\<lambda>_ s1. runs (for_each f cs) s1 (\<lambda>_ s'. shown (c # cs) s s'))"
  proof (rule f[OF Cons.prems])
    fix s1 assume s1: "shown [c] s s1"
    show "runs (for_each f cs) s1 (\<lambda>_ s'. shown (c # cs) s s')"
      by (rule runs_mono[OF Cons.IH[OF shown_frame(1)[OF s1]]]) (use shown_trans[OF s1] in simp)
  qed
  then show ?case by simp
qed simp

text \<open>The console before boot, with a serial port in the machine that the kernel has not initialised.\<close>

definition kcons_zero :: "(u32 \<Rightarrow> u8 list) \<Rightarrow> 'z \<Rightarrow> 'z kcons_scheme" where
  "kcons_zero d z = klog_zero d \<lparr>crt = (\<lambda>_. 0), crt_index = 0, crt_hi = 0, crt_lo = 0, uart_present = True,
     uart_ready = [], uart_lcr = 0, uart_div = (0, 0), uart_ier = 0, uart_rx = [], uart_tx = [], uart_exists = False,
     kb_queue = [], shift_state = 0, in_buf = replicate INPUT_BUF_SIZE 0, in_r = 0, in_w = 0, in_e = 0, \<dots> = z\<rparr>"

lemma cons_inv_zero [simp]: "cons_inv (kcons_zero d z)"
  by (simp add: kcons_zero_def klog_zero_def kbuf_zero_def kern_zero_def cons_inv_def out_ok_def cursor_def line_ok_def)

lemma kcons_zero_fields [simp]:
  "line_of (kcons_zero d z) = ([], [])" "shift_state (kcons_zero d z) = 0" "uart_exists (kcons_zero d z) = False"
  "uart_tx (kcons_zero d z) = []" "uart_rx (kcons_zero d z) = []"
  by (simp_all add: kcons_zero_def klog_zero_def kbuf_zero_def kern_zero_def line_of_def)

text \<open>
  C31: the keyboard interrupt. It handles every pending scan code and returns, and the input line is
  then what the line discipline makes of the characters typed: a character joins the line being
  edited, backspace takes the last one back, and newline, control-D or a full buffer commit the line
  to the reader. The ring stays within its 128 bytes.
\<close>

theorem kbdintr_edits:
  assumes "cons_inv s"
  shows "\<exists>s'. kbdintr s = Inr ((), s') \<and> cons_inv s' \<and> kb_queue s' = [] \<and>
    line_of s' = fold edit (kbd_chars (shift_state s) (kb_queue s)) (line_of s)"
proof -
  have "runs kbdintr s (\<lambda>_ s'. cons_inv s' \<and> kb_queue s' = [] \<and>
      line_of s' = fold edit (kbd_chars (shift_state s) (kb_queue s)) (line_of s))"
    unfolding kbdintr_def runs_bnd runs_gets
    by (rule runs_mono[OF kbd.drains[OF assms]])
       (simp, metis length_0_conv length_kbd_chars)
  then show ?thesis by (auto simp: runs_Inr)
qed

text \<open>Typing shift-H (down and up), i, x, backspace, enter.\<close>

theorem kbdintr_edits_witness:
  "\<exists>s'. kbdintr ((kcons_zero blank_disk ())\<lparr>kb_queue := [0x2A, 0x23, 0xA3, 0xAA, 0x17, 0x2D, 0x0E, 0x1C]\<rparr>) = Inr ((), s') \<and>
     line_of s' = ([0x48, 0x69, 0x0A], []) \<and> kb_queue s' = []"
proof -
  let ?s = "(kcons_zero blank_disk ())\<lparr>kb_queue := [0x2A, 0x23, 0xA3, 0xAA, 0x17, 0x2D, 0x0E, 0x1C]\<rparr> :: kcons"
  have "cons_inv ?s" by simp
  moreover have "kbd_chars 0 [0x2A, 0x23, 0xA3, 0xAA, 0x17, 0x2D, 0x0E, 0x1C] = [0, 72, 0, 0, 105, 120, 8, 10]"
    by code_simp
  moreover have "line_of ?s = ([], [])" by simp
  moreover have "fold edit [0, 72, 0, 0, 105, 120, 8, 10] ([], []) = ([0x48, 0x69, 0x0A], [])" by code_simp
  ultimately show ?thesis using kbdintr_edits[of ?s] by auto
qed

text \<open>The letter keys: scan code and the lower-case letter on the key.\<close>

definition letter_keys :: "(nat \<times> u8) list" where
  "letter_keys = row 0x10 (bytes_of ''qwertyuiop'') @ row 0x1E (bytes_of ''asdfghjkl'') @ row 0x2C (bytes_of ''zxcvbnm'')"

lemma letter_tables:
  "\<forall>(k, c) \<in> set letter_keys. k \<noteq> 0xE0 \<and> (of_nat k :: u8) AND 0x80 = 0 \<and> SHIFTCODE k = 0 \<and> TOGGLECODE k = 0 \<and> NORMALMAP k = c \<and> SHIFTMAP k = c - 0x20 \<and>
     swap_case c = c - 0x20 \<and> swap_case (c - 0x20) = c"
  by code_simp

lemma shift_index:
  assumes "ss AND (CTL OR E0ESC) = 0"
  shows "ss AND E0ESC = 0" "unat (ss AND (CTL OR SHIFT)) = (if ss AND SHIFT \<noteq> 0 then 1 else 0)"
proof -
  have g: "(CTL OR E0ESC) AND E0ESC = E0ESC" "(CTL OR E0ESC) AND CTL = CTL" by code_simp+
  show "ss AND E0ESC = 0" using assms g(1) by (metis and.assoc and_zero_eq zero_and_eq)
  have "ss AND CTL = 0" using assms g(2) by (metis and.assoc zero_and_eq)
  then have "ss AND (CTL OR SHIFT) = ss AND 1" by (simp add: and.left_commute bit.conj_disj_distrib SHIFT_def)
  then show "unat (ss AND (CTL OR SHIFT)) = (if ss AND SHIFT \<noteq> 0 then 1 else 0)"
    by (simp add: SHIFT_def and_one_eq mod_2_eq_odd)
qed

text \<open>
  letters. With control and the escape prefix off, a letter key gives its letter, in upper case
  exactly if one of shift and caps lock is on, and leaves the modifiers alone.
\<close>

theorem kbd_letters:
  assumes "kb_queue s = d # ds" "(unat d, c) \<in> set letter_keys" "shift_state s AND (CTL OR E0ESC) = 0"
  shows "\<exists>s'. kbdgetc s = Inr (uint (if (shift_state s AND SHIFT \<noteq> 0) \<noteq> (shift_state s AND CAPSLOCK \<noteq> 0) then c - 0x20 else c), s') \<and>
    kb_queue s' = ds \<and> shift_state s' = shift_state s"
proof -
  let ?ss = "shift_state s"
  have tab: "unat d \<noteq> 0xE0" "d AND 0x80 = 0" "SHIFTCODE (unat d) = 0" "TOGGLECODE (unat d) = 0" "NORMALMAP (unat d) = c"
    "SHIFTMAP (unat d) = c - 0x20" "swap_case c = c - 0x20" "swap_case (c - 0x20) = c"
    using bspec[OF letter_tables assms(2)] by auto
  have "kbd_key ?ss d = (?ss, uint (if (?ss AND SHIFT \<noteq> 0) \<noteq> (?ss AND CAPSLOCK \<noteq> 0) then c - 0x20 else c))"
    using tab shift_index[OF assms(3)]
    by (cases "?ss AND SHIFT = 0"; cases "?ss AND CAPSLOCK = 0") (simp_all add: kbd_key_def keymap_def Let_def)
  then have "runs kbdgetc s (\<lambda>c' s'. c' = uint (if (?ss AND SHIFT \<noteq> 0) \<noteq> (?ss AND CAPSLOCK \<noteq> 0) then c - 0x20 else c) \<and>
      kb_queue s' = ds \<and> shift_state s' = ?ss)"
    by (simp add: runs_kbdgetc assms(1))
  then show ?thesis by (auto simp: runs_Inr)
qed

theorem kbd_letters_witness:
  "\<exists>s'. kbdgetc ((kcons_zero blank_disk ())\<lparr>kb_queue := [0x1E, 0x1F], shift_state := CAPSLOCK\<rparr>) = Inr (0x41, s') \<and> kb_queue s' = [0x1F]"
proof -
  let ?s = "(kcons_zero blank_disk ())\<lparr>kb_queue := [0x1E, 0x1F], shift_state := CAPSLOCK\<rparr> :: kcons"
  have "(unat (0x1E :: u8), 0x61) \<in> set letter_keys" by code_simp
  moreover have "CAPSLOCK AND (CTL OR E0ESC) = 0" "CAPSLOCK AND SHIFT = 0" "CAPSLOCK AND CAPSLOCK \<noteq> 0" by code_simp+
  ultimately show ?thesis using kbd_letters[of ?s "0x1E" "[0x1F]" "0x61"] by auto
qed





lemma runs_outb_uart:
  assumes "uart_present s"
  shows "runs (outb (COM1 + 2) v) s Q = Q () s" "runs (outb (COM1 + 4) v) s Q = Q () s"
    "runs (outb (COM1 + 3) v) s Q = Q () (s\<lparr>uart_lcr := v\<rparr>)"
    "runs (outb (COM1 + 1) v) s Q = Q () (if uart_lcr s AND 0x80 \<noteq> 0 then s\<lparr>uart_div := (fst (uart_div s), v)\<rparr> else s\<lparr>uart_ier := v\<rparr>)"
    "runs (outb COM1 v) s Q = Q () (if uart_lcr s AND 0x80 \<noteq> 0 then s\<lparr>uart_div := (v, snd (uart_div s))\<rparr>
        else s\<lparr>uart_tx := uart_tx s @ [v]\<rparr>)"
  using assms by (simp_all add: outb_def COM1_def CRTPORT_def)

lemma runs_inb_idle:
  assumes "uart_present s" "uart_rx s = []" "\<And>st. st \<noteq> 0xFF \<Longrightarrow> Q st (s\<lparr>uart_ready := tl (uart_ready s)\<rparr>)"
  shows "runs (inb (COM1 + 5)) s Q"
  using assms by (simp add: runs_def inb_def split: list.splits bool.splits)

text \<open>
  what \<open>uartearlyinit\<close> would do. With a serial port in the machine it selects 9600 baud (divisor
  12 of 115200), enables the receive interrupt, records the port and announces the kernel; the port is
  then in order, so that the console works.
\<close>

theorem uartearlyinit_starts:
  assumes "uart_present s" "uart_rx s = []" "cursor s < 2000"
  shows "\<exists>s'. uartearlyinit s = Inr ((), s') \<and> out_ok s' \<and> uart_exists s' \<and> uart_div s' = (12, 0) \<and> uart_ier s' = 1 \<and>
    uart_tx s' = uart_tx s @ bytes_of ''xv6-rust...'' @ [10]"
proof -
  let ?t = "s\<lparr>uart_div := (12, 0), uart_lcr := 3, uart_ier := 1, uart_ready := tl (uart_ready s), uart_exists := True\<rparr>"
  have ok: "out_ok ?t" using assms by (simp add: out_ok_def cursor_def)
  have "runs (uartputc (uint c)) t Q" if "out_ok t" "\<And>t'. shown [c] t t' \<Longrightarrow> Q () t'" for c Q and t :: "'a kcons_scheme"
    using that by (intro runs_uartputc) (auto simp: u8_of_i32_def)
  then have runs: "runs (for_each (\<lambda>c. uartputc (uint c)) (bytes_of ''xv6-rust...'' @ [10])) ?t
      (\<lambda>_ s'. shown (bytes_of ''xv6-rust...'' @ [10]) ?t s')"
    using ok by (intro shown_each) blast+
  have "runs uartearlyinit s (\<lambda>_ s'. shown (bytes_of ''xv6-rust...'' @ [10]) ?t s')"
    using assms runs by (auto simp: uartearlyinit_def runs_outb_uart intro!: runs_inb_idle)
  then show ?thesis by (auto simp: runs_Inr shown_def)
qed

theorem uartearlyinit_starts_witness:
  "\<exists>s'. uartearlyinit (kcons_zero blank_disk ()) = Inr ((), s') \<and> uart_exists (s' :: kcons) \<and> uart_div s' = (12, 0)"
proof -
  let ?s = "kcons_zero blank_disk () :: kcons"
  have "uart_present ?s" "uart_rx ?s = []" "cursor ?s < 2000"
    by (simp_all add: kcons_zero_def klog_zero_def kbuf_zero_def kern_zero_def cursor_def)
  from uartearlyinit_starts[OF this] show ?thesis by blast
qed

end
