(* ===== verification/Xv6_Fs.thy ===== *)
theory Xv6_Fs
  imports Xv6_Console
begin

text \<open>
  The file system (\<^verbatim>\<open>crates/fs/src/fs.rs\<close>) up to file contents: block allocation, the inode cache,
  block mapping, truncation, reading and writing. Directories and paths are in \<open>Xv6_Dir\<close>; the
  properties of the operations are proved in \<open>Xv6_Alloc\<close> and \<open>Xv6_Inode\<close>.

  An inode pointer is an index into the cache, null is \<open>None\<close>. A destination pointer becomes part of
  the result (the bytes read), a source pointer with a length becomes the list of bytes it names.
  The entries of the device table are the names of the functions \<open>consoleinit\<close> stores there.
  Buffers are released where Rust drops the guard.
\<close>

section \<open>State\<close>

definition NINODE :: nat where "NINODE = 50"
definition NDEV :: int where "NDEV = 10"
definition I_VALID :: i32 where "I_VALID = 2"

record inode =
  i_dev :: u32
  i_inum :: u32
  i_ref :: i32
  i_flags :: i32
  i_type :: u16
  i_major :: u16
  i_minor :: u16
  i_nlink :: u16
  i_size :: u32
  i_addrs :: "u32 list"

datatype dev_read = Consoleread
datatype dev_write = Consolewrite

record kfs = kcons +
  icache :: "nat \<Rightarrow> inode"
  fs_sb :: superblock
  devsw_read :: "nat \<Rightarrow> dev_read option"
  devsw_write :: "nat \<Rightarrow> dev_write option"

record stat =
  st_type :: u16
  st_dev :: i32
  st_ino :: u32
  st_nlink :: u16
  st_size :: u32

definition inode_zero :: inode where
  "inode_zero = \<lparr>i_dev = 0, i_inum = 0, i_ref = 0, i_flags = 0, i_type = 0, i_major = 0, i_minor = 0,
     i_nlink = 0, i_size = 0, i_addrs = replicate (NDIRECT + 1) 0\<rparr>"

definition is_free :: "inode \<Rightarrow> bool" where "is_free ip \<longleftrightarrow> i_ref ip = 0"
definition inode_is_valid :: "inode \<Rightarrow> bool" where "inode_is_valid ip \<longleftrightarrow> i_flags ip AND I_VALID \<noteq> 0"
definition inode_mark_valid :: "inode \<Rightarrow> inode" where "inode_mark_valid ip = ip\<lparr>i_flags := i_flags ip OR I_VALID\<rparr>"
definition is_dir :: "inode \<Rightarrow> bool" where "is_dir ip \<longleftrightarrow> i_type ip = T_DIR"
definition is_dev :: "inode \<Rightarrow> bool" where "is_dev ip \<longleftrightarrow> i_type ip = T_DEV"

definition upd_inode :: "nat \<Rightarrow> (inode \<Rightarrow> inode) \<Rightarrow> 'z kfs_scheme \<Rightarrow> 'z kfs_scheme" where
  "upd_inode i f s = s\<lparr>icache := (icache s)(i := f (icache s i))\<rparr>"

text \<open>The copy of the disk inode inside a cached inode.\<close>

definition to_dinode :: "inode \<Rightarrow> dinode" where
  "to_dinode ip = \<lparr>di_type = i_type ip, di_major = i_major ip, di_minor = i_minor ip, di_nlink = i_nlink ip,
     di_size = i_size ip, di_addrs = i_addrs ip\<rparr>"

definition from_dinode :: "dinode \<Rightarrow> inode \<Rightarrow> inode" where
  "from_dinode d ip = ip\<lparr>i_type := di_type d, i_major := di_major d, i_minor := di_minor d, i_nlink := di_nlink d,
     i_size := di_size d, i_addrs := di_addrs d\<rparr>"

definition consoleinit :: "('z kfs_scheme, unit) kop" where
  "consoleinit = modify (\<lambda>s. s\<lparr>devsw_read := (devsw_read s)(1 \<mapsto> Consoleread),
                               devsw_write := (devsw_write s)(1 \<mapsto> Consolewrite)\<rparr>)"

section \<open>Block allocator\<close>

definition bzero :: "u32 \<Rightarrow> u32 \<Rightarrow> ('z kfs_scheme, unit) kop" where
  "bzero dev bno = bnd (bread dev bno) (\<lambda>b.
     bnd (modify (set_data b (replicate BSIZE 0))) (\<lambda>_.
     bnd (log_write b) (\<lambda>_.
     brelse b)))"

text \<open>Bit \<open>bi\<close> of a bitmap block.\<close>

definition bit_mask :: "nat \<Rightarrow> u8" where "bit_mask bi = push_bit (bi mod 8) 1"

fun balloc_scan :: "u32 \<Rightarrow> u32 \<Rightarrow> u8 list \<Rightarrow> nat list \<Rightarrow> ('s, nat option) kop" where
  "balloc_scan sz b d [] = ret None"
| "balloc_scan sz b d (bi # bis) = bnd (u32_add b (of_nat bi)) (\<lambda>x.
     if sz \<le> x then ret None
     else if d ! (bi div 8) AND bit_mask bi = 0 then ret (Some bi)
     else balloc_scan sz b d bis)"

definition balloc_mark :: "u32 \<Rightarrow> u32 \<Rightarrow> nat \<Rightarrow> u8 list \<Rightarrow> nat \<Rightarrow> ('z kfs_scheme, u32) kop" where
  "balloc_mark dev b buf d bi =
     bnd (modify (set_data buf (d[bi div 8 := d ! (bi div 8) OR bit_mask bi]))) (\<lambda>_.
     bnd (log_write buf) (\<lambda>_.
     bnd (brelse buf) (\<lambda>_.
     bnd (bzero dev (b + of_nat bi)) (\<lambda>_.
     ret (b + of_nat bi)))))"

function balloc_from :: "u32 \<Rightarrow> u32 \<Rightarrow> u32 \<Rightarrow> ('z kfs_scheme, u32) kop" where
  "balloc_from dev sz b =
     (if b < sz then
        bnd (gets fs_sb) (\<lambda>sb.
        bnd (bblock b sb) (\<lambda>bb.
        bnd (bread dev bb) (\<lambda>buf.
        bnd (gets (\<lambda>s. buf_data s buf)) (\<lambda>d.
        bnd (balloc_scan sz b d [0..<unat BPB]) (\<lambda>r. case r of
          Some bi \<Rightarrow> balloc_mark dev b buf d bi
        | None \<Rightarrow>
            bnd (brelse buf) (\<lambda>_.
            if unat b + unat BPB < 2 ^ 32 then balloc_from dev sz (b + BPB) else stopk add_overflow))))))
      else panic ''balloc: out of blocks'')"
  by pat_completeness auto
termination
  by (relation "measure (\<lambda>(dev, sz, b). unat sz - unat b)")
     (auto simp: word_less_nat_alt unat_word_ariths)

declare balloc_from.simps [simp del]

definition balloc :: "u32 \<Rightarrow> ('z kfs_scheme, u32) kop" where
  "balloc dev = bnd (gets (\<lambda>s. sb_size (fs_sb s))) (\<lambda>sz. balloc_from dev sz 0)"

definition bfree :: "u32 \<Rightarrow> u32 \<Rightarrow> ('z kfs_scheme, unit) kop" where
  "bfree dev b = bnd (readsb (i32_of_u32 dev)) (\<lambda>sb.
     bnd (modify (\<lambda>s. s\<lparr>fs_sb := sb\<rparr>)) (\<lambda>_.
     bnd (bblock b sb) (\<lambda>bb.
     bnd (bread dev bb) (\<lambda>buf.
     bnd (gets (\<lambda>s. buf_data s buf)) (\<lambda>d.
     let bi = unat (b mod BPB) in
     bnd (guardk (d ! (bi div 8) AND bit_mask bi \<noteq> 0) (Panic ''freeing free block'')) (\<lambda>_.
     bnd (modify (set_data buf (d[bi div 8 := d ! (bi div 8) AND NOT (bit_mask bi)]))) (\<lambda>_.
     bnd (log_write buf) (\<lambda>_.
     brelse buf))))))))"

section \<open>Inode cache\<close>

definition iinit :: "i32 \<Rightarrow> ('z kfs_scheme, unit) kop" where
  "iinit dev = bnd (initlock LkIcache ''icache'') (\<lambda>_.
     bnd (for_each (\<lambda>i. initsleeplock (SlInode i) ''inode'') [0..<NINODE]) (\<lambda>_.
     bnd (readsb dev) (\<lambda>sb.
     modify (\<lambda>s. s\<lparr>fs_sb := sb\<rparr>))))"

text \<open>The scan returns the cached inode at once if it meets it; otherwise the first free slot is used.\<close>

definition iget :: "u32 \<Rightarrow> u32 \<Rightarrow> ('z kfs_scheme, nat) kop" where
  "iget dev inum = bnd (acquire LkIcache) (\<lambda>_.
     bnd (gets icache) (\<lambda>ic.
     case find (\<lambda>i. 0 < i_ref (ic i) \<and> i_dev (ic i) = dev \<and> i_inum (ic i) = inum) [0..<NINODE] of
       Some i \<Rightarrow>
         bnd (i32_add (i_ref (ic i)) 1) (\<lambda>r.
         bnd (modify (upd_inode i (\<lambda>ip. ip\<lparr>i_ref := r\<rparr>))) (\<lambda>_.
         bnd (release LkIcache) (\<lambda>_. ret i)))
     | None \<Rightarrow> (case find (\<lambda>i. is_free (ic i)) [0..<NINODE] of
         None \<Rightarrow> panic ''iget: no inodes''
       | Some i \<Rightarrow>
           bnd (modify (upd_inode i (\<lambda>ip. ip\<lparr>i_dev := dev, i_inum := inum, i_ref := 1, i_flags := 0\<rparr>))) (\<lambda>_.
           bnd (release LkIcache) (\<lambda>_. ret i)))))"

fun ialloc_from :: "u32 \<Rightarrow> u16 \<Rightarrow> nat list \<Rightarrow> ('z kfs_scheme, nat) kop" where
  "ialloc_from dev it [] = panic ''ialloc: no inodes''"
| "ialloc_from dev it (inum # inums) =
     bnd (gets fs_sb) (\<lambda>sb.
     bnd (iblock (of_nat inum) sb) (\<lambda>bb.
     bnd (bread dev bb) (\<lambda>buf.
     bnd (gets (\<lambda>s. buf_data s buf)) (\<lambda>d.
     if di_type (get_dinode d (inum mod IPB)) = 0 then
       bnd (modify (set_data buf (put_dinode (inum mod IPB) (dinode_zero\<lparr>di_type := it\<rparr>) d))) (\<lambda>_.
       bnd (log_write buf) (\<lambda>_.
       bnd (brelse buf) (\<lambda>_.
       iget dev (of_nat inum))))
     else bnd (brelse buf) (\<lambda>_. ialloc_from dev it inums)))))"

definition ialloc :: "u32 \<Rightarrow> u16 \<Rightarrow> ('z kfs_scheme, nat) kop" where
  "ialloc dev it = bnd (gets (\<lambda>s. sb_ninodes (fs_sb s))) (\<lambda>n. ialloc_from dev it [1..<unat n])"

definition iupdate :: "nat \<Rightarrow> ('z kfs_scheme, unit) kop" where
  "iupdate i = bnd (gets (\<lambda>s. icache s i)) (\<lambda>ip.
     bnd (gets fs_sb) (\<lambda>sb.
     bnd (iblock (i_inum ip) sb) (\<lambda>bb.
     bnd (bread (i_dev ip) bb) (\<lambda>buf.
     bnd (modify (\<lambda>s. set_data buf (put_dinode (unat (i_inum ip) mod IPB) (to_dinode ip) (buf_data s buf)) s)) (\<lambda>_.
     bnd (log_write buf) (\<lambda>_.
     brelse buf))))))"

definition idup :: "nat \<Rightarrow> ('z kfs_scheme, nat) kop" where
  "idup i = bnd (acquire LkIcache) (\<lambda>_.
     bnd (gets (\<lambda>s. i_ref (icache s i))) (\<lambda>r.
     bnd (i32_add r 1) (\<lambda>r1.
     bnd (modify (upd_inode i (\<lambda>ip. ip\<lparr>i_ref := r1\<rparr>))) (\<lambda>_.
     bnd (release LkIcache) (\<lambda>_.
     ret i)))))"

definition ilock :: "nat option \<Rightarrow> ('z kfs_scheme, unit) kop" where
  "ilock ipo = (case ipo of None \<Rightarrow> panic ''ilock'' | Some i \<Rightarrow>
     bnd (gets (\<lambda>s. i_ref (icache s i))) (\<lambda>r.
     bnd (guardk (1 \<le> r) (Panic ''ilock'')) (\<lambda>_.
     bnd (acquiresleep (SlInode i)) (\<lambda>_.
     bnd (gets (\<lambda>s. icache s i)) (\<lambda>ip.
     whenk (\<not> inode_is_valid ip)
       (bnd (gets fs_sb) (\<lambda>sb.
        bnd (iblock (i_inum ip) sb) (\<lambda>bb.
        bnd (bread (i_dev ip) bb) (\<lambda>buf.
        bnd (gets (\<lambda>s. get_dinode (buf_data s buf) (unat (i_inum ip) mod IPB))) (\<lambda>d.
        bnd (modify (upd_inode i (\<lambda>ip. inode_mark_valid (from_dinode d ip)))) (\<lambda>_.
        bnd (guardk (di_type d \<noteq> 0) (Panic ''ilock: no type'')) (\<lambda>_.
        brelse buf))))))))))))"

definition iunlock :: "nat option \<Rightarrow> ('z kfs_scheme, unit) kop" where
  "iunlock ipo = (case ipo of None \<Rightarrow> panic ''iunlock'' | Some i \<Rightarrow>
     bnd (holdingsleep (SlInode i)) (\<lambda>h.
     bnd (gets (\<lambda>s. i_ref (icache s i))) (\<lambda>r.
     bnd (guardk (h \<and> 1 \<le> r) (Panic ''iunlock'')) (\<lambda>_.
     releasesleep (SlInode i)))))"

section \<open>Contents\<close>

text \<open>An address kept in the inode, and an entry of the indirect block, each allocated on demand.\<close>

definition bmap_addr :: "nat \<Rightarrow> nat \<Rightarrow> ('z kfs_scheme, u32) kop" where
  "bmap_addr i k = bnd (gets (\<lambda>s. icache s i)) (\<lambda>ip.
     if i_addrs ip ! k = 0 then
       bnd (balloc (i_dev ip)) (\<lambda>a.
       bnd (modify (upd_inode i (\<lambda>ip. ip\<lparr>i_addrs := (i_addrs ip)[k := a]\<rparr>))) (\<lambda>_. ret a))
     else ret (i_addrs ip ! k))"

definition bmap_entry :: "nat \<Rightarrow> u32 \<Rightarrow> nat \<Rightarrow> ('z kfs_scheme, u32) kop" where
  "bmap_entry i ind k = bnd (gets (\<lambda>s. i_dev (icache s i))) (\<lambda>dev.
     bnd (bread dev ind) (\<lambda>buf.
     bnd (gets (\<lambda>s. get_u32 (buf_data s buf) (4 * k))) (\<lambda>a.
     bnd (if a = 0 then
            bnd (balloc dev) (\<lambda>a.
            bnd (modify (\<lambda>s. set_data buf (put_u32 (4 * k) a (buf_data s buf)) s)) (\<lambda>_.
            bnd (log_write buf) (\<lambda>_. ret a)))
          else ret a) (\<lambda>a.
     bnd (brelse buf) (\<lambda>_. ret a)))))"

definition bmap :: "nat \<Rightarrow> u32 \<Rightarrow> ('z kfs_scheme, u32) kop" where
  "bmap i bn =
     (if unat bn < NDIRECT then bmap_addr i (unat bn)
      else if unat bn - NDIRECT < NINDIRECT then
        bnd (bmap_addr i NDIRECT) (\<lambda>ind. bmap_entry i ind (unat bn - NDIRECT))
      else panic ''bmap: out of range'')"

definition itrunc_direct :: "nat \<Rightarrow> nat \<Rightarrow> ('z kfs_scheme, unit) kop" where
  "itrunc_direct i k = bnd (gets (\<lambda>s. icache s i)) (\<lambda>ip.
     whenk (i_addrs ip ! k \<noteq> 0)
       (bnd (bfree (i_dev ip) (i_addrs ip ! k)) (\<lambda>_.
        modify (upd_inode i (\<lambda>ip. ip\<lparr>i_addrs := (i_addrs ip)[k := 0]\<rparr>)))))"

definition itrunc_indirect :: "nat \<Rightarrow> ('z kfs_scheme, unit) kop" where
  "itrunc_indirect i = bnd (gets (\<lambda>s. icache s i)) (\<lambda>ip.
     whenk (i_addrs ip ! NDIRECT \<noteq> 0)
       (bnd (bread (i_dev ip) (i_addrs ip ! NDIRECT)) (\<lambda>buf.
        bnd (for_each (\<lambda>j.
          bnd (gets (\<lambda>s. get_u32 (buf_data s buf) (4 * j))) (\<lambda>a.
          whenk (a \<noteq> 0) (bfree (i_dev ip) a))) [0..<NINDIRECT]) (\<lambda>_.
        bnd (brelse buf) (\<lambda>_.
        bnd (bfree (i_dev ip) (i_addrs ip ! NDIRECT)) (\<lambda>_.
        modify (upd_inode i (\<lambda>ip. ip\<lparr>i_addrs := (i_addrs ip)[NDIRECT := 0]\<rparr>))))))))"

definition itrunc :: "nat \<Rightarrow> ('z kfs_scheme, unit) kop" where
  "itrunc i =
     bnd (for_each (itrunc_direct i) [0..<NDIRECT]) (\<lambda>_.
     bnd (itrunc_indirect i) (\<lambda>_.
     bnd (modify (upd_inode i (\<lambda>ip. ip\<lparr>i_size := 0\<rparr>))) (\<lambda>_.
     iupdate i)))"

definition iput :: "nat \<Rightarrow> ('z kfs_scheme, unit) kop" where
  "iput i = bnd (acquire LkIcache) (\<lambda>_.
     bnd (gets (\<lambda>s. icache s i)) (\<lambda>ip.
     bnd (whenk (i_ref ip = 1 \<and> inode_is_valid ip \<and> i_nlink ip = 0)
       (bnd (release LkIcache) (\<lambda>_.
        bnd (itrunc i) (\<lambda>_.
        bnd (modify (upd_inode i (\<lambda>ip. ip\<lparr>i_type := 0\<rparr>))) (\<lambda>_.
        bnd (iupdate i) (\<lambda>_.
        bnd (acquire LkIcache) (\<lambda>_.
        modify (upd_inode i (\<lambda>ip. ip\<lparr>i_flags := 0\<rparr>))))))))) (\<lambda>_.
     bnd (gets (\<lambda>s. i_ref (icache s i))) (\<lambda>r.
     bnd (i32_sub r 1) (\<lambda>r1.
     bnd (modify (upd_inode i (\<lambda>ip. ip\<lparr>i_ref := r1\<rparr>))) (\<lambda>_.
     release LkIcache))))))"

definition iunlockput :: "nat \<Rightarrow> ('z kfs_scheme, unit) kop" where
  "iunlockput i = bnd (iunlock (Some i)) (\<lambda>_. iput i)"

definition stati :: "nat \<Rightarrow> ('z kfs_scheme, stat) kop" where
  "stati i = gets (\<lambda>s. let ip = icache s i in
     \<lparr>st_type = i_type ip, st_dev = i32_of_u32 (i_dev ip), st_ino = i_inum ip, st_nlink = i_nlink ip, st_size = i_size ip\<rparr>)"

text \<open>The bytes of one step of the copying loops: to the end of the request or of the block.\<close>

definition chunk :: "u32 \<Rightarrow> u32 \<Rightarrow> u32 \<Rightarrow> u32" where
  "chunk n tot off = min (n - tot) (of_nat BSIZE - off mod of_nat BSIZE)"

lemma unat_chunk:
  assumes "tot < n"
  shows "unat (chunk n tot off) = min (unat n - unat tot) (BSIZE - unat off mod BSIZE)"
proof -
  have n: "unat (n - tot) = unat n - unat tot" using assms by (simp add: unat_sub word_less_nat_alt word_le_nat_alt)
  have m: "unat (off mod 512) = unat off mod 512" by (simp add: unat_mod)
  then have "unat (512 - off mod 512) = 512 - unat off mod 512"
    using unat_sub[of "off mod 512" 512] by (simp add: word_le_nat_alt)
  with n show ?thesis by (simp add: chunk_def  min_def word_le_nat_alt)
qed

lemma chunk_pos: "tot < n \<Longrightarrow> 0 < unat (chunk n tot off) \<and> unat (chunk n tot off) \<le> unat n - unat tot"
  using unat_chunk[of tot n off] by (simp add: word_less_nat_alt )

lemma unat_chunk_add:
  assumes "tot < n"
  shows "unat (tot + chunk n tot off) = unat tot + unat (chunk n tot off)"
  using chunk_pos[OF assms, of off] assms unsigned_less[of n, where 'a = nat]
  by (intro unat_u32_add) (auto simp: word_less_nat_alt)

function readi_from :: "nat \<Rightarrow> u32 \<Rightarrow> u32 \<Rightarrow> u32 \<Rightarrow> ('z kfs_scheme, u8 list) kop" where
  "readi_from i n tot off =
     (if tot < n then
        bnd (bmap i (off div of_nat BSIZE)) (\<lambda>bn.
        bnd (gets (\<lambda>s. i_dev (icache s i))) (\<lambda>dev.
        bnd (bread dev bn) (\<lambda>buf.
        let m = chunk n tot off in
        bnd (gets (\<lambda>s. slice (unat off mod BSIZE) (unat m) (buf_data s buf))) (\<lambda>bs.
        bnd (brelse buf) (\<lambda>_.
        bnd (u32_add off m) (\<lambda>off'.
        bnd (readi_from i n (tot + chunk n tot off) off') (\<lambda>rest.
        ret (bs @ rest))))))))
      else ret [])"
  by pat_completeness auto
termination
proof (relation "measure (\<lambda>(i, n, tot, off). unat n - unat tot)")
  fix i :: nat and n tot off off' :: u32
  assume "tot < n"
  then show "((i, n, tot + chunk n tot off, off'), i, n, tot, off) \<in> measure (\<lambda>(i, n, tot, off). unat n - unat tot)"
    using chunk_pos[of tot n off] by (auto simp: unat_chunk_add word_less_nat_alt)
qed simp

declare readi_from.simps [simp del]

definition readi :: "nat \<Rightarrow> u32 \<Rightarrow> u32 \<Rightarrow> ('z kfs_scheme, i32 \<times> u8 list) kop" where
  "readi i off n = bnd (gets (\<lambda>s. icache s i)) (\<lambda>ip.
     if is_dev ip then
       let major = sint (i_major ip) in
       if major < 0 \<or> NDEV \<le> major then ret (-1, [])
       else bnd (gets (\<lambda>s. devsw_read s (nat major))) (\<lambda>f. case f of
           Some Consoleread \<Rightarrow> consoleread (i32_of_u32 n)
         | None \<Rightarrow> ret (-1, []))
     else if i_size ip < off \<or> off + n < off then ret (-1, [])
     else let n = min n (i_size ip - off) in
       bnd (readi_from i n 0 off) (\<lambda>bs. ret (i32_of_u32 n, bs)))"

function writei_from :: "nat \<Rightarrow> u8 list \<Rightarrow> u32 \<Rightarrow> u32 \<Rightarrow> u32 \<Rightarrow> ('z kfs_scheme, u32) kop" where
  "writei_from i src n tot off =
     (if tot < n then
        bnd (bmap i (off div of_nat BSIZE)) (\<lambda>bn.
        bnd (gets (\<lambda>s. i_dev (icache s i))) (\<lambda>dev.
        bnd (bread dev bn) (\<lambda>buf.
        let m = chunk n tot off in
        bnd (modify (\<lambda>s. set_data buf (copy_at (unat off mod BSIZE) (slice (unat tot) (unat m) src) (buf_data s buf)) s)) (\<lambda>_.
        bnd (log_write buf) (\<lambda>_.
        bnd (brelse buf) (\<lambda>_.
        bnd (u32_add off m) (\<lambda>off'.
        writei_from i src n (tot + chunk n tot off) off')))))))
      else ret off)"
  by pat_completeness auto
termination
proof (relation "measure (\<lambda>(i, src, n, tot, off). unat n - unat tot)")
  fix i :: nat and src :: "u8 list" and n tot off off' :: u32
  assume "tot < n"
  then show "((i, src, n, tot + chunk n tot off, off'), i, src, n, tot, off) \<in> measure (\<lambda>(i, src, n, tot, off). unat n - unat tot)"
    using chunk_pos[of tot n off] by (auto simp: unat_chunk_add word_less_nat_alt)
qed simp

declare writei_from.simps [simp del]

definition writei :: "nat \<Rightarrow> u8 list \<Rightarrow> u32 \<Rightarrow> ('z kfs_scheme, i32) kop" where
  "writei i src off = bnd (gets (\<lambda>s. icache s i)) (\<lambda>ip.
     let n = of_nat (length src) in
     if is_dev ip then
       let major = sint (i_major ip) in
       if major < 0 \<or> NDEV \<le> major then ret (-1)
       else bnd (gets (\<lambda>s. devsw_write s (nat major))) (\<lambda>f. case f of
           Some Consolewrite \<Rightarrow> consolewrite src
         | None \<Rightarrow> ret (-1))
     else if i_size ip < off \<or> off + n < off then ret (-1)
     else bnd (u32_add off n) (\<lambda>end_off.
       if of_nat (MAXFILE * BSIZE) < end_off then ret (-1)
       else bnd (writei_from i src n 0 off) (\<lambda>cur_off.
         bnd (gets (\<lambda>s. i_size (icache s i))) (\<lambda>sz.
         bnd (whenk (0 < n \<and> sz < cur_off)
           (bnd (modify (upd_inode i (\<lambda>ip. ip\<lparr>i_size := cur_off\<rparr>))) (\<lambda>_. iupdate i))) (\<lambda>_.
         ret (i32_of_u32 n))))))"

end
