(* ===== verification/Xv6_Txn.thy ===== *)
theory Xv6_Txn
  imports Xv6_Fs
begin

text \<open>
  Block access inside a transaction, as the file system uses it. \<open>tx s st F k\<close> says that an operation
  is under way (between \<open>begin_op\<close> and \<open>end_op\<close>), that the log starts at block \<open>st\<close>, and that the log
  and the cache have room for the blocks of \<open>F\<close> and \<open>k\<close> further ones. The rules give the effect of
  \<open>bread\<close>, of changing a buffer, of \<open>log_write\<close> and of \<open>brelse\<close> on the logical contents of the blocks.
\<close>

section \<open>Transactions with room\<close>

abbreviation view :: "'z kbuf_scheme \<Rightarrow> u32 \<Rightarrow> u8 list" where "view s \<equiv> cs_view (cache_abs s)"
abbreviation held :: "'z kbuf_scheme \<Rightarrow> u32 \<Rightarrow> nat option" where "held s \<equiv> cs_held (cache_abs s)"
abbreviation dirty :: "'z kbuf_scheme \<Rightarrow> u32 set" where "dirty s \<equiv> cs_dirty (cache_abs s)"

definition tx :: "'z klog_scheme \<Rightarrow> nat \<Rightarrow> u32 set \<Rightarrow> nat \<Rightarrow> bool" where
  "tx s st F k \<longleftrightarrow> (\<exists>n. log_inv s st n) \<and> 1 \<le> lg_outstanding s \<and> int LOGSIZE \<le> lg_size s \<and> lg_size s < 2 ^ 31 \<and>
     finite F \<and> card (dirty s \<union> F) + k < LOGCAP"

lemma tx_cache: "tx s st F k \<Longrightarrow> cache_inv s"
  by (auto simp: tx_def log_inv_def)

lemma tx_log: "tx s st F k \<Longrightarrow> \<exists>n. log_inv s st n"
  by (simp add: tx_def)

lemma finite_dirty [simp]: "finite (dirty s)"
  using busy_slots[of s] by simp

lemma finite_held [simp]: "finite (dom (held s))"
  using busy_slots[of s] by simp

lemma tx_less: "tx s st F k \<Longrightarrow> k' \<le> k \<Longrightarrow> tx s st F k'"
  by (auto simp: tx_def)

lemma tx_sub: "tx s st F k \<Longrightarrow> F' \<subseteq> F \<Longrightarrow> tx s st F' k"
proof -
  assume t: "tx s st F k" and "F' \<subseteq> F"
  then have "card (dirty s \<union> F') \<le> card (dirty s \<union> F)" by (intro card_mono) (auto simp: tx_def)
  then show ?thesis using t \<open>F' \<subseteq> F\<close> by (auto simp: tx_def intro: finite_subset)
qed

text \<open>Room for \<open>k\<close> more blocks can be spent on naming one of them in advance.\<close>

lemma tx_name: "tx s st F (Suc k) \<Longrightarrow> tx s st (insert bn F) k"
  by (auto simp: tx_def card_insert_if)

lemma tx_cong:
  fixes s s' :: "'z klog_scheme"
  assumes "tx s st F k" "log_ext s' = log_ext s" "log_inv s' st n"
    and "finite F'" "card (dirty s' \<union> F') + k' \<le> card (dirty s \<union> F) + k"
  shows "tx s' st F' k'"
  using assms log_ext_fields[OF assms(2)] by (auto simp: tx_def)

lemma log_room_tx: "tx s st F k \<Longrightarrow> log_inv s st n \<Longrightarrow> log_room s n"
proof -
  assume t: "tx s st F k" and i: "log_inv s st n"
  have "card (dirty s) = n" using i by (auto simp: log_inv_def card_image)
  moreover have "card (dirty s) \<le> card (dirty s \<union> F)" using t by (intro card_mono) (auto simp: tx_def)
  ultimately show ?thesis using t by (auto simp: tx_def log_room_def i32_range_def)
qed

lemma cache_room:
  assumes "tx s st F k" "card (dom (held s)) \<le> 1"
  shows "card (insert bn (dom (held s) \<union> dirty s)) \<le> NBUF"
proof -
  have "card (dirty s) \<le> card (dirty s \<union> F)" using assms(1) by (intro card_mono) (auto simp: tx_def)
  then have "card (dirty s) < LOGCAP" using assms(1) by (simp add: tx_def)
  moreover have "card (insert bn (dom (held s) \<union> dirty s)) \<le> Suc (card (dom (held s)) + card (dirty s))"
    by (rule order_trans[OF card_insert_le_m1[of "Suc (card (dom (held s)) + card (dirty s))"]])
       (auto intro: card_Un_le)
  ultimately show ?thesis using assms(2) by (simp add: NBUF_def)
qed

section \<open>Rules\<close>

lemma tx_bread:
  fixes s :: "'z klog_scheme"
  assumes t: "tx s st F k" and bn: "bn < FSSIZE" "held s bn = None" and h: "card (dom (held s)) \<le> 1"
    and Q: "\<And>b s'. tx s' st F k \<Longrightarrow> cache_abs s' = (cache_abs s)\<lparr>cs_held := (held s)(bn \<mapsto> b)\<rparr> \<Longrightarrow>
      log_ext s' = log_ext s \<Longrightarrow> buf_data s' b = view s bn \<Longrightarrow> Q b s'"
  shows "runs (bread ROOTDEV bn) s Q"
proof (rule runs_mono[OF bc.rd[OF tx_cache[OF t] bn cache_room[OF t h]]])
  fix b and s' :: "'z klog_scheme"
  assume "cache_inv s' \<and> cache_ext s' = cache_ext s \<and> cache_abs s' = (cache_abs s)\<lparr>cs_held := (held s)(bn \<mapsto> b)\<rparr>"
  then have s': "cache_inv s'" "cache_ext s' = cache_ext s" "cache_abs s' = (cache_abs s)\<lparr>cs_held := (held s)(bn \<mapsto> b)\<rparr>"
    by auto
  from t obtain n where "log_inv s st n" by (auto dest: tx_log)
  then have "log_inv s' st n" by (rule log_inv_cong[OF _ s'(2,1)]) (simp_all add: s'(3))
  moreover note e = log_ext_cache[OF s'(2)]
  ultimately have "tx s' st F k" by (intro tx_cong[OF t e]) (use t s'(3) in \<open>simp_all add: tx_def\<close>)
  then show "Q b s'" using e s'(3) bc.dat[OF s'(1), of bn b] by (intro Q) simp_all
qed

lemma tx_brelse:
  fixes s :: "'z klog_scheme"
  assumes t: "tx s st F k" and own: "held s bn = Some b"
    and c: "bn \<in> dirty s \<or> view s bn = cs_media (cache_abs s) bn"
    and Q: "\<And>s'. tx s' st F k \<Longrightarrow> cache_abs s' = (cache_abs s)\<lparr>cs_held := (held s)(bn := None)\<rparr> \<Longrightarrow>
      log_ext s' = log_ext s \<Longrightarrow> Q () s'"
  shows "runs (brelse b) s Q"
proof (rule runs_mono[OF bc.rel[OF tx_cache[OF t] own c]])
  fix u and s' :: "'z klog_scheme"
  assume "cache_inv s' \<and> cache_ext s' = cache_ext s \<and> cache_abs s' = (cache_abs s)\<lparr>cs_held := (held s)(bn := None)\<rparr>"
  then have s': "cache_inv s'" "cache_ext s' = cache_ext s" "cache_abs s' = (cache_abs s)\<lparr>cs_held := (held s)(bn := None)\<rparr>"
    by auto
  from t obtain n where "log_inv s st n" by (auto dest: tx_log)
  then have "log_inv s' st n" by (rule log_inv_cong[OF _ s'(2,1)]) (simp_all add: s'(3))
  moreover note e = log_ext_cache[OF s'(2)]
  ultimately have "tx s' st F k" by (intro tx_cong[OF t e]) (use t s'(3) in \<open>simp_all add: tx_def\<close>)
  then show "Q u s'" using e s'(3) Q[of s'] by simp
qed

lemma tx_set_data:
  fixes s :: "'z klog_scheme"
  assumes t: "tx s st F k" and own: "held s bn = Some b" and ne: "\<not> in_log st bn" and len: "length d = BSIZE"
  shows "tx (set_data b d s) st F k" "cache_abs (set_data b d s) = (cache_abs s)\<lparr>cs_view := (view s)(bn := d)\<rparr>"
    "log_ext (set_data b d s) = log_ext s"
proof -
  note p = bc.put[OF tx_cache[OF t] own len]
  show a: "cache_abs (set_data b d s) = (cache_abs s)\<lparr>cs_view := (view s)(bn := d)\<rparr>" using p by simp
  show e: "log_ext (set_data b d s) = log_ext s" using p by (intro log_ext_cache) simp
  from t obtain n where "log_inv s st n" by (auto dest: tx_log)
  then have "log_inv (set_data b d s) st n"
    by (rule log_inv_cong) (use p ne in \<open>auto simp: in_log_def\<close>)
  then show "tx (set_data b d s) st F k" by (intro tx_cong[OF t e]) (use t a in \<open>simp_all add: tx_def\<close>)
qed

lemma tx_log_write:
  fixes s :: "'z klog_scheme"
  assumes t: "tx s st F k" and own: "held s bn = Some b" and ne: "\<not> in_log st bn"
    and k: "if bn \<in> dirty s \<union> F then k' = k else k = Suc k'"
    and Q: "\<And>s'. tx s' st F k' \<Longrightarrow> cache_abs s' = (cache_abs s)\<lparr>cs_dirty := insert bn (dirty s)\<rparr> \<Longrightarrow>
      log_ext s' = log_ext s \<Longrightarrow> Q () s'"
  shows "runs (log_write b) s Q"
proof -
  from t obtain n where I: "log_inv s st n" by (auto dest: tx_log)
  show ?thesis
  proof (rule runs_log_write[OF I own ne log_room_tx[OF t I]])
    fix s' :: "'z klog_scheme" and n'
    assume s': "log_inv s' st n'" "cache_abs s' = (cache_abs s)\<lparr>cs_dirty := insert bn (dirty s)\<rparr>" "log_ext s' = log_ext s"
    have f: "finite F" using t by (simp add: tx_def)
    have "card (dirty s' \<union> F) + k' \<le> card (dirty s \<union> F) + k"
      using k f s'(2) by (auto simp: card_insert_if insert_absorb split: if_splits)
    then have "tx s' st F k'" by (rule tx_cong[OF t s'(3,1) f])
    then show "Q () s'" using s'(2,3) by (rule Q)
  qed
qed

text \<open>Reading a block and releasing it changes nothing.\<close>

lemma tx_clean: "tx s st F k \<Longrightarrow> held s bn = None \<Longrightarrow> bn \<in> dirty s \<or> view s bn = cs_media (cache_abs s) bn"
  using bc.clean[of s bn] tx_cache by blast

lemma tx_peek:
  fixes s :: "'z klog_scheme"
  assumes t: "tx s st F k" and bn: "bn < FSSIZE" "held s bn = None" and h: "card (dom (held s)) \<le> 1"
    and Q: "\<And>s'. tx s' st F k \<Longrightarrow> cache_abs s' = cache_abs s \<Longrightarrow> log_ext s' = log_ext s \<Longrightarrow> Q (f (view s bn)) s'"
  shows "runs (bnd (bread ROOTDEV bn) (\<lambda>b. bnd (gets (\<lambda>s. f (buf_data s b))) (\<lambda>x. bnd (brelse b) (\<lambda>_. ret x)))) s Q"
  unfolding runs_bnd[of "bread ROOTDEV bn"]
proof (rule tx_bread[OF t bn h])
  fix b and s1 :: "'z klog_scheme"
  assume s1: "tx s1 st F k" "cache_abs s1 = (cache_abs s)\<lparr>cs_held := (held s)(bn \<mapsto> b)\<rparr>" "log_ext s1 = log_ext s"
    "buf_data s1 b = view s bn"
  have "runs (brelse b) s1 (\<lambda>_ s2. Q (f (view s bn)) s2)"
    by (rule tx_brelse[OF s1(1), of bn])
       (use s1 bn(2) tx_clean[OF t bn(2)] in \<open>auto intro!: Q simp: bc.unheld\<close>)
  then show "runs (bnd (gets (\<lambda>s. f (buf_data s b))) (\<lambda>x. bnd (brelse b) (\<lambda>_. ret x))) s1 Q" using s1(4) by simp
qed

text \<open>Reading a block, changing it, logging and releasing it.\<close>

lemma tx_update:
  fixes s :: "'z klog_scheme"
  assumes t: "tx s st F k" and bn: "bn < FSSIZE" "held s bn = None" "\<not> in_log st bn" and h: "card (dom (held s)) \<le> 1"
    and k: "if bn \<in> dirty s \<union> F then k' = k else k = Suc k'"
    and len: "length (g (view s bn)) = BSIZE"
    and Q: "\<And>s'. tx s' st F k' \<Longrightarrow> cache_abs s' = (cache_abs s)\<lparr>cs_view := (view s)(bn := g (view s bn)), cs_dirty := insert bn (dirty s)\<rparr> \<Longrightarrow>
      log_ext s' = log_ext s \<Longrightarrow> Q () s'"
  shows "runs (bnd (bread ROOTDEV bn) (\<lambda>b. bnd (modify (\<lambda>s. set_data b (g (buf_data s b)) s)) (\<lambda>_.
    bnd (log_write b) (\<lambda>_. brelse b)))) s Q"
  unfolding runs_bnd[of "bread ROOTDEV bn"]
proof (rule tx_bread[OF t bn(1,2) h])
  fix b and s1 :: "'z klog_scheme"
  assume s1: "tx s1 st F k" "cache_abs s1 = (cache_abs s)\<lparr>cs_held := (held s)(bn \<mapsto> b)\<rparr>" "log_ext s1 = log_ext s"
    "buf_data s1 b = view s bn"
  let ?s2 = "set_data b (g (view s bn)) s1"
  have own: "held s1 bn = Some b" using s1(2) by simp
  note s2 = tx_set_data[OF s1(1) own bn(3) len]
  have "runs (log_write b) ?s2 (\<lambda>_ s3. runs (brelse b) s3 Q)"
  proof (rule tx_log_write[OF s2(1) _ bn(3), where k' = k'])
    fix s3 :: "'z klog_scheme"
    assume s3: "tx s3 st F k'" "cache_abs s3 = (cache_abs ?s2)\<lparr>cs_dirty := insert bn (dirty ?s2)\<rparr>" "log_ext s3 = log_ext ?s2"
    show "runs (brelse b) s3 Q"
      by (rule tx_brelse[OF s3(1), of bn]) (use s1 s2 s3 bn(2) in \<open>auto intro!: Q simp: bc.unheld\<close>)
  qed (use own s1 s2 k in simp_all)
  then show "runs (bnd (modify (\<lambda>s. set_data b (g (buf_data s b)) s)) (\<lambda>_. bnd (log_write b) (\<lambda>_. brelse b))) s1 Q"
    using s1(4) by simp
qed

section \<open>Changes outside the blocks\<close>

lemma kfs_frame:
  fixes s s' :: "'z kfs_scheme"
  assumes "log_ext s' = log_ext s"
  shows "icache s' = icache s" "fs_sb s' = fs_sb s" "devsw_read s' = devsw_read s" "devsw_write s' = devsw_write s"
    "kfs.more s' = kfs.more s"
  using log_ext_fields(4)[OF assms] by (cases s; cases s'; simp)+

lemma cache_kfs [simp]:
  "cache_abs (icache_update f s) = cache_abs s" "cache_abs (fs_sb_update g s) = cache_abs s"
  "cache_inv (icache_update f s) = cache_inv s" "cache_inv (fs_sb_update g s) = cache_inv s"
  by (rule cache_cong; simp)+

lemma log_inv_kfs [simp]:
  "log_inv (icache_update f s) st n = log_inv s st n" "log_inv (fs_sb_update g s) st n = log_inv s st n"
  by (simp_all add: log_inv_def log_layout_def logged_def[abs_def])

lemma tx_kfs [simp]:
  "tx (icache_update f s) st F k = tx s st F k" "tx (fs_sb_update g s) st F k = tx s st F k"
  by (simp_all add: tx_def)

lemma upd_inode_fields [simp]:
  "icache (upd_inode i f s) = (icache s)(i := f (icache s i))" "fs_sb (upd_inode i f s) = fs_sb s"
  "cache_abs (upd_inode i f s) = cache_abs s" "tx (upd_inode i f s) st F k = tx s st F k"
  "cache_inv (upd_inode i f s) = cache_inv s" "log_inv (upd_inode i f s) st n = log_inv s st n"
  "slp (upd_inode i f s) = slp s" "myproc (upd_inode i f s) = myproc s" "buf_data (upd_inode i f s) b = buf_data s b"
  by (simp_all add: upd_inode_def buf_data_def)

end
