(* ===== verification/Xv6_Alloc.thy ===== *)
theory Xv6_Alloc
  imports Xv6_Txn
begin

text \<open>
  The block allocator: the geometry of the disk, the bitmap as a set of block numbers, and the effect
  of \<open>balloc\<close> and \<open>bfree\<close> inside a transaction.
\<close>

section \<open>Geometry\<close>

text \<open>
  Boot block, superblock, log, inode blocks, one bitmap block, data blocks, in this order. One bitmap
  block is enough for any disk of \<open>FSSIZE\<close> blocks.
\<close>

definition fs_geom :: "superblock \<Rightarrow> nat \<Rightarrow> bool" where
  "fs_geom sb st \<longleftrightarrow> sb_logstart sb = of_nat st \<and> 2 \<le> st \<and> st + LOGSIZE \<le> unat (sb_inodestart sb) \<and>
     unat (sb_inodestart sb) + unat (sb_ninodes sb) div IPB < unat (sb_bmapstart sb) \<and>
     unat (sb_bmapstart sb) < unat (sb_size sb) \<and> unat (sb_size sb) \<le> unat FSSIZE"

lemma unat_of_nat_u32: "n < 2 ^ 32 \<Longrightarrow> unat (of_nat n :: u32) = n"
  by (simp add: unat_of_nat)

lemma not_in_log:
  assumes "fs_geom sb st" "b = 1 \<or> unat (sb_inodestart sb) \<le> unat b"
  shows "\<not> in_log st b"
proof
  assume "in_log st b"
  then obtain j where "b = of_nat (st + j)" "j \<le> LOGCAP"
    by (auto simp: in_log_def log_at_def intro: that[of 0] that[of "Suc _"])
  moreover have "st + 29 < 2000" using assms(1) by (simp add: fs_geom_def)
  ultimately have "unat b = st + j" "j \<le> 29" using unat_of_nat_u32[of "st + j"] by simp_all
  then show False using assms by (auto simp: fs_geom_def)
qed

lemma fs_geom_bmap:
  assumes "fs_geom sb st"
  shows "sb_bmapstart sb < FSSIZE" "\<not> in_log st (sb_bmapstart sb)" "sb_bmapstart sb \<noteq> 1"
  using assms not_in_log[OF assms, of "sb_bmapstart sb"]
  by (auto simp: fs_geom_def word_less_nat_alt)

section \<open>Bitmaps\<close>

definition bit_at :: "u8 list \<Rightarrow> nat \<Rightarrow> bool" where
  "bit_at d b \<longleftrightarrow> d ! (b div 8) AND bit_mask b \<noteq> 0"

definition set_bit_at :: "nat \<Rightarrow> u8 list \<Rightarrow> u8 list" where
  "set_bit_at b d = d[b div 8 := d ! (b div 8) OR bit_mask b]"

definition clear_bit_at :: "nat \<Rightarrow> u8 list \<Rightarrow> u8 list" where
  "clear_bit_at b d = d[b div 8 := d ! (b div 8) AND NOT (bit_mask b)]"

lemma bit_at_bit: "bit_at d b \<longleftrightarrow> bit (d ! (b div 8)) (b mod 8)"
  by (simp add: bit_at_def bit_mask_def push_bit_of_1 and_exp_eq_0_iff_not_bit)

lemma length_set_bit_at [simp]: "length (set_bit_at b d) = length d" "length (clear_bit_at b d) = length d"
  by (simp_all add: set_bit_at_def clear_bit_at_def)

lemma div_mod_8: "a div 8 = b div 8 \<Longrightarrow> a mod 8 = b mod 8 \<Longrightarrow> a = (b :: nat)"
  by (metis div_mult_mod_eq)

lemma bit_at_set:
  assumes "b < 8 * length d"
  shows "bit_at (set_bit_at b d) j \<longleftrightarrow> j = b \<or> bit_at d j"
proof -
  have "b div 8 < length d" using assms by (simp add: less_mult_imp_div_less mult.commute)
  then show ?thesis
    by (auto simp: bit_at_bit set_bit_at_def nth_list_update bit_mask_def bit_simps intro: div_mod_8)
qed

lemma bit_at_clear:
  assumes "b < 8 * length d"
  shows "bit_at (clear_bit_at b d) j \<longleftrightarrow> j \<noteq> b \<and> bit_at d j"
proof -
  have "b div 8 < length d" using assms by (simp add: less_mult_imp_div_less mult.commute)
  then show ?thesis
    by (auto simp: bit_at_bit clear_bit_at_def nth_list_update bit_mask_def bit_simps dest: div_mod_8)
qed

text \<open>The blocks in use, by the bitmap; and the lowest block not in use.\<close>

definition used :: "(u32 \<Rightarrow> u8 list) \<Rightarrow> superblock \<Rightarrow> nat \<Rightarrow> bool" where
  "used V sb b \<longleftrightarrow> bit_at (V (sb_bmapstart sb)) b"

definition first_free :: "(u32 \<Rightarrow> u8 list) \<Rightarrow> superblock \<Rightarrow> nat option" where
  "first_free V sb = find (\<lambda>b. \<not> used V sb b) [0..<unat (sb_size sb)]"

lemma first_free_Some:
  "first_free V sb = Some b \<longleftrightarrow> b < unat (sb_size sb) \<and> \<not> used V sb b \<and> (\<forall>j < b. used V sb j)"
  unfolding first_free_def find_Some_iff by (auto intro: exI[of _ b])

lemma first_free_None: "first_free V sb = None \<longleftrightarrow> (\<forall>b < unat (sb_size sb). used V sb b)"
  unfolding first_free_def find_None_iff by auto

section \<open>The scan\<close>

lemma runs_balloc_scan:
  assumes "unat sz \<le> 4096" "j \<le> 4096"
  shows "runs (balloc_scan sz 0 d [j..<4096]) s Q = Q (find (\<lambda>b. \<not> bit_at d b) [j..<unat sz]) s"
  using assms(2)
proof (induction "4096 - j" arbitrary: j)
  case 0
  then show ?case using assms(1) by simp
next
  case (Suc m)
  then have j: "j < 4096" by simp
  have IH: "runs (balloc_scan sz 0 d [Suc j..<4096]) s Q = Q (find (\<lambda>b. \<not> bit_at d b) [Suc j..<unat sz]) s"
    by (rule Suc(1)) (use Suc(2) j in auto)
  have sz: "sz \<le> of_nat j \<longleftrightarrow> unat sz \<le> j" using j by (simp add: word_le_nat_alt unat_of_nat)
  have up: "[j..<4096] = j # [Suc j..<4096]" using j by (rule upt_conv_Cons)
  show ?case
  proof (cases "unat sz \<le> j")
    case True
    then show ?thesis using sz j by (simp add: up unat_of_nat del: upt_rec_numeral)
  next
    case False
    then have "[j..<unat sz] = j # [Suc j..<unat sz]" by (intro upt_conv_Cons) simp
    then show ?thesis
      using False sz j IH by (simp add: up unat_of_nat bit_at_def del: upt_rec_numeral)
  qed
qed

section \<open>Allocation\<close>

text \<open>The part of the kernel that file contents operations leave alone.\<close>

definition fs_rest :: "'z kfs_scheme \<Rightarrow> 'z \<times> (nat \<Rightarrow> dev_read option) \<times> (nat \<Rightarrow> dev_write option) \<times> i32 \<times> i32 \<times> bool \<times>
    nat option \<times> (nat \<Rightarrow> sleeplock) \<times> (nat \<Rightarrow> proc)" where
  "fs_rest s = (kfs.more s, devsw_read s, devsw_write s, lg_size s, lg_outstanding s, lg_committing s, myproc s,
     (\<lambda>i. slp s (SlInode i)), (\<lambda>i. (ptable s i)\<lparr>pr_state := UNUSED\<rparr>))"

lemma fs_rest_ext:
  fixes s s' :: "'z kfs_scheme"
  shows "log_ext s' = log_ext s \<Longrightarrow> fs_rest s' = fs_rest s"
  using kfs_frame[of s' s] by (auto simp: fs_rest_def log_ext_def)

lemma fs_rest_upd [simp]:
  "fs_rest (upd_inode i f s) = fs_rest s" "fs_rest (s\<lparr>fs_sb := sb\<rparr>) = fs_rest s"
  by (simp_all add: fs_rest_def upd_inode_def)

lemma tx_room_cases:
  assumes "tx s st F (Suc k)"
  shows "\<exists>k1. (if bn \<in> dirty s \<union> F then k1 = Suc k else Suc k = Suc k1) \<and> k \<le> k1"
  by (rule exI[of _ "if bn \<in> dirty s \<union> F then Suc k else k"]) simp

lemma runs_bzero:
  fixes s :: "'z kfs_scheme"
  assumes t: "tx s st F (Suc k)" and bn: "bn < FSSIZE" "held s bn = None" "\<not> in_log st bn" and h: "card (dom (held s)) \<le> 1"
    and Q: "\<And>s'. tx s' st F k \<Longrightarrow> cache_abs s' = (cache_abs s)\<lparr>cs_view := (view s)(bn := replicate BSIZE 0), cs_dirty := insert bn (dirty s)\<rparr> \<Longrightarrow>
      log_ext s' = log_ext s \<Longrightarrow> Q () s'"
  shows "runs (bzero ROOTDEV bn) s Q"
proof -
  obtain k1 where k1: "if bn \<in> dirty s \<union> F then k1 = Suc k else Suc k = Suc k1" "k \<le> k1"
    using tx_room_cases[OF t, of bn] by auto
  show ?thesis
    unfolding bzero_def
    by (rule tx_update[OF t bn h k1(1), where g = "\<lambda>_. replicate BSIZE 0"]) (use Q tx_less[OF _ k1(2)] in auto)
qed

lemma bblock_small:
  assumes "fs_geom sb st" "unat b < unat (sb_size sb)"
  shows "runs (bblock b sb) s Q = Q (sb_bmapstart sb) s"
proof -
  have "unat b < 4096" using assms by (simp add: fs_geom_def)
  then have "b div 4096 = 0" by (simp add: word_unat_eq_iff unat_div)
  moreover have "unat (sb_bmapstart sb) < 2 ^ 32" using unsigned_less[of "sb_bmapstart sb", where 'a = nat] by simp
  ultimately show ?thesis by (simp add: bblock_def)
qed

text \<open>\<open>balloc\<close> takes the lowest free block, marks it in the bitmap and zeroes it.\<close>

lemma runs_balloc:
  fixes s :: "'z kfs_scheme"
  assumes t: "tx s st F (Suc k)" and g: "fs_geom (fs_sb s) st"
    and bm: "sb_bmapstart (fs_sb s) \<in> F" "held s (sb_bmapstart (fs_sb s)) = None" and h: "card (dom (held s)) \<le> 1"
    and b: "first_free (view s) (fs_sb s) = Some b" "unat (sb_bmapstart (fs_sb s)) < b" "held s (of_nat b) = None"
    and Q: "\<And>s'. tx s' st F k \<Longrightarrow> cache_abs s' = (cache_abs s)\<lparr>
        cs_view := (view s)(sb_bmapstart (fs_sb s) := set_bit_at b (view s (sb_bmapstart (fs_sb s))), of_nat b := replicate BSIZE 0),
        cs_dirty := insert (of_nat b) (insert (sb_bmapstart (fs_sb s)) (dirty s))\<rparr> \<Longrightarrow>
      log_ext s' = log_ext s \<Longrightarrow> Q (of_nat b) s'"
  shows "runs (balloc ROOTDEV) s Q"
proof -
  let ?sb = "fs_sb s" let ?bm = "sb_bmapstart ?sb" let ?d = "view s ?bm" let ?b = "of_nat b :: u32"
  have sz: "unat (sb_size ?sb) \<le> 4096" "0 < sb_size ?sb" using g by (auto simp: fs_geom_def word_less_nat_alt)
  have bs: "b < unat (sb_size ?sb)" using b(1) by (simp add: first_free_Some)
  then have b2: "b < 2000" using g by (simp add: fs_geom_def)
  note gb = fs_geom_bmap[OF g]
  have ub: "unat ?b = b" using b2 by (simp add: unat_of_nat)
  have "unat (sb_inodestart ?sb) \<le> unat ?b" using b(2) ub g by (simp add: fs_geom_def)
  then have nb: "\<not> in_log st ?b" using not_in_log[OF g] by blast
  have bF: "?b < FSSIZE" using ub b2 by (simp add: word_less_nat_alt)
  have ne: "?b \<noteq> ?bm" using b(2) ub by auto
  have len: "length ?d = BSIZE" using tx_cache[OF t] by (rule bc.view_length)
  have scan: "runs (balloc_scan (sb_size ?sb) 0 ?d [0..<4096]) u P = P (Some b) u" for u :: "'z kfs_scheme" and P
    using runs_balloc_scan[OF sz(1), of 0 ?d u P] b(1) by (simp add: first_free_def used_def del: upt_rec_numeral)
  have zero: "runs (bzero ROOTDEV ?b) s3 (\<lambda>_ s'. Q ?b s')"
    if s3: "tx s3 st F (Suc k)" "cache_abs s3 = (cache_abs s)\<lparr>cs_view := (view s)(?bm := set_bit_at b ?d), cs_dirty := insert ?bm (dirty s)\<rparr>"
      "log_ext s3 = log_ext s" for s3 :: "'z kfs_scheme"
    by (rule runs_bzero[OF s3(1) bF _ nb]) (use s3 b(3) h in \<open>auto intro!: Q\<close>)
  have log: "runs (balloc_mark ROOTDEV 0 buf ?d b) s1 Q"
    if s1: "tx s1 st F (Suc k)" "cache_abs s1 = (cache_abs s)\<lparr>cs_held := (held s)(?bm \<mapsto> buf)\<rparr>" "log_ext s1 = log_ext s"
    for buf and s1 :: "'z kfs_scheme"
  proof -
    have own: "held s1 ?bm = Some buf" using s1(2) by simp
    note s2 = tx_set_data[OF s1(1) own gb(2), of "set_bit_at b ?d"]
    have "runs (log_write buf) (set_data buf (set_bit_at b ?d) s1) (\<lambda>_ s3. runs (brelse buf) s3 (\<lambda>_ s4. runs (bzero ROOTDEV ?b) s4 (\<lambda>_ s'. Q ?b s')))"
    proof (rule tx_log_write[OF s2(1) _ gb(2), where k' = "Suc k"])
      fix s3 :: "'z kfs_scheme"
      assume s3: "tx s3 st F (Suc k)" "cache_abs s3 = (cache_abs (set_data buf (set_bit_at b ?d) s1))\<lparr>cs_dirty :=
          insert ?bm (dirty (set_data buf (set_bit_at b ?d) s1))\<rparr>" "log_ext s3 = log_ext (set_data buf (set_bit_at b ?d) s1)"
      show "runs (brelse buf) s3 (\<lambda>_ s4. runs (bzero ROOTDEV ?b) s4 (\<lambda>_ s'. Q ?b s'))"
        by (rule tx_brelse[OF s3(1), of ?bm])
           (use s1 s2 s3 len bm(2) in \<open>auto intro!: zero simp: bc.unheld\<close>)
    qed (use own s1 s2 len bm in simp_all)
    then show ?thesis by (simp add: balloc_mark_def set_bit_at_def)
  qed
  have bpb: "unat BPB = 4096" by simp
  have bb: "runs (bblock 0 ?sb) s P = P ?bm s" for P using sz(2) by (intro bblock_small[OF g]) (simp add: word_less_nat_alt)
  have "runs (balloc_from ROOTDEV (sb_size ?sb) 0) s Q"
    unfolding balloc_from.simps[of ROOTDEV "sb_size ?sb" 0] if_P[OF sz(2)] runs_bnd runs_gets bb bpb
    by (rule tx_bread[OF t gb(1) bm(2) h]) (simp only: scan option.case, rule log)
  then show ?thesis by (simp add: balloc_def)
qed

lemma runs_readsb_tx:
  fixes s :: "'z kfs_scheme"
  assumes t: "tx s st F k" and h: "held s 1 = None" "card (dom (held s)) \<le> 1"
    and Q: "\<And>s'. tx s' st F k \<Longrightarrow> cache_abs s' = cache_abs s \<Longrightarrow> log_ext s' = log_ext s \<Longrightarrow> Q (sb_of (view s 1)) s'"
  shows "runs (readsb 1) s Q"
  unfolding readsb_def u32_of_i32_1 by (rule tx_peek[OF t _ h]) (use Q in simp_all)

text \<open>\<open>bfree\<close> clears the bit of a block in use.\<close>

lemma runs_bfree:
  fixes s :: "'z kfs_scheme"
  assumes t: "tx s st F k" and g: "fs_geom (fs_sb s) st" and sb: "sb_of (view s 1) = fs_sb s"
    and bm: "sb_bmapstart (fs_sb s) \<in> F" "held s (sb_bmapstart (fs_sb s)) = None" and h: "card (dom (held s)) \<le> 1" "held s 1 = None"
    and b: "unat b < unat (sb_size (fs_sb s))" "used (view s) (fs_sb s) (unat b)"
    and Q: "\<And>s'. tx s' st F k \<Longrightarrow> cache_abs s' = (cache_abs s)\<lparr>
        cs_view := (view s)(sb_bmapstart (fs_sb s) := clear_bit_at (unat b) (view s (sb_bmapstart (fs_sb s)))),
        cs_dirty := insert (sb_bmapstart (fs_sb s)) (dirty s)\<rparr> \<Longrightarrow> log_ext s' = log_ext s \<Longrightarrow> Q () s'"
  shows "runs (bfree ROOTDEV b) s Q"
proof -
  let ?sb = "fs_sb s" let ?bm = "sb_bmapstart ?sb" let ?d = "view s ?bm"
  note gb = fs_geom_bmap[OF g]
  have len: "length ?d = BSIZE" using tx_cache[OF t] by (rule bc.view_length)
  have "unat b < 4096" using b(1) g by (simp add: fs_geom_def)
  then have bi: "unat (b mod BPB) = unat b" by (simp add: unat_mod)
  have dev: "i32_of_u32 ROOTDEV = 1" by (simp add: i32_of_u32_def ROOTDEV_def)
  have bb: "runs (bblock b ?sb) u P = P ?bm u" for u :: "'z kfs_scheme" and P by (rule bblock_small[OF g b(1)])
  have bit: "?d ! (unat b div 8) AND bit_mask (unat b) \<noteq> 0" using b(2) by (simp add: used_def bit_at_def)
  have log: "runs (bnd (modify (set_data buf (?d[unat b div 8 := ?d ! (unat b div 8) AND NOT (bit_mask (unat b))]))) (\<lambda>_.
      bnd (log_write buf) (\<lambda>_. brelse buf))) s2 Q"
    if s2: "tx s2 st F k" "cache_abs s2 = (cache_abs s)\<lparr>cs_held := (held s)(?bm \<mapsto> buf)\<rparr>" "log_ext s2 = log_ext s"
    for buf and s2 :: "'z kfs_scheme"
  proof -
    let ?s3 = "set_data buf (clear_bit_at (unat b) ?d) s2"
    have own: "held s2 ?bm = Some buf" using s2(2) by simp
    note s3 = tx_set_data[OF s2(1) own gb(2), of "clear_bit_at (unat b) ?d"]
    have "runs (log_write buf) ?s3 (\<lambda>_ s4. runs (brelse buf) s4 Q)"
    proof (rule tx_log_write[OF s3(1) _ gb(2), where k' = k])
      fix s4 :: "'z kfs_scheme"
      assume s4: "tx s4 st F k" "cache_abs s4 = (cache_abs ?s3)\<lparr>cs_dirty := insert ?bm (dirty ?s3)\<rparr>" "log_ext s4 = log_ext ?s3"
      show "runs (brelse buf) s4 Q"
        by (rule tx_brelse[OF s4(1), of ?bm]) (use s2 s3 s4 len bm(2) in \<open>auto intro!: Q simp: bc.unheld\<close>)
    qed (use own s2 s3 len bm in simp_all)
    then show ?thesis by (simp add: clear_bit_at_def)
  qed
  have "runs (bread ROOTDEV ?bm) s1 (\<lambda>buf s2. runs (let bi = unat (b mod BPB); d = buf_data s2 buf in
        bnd (guardk (d ! (bi div 8) AND bit_mask bi \<noteq> 0) (Panic ''freeing free block'')) (\<lambda>_.
        bnd (modify (set_data buf (d[bi div 8 := d ! (bi div 8) AND NOT (bit_mask bi)]))) (\<lambda>_.
        bnd (log_write buf) (\<lambda>_. brelse buf)))) s2 Q)"
    if s1: "tx s1 st F k" "cache_abs s1 = cache_abs s" "log_ext s1 = log_ext s" for s1 :: "'z kfs_scheme"
  proof (rule tx_bread[OF s1(1) gb(1)], goal_cases)
    case (3 buf s2)
    then have "runs (bnd (modify (set_data buf (?d[unat b div 8 := ?d ! (unat b div 8) AND NOT (bit_mask (unat b))]))) (\<lambda>_.
      bnd (log_write buf) (\<lambda>_. brelse buf))) s2 Q" using s1 by (intro log) simp_all
    then show ?case unfolding Let_def bi 3(4) s1(2) runs_bnd[of "guardk _ _"] runs_guardk using bit by simp
  qed (use s1 bm h in simp_all)
  note rest = this
  show ?thesis
    unfolding bfree_def dev runs_bnd[of "readsb 1"]
  proof (rule runs_readsb_tx[OF t h(2,1)], goal_cases)
    case (1 s1)
    have same: "s1\<lparr>fs_sb := ?sb\<rparr> = s1" using kfs_frame(2)[OF 1(3)] by simp
    show ?case using rest[OF 1] unfolding sb runs_bnd runs_modify same bb runs_gets Let_def .
  qed
qed

end
