(* ===== verification/Xv6_Inode.thy ===== *)
theory Xv6_Inode
  imports Xv6_Alloc
begin

text \<open>
  File contents. The logical state of the file system is, for every inode number, the inode's
  metadata and the contents of its blocks (a missing block counts as zeros). The invariant \<open>fs_inv\<close>
  says that every block an inode refers to is a data block in use, that no block is referred to twice,
  and that files have no holes below their size. \<open>bmap\<close> keeps the logical state while it allocates;
  \<open>readi\<close> returns a piece of the contents; \<open>writei\<close> replaces one, and nothing else changes.
\<close>

section \<open>Block addresses of a file\<close>

text \<open>Position \<open>MAXFILE\<close> stands for the indirect block itself.\<close>

definition faddr :: "(u32 \<Rightarrow> u8 list) \<Rightarrow> dinode \<Rightarrow> nat \<Rightarrow> u32" where
  "faddr V d p = (if p < NDIRECT then di_addrs d ! p else if p = MAXFILE then di_addrs d ! NDIRECT
     else if di_addrs d ! NDIRECT = 0 then 0 else get_u32 (V (di_addrs d ! NDIRECT)) (4 * (p - NDIRECT)))"

lemma faddr_direct:
  "n < NDIRECT \<Longrightarrow> length (di_addrs d) = Suc NDIRECT \<Longrightarrow>
   faddr V (d\<lparr>di_addrs := (di_addrs d)[n := a]\<rparr>) p = (if p = n then a else faddr V d p)"
  by (auto simp: faddr_def)

lemma get_u32_zeros: "o4 + 4 \<le> n \<Longrightarrow> get_u32 (replicate n 0) o4 = 0"
proof -
  assume "o4 + 4 \<le> n"
  then have "slice o4 4 (replicate n 0) = [0, 0, 0, 0 :: u8]" by (simp add: slice_def min_def eval_nat_numeral)
  then show ?thesis by (simp add: get_u32_def)
qed

lemma faddr_indirect:
  assumes "di_addrs d ! NDIRECT = 0" "length (di_addrs d) = Suc NDIRECT" "V a = replicate BSIZE 0" "p \<le> MAXFILE"
  shows "faddr V (d\<lparr>di_addrs := (di_addrs d)[NDIRECT := a]\<rparr>) p = (if p = MAXFILE then a else faddr V d p)"
  using assms get_u32_zeros[of "4 * (p - 12)" 512] by (auto simp: faddr_def)

lemma faddr_entry:
  assumes "di_addrs d ! NDIRECT \<noteq> 0" "length (V (di_addrs d ! NDIRECT)) = BSIZE" "k < NINDIRECT" "p \<le> MAXFILE"
  shows "faddr (V(di_addrs d ! NDIRECT := put_u32 (4 * k) a (V (di_addrs d ! NDIRECT)))) d p =
    (if p = NDIRECT + k then a else faddr V d p)"
proof -
  let ?b = "V (di_addrs d ! NDIRECT)"
  have "get_u32 (put_u32 (4 * k) a ?b) (4 * (p - 12)) = (if p - 12 = k then a else get_u32 ?b (4 * (p - 12)))"
    if "12 \<le> p" "p < 140"
  proof (cases "p - 12 = k")
    case True
    then show ?thesis using assms(2,3) by simp
  next
    case False
    then have "4 * (p - 12) + 4 \<le> 4 * k \<or> 4 * k + 4 \<le> 4 * (p - 12)" by arith
    then show ?thesis using False that assms(2,3) get_put_u32_other[of "4 * k" ?b "4 * (p - 12)" a] by simp
  qed
  then show ?thesis using assms by (auto simp: faddr_def)
qed

lemma faddr_cong:
  "(di_addrs d ! NDIRECT \<noteq> 0 \<Longrightarrow> V' (di_addrs d ! NDIRECT) = V (di_addrs d ! NDIRECT)) \<Longrightarrow> faddr V' d p = faddr V d p"
  by (auto simp: faddr_def)

section \<open>The logical state\<close>

text \<open>The inode with number \<open>i\<close>: the cached copy if there is a valid one, the copy on the disk otherwise.\<close>

definition iblk :: "superblock \<Rightarrow> nat \<Rightarrow> u32" where
  "iblk sb i = of_nat (unat (sb_inodestart sb) + i div IPB)"

definition disk_inode :: "'z kfs_scheme \<Rightarrow> nat \<Rightarrow> dinode" where
  "disk_inode s i = get_dinode (view s (iblk (fs_sb s) i)) (i mod IPB)"

definition cached :: "'z kfs_scheme \<Rightarrow> nat \<Rightarrow> nat \<Rightarrow> bool" where
  "cached s c i \<longleftrightarrow> c < NINODE \<and> 0 < i_ref (icache s c) \<and> inode_is_valid (icache s c) \<and> i_dev (icache s c) = ROOTDEV \<and>
     i_inum (icache s c) = of_nat i"

definition eff :: "'z kfs_scheme \<Rightarrow> nat \<Rightarrow> dinode" where
  "eff s i = (case find (\<lambda>c. cached s c i) [0..<NINODE] of Some c \<Rightarrow> to_dinode (icache s c) | None \<Rightarrow> disk_inode s i)"

definition icache_ok :: "'z kfs_scheme \<Rightarrow> bool" where
  "icache_ok s \<longleftrightarrow> (\<forall>c < NINODE. \<forall>c' < NINODE. 0 < i_ref (icache s c) \<longrightarrow> 0 < i_ref (icache s c') \<longrightarrow>
     i_dev (icache s c) = i_dev (icache s c') \<longrightarrow> i_inum (icache s c) = i_inum (icache s c') \<longrightarrow> c = c')"

abbreviation ninodes :: "'z kfs_scheme \<Rightarrow> nat" where "ninodes s \<equiv> unat (sb_ninodes (fs_sb s))"

abbreviation addr :: "'z kfs_scheme \<Rightarrow> nat \<Rightarrow> nat \<Rightarrow> u32" where "addr s i \<equiv> faddr (view s) (eff s i)"

definition fblk :: "'z kfs_scheme \<Rightarrow> nat \<Rightarrow> nat \<Rightarrow> u8 list" where
  "fblk s i p = (if addr s i p = 0 then replicate BSIZE 0 else view s (addr s i p))"

definition meta :: "dinode \<Rightarrow> u16 \<times> u16 \<times> u16 \<times> u16 \<times> u32" where
  "meta d = (di_type d, di_major d, di_minor d, di_nlink d, di_size d)"

text \<open>Data blocks, and the discipline of block references.\<close>

definition data_blk :: "superblock \<Rightarrow> u32 \<Rightarrow> bool" where
  "data_blk sb b \<longleftrightarrow> unat (sb_bmapstart sb) < unat b \<and> unat b < unat (sb_size sb)"

definition refs_ok :: "superblock \<Rightarrow> (nat \<Rightarrow> nat \<Rightarrow> u32) \<Rightarrow> (nat \<Rightarrow> bool) \<Rightarrow> bool" where
  "refs_ok sb R U \<longleftrightarrow> (\<forall>b \<le> unat (sb_bmapstart sb). U b) \<and>
     (\<forall>i < unat (sb_ninodes sb). \<forall>p \<le> MAXFILE. R i p \<noteq> 0 \<longrightarrow> data_blk sb (R i p) \<and> U (unat (R i p))) \<and>
     (\<forall>i < unat (sb_ninodes sb). \<forall>p \<le> MAXFILE. \<forall>j < unat (sb_ninodes sb). \<forall>q \<le> MAXFILE.
        R i p \<noteq> 0 \<longrightarrow> R i p = R j q \<longrightarrow> i = j \<and> p = q)"

definition inode_ok :: "(u32 \<Rightarrow> u8 list) \<Rightarrow> dinode \<Rightarrow> bool" where
  "inode_ok V d \<longleftrightarrow> length (di_addrs d) = Suc NDIRECT \<and> unat (di_size d) \<le> MAXFILE * BSIZE \<and>
     (\<forall>p. p * BSIZE < unat (di_size d) \<longrightarrow> faddr V d p \<noteq> 0)"

definition fs_inv :: "'z kfs_scheme \<Rightarrow> nat \<Rightarrow> bool" where
  "fs_inv s st \<longleftrightarrow> fs_geom (fs_sb s) st \<and> sb_of (view s 1) = fs_sb s \<and> icache_ok s \<and>
     refs_ok (fs_sb s) (addr s) (used (view s) (fs_sb s)) \<and> (\<forall>i < ninodes s. inode_ok (view s) (eff s i))"

text \<open>Two states with the same logical contents.\<close>

definition same_files :: "'z kfs_scheme \<Rightarrow> 'z kfs_scheme \<Rightarrow> bool" where
  "same_files s s' \<longleftrightarrow> fs_sb s' = fs_sb s \<and>
     (\<forall>i < ninodes s. meta (eff s' i) = meta (eff s i) \<and> (\<forall>p < MAXFILE. fblk s' i p = fblk s i p))"

lemma same_files_refl [simp]: "same_files s s"
  by (simp add: same_files_def)

lemma same_files_trans: "same_files s s' \<Longrightarrow> same_files s' s'' \<Longrightarrow> same_files s s''"
  by (simp add: same_files_def)

section \<open>Which blocks are which\<close>

lemma iblk_unat:
  assumes "fs_geom sb st" "i < unat (sb_ninodes sb)"
  shows "unat (iblk sb i) = unat (sb_inodestart sb) + i div IPB" "unat (iblk sb i) < unat (sb_bmapstart sb)"
    "iblk sb i < FSSIZE" "\<not> in_log st (iblk sb i)"
proof -
  have "i div 8 \<le> unat (sb_ninodes sb) div 8" using assms(2) by (intro div_le_mono) simp
  then have b: "unat (sb_inodestart sb) + i div 8 < unat (sb_bmapstart sb)" using assms(1) by (simp add: fs_geom_def)
  moreover have "unat (sb_bmapstart sb) < 2000" using assms(1) by (simp add: fs_geom_def)
  ultimately show u: "unat (iblk sb i) = unat (sb_inodestart sb) + i div IPB"
    using unat_of_nat_u32[of "unat (sb_inodestart sb) + i div 8"] by (simp add: iblk_def)
  then show "unat (iblk sb i) < unat (sb_bmapstart sb)" using b by simp
  then show "iblk sb i < FSSIZE" using \<open>unat (sb_bmapstart sb) < 2000\<close> by (simp add: word_less_nat_alt)
  show "\<not> in_log st (iblk sb i)" by (rule not_in_log[OF assms(1)]) (use u in simp)
qed

lemma data_blk_facts:
  assumes "fs_geom sb st" "data_blk sb b"
  shows "b < FSSIZE" "\<not> in_log st b" "b \<noteq> 0" "b \<noteq> 1" "b \<noteq> sb_bmapstart sb" "i < unat (sb_ninodes sb) \<Longrightarrow> b \<noteq> iblk sb i"
proof -
  have u: "unat (sb_inodestart sb) \<le> unat b" "2 < unat b" "unat b < 2000" using assms by (auto simp: fs_geom_def data_blk_def)
  show "\<not> in_log st b" using not_in_log[OF assms(1)] u by blast
  show "b < FSSIZE" "b \<noteq> 0" "b \<noteq> 1" "b \<noteq> sb_bmapstart sb" using u assms(2) by (auto simp: word_less_nat_alt data_blk_def)
  show "b \<noteq> iblk sb i" if "i < unat (sb_ninodes sb)" using iblk_unat(2)[OF assms(1) that] assms(2) by (auto simp: data_blk_def)
qed

lemma of_nat_inum_inj:
  "i < unat (sb_ninodes sb) \<Longrightarrow> j < unat (sb_ninodes sb) \<Longrightarrow> (of_nat i :: u32) = of_nat j \<longleftrightarrow> i = j"
proof -
  assume "i < unat (sb_ninodes sb)" "j < unat (sb_ninodes sb)"
  moreover have "unat (sb_ninodes sb) < 2 ^ 32" using unsigned_less[of "sb_ninodes sb", where 'a = nat] by simp
  ultimately have "unat (of_nat i :: u32) = i" "unat (of_nat j :: u32) = j" by (simp_all add: unat_of_nat_u32)
  then show ?thesis by metis
qed

lemma eff_cached: "icache_ok s \<Longrightarrow> cached s c i \<Longrightarrow> eff s i = to_dinode (icache s c)"
proof -
  assume ok: "icache_ok s" and c: "cached s c i"
  show ?thesis
  proof (cases "find (\<lambda>c. cached s c i) [0..<NINODE]")
    case None
    then show ?thesis using c by (auto simp: find_None_iff cached_def)
  next
    case (Some c')
    then have "cached s c' i" by (auto simp: find_Some_iff)
    then have "c' = c" using ok c by (auto simp: icache_ok_def cached_def)
    then show ?thesis using Some by (simp add: eff_def)
  qed
qed

lemma eff_cong:
  assumes "icache s' = icache s" "fs_sb s' = fs_sb s" "view s' (iblk (fs_sb s) i) = view s (iblk (fs_sb s) i)"
  shows "eff s' i = eff s i"
  using assms by (simp add: eff_def cached_def[abs_def] disk_inode_def split: option.split)

text \<open>Changing a cached inode other than in its identity.\<close>

definition same_id :: "inode \<Rightarrow> inode \<Rightarrow> bool" where
  "same_id a b \<longleftrightarrow> i_dev a = i_dev b \<and> i_inum a = i_inum b \<and> i_ref a = i_ref b \<and> i_flags a = i_flags b"

lemma same_id_cached:
  assumes "icache s' = (icache s)(c := ip)" "same_id ip (icache s c)"
  shows "cached s' c' j = cached s c' j" "icache_ok s' = icache_ok s"
proof -
  have e: "i_dev (icache s' x) = i_dev (icache s x)" "i_inum (icache s' x) = i_inum (icache s x)"
    "i_ref (icache s' x) = i_ref (icache s x)" "i_flags (icache s' x) = i_flags (icache s x)" for x
    using assms by (auto simp: same_id_def)
  show "cached s' c' j = cached s c' j" by (simp add: cached_def inode_is_valid_def e)
  show "icache_ok s' = icache_ok s" by (simp add: icache_ok_def e)
qed

lemma eff_upd:
  assumes s': "icache s' = (icache s)(c := ip)" "same_id ip (icache s c)" "fs_sb s' = fs_sb s"
    and c: "icache_ok s" "cached s c i" and v: "view s' (iblk (fs_sb s) j) = view s (iblk (fs_sb s) j)"
    and b: "i < ninodes s" "j < ninodes s"
  shows "eff s' j = (if j = i then to_dinode ip else eff s j)"
proof (cases "j = i")
  case True
  then show ?thesis using eff_cached[of s' c i] same_id_cached[OF s'(1,2)] c s'(1) by simp
next
  case False
  have ne: "find (\<lambda>c. cached s c j) [0..<NINODE] = Some x \<Longrightarrow> x \<noteq> c" for x
    using c(2) False of_nat_inum_inj[OF b] by (auto simp: find_Some_iff cached_def)
  have "find (\<lambda>c. cached s' c j) [0..<NINODE] = find (\<lambda>c. cached s c j) [0..<NINODE]"
    by (simp add: same_id_cached[OF s'(1,2)])
  then show ?thesis using False ne s'(1,3) v by (auto simp: eff_def disk_inode_def split: option.splits)
qed

section \<open>Steps of allocation\<close>

lemma fs_invD:
  assumes "fs_inv s st"
  shows "fs_geom (fs_sb s) st" "sb_of (view s 1) = fs_sb s" "icache_ok s" "refs_ok (fs_sb s) (addr s) (used (view s) (fs_sb s))"
    "i < ninodes s \<Longrightarrow> inode_ok (view s) (eff s i)"
  using assms by (auto simp: fs_inv_def)

lemma refs_okD:
  assumes "refs_ok sb R U" "i < unat (sb_ninodes sb)" "p \<le> MAXFILE" "R i p \<noteq> 0"
  shows "data_blk sb (R i p)" "U (unat (R i p))"
    "j < unat (sb_ninodes sb) \<Longrightarrow> q \<le> MAXFILE \<Longrightarrow> R i p = R j q \<longleftrightarrow> i = j \<and> p = q"
  using assms by (auto simp: refs_ok_def)

lemma refs_ok_low: "refs_ok sb R U \<Longrightarrow> b \<le> unat (sb_bmapstart sb) \<Longrightarrow> U b"
  by (simp add: refs_ok_def)

text \<open>Changes to the bitmap and to data blocks that no file uses leave the logical state alone.\<close>

lemma frame_fs:
  assumes I: "fs_inv s st" and e: "icache s' = icache s" "fs_sb s' = fs_sb s"
    and v: "\<forall>b. view s' b \<noteq> view s b \<longrightarrow> b = sb_bmapstart (fs_sb s) \<or>
      (data_blk (fs_sb s) b \<and> (\<forall>i < ninodes s. \<forall>p \<le> MAXFILE. addr s i p \<noteq> b))"
  shows "i < ninodes s \<Longrightarrow> eff s' i = eff s i"
    and "i < ninodes s \<Longrightarrow> p \<le> MAXFILE \<Longrightarrow> addr s' i p = addr s i p"
    and "same_files s s'"
    and "refs_ok (fs_sb s) (addr s) (used (view s') (fs_sb s)) \<Longrightarrow> fs_inv s' st"
proof -
  note g = fs_invD(1)[OF I] and R = fs_invD(4)[OF I]
  have ib: "view s' (iblk (fs_sb s) j) = view s (iblk (fs_sb s) j)" if "j < ninodes s" for j
  proof -
    have "iblk (fs_sb s) j \<noteq> sb_bmapstart (fs_sb s)" using iblk_unat(2)[OF g that] by auto
    then show ?thesis using v[THEN spec, of "iblk (fs_sb s) j"] iblk_unat(2)[OF g that] by (auto simp: data_blk_def)
  qed
  have eff: "eff s' j = eff s j" if "j < ninodes s" for j by (rule eff_cong[OF e ib[OF that]])
  have rv: "view s' (addr s j q) = view s (addr s j q)" if "j < ninodes s" "q \<le> MAXFILE" "addr s j q \<noteq> 0" for j q
    using v[THEN spec, of "addr s j q"] that data_blk_facts(5)[OF g refs_okD(1)[OF R that]] by auto
  have ad: "addr s' j q = addr s j q" if "j < ninodes s" "q \<le> MAXFILE" for j q
    using rv[OF that(1), of 140] eff[OF that(1)] by (auto simp: faddr_def)
  have one: "view s' 1 = view s 1"
    using v[THEN spec, of 1] fs_geom_bmap(3)[OF g] data_blk_facts(4)[OF g] by auto
  show "eff s' i = eff s i" if "i < ninodes s" using that by (rule eff)
  show "addr s' i p = addr s i p" if "i < ninodes s" "p \<le> MAXFILE" using that by (rule ad)
  show "same_files s s'" using eff ad rv e by (auto simp: same_files_def fblk_def)
  show "fs_inv s' st" if "refs_ok (fs_sb s) (addr s) (used (view s') (fs_sb s))"
  proof -
    have "refs_ok (fs_sb s') (addr s') (used (view s') (fs_sb s')) = refs_ok (fs_sb s) (addr s) (used (view s') (fs_sb s))"
      unfolding refs_ok_def e(2) using ad by auto
    moreover have "icache_ok s'" using fs_invD(3)[OF I] e by (simp add: icache_ok_def)
    moreover have "inode_ok (view s') (eff s' j)" if j: "j < ninodes s" for j
    proof -
      have b: "q \<le> MAXFILE" if "q * BSIZE < unat (di_size (eff s j))" for q
        using fs_invD(5)[OF I j] that by (auto simp: inode_ok_def)
      show ?thesis using fs_invD(5)[OF I j] ad[OF j] eff[OF j] b by (auto simp: inode_ok_def)
    qed
    ultimately show ?thesis using that g one fs_invD(2)[OF I] e by (simp add: fs_inv_def)
  qed
qed

lemma used_alloc:
  "length (V bm) = BSIZE \<Longrightarrow> b < 4096 \<Longrightarrow> bm = sb_bmapstart sb \<Longrightarrow> of_nat b \<noteq> bm \<Longrightarrow>
   used (V(bm := set_bit_at b (V bm), of_nat b := z)) sb b' = (b' = b \<or> used V sb b')"
  by (simp add: used_def bit_at_set)

lemma alloc_fs:
  assumes I: "fs_inv s st" and e: "icache s' = icache s" "fs_sb s' = fs_sb s" and b: "first_free (view s) (fs_sb s) = Some b"
    and len: "length (view s (sb_bmapstart (fs_sb s))) = BSIZE"
    and v: "view s' = (view s)(sb_bmapstart (fs_sb s) := set_bit_at b (view s (sb_bmapstart (fs_sb s))), of_nat b := replicate BSIZE 0)"
  shows "fs_inv s' st" "same_files s s'" "data_blk (fs_sb s) (of_nat b)" "unat (of_nat b :: u32) = b"
    and "i < ninodes s \<Longrightarrow> p \<le> MAXFILE \<Longrightarrow> addr s i p \<noteq> of_nat b"
    and "i < ninodes s \<Longrightarrow> eff s' i = eff s i"
    and "i < ninodes s \<Longrightarrow> p \<le> MAXFILE \<Longrightarrow> addr s' i p = addr s i p"
    and "used (view s') (fs_sb s) b' = (b' = b \<or> used (view s) (fs_sb s) b')"
proof -
  note g = fs_invD(1)[OF I] and R = fs_invD(4)[OF I]
  have nb: "\<not> used (view s) (fs_sb s) b" "b < unat (sb_size (fs_sb s))" using b by (auto simp: first_free_Some)
  then have bm: "unat (sb_bmapstart (fs_sb s)) < b" using refs_ok_low[OF R, of b] by force
  show ub: "unat (of_nat b :: u32) = b" using nb(2) g by (intro unat_of_nat_u32) (simp add: fs_geom_def)
  show d: "data_blk (fs_sb s) (of_nat b)" using bm nb(2) ub by (simp add: data_blk_def)
  have fr: "addr s j q \<noteq> of_nat b" if "j < ninodes s" "q \<le> MAXFILE" for j q
    using refs_okD(2)[OF R that] nb(1) ub data_blk_facts(3)[OF g d] by auto
  then show "i < ninodes s \<Longrightarrow> p \<le> MAXFILE \<Longrightarrow> addr s i p \<noteq> of_nat b" .
  have b4: "b < 4096" using nb(2) g by (simp add: fs_geom_def)
  have u: "used (view s') (fs_sb s) b' = (b' = b \<or> used (view s) (fs_sb s) b')" for b'
    unfolding v by (rule used_alloc) (use len b4 data_blk_facts(5)[OF g d] in auto)
  then show "used (view s') (fs_sb s) b' = (b' = b \<or> used (view s) (fs_sb s) b')" .
  have ch: "\<forall>c. view s' c \<noteq> view s c \<longrightarrow> c = sb_bmapstart (fs_sb s) \<or>
      (data_blk (fs_sb s) c \<and> (\<forall>i < ninodes s. \<forall>p \<le> MAXFILE. addr s i p \<noteq> c))"
    using d fr unfolding v by auto
  note F = frame_fs[OF I e ch]
  have "refs_ok (fs_sb s) (addr s) (used (view s') (fs_sb s))" using R u by (simp add: refs_ok_def)
  then show "fs_inv s' st" by (rule F(4))
  show "same_files s s'" by (rule F(3))
  show "eff s' i = eff s i" if "i < ninodes s" using that by (rule F(1))
  show "addr s' i p = addr s i p" if "i < ninodes s" "p \<le> MAXFILE" using that by (rule F(2))
qed

text \<open>Entering a fresh zeroed block at a free position of a file.\<close>

lemma link_fs:
  assumes I: "fs_inv s st" and i: "i < ninodes s" "q \<le> MAXFILE" "addr s i q = 0"
    and a: "data_blk (fs_sb s) a" "used (view s) (fs_sb s) (unat a)" "view s a = replicate BSIZE 0"
      "\<And>j p. j < ninodes s \<Longrightarrow> p \<le> MAXFILE \<Longrightarrow> addr s j p \<noteq> a"
    and e: "fs_sb s' = fs_sb s" "icache_ok s'" "view s' 1 = view s 1"
      "view s' (sb_bmapstart (fs_sb s)) = view s (sb_bmapstart (fs_sb s))" "view s' a = view s a"
    and m: "\<And>j. j < ninodes s \<Longrightarrow> meta (eff s' j) = meta (eff s j)"
      "\<And>j. j < ninodes s \<Longrightarrow> length (di_addrs (eff s' j)) = length (di_addrs (eff s j))"
    and ad: "\<And>j p. j < ninodes s \<Longrightarrow> p \<le> MAXFILE \<Longrightarrow> addr s' j p = (if j = i \<and> p = q then a else addr s j p)"
    and v: "\<And>j p. j < ninodes s \<Longrightarrow> p < MAXFILE \<Longrightarrow> addr s j p \<noteq> 0 \<Longrightarrow> view s' (addr s j p) = view s (addr s j p)"
  shows "fs_inv s' st" "same_files s s'"
proof -
  note g = fs_invD(1)[OF I] and R = fs_invD(4)[OF I]
  have sz: "di_size (eff s' j) = di_size (eff s j)" if "j < ninodes s" for j using m(1)[OF that] by (simp add: meta_def)
  have u: "used (view s') (fs_sb s) = used (view s) (fs_sb s)" using e(4) by (simp add: used_def[abs_def])
  have "refs_ok (fs_sb s') (addr s') (used (view s') (fs_sb s'))"
    unfolding refs_ok_def e(1) u
  proof (intro conjI allI impI)
    fix b show "b \<le> unat (sb_bmapstart (fs_sb s)) \<Longrightarrow> used (view s) (fs_sb s) b" by (rule refs_ok_low[OF R])
  next
    fix j p assume "j < ninodes s" "p \<le> MAXFILE" "addr s' j p \<noteq> 0"
    then show "data_blk (fs_sb s) (addr s' j p)" "used (view s) (fs_sb s) (unat (addr s' j p))"
      using ad a(1,2) refs_okD(1,2)[OF R] by auto
  next
    fix j p j' p' assume "j < ninodes s" "p \<le> MAXFILE" "j' < ninodes s" "p' \<le> MAXFILE" "addr s' j p \<noteq> 0" "addr s' j p = addr s' j' p'"
    then show "j = j'" "p = p'" using ad a(4)[of j p] a(4)[of j' p'] refs_okD(3)[OF R, of j p j' p'] by (auto split: if_splits)
  qed
  moreover have "inode_ok (view s') (eff s' j)" if j: "j < ninodes s" for j
  proof -
    have b: "x \<le> MAXFILE" if "x * BSIZE < unat (di_size (eff s j))" for x
      using fs_invD(5)[OF I j] that by (auto simp: inode_ok_def)
    show ?thesis using fs_invD(5)[OF I j] ad[OF j] sz[OF j] m(2)[OF j] b data_blk_facts(3)[OF g a(1)] by (auto simp: inode_ok_def)
  qed
  ultimately show "fs_inv s' st" using g e fs_invD(2)[OF I] by (simp add: fs_inv_def)
  have "fblk s' j p = fblk s j p" if "j < ninodes s" "p < MAXFILE" for j p
    using ad[of j p] v[OF that] that i(3) e(5) a(3) data_blk_facts(3)[OF g a(1)] by (auto simp: fblk_def)
  then show "same_files s s'" using m e(1) by (simp add: same_files_def)
qed

end
