(* ===== verification/Xv6_Bmap.thy ===== *)
theory Xv6_Bmap
  imports Xv6_Inode
begin

text \<open>
  The blocks of a file: \<open>bmap\<close> finds or allocates the block of a position. It never changes the logical
  state, since a missing block counts as zeros and a fresh block is zeroed.
\<close>

section \<open>Free blocks\<close>

definition nfree :: "'z kfs_scheme \<Rightarrow> nat" where
  "nfree s = card {b. b < unat (sb_size (fs_sb s)) \<and> \<not> used (view s) (fs_sb s) b}"

lemma nfree_pos: "0 < nfree s \<Longrightarrow> \<exists>b. first_free (view s) (fs_sb s) = Some b"
proof (rule ccontr)
  assume "0 < nfree s" "\<nexists>b. first_free (view s) (fs_sb s) = Some b"
  then have "{b. b < unat (sb_size (fs_sb s)) \<and> \<not> used (view s) (fs_sb s) b} = {}" by (auto simp: first_free_None)
  then have "nfree s = 0" unfolding nfree_def by (metis card.empty)
  then show False using \<open>0 < nfree s\<close> by simp
qed

lemma nfree_alloc:
  assumes "fs_sb s' = fs_sb s" "first_free (view s) (fs_sb s) = Some b"
    "\<And>b'. used (view s') (fs_sb s) b' = (b' = b \<or> used (view s) (fs_sb s) b')"
  shows "Suc (nfree s') = nfree s"
proof -
  let ?A = "\<lambda>s. {b. b < unat (sb_size (fs_sb s)) \<and> \<not> used (view s) (fs_sb s) b}"
  have "?A s = insert b (?A s')" "b \<notin> ?A s'" using assms by (auto simp: first_free_Some)
  then show ?thesis unfolding nfree_def by simp
qed

lemma nfree_cong: "view s' (sb_bmapstart (fs_sb s)) = view s (sb_bmapstart (fs_sb s)) \<Longrightarrow> fs_sb s' = fs_sb s \<Longrightarrow> nfree s' = nfree s"
  by (simp add: nfree_def used_def)

text \<open>The outcome of an allocation.\<close>

definition allocd :: "'z kfs_scheme \<Rightarrow> 'z kfs_scheme \<Rightarrow> nat \<Rightarrow> u32 \<Rightarrow> bool" where
  "allocd s s' st a \<longleftrightarrow> fs_inv s' st \<and> same_files s s' \<and> log_ext s' = log_ext s \<and> held s' = held s \<and>
     dirty s' = insert a (insert (sb_bmapstart (fs_sb s)) (dirty s)) \<and> data_blk (fs_sb s) a \<and>
     used (view s') (fs_sb s) (unat a) \<and> view s' a = replicate BSIZE 0 \<and>
     (\<forall>i < ninodes s. eff s' i = eff s i \<and> (\<forall>p \<le> MAXFILE. addr s i p \<noteq> a \<and> addr s' i p = addr s i p)) \<and>
     Suc (nfree s') = nfree s \<and> (\<forall>x. x \<noteq> a \<longrightarrow> x \<noteq> sb_bmapstart (fs_sb s) \<longrightarrow> view s' x = view s x)"

lemma runs_balloc_fs:
  fixes s :: "'z kfs_scheme"
  assumes I: "fs_inv s st" and t: "tx s st F (Suc k)" and bm: "sb_bmapstart (fs_sb s) \<in> F" and n: "0 < nfree s"
    and h: "card (dom (held s)) \<le> 1" "\<And>x. x \<in> dom (held s) \<Longrightarrow> data_blk (fs_sb s) x \<and> used (view s) (fs_sb s) (unat x)"
    and Q: "\<And>a s'. tx s' st F k \<Longrightarrow> allocd s s' st a \<Longrightarrow> Q a s'"
  shows "runs (balloc ROOTDEV) s Q"
proof -
  note g = fs_invD(1)[OF I]
  obtain b where b: "first_free (view s) (fs_sb s) = Some b" using nfree_pos[OF n] by auto
  then have nb: "\<not> used (view s) (fs_sb s) b" "b < unat (sb_size (fs_sb s))" by (auto simp: first_free_Some)
  have ub: "unat (of_nat b :: u32) = b" using nb(2) g by (intro unat_of_nat_u32) (simp add: fs_geom_def)
  have bb: "unat (sb_bmapstart (fs_sb s)) < b" using refs_ok_low[OF fs_invD(4)[OF I], of b] nb(1) by force
  have "of_nat b \<notin> dom (held s)" using h(2)[of "of_nat b"] nb(1) ub by auto
  then have hb: "held s (of_nat b) = None" by (simp add: domIff)
  have "sb_bmapstart (fs_sb s) \<notin> dom (held s)" using h(2)[of "sb_bmapstart (fs_sb s)"] by (auto simp: data_blk_def)
  then have hm: "held s (sb_bmapstart (fs_sb s)) = None" by (simp add: domIff)
  have len: "length (view s (sb_bmapstart (fs_sb s))) = BSIZE" using tx_cache[OF t] by (rule bc.view_length)
  show ?thesis
  proof (rule runs_balloc[OF t g bm hm h(1) b bb hb])
    fix s' :: "'z kfs_scheme"
    assume s': "tx s' st F k" "cache_abs s' = (cache_abs s)\<lparr>
        cs_view := (view s)(sb_bmapstart (fs_sb s) := set_bit_at b (view s (sb_bmapstart (fs_sb s))), of_nat b := replicate BSIZE 0),
        cs_dirty := insert (of_nat b) (insert (sb_bmapstart (fs_sb s)) (dirty s))\<rparr>" "log_ext s' = log_ext s"
    note e = kfs_frame[OF s'(3)]
    have v: "view s' = (view s)(sb_bmapstart (fs_sb s) := set_bit_at b (view s (sb_bmapstart (fs_sb s))), of_nat b := replicate BSIZE 0)"
      by (simp add: s'(2))
    note A = alloc_fs[OF I e(1,2) b len v]
    have "allocd s s' st (of_nat b)"
      unfolding allocd_def using A s' nfree_alloc[OF e(2) b A(8)] by simp
    with s'(1) show "Q (of_nat b) s'" by (rule Q)
  qed
qed

section \<open>Finding the block of a position\<close>

lemma cached_facts:
  assumes "fs_inv s st" "cached s c i" "i < ninodes s"
  shows "eff s i = to_dinode (icache s c)" "i_addrs (icache s c) = di_addrs (eff s i)" "length (di_addrs (eff s i)) = Suc NDIRECT"
    "i_dev (icache s c) = ROOTDEV" "c < NINODE"
  using assms(2) eff_cached[OF fs_invD(3)[OF assms(1)] assms(2)] fs_invD(5)[OF assms(1,3)] by (auto simp: to_dinode_def inode_ok_def cached_def)

text \<open>States that agree in everything the file system looks at.\<close>

lemma fs_same:
  fixes s s' :: "'z kfs_scheme"
  assumes I: "fs_inv s st" and e: "view s' = view s" "icache s' = icache s" "fs_sb s' = fs_sb s"
  shows "fs_inv s' st" "same_files s s'" "eff s' = eff s" "addr s' j = addr s j" "cached s' = cached s" "nfree s' = nfree s" "fblk s' = fblk s"
proof -
  show f: "eff s' = eff s" using eff_cong[OF e(2,3)] e(1) by (simp add: fun_eq_iff)
  then show "addr s' j = addr s j" "fblk s' = fblk s" by (simp_all add: e(1) fun_eq_iff fblk_def)
  show "fs_inv s' st" using I f e by (simp add: fs_inv_def icache_ok_def)
  show "same_files s s'" using f e by (simp add: same_files_def fblk_def)
  show "cached s' = cached s" using e by (simp add: fun_eq_iff cached_def)
  show "nfree s' = nfree s" using e by (simp add: nfree_def)
qed

lemma bmap_old:
  fixes s :: "'z kfs_scheme"
  assumes I: "fs_inv s st" and c: "cached s c i" "i < ninodes s" and t: "tx s st F k" and h: "held s = Map.empty"
    and bn: "unat bn < MAXFILE" "addr s i (unat bn) \<noteq> 0"
    and Q: "\<And>s'. tx s' st F k \<Longrightarrow> cache_abs s' = cache_abs s \<Longrightarrow> log_ext s' = log_ext s \<Longrightarrow> Q (addr s i (unat bn)) s'"
  shows "runs (bmap c bn) s Q"
proof -
  note f = cached_facts[OF I c]
  show ?thesis
  proof (cases "unat bn < NDIRECT")
    case True
    then show ?thesis using bn f Q[OF t] by (simp add: bmap_def bmap_addr_def faddr_def)
  next
    case False
    let ?ind = "di_addrs (eff s i) ! 12" let ?k = "unat bn - 12"
    have ind: "?ind \<noteq> 0" and a: "get_u32 (view s ?ind) (4 * ?k) \<noteq> 0" "addr s i (unat bn) = get_u32 (view s ?ind) (4 * ?k)"
      using False bn by (auto simp: faddr_def split: if_splits)
    have "addr s i 140 = ?ind" by (simp add: faddr_def)
    then have d: "data_blk (fs_sb s) ?ind" using refs_okD(1)[OF fs_invD(4)[OF I] c(2), of 140] ind by simp
    have "runs (bread ROOTDEV ?ind) s (\<lambda>buf s1. runs (brelse buf) s1 (\<lambda>_ s'. Q (addr s i (unat bn)) s'))"
    proof (rule tx_bread[OF t data_blk_facts(1)[OF fs_invD(1)[OF I] d]], goal_cases)
      case (3 buf s1)
      show ?case
        by (rule tx_brelse[OF 3(1), of ?ind]) (use 3 h tx_clean[OF t, of ?ind] in \<open>auto intro!: Q simp: bc.unheld fun_upd_idem\<close>)
    qed (simp_all add: h)
    moreover have "runs (bread ROOTDEV ?ind) s (\<lambda>buf s1. buf_data s1 buf = view s ?ind)"
      by (rule tx_bread[OF t data_blk_facts(1)[OF fs_invD(1)[OF I] d]]) (simp_all add: h)
    ultimately have "runs (bread ROOTDEV ?ind) s (\<lambda>buf s1. buf_data s1 buf = view s ?ind \<and>
        runs (brelse buf) s1 (\<lambda>_ s'. Q (addr s i (unat bn)) s'))"
      by (auto simp: runs_def split: sum.splits)
    then have "runs (bmap_entry c ?ind ?k) s Q"
      unfolding bmap_entry_def runs_bnd[of "gets _"] runs_gets f(4) runs_bnd[of "bread _ _"]
      by (rule runs_mono) (use a in auto)
    then show ?thesis using False bn(1) f ind by (simp add: bmap_def bmap_addr_def)
  qed
qed

section \<open>Growing a file\<close>

text \<open>
  The room that operations on inode \<open>i\<close> need for \<open>k\<close> fresh blocks: space in the log and free blocks for
  them, for the bitmap, and for the indirect block if the file has none yet.
\<close>

definition indneed :: "'z kfs_scheme \<Rightarrow> nat \<Rightarrow> nat" where
  "indneed s i = (if addr s i MAXFILE = 0 then 1 else 0)"

definition room :: "'z kfs_scheme \<Rightarrow> nat \<Rightarrow> u32 set \<Rightarrow> nat \<Rightarrow> nat \<Rightarrow> bool" where
  "room s st F i k \<longleftrightarrow> tx s st F (k + indneed s i) \<and> k + indneed s i \<le> nfree s \<and> sb_bmapstart (fs_sb s) \<in> F \<and>
     (addr s i MAXFILE \<noteq> 0 \<longrightarrow> addr s i MAXFILE \<in> dirty s \<union> F)"

definition fgrown :: "'z kfs_scheme \<Rightarrow> 'z kfs_scheme \<Rightarrow> nat \<Rightarrow> nat \<Rightarrow> nat \<Rightarrow> bool" where
  "fgrown s s' st c i \<longleftrightarrow> fs_inv s' st \<and> same_files s s' \<and> cached s' c i \<and> held s' = Map.empty \<and> fs_rest s' = fs_rest s \<and>
     dirty s \<subseteq> dirty s' \<and> (\<exists>X. icache s' = (icache s)(c := (icache s c)\<lparr>i_addrs := X\<rparr>)) \<and>
     (\<forall>p \<le> MAXFILE. addr s i p \<noteq> 0 \<longrightarrow> addr s' i p = addr s i p)"

lemma fgrown_trans: "fgrown s s' st c i \<Longrightarrow> fgrown s' s'' st c i \<Longrightarrow> fgrown s s'' st c i"
proof -
  assume g: "fgrown s s' st c i" "fgrown s' s'' st c i"
  obtain X Y where "icache s' = (icache s)(c := (icache s c)\<lparr>i_addrs := X\<rparr>)" "icache s'' = (icache s')(c := (icache s' c)\<lparr>i_addrs := Y\<rparr>)"
    using g by (auto simp: fgrown_def)
  then have "icache s'' = (icache s)(c := (icache s c)\<lparr>i_addrs := Y\<rparr>)" by simp
  then show ?thesis using g unfolding fgrown_def by (auto intro: same_files_trans)
qed

lemma fgrown_sb: "fgrown s s' st c i \<Longrightarrow> fs_sb s' = fs_sb s"
  by (simp add: fgrown_def same_files_def)

lemma fgrown_same:
  fixes s s' :: "'z kfs_scheme"
  assumes "fs_inv s st" "cached s c i" "held s = Map.empty" "cache_abs s' = cache_abs s" "log_ext s' = log_ext s"
  shows "fgrown s s' st c i" "addr s' j = addr s j" "nfree s' = nfree s"
proof -
  note e = kfs_frame[OF assms(5)]
  note F = fs_same[OF assms(1) _ e(1,2)]
  show "fgrown s s' st c i" unfolding fgrown_def using F assms(2-4) fs_rest_ext[OF assms(5)] e(1)
    by (auto intro!: exI[of _ "i_addrs (icache s c)"])
  show "addr s' j = addr s j" "nfree s' = nfree s" using F assms(4) by simp_all
qed

lemma allocd_link:
  assumes A: "allocd s s1 st a" "fs_sb s1 = fs_sb s" and i: "i < ninodes s" "q \<le> MAXFILE" "addr s i q = 0"
    and e: "fs_sb s' = fs_sb s" "icache_ok s'" "view s' 1 = view s1 1"
      "view s' (sb_bmapstart (fs_sb s)) = view s1 (sb_bmapstart (fs_sb s))" "view s' a = view s1 a"
    and m: "\<And>j. j < ninodes s \<Longrightarrow> meta (eff s' j) = meta (eff s j)"
      "\<And>j. j < ninodes s \<Longrightarrow> length (di_addrs (eff s' j)) = length (di_addrs (eff s j))"
    and ad: "\<And>j p. j < ninodes s \<Longrightarrow> p \<le> MAXFILE \<Longrightarrow> addr s' j p = (if j = i \<and> p = q then a else addr s j p)"
    and v: "\<And>j p. j < ninodes s \<Longrightarrow> p < MAXFILE \<Longrightarrow> addr s j p \<noteq> 0 \<Longrightarrow> view s' (addr s j p) = view s1 (addr s j p)"
  shows "fs_inv s' st" "same_files s s'"
proof -
  have a: "data_blk (fs_sb s1) a" "used (view s1) (fs_sb s1) (unat a)" "view s1 a = replicate BSIZE 0" and s1: "fs_inv s1 st" "same_files s s1"
    using A by (auto simp: allocd_def)
  have eq: "eff s1 j = eff s j" if "j < ninodes s" for j using A(1) that by (simp add: allocd_def)
  have aq: "addr s1 j p = addr s j p" "addr s j p \<noteq> a" if "j < ninodes s" "p \<le> MAXFILE" for j p
    using A(1) that unfolding allocd_def by blast+
  have "fs_inv s' st \<and> same_files s1 s'"
  proof (intro conjI link_fs[OF s1(1) _ i(2) _ a], unfold A(2))
    fix j p assume jp: "j < ninodes s" "p \<le> MAXFILE"
    show "addr s1 j p \<noteq> a" unfolding aq(1)[OF jp] by (rule aq(2)[OF jp])
    then show "addr s1 j p \<noteq> a" .
    show "addr s' j p = (if j = i \<and> p = q then a else addr s1 j p)" unfolding aq(1)[OF jp] by (rule ad[OF jp])
    then show "addr s' j p = (if j = i \<and> p = q then a else addr s1 j p)" .
  next
    fix j p assume jp: "j < ninodes s" "p < MAXFILE" "addr s1 j p \<noteq> 0"
    then have "p \<le> MAXFILE" by simp
    then show "view s' (addr s1 j p) = view s1 (addr s1 j p)" using jp v[OF jp(1,2)] unfolding aq(1)[OF jp(1) \<open>p \<le> MAXFILE\<close>] by blast
    then show "view s' (addr s1 j p) = view s1 (addr s1 j p)" .
  qed (use i e m eq aq(1)[OF i(1,2)] in \<open>simp_all only:\<close>)
  then show "fs_inv s' st" "same_files s s'" using s1(2) by (auto intro: same_files_trans)
qed

lemma bmap_addr_fresh:
  fixes s :: "'z kfs_scheme"
  assumes I: "fs_inv s st" and c: "cached s c i" "i < ninodes s" and t: "tx s st F (Suc m)" "sb_bmapstart (fs_sb s) \<in> F"
    and n: "0 < nfree s" and h: "held s = Map.empty" and k: "k \<le> NDIRECT" "q = (if k < NDIRECT then k else MAXFILE)" "addr s i q = 0"
    and Q: "\<And>a s'. tx s' st F m \<Longrightarrow> fgrown s s' st c i \<Longrightarrow> addr s' i q = a \<Longrightarrow> a \<noteq> 0 \<Longrightarrow> a \<in> dirty s' \<Longrightarrow> Suc (nfree s') = nfree s \<Longrightarrow>
      (\<And>p. p \<le> MAXFILE \<Longrightarrow> p \<noteq> q \<Longrightarrow> addr s' i p = addr s i p) \<Longrightarrow> Q a s'"
  shows "runs (bmap_addr c k) s Q"
proof -
  note f = cached_facts[OF I c]
  have "k = 12" if "\<not> k < 12" using that k(1) by simp
  then have z: "i_addrs (icache s c) ! k = 0" using k(2,3) f by (auto simp: faddr_def split: if_splits)
  have "runs (balloc ROOTDEV) s (\<lambda>a s1. Q a (upd_inode c (\<lambda>ip. ip\<lparr>i_addrs := (i_addrs ip)[k := a]\<rparr>) s1))"
  proof (rule runs_balloc_fs[OF I t n], goal_cases)
    case (3 a s1)
    let ?s2 = "upd_inode c (\<lambda>ip. ip\<lparr>i_addrs := (i_addrs ip)[k := a]\<rparr>) s1"
    let ?d = "eff s i"
    have A: "fs_inv s1 st" "same_files s s1" "log_ext s1 = log_ext s" "held s1 = held s" "data_blk (fs_sb s) a" "view s1 a = replicate BSIZE 0"
      "\<And>j. j < ninodes s \<Longrightarrow> eff s1 j = eff s j" "\<And>j p. j < ninodes s \<Longrightarrow> p \<le> MAXFILE \<Longrightarrow> addr s1 j p = addr s j p"
      "dirty s1 = insert a (insert (sb_bmapstart (fs_sb s)) (dirty s))" "Suc (nfree s1) = nfree s"
      using 3(2) by (auto simp: allocd_def)
    note e = kfs_frame[OF A(3)]
    have a0: "a \<noteq> 0" using data_blk_facts(3)[OF fs_invD(1)[OF I] A(5)] .
    have c1: "cached s1 c i" "icache_ok s1" using c e fs_invD(3)[OF A(1)] by (simp_all add: cached_def)
    have si: "same_id ((icache s1 c)\<lparr>i_addrs := (i_addrs (icache s1 c))[k := a]\<rparr>) (icache s1 c)" by (simp add: same_id_def)
    have dn: "to_dinode ((icache s1 c)\<lparr>i_addrs := (i_addrs (icache s1 c))[k := a]\<rparr>) = ?d\<lparr>di_addrs := (di_addrs ?d)[k := a]\<rparr>"
      using f(1) e(1) by (simp add: to_dinode_def)
    have eff2: "eff ?s2 j = (if j = i then ?d\<lparr>di_addrs := (di_addrs ?d)[k := a]\<rparr> else eff s j)" if j: "j < ninodes s" for j
      using eff_upd[of ?s2 s1 c _ i j, OF _ si _ c1(2,1)] c(2) j e(2) A(7)[OF j] dn by simp
    have fa: "faddr (view s1) (?d\<lparr>di_addrs := (di_addrs ?d)[k := a]\<rparr>) p = (if p = q then a else addr s i p)" if "p \<le> MAXFILE" for p
    proof (cases "k < 12")
      case True
      then show ?thesis using k(2) faddr_direct[of k ?d "view s1" a p] f(3) A(8)[OF c(2) that] A(7)[OF c(2)] by simp
    next
      case False
      then have "k = 12" "q = 140" using k by simp_all
      then show ?thesis
        using faddr_indirect[of ?d "view s1" a p] f z A(6) that A(8)[OF c(2) that] A(7)[OF c(2)] by simp
    qed
    have q: "q \<le> MAXFILE" using k(2) by simp
    have ad: "addr ?s2 j p = (if j = i \<and> p = q then a else addr s j p)" if "j < ninodes s" "p \<le> MAXFILE" for j p
      using eff2[OF that(1)] fa[OF that(2)] A(7)[OF that(1)] A(8)[OF that] that by (cases "j = i") auto
    note L = allocd_link[OF 3(2) e(2) c(2) q k(3), of ?s2]
    have "fs_inv ?s2 st \<and> same_files s ?s2"
      by (intro conjI L) (use e ad eff2 f(3) same_id_cached(2)[OF _ si, of ?s2] c1 in \<open>auto simp: meta_def\<close>)
    then have "fgrown s ?s2 st c i"
      unfolding fgrown_def using A(4,9) h ad c(2) k(3) same_id_cached(1)[OF _ si, of ?s2] c1(1) fs_rest_ext[OF A(3)] e(1) by auto
    moreover have "nfree ?s2 = nfree s1" by (rule nfree_cong) simp_all
    ultimately show ?case using 3(1) ad c(2) a0 A(9,10) q by (intro Q) simp_all
  qed (simp_all add: h)
  then show ?thesis unfolding bmap_addr_def using z f(4) by simp
qed

text \<open>Entering a fresh block in the indirect block: a step on the logical state, then the program.\<close>

lemma entry_link:
  fixes s s1 s' :: "'z kfs_scheme"
  assumes I: "fs_inv s st" and A: "allocd s s1 st a" and c: "i < ninodes s" "addr s i MAXFILE \<noteq> 0" "k < NINDIRECT" "addr s i (NDIRECT + k) = 0"
    and l: "length (view s1 (addr s i MAXFILE)) = BSIZE"
    and e: "icache s' = icache s" "fs_sb s' = fs_sb s" "fs_sb s1 = fs_sb s" "icache s1 = icache s"
      "view s' = (view s1)(addr s i MAXFILE := put_u32 (4 * k) a (view s1 (addr s i MAXFILE)))"
  shows "fs_inv s' st" "same_files s s'" "nfree s' = nfree s1"
    and "j < ninodes s \<Longrightarrow> p \<le> MAXFILE \<Longrightarrow> addr s' j p = (if j = i \<and> p = NDIRECT + k then a else addr s j p)"
proof -
  let ?ind = "addr s i MAXFILE"
  note g = fs_invD(1)[OF I] and R = fs_invD(4)[OF I]
  have m140: "(MAXFILE :: nat) \<le> MAXFILE" by simp
  have d: "data_blk (fs_sb s) ?ind" by (rule refs_okD(1)[OF R c(1) m140 c(2)])
  note df = data_blk_facts[OF g d]
  have ai: "?ind = di_addrs (eff s i) ! NDIRECT" by (simp add: faddr_def)
  have aq: "addr s1 j p = addr s j p" "addr s j p \<noteq> a" "eff s1 j = eff s j" if "j < ninodes s" "p \<le> MAXFILE" for j p
    using A that unfolding allocd_def by blast+
  have eff: "eff s' j = eff s j" if j: "j < ninodes s" for j
  proof -
    have "view s' (iblk (fs_sb s) j) = view s1 (iblk (fs_sb s) j)" using df(6)[OF j] by (auto simp: e(5))
    then have "eff s' j = eff s1 j" by (intro eff_cong) (simp_all add: e)
    then show ?thesis using aq(3)[OF j m140] by simp
  qed
  have ad: "addr s' j p = (if j = i \<and> p = NDIRECT + k then a else addr s j p)" if jp: "j < ninodes s" "p \<le> MAXFILE" for j p
  proof (cases "j = i")
    case True
    have "faddr ((view s1)(?ind := put_u32 (4 * k) a (view s1 ?ind))) (eff s i) p = (if p = NDIRECT + k then a else faddr (view s1) (eff s i) p)"
      unfolding ai by (rule faddr_entry) (use c l jp(2) ai in auto)
    then show ?thesis using True eff[OF jp(1)] aq[OF jp] e(5) by auto
  next
    case False
    have "faddr (view s') (eff s j) p = faddr (view s1) (eff s j) p"
    proof (rule faddr_cong)
      assume "di_addrs (eff s j) ! NDIRECT \<noteq> 0"
      then have "addr s j MAXFILE \<noteq> ?ind" using refs_okD(3)[OF R c(1) m140 c(2) jp(1) m140] False by (auto simp: faddr_def)
      then show "view s' (di_addrs (eff s j) ! NDIRECT) = view s1 (di_addrs (eff s j) ! NDIRECT)"
        unfolding e(5) by (auto simp: faddr_def)
    qed
    then show ?thesis using False eff[OF jp(1)] aq[OF jp] by simp
  qed
  then show "j < ninodes s \<Longrightarrow> p \<le> MAXFILE \<Longrightarrow> addr s' j p = (if j = i \<and> p = NDIRECT + k then a else addr s j p)" .
  have "NDIRECT + k \<le> MAXFILE" using c(3) by simp
  note L = allocd_link[OF A e(3) c(1) this c(4) e(2)]
  have ok: "icache_ok s'" using fs_invD(3)[OF I] e(1) by (simp add: icache_ok_def)
  have v: "view s' (addr s j p) = view s1 (addr s j p)" if jp: "j < ninodes s" "p < MAXFILE" for j p
    using refs_okD(3)[OF R c(1) m140 c(2) jp(1), of p] jp unfolding e(5) by auto
  have "?ind \<noteq> a" using aq(2)[OF c(1) m140] .
  then have va: "view s' a = view s1 a" "view s' 1 = view s1 1" "view s' (sb_bmapstart (fs_sb s)) = view s1 (sb_bmapstart (fs_sb s))"
    using df(4,5) unfolding e(5) by auto
  show "fs_inv s' st" by (rule L(1)[OF ok va(2,3,1) _ _ ad v]) (simp_all add: eff)
  show "same_files s s'" by (rule L(2)[OF ok va(2,3,1) _ _ ad v]) (simp_all add: eff)
  show "nfree s' = nfree s1" using va(3) e by (intro nfree_cong) simp_all
qed

lemma bmap_entry_fresh:
  fixes s :: "'z kfs_scheme"
  assumes I: "fs_inv s st" and c: "cached s c i" "i < ninodes s" and t: "tx s st F (Suc m)" "sb_bmapstart (fs_sb s) \<in> F"
    and n: "0 < nfree s" and h: "held s = Map.empty" and ind: "ind = addr s i MAXFILE" "ind \<noteq> 0" "ind \<in> dirty s \<union> F"
    and k: "k < NINDIRECT" "addr s i (NDIRECT + k) = 0"
    and Q: "\<And>a s'. tx s' st F m \<Longrightarrow> fgrown s s' st c i \<Longrightarrow> addr s' i (NDIRECT + k) = a \<Longrightarrow> a \<noteq> 0 \<Longrightarrow> a \<in> dirty s' \<Longrightarrow> Suc (nfree s') = nfree s \<Longrightarrow> Q a s'"
  shows "runs (bmap_entry c ind k) s Q"
proof -
  note f = cached_facts[OF I c] and g = fs_invD(1)[OF I] and R = fs_invD(4)[OF I]
  have m140: "(MAXFILE :: nat) \<le> MAXFILE" by simp
  have i0: "addr s i MAXFILE \<noteq> 0" using ind by simp
  have d: "data_blk (fs_sb s) ind" "used (view s) (fs_sb s) (unat ind)"
    using refs_okD(1,2)[OF R c(2) m140 i0] ind(1) by simp_all
  note df = data_blk_facts[OF g d(1)]
  have a0: "get_u32 (view s ind) (4 * k) = 0" using k ind(1,2) by (simp add: faddr_def split: if_splits)
  have main: "runs (balloc ROOTDEV) s1 (\<lambda>a s2. runs (log_write buf) (set_data buf (put_u32 (4 * k) a (buf_data s2 buf)) s2)
      (\<lambda>_ s4. runs (brelse buf) s4 (\<lambda>_ s5. Q a s5)))"
    if s1: "tx s1 st F (Suc m)" "cache_abs s1 = (cache_abs s)\<lparr>cs_held := (held s)(ind \<mapsto> buf)\<rparr>" "log_ext s1 = log_ext s"
    for buf and s1 :: "'z kfs_scheme"
  proof -
    note e1 = kfs_frame[OF s1(3)]
    have v1: "view s1 = view s" using s1(2) by simp
    note S = fs_same[OF I v1 e1(1,2)]
    show ?thesis
    proof (rule runs_balloc_fs[OF S(1) s1(1)], goal_cases)
      case (5 a s2)
      have A: "fs_inv s2 st" "log_ext s2 = log_ext s1" "held s2 = held s1" "dirty s2 = insert a (insert (sb_bmapstart (fs_sb s)) (dirty s1))"
        "data_blk (fs_sb s) a" "Suc (nfree s2) = nfree s"
        using 5(2) e1 S(6) by (auto simp: allocd_def)
      note e2 = kfs_frame[OF A(2)]
      let ?b = "put_u32 (4 * k) a (view s2 ind)"
      have len: "length (view s2 ind) = BSIZE" using tx_cache[OF 5(1)] by (rule bc.view_length)
      then have lb: "length ?b = BSIZE" using k(1) by simp
      have own: "held s2 ind = Some buf" using A(3) s1(2) by simp
      have dat: "buf_data s2 buf = view s2 ind" using bc.dat[OF tx_cache[OF 5(1)] own] by simp
      note s3 = tx_set_data[OF 5(1) own df(2) lb]
      show ?case unfolding dat
      proof (rule tx_log_write[OF s3(1) _ df(2), where k' = m], goal_cases)
        case (3 s4)
        have iD: "ind \<in> dirty s4" using 3(2) by simp
        show ?case
        proof (rule tx_brelse[OF 3(1) _ disjI1[OF iD]], goal_cases)
          case (2 s5)
          note e5 = kfs_frame[OF 2(3)] and e4 = kfs_frame[OF 3(3)] and e3 = kfs_frame[OF s3(3)]
          have c5: "cache_abs s5 = (cache_abs s2)\<lparr>cs_view := (view s2)(ind := ?b), cs_held := Map.empty, cs_dirty := insert ind (dirty s2)\<rparr>"
            using 2(2) 3(2) s3(2) A(3) s1(2) h by simp
          have v5: "view s5 = (view s2)(addr s1 i MAXFILE := put_u32 (4 * k) a (view s2 (addr s1 i MAXFILE)))"
            using c5 ind(1) S(4) by simp
          note L = entry_link[OF S(1) 5(2), of i k s5, OF _ _ k(1) _ _ _ _ _ _ v5]
          have prem: "i < ninodes s1" "addr s1 i MAXFILE \<noteq> 0" "addr s1 i (NDIRECT + k) = 0" "length (view s2 (addr s1 i MAXFILE)) = BSIZE"
            "icache s5 = icache s1" "fs_sb s5 = fs_sb s1" "fs_sb s2 = fs_sb s1" "icache s2 = icache s1"
            using c(2) e1 e2 e3 e4 e5 ind k(2) len unfolding S(4) by simp_all
          note L = L[OF prem]
          have ad: "addr s5 j p = (if j = i \<and> p = NDIRECT + k then a else addr s j p)" if "j < ninodes s" "p \<le> MAXFILE" for j p
            using L(4)[of j p] that e1 S(4) by simp
          have ext: "log_ext s5 = log_ext s" using 2(3) 3(3) s3(3) A(2) s1(3) by simp
          have "fgrown s s5 st c i"
            unfolding fgrown_def using L(1) same_files_trans[OF S(2) L(2)] c5 fs_rest_ext[OF ext] A(4) s1(2) c(1) e1(1) prem(5) ad[OF c(2)] k(2)
            by (auto simp: cached_def intro!: exI[of _ "i_addrs (icache s c)"])
          moreover have "addr s5 i (NDIRECT + k) = a" using ad[OF c(2)] k(1) by simp
          moreover have "a \<noteq> 0" using data_blk_facts(3)[OF g A(5)] .
          ultimately show ?case using 2(1) c5 A(4,6) L(3) by (intro Q) simp_all
        qed (use 3 s3 own in simp_all)
      qed (use s3 own ind(3) A(4) s1(2) in auto)
    qed (use e1 S t(2) n h d s1(2) in \<open>auto split: if_splits\<close>)
  qed
  show ?thesis
    unfolding bmap_entry_def runs_bnd[of "gets _"] runs_gets f(4) runs_bnd[of "bread _ _"]
    by (rule tx_bread[OF t(1) df(1)]) (use h main a0 in auto)
qed

lemma room_less: "room s st F i k \<Longrightarrow> k' \<le> k \<Longrightarrow> room s st F i k'"
  unfolding room_def using tx_less[of s st F "k + indneed s i" "k' + indneed s i"] by auto

lemma room_fgrown:
  assumes r: "room s st F i (Suc k)" and g: "fgrown s s' st c i" and t: "tx s' st F (k + indneed s i)" and n: "Suc (nfree s') = nfree s"
    and d: "indneed s' i = indneed s i"
  shows "room s' st F i k"
proof -
  have "addr s' i MAXFILE \<in> dirty s' \<union> F" if "addr s' i MAXFILE \<noteq> 0"
    using r g d that by (auto simp: room_def fgrown_def indneed_def split: if_splits)
  then show ?thesis using r t n d fgrown_sb[OF g] by (simp add: room_def)
qed

lemma runs_bmap:
  fixes s :: "'z kfs_scheme"
  assumes I: "fs_inv s st" and c: "cached s c i" "i < ninodes s" and h: "held s = Map.empty"
    and bn: "unat bn < MAXFILE" and r: "room s st F i (Suc k)"
    and Q: "\<And>a s'. fgrown s s' st c i \<Longrightarrow> addr s' i (unat bn) = a \<Longrightarrow> a \<noteq> 0 \<Longrightarrow> room s' st F i k \<Longrightarrow>
      (a \<notin> dirty s' \<union> F \<Longrightarrow> room s' st F i (Suc k)) \<Longrightarrow> Q a s'"
  shows "runs (bmap c bn) s Q"
proof -
  note f = cached_facts[OF I c]
  have t: "tx s st F (Suc (k + indneed s i))" "sb_bmapstart (fs_sb s) \<in> F" and n: "0 < nfree s"
    using r by (auto simp: room_def)
  consider (old) "addr s i (unat bn) \<noteq> 0" | (direct) "addr s i (unat bn) = 0" "unat bn < NDIRECT"
    | (ind) "addr s i (unat bn) = 0" "\<not> unat bn < NDIRECT" "addr s i MAXFILE \<noteq> 0"
    | (none) "addr s i (unat bn) = 0" "\<not> unat bn < NDIRECT" "addr s i MAXFILE = 0" by blast
  then show ?thesis
  proof cases
    case old
    show ?thesis
    proof (rule bmap_old[OF I c t(1) h bn old], goal_cases)
      case (1 s')
      note S = fgrown_same[OF I c(1) h 1(2,3)]
      have "room s' st F i (Suc k)" using r 1(1,2) S fgrown_sb[OF S(1)] by (simp add: room_def indneed_def)
      then show ?case using S old room_less[of s' st F i "Suc k" k] by (intro Q) simp_all
    qed
  next
    case direct
    show ?thesis unfolding bmap_def if_P[OF direct(2)]
    proof (rule bmap_addr_fresh[OF I c t n h, of "unat bn" "unat bn"], goal_cases)
      case (4 a s')
      have "indneed s' i = indneed s i" using 4(7)[of MAXFILE] direct(2) by (simp add: indneed_def)
      then have "room s' st F i k" using room_fgrown[OF r 4(2)] 4 by blast
      then show ?case using 4 by (intro Q) auto
    qed (use direct in simp_all)
  next
    case ind
    have "unat bn - NDIRECT < NINDIRECT" using ind(2) bn by simp
    then have e: "runs (bmap c bn) s Q = runs (bmap_entry c (addr s i MAXFILE) (unat bn - NDIRECT)) s Q"
      using ind f by (simp add: bmap_def bmap_addr_def faddr_def)
    have b: "NDIRECT + (unat bn - NDIRECT) = unat bn" using ind by simp
    have i0: "indneed s i = 0" using ind(3) by (simp add: indneed_def)
    show ?thesis unfolding e
    proof (rule bmap_entry_fresh[OF I c t n h refl ind(3)], unfold b, goal_cases)
      case (4 a s')
      have "indneed s' i = indneed s i" using 4(2) ind(3) by (simp add: indneed_def fgrown_def)
      then have "room s' st F i k" using room_fgrown[OF r 4(2)] 4 by blast
      then show ?case using 4 by (intro Q) auto
    qed (use ind bn r in \<open>auto simp: room_def\<close>)
  next
    case none
    then have i1: "indneed s i = 1" by (simp add: indneed_def)
    have b: "NDIRECT + (unat bn - NDIRECT) = unat bn" "\<not> unat bn < NDIRECT" "unat bn - NDIRECT < NINDIRECT" using none bn by simp_all
    have "runs (bmap_addr c NDIRECT) s (\<lambda>ind s1. runs (bmap_entry c ind (unat bn - NDIRECT)) s1 Q)"
    proof (rule bmap_addr_fresh[OF I c t n h, of NDIRECT MAXFILE], goal_cases)
      case (4 a s1)
      note g1 = 4(2)
      have s1: "fs_inv s1 st" "cached s1 c i" "i < ninodes s1" "held s1 = Map.empty" "sb_bmapstart (fs_sb s1) \<in> F"
        using g1 c(2) t(2) fgrown_sb[OF g1] by (simp_all add: fgrown_def)
      have n1: "0 < nfree s1" "Suc k \<le> nfree s1" using r i1 4(6) by (simp_all add: room_def)
      show ?case
      proof (rule bmap_entry_fresh[OF s1(1-3) _ s1(5) n1(1) s1(4), of "k"], unfold b, goal_cases)
        case (7 a' s2)
        have g2: "fgrown s s2 st c i" using g1 7(2) by (rule fgrown_trans)
        have "addr s2 i MAXFILE = a" "a \<in> dirty s2" using 7(2) 4(3,4,5) by (auto simp: fgrown_def)
        then have "room s2 st F i k" using 7(1,6) n1(2) s1(5) fgrown_sb[OF 7(2)] 4(4) by (simp add: room_def indneed_def)
        then show ?case using g2 7 by (intro Q) auto
      qed (use 4 i1 b none bn in auto)
    qed (use none in simp_all)
    then show ?thesis using b(2,3) by (simp add: bmap_def)
  qed
qed

end
