(* ===== verification/Xv6_Rw.thy ===== *)
theory Xv6_Rw
  imports Xv6_Bmap
begin

text \<open>
  Reading and writing files: \<open>readi\<close> returns a piece of the contents of a file, \<open>writei\<close> replaces one,
  extending the file where needed, and every other file keeps its contents.
\<close>

section \<open>Reading\<close>

text \<open>The bytes of a file, by position.\<close>

definition fbyte :: "'z kfs_scheme \<Rightarrow> nat \<Rightarrow> nat \<Rightarrow> u8" where
  "fbyte s i x = fblk s i (x div BSIZE) ! (x mod BSIZE)"

definition content :: "'z kfs_scheme \<Rightarrow> nat \<Rightarrow> u8 list" where
  "content s i = map (fbyte s i) [0..<unat (di_size (eff s i))]"

lemma length_fblk: "cache_inv s \<Longrightarrow> length (fblk s i p) = BSIZE"
  using bc.view_length[of s] by (simp add: fblk_def)

lemma div_mod_add:
  fixes a b n :: nat
  assumes "a mod n + b < n"
  shows "(a + b) div n = a div n" "(a + b) mod n = a mod n + b"
proof -
  have "a + b = a div n * n + (a mod n + b)" by simp
  then show "(a + b) div n = a div n" "(a + b) mod n = a mod n + b"
    using assms by (metis div_mult_self3 div_less add_0_right less_nat_zero_code, metis mod_mult_self3 mod_less)
qed

lemma slice_fbyte:
  assumes "length (fblk s i (off div BSIZE)) = BSIZE" "m \<le> BSIZE - off mod BSIZE"
  shows "slice (off mod BSIZE) m (fblk s i (off div BSIZE)) = map (fbyte s i) [off..<off + m]"
proof (rule nth_equalityI)
  show "length (slice (off mod BSIZE) m (fblk s i (off div BSIZE))) = length (map (fbyte s i) [off..<off + m])"
    using assms by (simp add: slice_def)
  fix x assume "x < length (slice (off mod BSIZE) m (fblk s i (off div BSIZE)))"
  then have x: "x < m" by (simp add: slice_def)
  then have l: "off mod 512 + x < 512" using assms(2) by simp
  have "(off + x) div 512 = off div 512" "(off + x) mod 512 = off mod 512 + x" using l div_mod_add[OF l] by simp_all
  then show "slice (off mod BSIZE) m (fblk s i (off div BSIZE)) ! x = map (fbyte s i) [off..<off + m] ! x"
    using x l assms(1) by (simp add: slice_def fbyte_def)
qed

lemma unat_div_512: "unat (off div 512 :: u32) = unat off div 512"
  by (simp add: unat_div)

lemma runs_readi_from:
  fixes s :: "'z kfs_scheme"
  assumes I: "fs_inv s st" and c: "cached s c i" "i < ninodes s" and t: "tx s st F k" and h: "held s = Map.empty"
    and n: "unat tot \<le> unat n" "unat off + (unat n - unat tot) \<le> unat (di_size (eff s i))"
    and Q: "\<And>s'. tx s' st F k \<Longrightarrow> cache_abs s' = cache_abs s \<Longrightarrow> log_ext s' = log_ext s \<Longrightarrow>
      Q (map (fbyte s i) [unat off..<unat off + (unat n - unat tot)]) s'"
  shows "runs (readi_from c n tot off) s Q"
  using assms
proof (induction "unat n - unat tot" arbitrary: tot off s Q rule: less_induct)
  case less
  note I = less(2) and c = less(3,4) and t = less(5) and h = less(6) and n = less(7,8) and Q = less(9)
  note f = cached_facts[OF I c] and ok = fs_invD(5)[OF I c(2)]
  show ?case
  proof (cases "tot < n")
    case False
    then have "unat n - unat tot = 0" by (simp add: word_less_nat_alt)
    then show ?thesis using False Q[OF t] by (simp add: readi_from.simps)
  next
    case True
    let ?m = "chunk n tot off" let ?bn = "off div of_nat BSIZE" let ?p = "unat off div 512"
    note m = unat_chunk[OF True, of off] chunk_pos[OF True, of off] unat_chunk_add[OF True, of off]
    have sz: "unat off < unat (di_size (eff s i))" "unat (di_size (eff s i)) \<le> 71680" using n True ok by (auto simp: inode_ok_def word_less_nat_alt)
    have p: "unat ?bn = ?p" "?p < 140" "?p * 512 < unat (di_size (eff s i))" using sz by (auto simp: unat_div_512 less_mult_imp_div_less)
    have a: "addr s i (unat ?bn) \<noteq> 0" using ok p by (simp add: inode_ok_def)
    let ?a = "addr s i (unat ?bn)"
    have pm: "unat ?bn < MAXFILE" using p by simp
    have d: "data_blk (fs_sb s) ?a" using refs_okD(1)[OF fs_invD(4)[OF I] c(2) _ a] pm by simp
    have "unat off + unat ?m \<le> 71680" using n(2) m(2) sz(2) by linarith
    then have off': "unat off + unat ?m < 2 ^ 32" by simp
    have sl: "slice (unat off mod BSIZE) (unat ?m) (view s ?a) = map (fbyte s i) [unat off..<unat off + unat ?m]"
      using slice_fbyte[of s i "unat off" "unat ?m"] length_fblk[OF tx_cache[OF t]] m(1) a p(1) by (simp add: fblk_def)
    show ?thesis
      unfolding readi_from.simps[of c n tot off] if_P[OF True] runs_bnd[of "bmap _ _"]
    proof (rule bmap_old[OF I c t h pm a], goal_cases)
      case (1 s1)
      note S1 = fs_same[OF I arg_cong[OF 1(2), of cs_view] kfs_frame(1,2)[OF 1(3)]]
      have h1: "held s1 = Map.empty" using 1(2) h by simp
      have dv: "i_dev (icache s1 c) = ROOTDEV" using f(4) kfs_frame(1)[OF 1(3)] by simp
      show ?case unfolding runs_bnd[of "gets _"] runs_gets dv runs_bnd[of "bread _ _"]
      proof (rule tx_bread[OF 1(1) data_blk_facts(1)[OF fs_invD(1)[OF I] d]], goal_cases)
        case (3 buf s2)
        have b: "buf_data s2 buf = view s ?a" using 3(4) 1(2) by simp
        have cl: "?a \<in> dirty s2 \<or> view s2 ?a = cs_media (cache_abs s2) ?a"
          using tx_clean[OF 1(1), of ?a] h1 3(2) by simp
        show ?case unfolding Let_def runs_bnd runs_gets b sl
        proof (rule tx_brelse[OF 3(1) _ cl], goal_cases)
          case (2 s3)
          have e3: "cache_abs s3 = cache_abs s" "log_ext s3 = log_ext s" using 2(2,3) 3(2,3) 1(2,3) h1 by (simp_all add: fun_upd_idem)
          note S3 = fs_same[OF I arg_cong[OF e3(1), of cs_view] kfs_frame(1,2)[OF e3(2)]]
          have ua: "unat (off + ?m) = unat off + unat ?m" using off' by (intro unat_u32_add) simp
          have len: "unat n - unat tot = unat ?m + (unat n - unat (tot + ?m))" using m(2,3) by linarith
          have le: "unat (tot + ?m) \<le> unat n" using m(2,3) n(1) by linarith
          have lt: "unat n - unat (tot + ?m) < unat n - unat tot" "unat (off + ?m) + (unat n - unat (tot + ?m)) \<le> unat (di_size (eff s i))"
            using len m(2) n(2) ua by linarith+
          have join: "[unat off..<unat off + (unat n - unat tot)] =
              [unat off..<unat off + unat ?m] @ [unat (off + ?m)..<unat (off + ?m) + (unat n - unat (tot + ?m))]"
            unfolding len ua add.assoc[symmetric] by (rule upt_add_eq_append) simp
          have "runs (readi_from c n (tot + ?m) (off + ?m)) s3 (\<lambda>rest s'. Q (map (fbyte s i) [unat off..<unat off + unat ?m] @ rest) s')"
          proof (rule less(1)[of "tot + ?m" s3 "off + ?m"], goal_cases)
            case (9 s4)
            have "fbyte s3 i = fbyte s i" by (simp add: fbyte_def[abs_def] S3(7))
            then show ?case using Q[of s4, unfolded join map_append] 9 e3 by simp
          qed (use le lt S3 c 2(1) h e3 kfs_frame(2)[OF e3(2)] in \<open>simp_all\<close>)
          then show ?case using off' by simp
        qed (use 3(2) in simp)
      qed (simp_all add: h1)
    qed
  qed
qed

section \<open>Writing\<close>

text \<open>Replacing the contents of one block of a file.\<close>

lemma write_fs:
  assumes I: "fs_inv s st" and i: "i < ninodes s" "p < MAXFILE" "addr s i p \<noteq> 0"
    and e: "icache s' = icache s" "fs_sb s' = fs_sb s" "view s' = (view s)(addr s i p := d)"
  shows "fs_inv s' st" "nfree s' = nfree s" "j < ninodes s \<Longrightarrow> eff s' j = eff s j"
    and "j < ninodes s \<Longrightarrow> q \<le> MAXFILE \<Longrightarrow> addr s' j q = addr s j q"
    and "j < ninodes s \<Longrightarrow> q < MAXFILE \<Longrightarrow> fblk s' j q = (if j = i \<and> q = p then d else fblk s j q)"
proof -
  note g = fs_invD(1)[OF I] and R = fs_invD(4)[OF I]
  have p: "p \<le> MAXFILE" using i(2) by simp
  note df = data_blk_facts[OF g refs_okD(1)[OF R i(1) p i(3)]]
  have eff: "eff s' j = eff s j" if "j < ninodes s" for j
    by (rule eff_cong[OF e(1,2)]) (use df(6)[OF that] in \<open>auto simp: e(3)\<close>)
  have ad: "addr s' j q = addr s j q" if j: "j < ninodes s" "q \<le> MAXFILE" for j q
  proof -
    have "di_addrs (eff s j) ! NDIRECT \<noteq> 0 \<Longrightarrow> addr s i p \<noteq> di_addrs (eff s j) ! NDIRECT"
      using refs_okD(3)[OF R i(1) p i(3) j(1), of MAXFILE] i(2) by (auto simp: faddr_def)
    then have "faddr (view s') (eff s j) q = faddr (view s) (eff s j) q" by (intro faddr_cong) (auto simp: e(3))
    then show ?thesis using eff[OF j(1)] by simp
  qed
  show "eff s' j = eff s j" if "j < ninodes s" using that by (rule eff)
  show "addr s' j q = addr s j q" if "j < ninodes s" "q \<le> MAXFILE" using that by (rule ad)
  show "fblk s' j q = (if j = i \<and> q = p then d else fblk s j q)" if j: "j < ninodes s" "q < MAXFILE"
    using ad[OF j(1), of q] refs_okD(3)[OF R i(1) p i(3) j(1), of q] j(2) i(3) by (auto simp: fblk_def e(3))
  have u: "used (view s') (fs_sb s) = used (view s) (fs_sb s)" using df(5) by (auto simp: used_def[abs_def] e(3))
  then show "nfree s' = nfree s" by (simp add: nfree_def e(2))
  have "refs_ok (fs_sb s') (addr s') (used (view s') (fs_sb s'))"
    unfolding e(2) u using R ad unfolding refs_ok_def by auto
  moreover have "inode_ok (view s') (eff s' j)" if j: "j < ninodes s" for j
  proof -
    have "x \<le> MAXFILE" if "x * BSIZE < unat (di_size (eff s j))" for x using fs_invD(5)[OF I j] that by (auto simp: inode_ok_def)
    then show ?thesis using fs_invD(5)[OF I j] ad[OF j] eff[OF j] by (auto simp: inode_ok_def)
  qed
  moreover have "view s' 1 = view s 1" using df(4) by (auto simp: e(3))
  ultimately show "fs_inv s' st" using fs_invD(1-3)[OF I] e by (simp add: fs_inv_def icache_ok_def)
qed

text \<open>The effect of writing \<open>bs\<close> at \<open>off\<close>, before the size is brought up to date.\<close>

definition wrote :: "'z kfs_scheme \<Rightarrow> 'z kfs_scheme \<Rightarrow> nat \<Rightarrow> nat \<Rightarrow> nat \<Rightarrow> nat \<Rightarrow> u8 list \<Rightarrow> bool" where
  "wrote s s' st c i off bs \<longleftrightarrow> fs_inv s' st \<and> cached s' c i \<and> held s' = Map.empty \<and> fs_rest s' = fs_rest s \<and> fs_sb s' = fs_sb s \<and>
     (\<exists>X. icache s' = (icache s)(c := (icache s c)\<lparr>i_addrs := X\<rparr>)) \<and>
     (\<forall>j < ninodes s. meta (eff s' j) = meta (eff s j)) \<and>
     (\<forall>j < ninodes s. j \<noteq> i \<longrightarrow> (\<forall>p < MAXFILE. fblk s' j p = fblk s j p)) \<and>
     (\<forall>x < MAXFILE * BSIZE. fbyte s' i x = (if off \<le> x \<and> x < off + length bs then bs ! (x - off) else fbyte s i x)) \<and>
     (\<forall>p \<le> MAXFILE. addr s i p \<noteq> 0 \<longrightarrow> addr s' i p \<noteq> 0) \<and>
     (\<forall>p. p * BSIZE < off + length bs \<longrightarrow> off < Suc p * BSIZE \<longrightarrow> bs \<noteq> [] \<longrightarrow> addr s' i p \<noteq> 0)"

lemma wrote_nil: "fgrown s s' st c i \<Longrightarrow> i < ninodes s \<Longrightarrow> wrote s s' st c i off []"
  unfolding fgrown_def wrote_def same_files_def fbyte_def by (auto simp: less_mult_imp_div_less)

lemma wrote_trans:
  assumes a: "wrote s s1 st c i off bs" and b: "wrote s1 s2 st c i (off + length bs) bs'" and l: "off + length bs + length bs' \<le> MAXFILE * BSIZE"
    and bs: "bs \<noteq> []"
  shows "wrote s s2 st c i off (bs @ bs')"
proof -
  obtain X Y where X: "icache s1 = (icache s)(c := (icache s c)\<lparr>i_addrs := X\<rparr>)" "icache s2 = (icache s1)(c := (icache s1 c)\<lparr>i_addrs := Y\<rparr>)"
    using a b by (auto simp: wrote_def)
  then have "icache s2 = (icache s)(c := (icache s c)\<lparr>i_addrs := Y\<rparr>)" by simp
  moreover have "fbyte s2 i x = (if off \<le> x \<and> x < off + length (bs @ bs') then (bs @ bs') ! (x - off) else fbyte s i x)"
    if "x < MAXFILE * BSIZE" for x
  proof -
    have "fbyte s1 i x = (if off \<le> x \<and> x < off + length bs then bs ! (x - off) else fbyte s i x)"
      "fbyte s2 i x = (if off + length bs \<le> x \<and> x < off + length bs + length bs' then bs' ! (x - (off + length bs)) else fbyte s1 i x)"
      using a b that by (auto simp: wrote_def)
    then show ?thesis by (auto simp: nth_append)
  qed
  moreover have "addr s2 i p \<noteq> 0" if "p * BSIZE < off + length (bs @ bs')" "off < Suc p * BSIZE" for p
  proof (cases "p * BSIZE < off + length bs")
    case True
    then have "addr s1 i p \<noteq> 0" using a that(2) bs by (auto simp: wrote_def)
    moreover have "p \<le> MAXFILE" using that(1) l by simp
    ultimately show ?thesis using b by (auto simp: wrote_def)
  next
    case False
    then have "bs' \<noteq> []" using that(1) by auto
    then show ?thesis using b that(1) False by (auto simp: wrote_def)
  qed
  ultimately show ?thesis using a b by (auto simp: wrote_def)
qed

lemma mod_512: "(n :: nat) mod 512 < 512"
  by simp

lemma block_range: "q * 512 < a * 512 + r + l \<Longrightarrow> l \<le> 512 - r \<Longrightarrow> r < 512 \<Longrightarrow> q \<le> (a :: nat)"
  by arith

lemma next_block: "r < 512 \<Longrightarrow> a * 512 + r + (512 - r) = Suc a * (512 :: nat)"
  by arith

lemma wrote_block:
  fixes s s1 s' :: "'z kfs_scheme"
  assumes g: "fgrown s s1 st c i" and i: "i < ninodes s" and a: "addr s1 i (off div BSIZE) \<noteq> 0"
    and l: "length (view s1 (addr s1 i (off div BSIZE))) = BSIZE"
    and bs: "length bs \<le> BSIZE - off mod BSIZE" "off + length bs \<le> MAXFILE * BSIZE" "bs \<noteq> []"
    and e: "log_ext s' = log_ext s1" "held s' = Map.empty"
      "view s' = (view s1)(addr s1 i (off div BSIZE) := copy_at (off mod BSIZE) bs (view s1 (addr s1 i (off div BSIZE))))"
  shows "wrote s s' st c i off bs" "indneed s' i = indneed s1 i" "nfree s' = nfree s1" "addr s' i MAXFILE = addr s1 i MAXFILE"
proof -
  let ?p = "off div BSIZE"
  note sb = fgrown_sb[OF g] and k = kfs_frame[OF e(1)]
  have "off < 140 * 512" using bs(2,3) by (cases bs) simp_all
  then have p: "?p < MAXFILE" by (simp add: less_mult_imp_div_less)
  have I: "fs_inv s1 st" "cached s1 c i" "i < ninodes s1" using g i sb by (simp_all add: fgrown_def)
  note W = write_fs[OF I(1,3) p a k(1,2) e(3)]
  have B: "fbyte s' i x = (if off \<le> x \<and> x < off + length bs then bs ! (x - off) else fbyte s i x)" if x: "x < MAXFILE * BSIZE" for x
  proof -
    have q: "x div 512 < MAXFILE" using x by (simp add: less_mult_imp_div_less)
    have o: "fbyte s1 i x = fbyte s i x" using g i q by (simp add: fbyte_def fgrown_def same_files_def)
    show ?thesis
    proof (cases "x div 512 = off div 512")
      case True
      then have xo: "off \<le> x \<longleftrightarrow> off mod 512 \<le> x mod 512" "x - off = x mod 512 - off mod 512" "x < off + length bs \<longleftrightarrow> x mod 512 < off mod 512 + length bs"
        using div_mult_mod_eq[of x 512] div_mult_mod_eq[of off 512] by linarith+
      have lb: "off mod 512 + length bs \<le> 512" using bs(1) mod_less_divisor[of 512 off] by simp
      have "fblk s' i (x div 512) = copy_at (off mod 512) bs (fblk s1 i (x div 512))"
        using W(5)[OF I(3) q] True a by (simp add: fblk_def)
      moreover have "length (fblk s1 i (x div 512)) = 512" using l True a by (simp add: fblk_def)
      ultimately have "fbyte s' i x = (if off mod 512 \<le> x mod 512 \<and> x mod 512 < off mod 512 + length bs
          then bs ! (x mod 512 - off mod 512) else fbyte s1 i x)"
        using lb nth_copy_at[of "off mod 512" bs "fblk s1 i (x div 512)" "x mod 512"] by (simp add: fbyte_def)
      then show ?thesis unfolding o xo .
    next
      case False
      have "\<not> (off \<le> x \<and> x < off + length bs)"
      proof
        assume x: "off \<le> x \<and> x < off + length bs"
        then have "x - off < length bs" by linarith
        then have "off mod 512 + (x - off) < 512" using bs(1) by simp
        then show False using div_mod_add(1)[of off 512 "x - off"] x False by simp
      qed
      then show ?thesis using W(5)[OF I(3) q] False o by (auto simp: fbyte_def)
    qed
  qed
  have Z: "addr s' i q \<noteq> 0" if q: "q * BSIZE < off + length bs" "off < Suc q * BSIZE" for q
  proof -
    have "q = ?p"
    proof (rule antisym)
      show "q \<le> ?p" using block_range[of q "off div 512" "off mod 512" "length bs"] q(1) bs(1) by simp
      show "?p \<le> q" using q(2) by (simp add: less_mult_imp_div_less less_Suc_eq_le[symmetric] mult.commute)
    qed
    then show ?thesis using W(4)[OF I(3), of ?p] a p by simp
  qed
  have O: "addr s' i q = addr s1 i q" if "q \<le> MAXFILE" for q using W(4)[OF I(3) that] .
  show "nfree s' = nfree s1" by (rule W(2))
  show "addr s' i MAXFILE = addr s1 i MAXFILE" using O by simp
  then show "indneed s' i = indneed s1 i" by (simp add: indneed_def)
  have f: "fblk s' j q = fblk s j q" "eff s' j = eff s1 j" if "j < ninodes s" "j \<noteq> i" "q < MAXFILE" for j q
    using W(5)[of j q] W(3)[of j] g that sb by (simp_all add: fgrown_def same_files_def)
  have m: "meta (eff s' j) = meta (eff s j)" if "j < ninodes s" for j using W(3)[of j] g that sb by (simp add: fgrown_def same_files_def)
  show "wrote s s' st c i off bs"
    unfolding wrote_def using W(1) g B Z f(1) m k e(2) fs_rest_ext[OF e(1)] O sb by (auto simp: fgrown_def cached_def)
qed

text \<open>The number of blocks that a range of bytes touches.\<close>

definition nblk :: "nat \<Rightarrow> nat \<Rightarrow> nat" where
  "nblk off len = (if len = 0 then 0 else Suc ((off + len - 1) div BSIZE - off div BSIZE))"

lemma nblk_step:
  assumes "0 < len" "m = min len (BSIZE - off mod BSIZE)"
  shows "nblk off len = Suc (nblk (off + m) (len - m))"
proof (cases "len \<le> 512 - off mod 512")
  case True
  have "off mod 512 + (len - 1) < 512" using True assms(1) mod_512[of off] by linarith
  then have "(off + (len - 1)) div 512 = off div 512" by (rule div_mod_add(1))
  then show ?thesis using True assms by (simp add: nblk_def min_def)
next
  case False
  then have m: "m = 512 - off mod 512" using assms(2) by (simp add: min_def)
  have "off + m = off div 512 * 512 + off mod 512 + (512 - off mod 512)" unfolding m div_mult_mod_eq ..
  also have "\<dots> = Suc (off div 512) * 512" by (rule next_block) simp
  finally have d: "(off + m) div 512 = Suc (off div 512)" by simp
  have "m < len" using False m by simp
  then have "Suc (off div 512) \<le> (off + len - 1) div 512" using div_le_mono[of "off + m" "off + len - 1" 512] d by simp
  then show ?thesis using \<open>m < len\<close> d by (simp add: nblk_def Suc_diff_Suc)
qed

text \<open>One round of the loop of \<open>writei\<close>, once the block is known.\<close>

lemma write_block:
  fixes s s1 :: "'z kfs_scheme"
  assumes g: "fgrown s s1 st c i" and i: "i < ninodes s" and a: "addr s1 i (off div BSIZE) = a" "a \<noteq> 0"
    and r: "room s1 st F i k" "a \<notin> dirty s1 \<union> F \<Longrightarrow> room s1 st F i (Suc k)"
    and bs: "length bs \<le> BSIZE - off mod BSIZE" "off + length bs \<le> MAXFILE * BSIZE" "bs \<noteq> []"
    and Q: "\<And>s'. wrote s s' st c i off bs \<Longrightarrow> room s' st F i k \<Longrightarrow> Q () s'"
  shows "runs (bread ROOTDEV a) s1 (\<lambda>buf s2. runs (log_write buf) (set_data buf (copy_at (off mod BSIZE) bs (buf_data s2 buf)) s2)
    (\<lambda>_ s4. runs (brelse buf) s4 Q))"
proof -
  have I: "fs_inv s1 st" "i < ninodes s1" "held s1 = Map.empty" using g i fgrown_sb[OF g] by (simp_all add: fgrown_def)
  have "off < 140 * 512" using bs(2,3) by (cases bs) simp_all
  then have p: "off div BSIZE \<le> MAXFILE" using less_mult_imp_div_less[of off 140 512] by simp
  note df = data_blk_facts[OF fs_invD(1)[OF I(1)] refs_okD(1)[OF fs_invD(4)[OF I(1)] I(2) p], unfolded a, OF a(2)]
  obtain k0 where k0: "tx s1 st F (k0 + indneed s1 i)" "k0 = (if a \<in> dirty s1 \<union> F then k else Suc k)"
    using r by (cases "a \<in> dirty s1 \<union> F") (auto simp: room_def)
  let ?b = "copy_at (off mod BSIZE) bs (view s1 a)"
  have len: "length (view s1 a) = BSIZE" using tx_cache[OF k0(1)] by (rule bc.view_length)
  have lb: "length ?b = BSIZE" using len bs(1) mod_512[of off] by simp
  show ?thesis
  proof (rule tx_bread[OF k0(1) df(1)], goal_cases)
    case (3 buf s2)
    have own: "held s2 a = Some buf" using 3(2) by simp
    note s3 = tx_set_data[OF 3(1) own df(2) lb]
    show ?case unfolding 3(4)
    proof (rule tx_log_write[OF s3(1) _ df(2), where k' = "k + indneed s1 i"], goal_cases)
      case (3 s4)
      note s4 = this
      have D: "a \<in> dirty s4" using s4(2) by simp
      show ?case
      proof (rule tx_brelse[OF s4(1) _ disjI1[OF D]], goal_cases)
        case (2 s5)
        have c5: "cache_abs s5 = (cache_abs s1)\<lparr>cs_view := (view s1)(a := ?b), cs_dirty := insert a (dirty s1)\<rparr>"
          using 2(2) s4(2) s3(2) 3(2) I(3) \<open>cache_abs s2 = _\<close> by (simp add: fun_upd_idem)
        have e5: "log_ext s5 = log_ext s1" using 2(3) s4(3) s3(3) \<open>log_ext s2 = _\<close> by simp
        note W = wrote_block[OF g i, of off bs s5, unfolded a, OF a(2) len bs e5]
        have v: "view s5 = (view s1)(a := ?b)" "held s5 = Map.empty" using c5 I(3) by simp_all
        note W = W[OF v(2,1)]
        have "room s5 st F i k" using r(1) 2(1) W c5 kfs_frame(2)[OF e5] by (auto simp: room_def)
        then show ?case using W(1) by (intro Q) simp_all
      qed (use s4 s3 own in simp_all)
    qed (use s3 own k0(2) 3(2) in auto)
  qed (simp_all add: I(3))
qed

lemma slice_split: "a + b + d \<le> length xs \<Longrightarrow> slice a (b + d) xs = slice a b xs @ slice (a + b) d xs"
  by (simp add: slice_def take_add add.commute)

lemma runs_writei_from:
  fixes s :: "'z kfs_scheme"
  assumes I: "fs_inv s st" and c: "cached s c i" "i < ninodes s" and h: "held s = Map.empty" and src: "length src = unat n"
    and n: "unat tot \<le> unat n" "unat off + (unat n - unat tot) \<le> MAXFILE * BSIZE"
    and r: "room s st F i (k + nblk (unat off) (unat n - unat tot))"
    and Q: "\<And>off' s'. unat off' = unat off + (unat n - unat tot) \<Longrightarrow>
      wrote s s' st c i (unat off) (slice (unat tot) (unat n - unat tot) src) \<Longrightarrow> room s' st F i k \<Longrightarrow> Q off' s'"
  shows "runs (writei_from c src n tot off) s Q"
  using I c h n r Q
proof (induction "unat n - unat tot" arbitrary: tot off s Q rule: less_induct)
  case less
  note I = less(2) and c = less(3,4) and h = less(5) and n = less(6,7) and r = less(8) and Q = less(9)
  have G: "fgrown s s st c i" using fgrown_same[OF I c(1) h] by simp
  show ?case
  proof (cases "tot < n")
    case False
    then have z: "unat n - unat tot = 0" by (simp add: word_less_nat_alt)
    have "wrote s s st c i (unat off) []" using G c(2) by (rule wrote_nil)
    then show ?thesis using False Q[of off s, unfolded z] r[unfolded z] by (simp add: writei_from.simps slice_def nblk_def)
  next
    case True
    let ?m = "chunk n tot off" let ?L = "unat n - unat tot"
    note m = unat_chunk[OF True, of off] chunk_pos[OF True, of off] unat_chunk_add[OF True, of off]
    have len: "?L = unat ?m + (unat n - unat (tot + ?m))" using m(2,3) by linarith
    have lt: "unat n - unat (tot + ?m) < ?L" "unat (tot + ?m) \<le> unat n" using m(2,3) n(1) len by linarith+
    have o: "unat off + unat ?m \<le> 71680" using n(2) m(2) by simp
    then have off': "unat off + unat ?m < 2 ^ 32" by simp
    then have ua: "unat (off + ?m) = unat off + unat ?m" by (intro unat_u32_add) simp
    have "0 < ?L" using lt(1) by linarith
    then have nb: "nblk (unat off) ?L = Suc (nblk (unat (off + ?m)) (unat n - unat (tot + ?m)))"
      unfolding ua using nblk_step[OF _ m(1)] len by simp
    let ?bs = "slice (unat tot) (unat ?m) src"
    have bs: "length ?bs = unat ?m" using src len lt(2) m(3) by (intro length_slice) linarith
    have bs': "length ?bs \<le> BSIZE - unat off mod BSIZE" "unat off + length ?bs \<le> MAXFILE * BSIZE" "?bs \<noteq> []"
      using bs m(1,2) o by auto
    have p: "unat (off div of_nat BSIZE) = unat off div BSIZE" by (simp add: unat_div_512)
    have "unat off < 71680" using o m(2) by linarith
    then have p140: "unat (off div of_nat BSIZE) < MAXFILE" unfolding p using less_mult_imp_div_less[of "unat off" 140 512] by simp
    show ?thesis
      unfolding writei_from.simps[of c src n tot off] if_P[OF True] runs_bnd[of "bmap _ _"]
    proof (rule runs_bmap[OF I c h p140 r[unfolded nb add_Suc_right]], goal_cases)
      case (1 a s1)
      have dv: "i_dev (icache s1 c) = ROOTDEV" using 1(1) by (simp add: fgrown_def cached_def)
      show ?case unfolding runs_bnd[of "gets _"] runs_gets dv runs_bnd[of "bread _ _"] Let_def runs_bnd runs_modify
      proof (rule write_block[OF 1(1) c(2) 1(2)[unfolded p] 1(3,4,5) bs'], goal_cases)
        case (2 s5)
        note w = 2(1)
        have s5: "fs_inv s5 st" "cached s5 c i" "i < ninodes s5" "held s5 = Map.empty" using w c(2) by (simp_all add: wrote_def)
        have "runs (writei_from c src n (tot + ?m) (off + ?m)) s5 Q"
        proof (rule less(1)[OF lt(1) s5 lt(2) _ 2(2)], goal_cases)
          case (2 off' s')
          have jn: "slice (unat tot) ?L src = ?bs @ slice (unat (tot + ?m)) (unat n - unat (tot + ?m)) src"
            unfolding len m(3) using src lt(2) m(3) by (intro slice_split) linarith
          have l2: "length (slice (unat (tot + ?m)) (unat n - unat (tot + ?m)) src) = unat n - unat (tot + ?m)"
            using src lt(2) by (intro length_slice) linarith
          have "wrote s s' st c i (unat off) (?bs @ slice (unat (tot + ?m)) (unat n - unat (tot + ?m)) src)"
            by (rule wrote_trans[OF w _ _ bs'(3)]) (use 2(2) ua bs l2 n(2) len in auto)
          then show ?case using Q[of off' s'] 2 jn len ua by simp
        qed (use n(2) len ua in linarith)
        then show ?case using off' by simp
      qed (use 1 in blast)
    qed
  qed
qed

section \<open>Updating the inode on the disk\<close>

lemma iupdate_fs:
  fixes s s' :: "'z kfs_scheme"
  assumes I: "fs_inv s st" and c: "cached s c i" "i < ninodes s" and ci: "cache_inv s"
    and e: "icache s' = icache s" "fs_sb s' = fs_sb s"
      "view s' = (view s)(iblk (fs_sb s) i := put_dinode (i mod IPB) (eff s i) (view s (iblk (fs_sb s) i)))"
  shows "fs_inv s' st" "nfree s' = nfree s" "j < ninodes s \<Longrightarrow> eff s' j = eff s j"
    and "j < ninodes s \<Longrightarrow> q \<le> MAXFILE \<Longrightarrow> addr s' j q = addr s j q"
    and "j < ninodes s \<Longrightarrow> q \<le> MAXFILE \<Longrightarrow> fblk s' j q = fblk s j q"
proof -
  note g = fs_invD(1)[OF I] and R = fs_invD(4)[OF I] and f = cached_facts[OF I c]
  note ib = iblk_unat[OF g c(2)]
  let ?b = "view s (iblk (fs_sb s) i)"
  have len: "length ?b = BSIZE" using ci by (rule bc.view_length)
  have di: "disk_inode s' j = disk_inode s j" if j: "j < ninodes s" "j \<noteq> i" for j
  proof (cases "iblk (fs_sb s) j = iblk (fs_sb s) i")
    case True
    then have "j div 8 = i div 8" using ib(1) iblk_unat(1)[OF g j(1)] by simp
    then have "j mod 8 \<noteq> i mod 8" using j(2) div_mod_8 by blast
    then show ?thesis using True e(2,3) f(3) len get_put_dinode[of ?b "i mod 8" "j mod 8" "eff s i"] by (simp add: disk_inode_def)
  next
    case False
    then show ?thesis by (simp add: disk_inode_def e(2,3))
  qed
  have eff: "eff s' j = eff s j" if j: "j < ninodes s" for j
  proof (cases "j = i")
    case True
    have "cached s' c i" "icache_ok s'" using c(1) fs_invD(3)[OF I] e(1) by (simp_all add: cached_def icache_ok_def)
    then show ?thesis using True eff_cached[of s' c i] f(1) e(1) by simp
  next
    case False
    then show ?thesis using di[OF j] e(1) by (simp add: eff_def cached_def[abs_def] split: option.split)
  qed
  have rv: "view s' (addr s j q) = view s (addr s j q)" if "j < ninodes s" "q \<le> MAXFILE" "addr s j q \<noteq> 0" for j q
    using data_blk_facts(6)[OF g refs_okD(1)[OF R that] c(2)] by (auto simp: e(3))
  have ad: "addr s' j q = addr s j q" if "j < ninodes s" "q \<le> MAXFILE" for j q
    using rv[OF that(1), of MAXFILE] eff[OF that(1)] by (auto simp: faddr_def)
  show "eff s' j = eff s j" if "j < ninodes s" using that by (rule eff)
  show "addr s' j q = addr s j q" if "j < ninodes s" "q \<le> MAXFILE" using that by (rule ad)
  show "fblk s' j q = fblk s j q" if "j < ninodes s" "q \<le> MAXFILE" using ad[OF that] rv[OF that] by (simp add: fblk_def)
  have bm: "iblk (fs_sb s) i \<noteq> sb_bmapstart (fs_sb s)" using ib(2) by auto
  have u: "used (view s') (fs_sb s) = used (view s) (fs_sb s)" using bm by (auto simp: used_def[abs_def] e(3))
  then show "nfree s' = nfree s" by (simp add: nfree_def e(2))
  have "refs_ok (fs_sb s') (addr s') (used (view s') (fs_sb s'))" unfolding e(2) u using R ad unfolding refs_ok_def by auto
  moreover have "inode_ok (view s') (eff s' j)" if j: "j < ninodes s" for j
  proof -
    have "x \<le> MAXFILE" if "x * BSIZE < unat (di_size (eff s j))" for x using fs_invD(5)[OF I j] that by (auto simp: inode_ok_def)
    then show ?thesis using fs_invD(5)[OF I j] ad[OF j] eff[OF j] by (auto simp: inode_ok_def)
  qed
  moreover have "iblk (fs_sb s) i \<noteq> 1" using ib(1) g by (auto simp: fs_geom_def)
  then have "view s' 1 = view s 1" by (simp add: e(3))
  ultimately show "fs_inv s' st" using fs_invD(1-3)[OF I] e by (simp add: fs_inv_def icache_ok_def)
qed

lemma runs_iblock:
  fixes s :: "'z kfs_scheme"
  assumes "fs_geom (fs_sb s) st" "i < ninodes s"
  shows "runs (iblock (of_nat i) (fs_sb s)) u Q = Q (iblk (fs_sb s) i) u"
proof -
  note ib = iblk_unat[OF assms]
  have "i < 2 ^ 32" using assms(2) unsigned_less[of "sb_ninodes (fs_sb s)", where 'a = nat] by simp
  then have u: "unat (of_nat i div 8 :: u32) = i div 8" by (simp add: unat_div unat_of_nat_u32)
  have l: "i div 8 + unat (sb_inodestart (fs_sb s)) < 2 ^ 32" using ib(1) unsigned_less[of "iblk (fs_sb s) i", where 'a = nat] by simp
  have "of_nat i div 8 + sb_inodestart (fs_sb s) = iblk (fs_sb s) i"
    using ib(1) u l unat_u32_add[of "of_nat i div 8" "sb_inodestart (fs_sb s)"] by (intro word_unat_eq_iff[THEN iffD2]) simp
  then show ?thesis using u l by (simp add: iblock_def)
qed

lemma runs_iupdate:
  fixes s :: "'z kfs_scheme"
  assumes I: "fs_inv s st" and c: "cached s c i" "i < ninodes s" and t: "tx s st F k" "iblk (fs_sb s) i \<in> F" and h: "held s = Map.empty"
    and Q: "\<And>s'. tx s' st F k \<Longrightarrow> cache_abs s' = (cache_abs s)\<lparr>cs_view := (view s)(iblk (fs_sb s) i := put_dinode (i mod IPB) (eff s i) (view s (iblk (fs_sb s) i))),
        cs_dirty := insert (iblk (fs_sb s) i) (dirty s)\<rparr> \<Longrightarrow> log_ext s' = log_ext s \<Longrightarrow> Q () s'"
  shows "runs (iupdate c) s Q"
proof -
  note g = fs_invD(1)[OF I] and f = cached_facts[OF I c]
  note ib = iblk_unat[OF g c(2)]
  have "i < 2 ^ 32" using c(2) unsigned_less[of "sb_ninodes (fs_sb s)", where 'a = nat] by simp
  then have n: "i_inum (icache s c) = of_nat i" "unat (of_nat i :: u32) = i" using c(1) by (simp_all add: cached_def unat_of_nat_u32)
  have len: "length (view s (iblk (fs_sb s) i)) = BSIZE" using tx_cache[OF t(1)] by (rule bc.view_length)
  have "runs (bnd (bread ROOTDEV (iblk (fs_sb s) i)) (\<lambda>buf.
      bnd (modify (\<lambda>s'. set_data buf (put_dinode (i mod IPB) (to_dinode (icache s c)) (buf_data s' buf)) s')) (\<lambda>_.
      bnd (log_write buf) (\<lambda>_. brelse buf)))) s Q"
    by (rule tx_update[OF t(1) ib(3) _ ib(4), where g = "put_dinode (i mod IPB) (to_dinode (icache s c))" and k' = k])
       (use t h f len Q in auto)
  then show ?thesis unfolding iupdate_def runs_bnd[of "gets _"] runs_gets n f(4) runs_bnd[of "iblock _ _"] runs_iblock[OF g c(2)] .
qed

section \<open>The operations on files\<close>

lemma fblk_cong: "addr s' j p = addr s j p \<Longrightarrow> view s' = view s \<Longrightarrow> fblk s' j p = fblk s j p"
  unfolding fblk_def by metis

lemma size_fs:
  fixes s :: "'z kfs_scheme"
  assumes I: "fs_inv s st" and c: "cached s c i" "i < ninodes s"
    and z: "unat z \<le> MAXFILE * BSIZE" "\<forall>p. p * BSIZE < unat z \<longrightarrow> addr s i p \<noteq> 0"
  defines "s' \<equiv> upd_inode c (\<lambda>ip. ip\<lparr>i_size := z\<rparr>) s"
  shows "fs_inv s' st" "nfree s' = nfree s" "cached s' c i" "j < ninodes s \<Longrightarrow> eff s' j = (if j = i then (eff s i)\<lparr>di_size := z\<rparr> else eff s j)"
    and "j < ninodes s \<Longrightarrow> addr s' j = addr s j" "j < ninodes s \<Longrightarrow> fblk s' j = fblk s j"
proof -
  have si: "same_id ((icache s c)\<lparr>i_size := z\<rparr>) (icache s c)" by (simp add: same_id_def)
  have ic: "icache s' = (icache s)(c := (icache s c)\<lparr>i_size := z\<rparr>)" by (simp add: s'_def)
  note sc = same_id_cached[OF ic si]
  show "cached s' c i" using c(1) sc(1) by simp
  have eff: "eff s' j = (if j = i then (eff s i)\<lparr>di_size := z\<rparr> else eff s j)" if "j < ninodes s" for j
    using eff_upd[OF ic si _ fs_invD(3)[OF I] c(1) _ c(2) that] cached_facts(1)[OF I c] by (simp add: s'_def to_dinode_def)
  then show "j < ninodes s \<Longrightarrow> eff s' j = (if j = i then (eff s i)\<lparr>di_size := z\<rparr> else eff s j)" .
  have v: "view s' = view s" "fs_sb s' = fs_sb s" by (simp_all add: s'_def)
  have ad: "addr s' j = addr s j" if "j < ninodes s" for j using eff[OF that] v by (simp add: faddr_def fun_eq_iff)
  then show "j < ninodes s \<Longrightarrow> addr s' j = addr s j" .
  show "j < ninodes s \<Longrightarrow> fblk s' j = fblk s j" by (rule ext, rule fblk_cong[OF fun_cong[OF ad] v(1)])
  show "nfree s' = nfree s" using v by (simp add: nfree_def)
  have "refs_ok (fs_sb s') (addr s') (used (view s') (fs_sb s'))"
    using fs_invD(4)[OF I] ad unfolding v refs_ok_def by auto
  moreover have "inode_ok (view s') (eff s' j)" if j: "j < ninodes s" for j
    using fs_invD(5)[OF I j] ad[OF j] eff[OF j] z by (auto simp: inode_ok_def)
  ultimately show "fs_inv s' st" using fs_invD[OF I] sc(2) v by (simp add: fs_inv_def)
qed

lemma size_le: "fs_inv s st \<Longrightarrow> i < ninodes s \<Longrightarrow> unat (di_size (eff s i)) \<le> MAXFILE * BSIZE"
  using fs_invD(5)[of s st i] by (simp add: inode_ok_def)

lemma content_cong:
  assumes "fs_inv s st" "j < ninodes s" "meta (eff s' j) = meta (eff s j)" "\<And>p. p < MAXFILE \<Longrightarrow> fblk s' j p = fblk s j p"
  shows "content s' j = content s j"
  using assms size_le[OF assms(1,2)]
  by (auto simp: content_def fbyte_def meta_def less_mult_imp_div_less)

lemma same_files_content: "fs_inv s st \<Longrightarrow> same_files s s' \<Longrightarrow> j < ninodes s \<Longrightarrow> content s' j = content s j"
  by (rule content_cong) (auto simp: same_files_def)

lemma length_content [simp]: "length (content s i) = unat (di_size (eff s i))"
  by (simp add: content_def)

lemma content_wrote:
  assumes w: "wrote s s1 st c i off bs" and i: "i < ninodes s" and I: "fs_inv s st"
    and o: "off \<le> unat (di_size (eff s i))" "off + length bs \<le> MAXFILE * BSIZE"
  shows "map (fbyte s1 i) [0..<max (unat (di_size (eff s i))) (off + length bs)] = copy_at off bs (content s i)"
proof (rule nth_equalityI)
  let ?z = "unat (di_size (eff s i))"
  show l: "length (map (fbyte s1 i) [0..<max ?z (off + length bs)]) = length (copy_at off bs (content s i))"
    using o by (simp add: copy_at_def)
  fix x assume "x < length (map (fbyte s1 i) [0..<max ?z (off + length bs)])"
  then have x: "x < max ?z (off + length bs)" by simp
  then have "x < 71680" using o(2) size_le[OF I i] by simp
  then have "fbyte s1 i x = (if off \<le> x \<and> x < off + length bs then bs ! (x - off) else fbyte s i x)" using w by (simp add: wrote_def)
  then show "map (fbyte s1 i) [0..<max ?z (off + length bs)] ! x = copy_at off bs (content s i) ! x"
    using x o(1) by (auto simp: copy_at_def nth_append content_def)
qed

text \<open>The operation as a whole, for files and directories.\<close>

lemma runs_writei:
  fixes s :: "'z kfs_scheme"
  assumes I: "fs_inv s st" and c: "cached s c i" "i < ninodes s" and h: "held s = Map.empty" and nd: "\<not> is_dev (icache s c)"
    and o: "unat off \<le> unat (di_size (eff s i))" "unat off + length src \<le> MAXFILE * BSIZE"
    and r: "room s st F i (k + nblk (unat off) (length src))" "iblk (fs_sb s) i \<in> F"
    and Q: "\<And>s'. fs_inv s' st \<Longrightarrow> cached s' c i \<Longrightarrow> held s' = Map.empty \<Longrightarrow> fs_rest s' = fs_rest s \<Longrightarrow> fs_sb s' = fs_sb s \<Longrightarrow> room s' st F i k \<Longrightarrow>
      content s' i = copy_at (unat off) src (content s i) \<Longrightarrow> (\<exists>X z. icache s' = (icache s)(c := (icache s c)\<lparr>i_addrs := X, i_size := z\<rparr>)) \<Longrightarrow>
      (\<And>j. j < ninodes s \<Longrightarrow> j \<noteq> i \<Longrightarrow> content s' j = content s j \<and> meta (eff s' j) = meta (eff s j)) \<Longrightarrow> Q (int (length src)) s'"
  shows "runs (writei c src off) s Q"
proof -
  note f = cached_facts[OF I c]
  let ?n = "of_nat (length src) :: u32"
  have un: "unat ?n = length src" using o(2) by (intro unat_of_nat_u32) simp
  have l32: "unat off + unat ?n < 2 ^ 32" using o(2) un by simp
  then have ue: "unat (off + ?n) = unat off + length src" using un unat_u32_add[of off ?n] by simp
  have g1: "\<not> (i_size (icache s c) < off \<or> off + ?n < off)" and g2: "\<not> of_nat (MAXFILE * BSIZE) < off + ?n"
    using o f(1) ue by (auto simp: word_less_nat_alt to_dinode_def)
  have ri: "i32_of_u32 ?n = int (length src)" using o(2) by (intro i32_of_u32_nat) simp
  have step: "runs (whenk (0 < ?n \<and> i_size (icache s1 c) < off')
      (bnd (modify (upd_inode c (\<lambda>ip. ip\<lparr>i_size := off'\<rparr>))) (\<lambda>_. iupdate c))) s1 (\<lambda>_ s'. Q (int (length src)) s')"
    if w: "wrote s s1 st c i (unat off) src" and r1: "room s1 st F i k" and off': "unat off' = unat off + length src"
    for off' and s1 :: "'z kfs_scheme"
  proof -
    obtain X where X: "icache s1 = (icache s)(c := (icache s c)\<lparr>i_addrs := X\<rparr>)" using w by (auto simp: wrote_def)
    have W: "fs_inv s1 st" "cached s1 c i" "i < ninodes s1" "held s1 = Map.empty" "fs_rest s1 = fs_rest s" "fs_sb s1 = fs_sb s"
      "meta (eff s1 i) = meta (eff s i)" using w c(2) by (simp_all add: wrote_def)
    have sz: "di_size (eff s1 i) = di_size (eff s i)" "i_size (icache s1 c) = di_size (eff s i)" using W(7) X f(1) by (simp_all add: meta_def to_dinode_def)
    note cw = content_wrote[OF w c(2) I o]
    have others: "content s1 j = content s j \<and> meta (eff s1 j) = meta (eff s j)" if "j < ninodes s" "j \<noteq> i" for j
      using w that content_cong[OF I that(1), of s1] by (simp add: wrote_def)
    show ?thesis
    proof (cases "0 < ?n \<and> i_size (icache s1 c) < off'")
      case False
      then have "unat off + length src \<le> unat (di_size (eff s i))"
        using sz(2) off' un o(1) by (auto simp: word_less_nat_alt)
      then have "content s1 i = copy_at (unat off) src (content s i)" using cw sz(1) by (simp add: content_def max_def)
      then have "Q (int (length src)) s1" using W X r1 others by (intro Q) (auto intro!: exI[of _ X] exI[of _ "i_size (icache s c)"])
      then show ?thesis using False by auto
    next
      case True
      then have gt: "unat (di_size (eff s i)) < unat off'" using sz(2) by (simp add: word_less_nat_alt)
      have nz: "addr s1 i p \<noteq> 0" if p: "p * BSIZE < unat off'" for p
      proof (cases "unat off < Suc p * BSIZE")
        case False
        then have "p * 512 < unat (di_size (eff s1 i))" using o(1) sz(1) by simp
        then show ?thesis using fs_invD(5)[OF W(1,3)] by (simp add: inode_ok_def)
      next
        case pos: True
        have "src \<noteq> []" using True by auto
        then show ?thesis using w p off' pos by (simp add: wrote_def)
      qed
      let ?s2 = "upd_inode c (\<lambda>ip. ip\<lparr>i_size := off'\<rparr>) s1"
      have z: "unat off' \<le> MAXFILE * BSIZE" using off' o(2) by simp
      have "\<forall>p. p * BSIZE < unat off' \<longrightarrow> addr s1 i p \<noteq> 0" using nz by blast
      note S2 = size_fs[OF W(1-3) z this]
      have i2: "i < ninodes ?s2" using W(3) by simp
      have t: "tx ?s2 st F (k + indneed s1 i)" using r1 by (simp add: room_def)
      have iF: "iblk (fs_sb ?s2) i \<in> F" "held ?s2 = Map.empty" using r(2) W by simp_all
      have "runs (iupdate c) ?s2 (\<lambda>_ s'. Q (int (length src)) s')"
      proof (rule runs_iupdate[OF S2(1,3) i2 t iF], goal_cases)
        case (1 s3)
        note e3 = kfs_frame[OF 1(3)]
        have v3: "view s3 = (view ?s2)(iblk (fs_sb ?s2) i := put_dinode (i mod IPB) (eff ?s2 i) (view ?s2 (iblk (fs_sb ?s2) i)))" using 1(2) by simp
        have ci: "cache_inv ?s2" using t by (rule tx_cache)
        note U = iupdate_fs[OF S2(1,3) i2 ci e3(1,2) v3]
        have f3: "fblk s3 j p = fblk s1 j p" if "j < ninodes s" "p < MAXFILE" for j p using U(5)[of j p] S2(6)[of j] that W(6) by simp
        have m3: "eff s3 j = (if j = i then (eff s1 i)\<lparr>di_size := off'\<rparr> else eff s1 j)" if "j < ninodes s" for j
          using U(3)[of j] S2(4)[of j] that W(6) by simp
        have b3: "fbyte s3 i x = fbyte s1 i x" if "x < 71680" for x
          using f3[OF c(2), of "x div 512"] that by (simp add: fbyte_def less_mult_imp_div_less)
        have "content s3 i = map (fbyte s1 i) [0..<unat off']" using m3[OF c(2)] b3 z by (auto simp: content_def)
        then have c3: "content s3 i = copy_at (unat off) src (content s i)" using cw gt off' by (simp add: max_def)
        have o3: "content s3 j = content s j \<and> meta (eff s3 j) = meta (eff s j)" if "j < ninodes s" "j \<noteq> i" for j
          using others[OF that] content_cong[OF W(1), of j s3] f3[OF that(1)] m3[OF that(1)] that W(6) by simp
        have "addr s3 i MAXFILE = addr s1 i MAXFILE" using U(4)[OF i2, of MAXFILE] S2(5)[OF W(3)] by simp
        then have "room s3 st F i k" using r1 1(1,2) U(2) S2(2) e3(2) by (auto simp: room_def indneed_def)
        moreover have "icache s3 = (icache s)(c := (icache s c)\<lparr>i_addrs := X, i_size := off'\<rparr>)" using e3(1) X by simp
        moreover have "cached s3 c i" using S2(3) e3(1) by (simp add: cached_def)
        moreover have "fs_rest s3 = fs_rest s" using fs_rest_ext[OF 1(3)] W(5) by simp
        moreover have "held s3 = Map.empty" "fs_sb s3 = fs_sb s" using 1(2) W(4,6) e3(2) by simp_all
        ultimately show ?case using U(1) c3 o3 by (intro Q) blast+
      qed
      then show ?thesis using True by simp
    qed
  qed
  have "runs (writei_from c src ?n 0 off) s (\<lambda>off' s1. runs (whenk (0 < ?n \<and> i_size (icache s1 c) < off')
      (bnd (modify (upd_inode c (\<lambda>ip. ip\<lparr>i_size := off'\<rparr>))) (\<lambda>_. iupdate c))) s1 (\<lambda>_ s'. Q (int (length src)) s'))"
  proof (rule runs_writei_from[OF I c h un[symmetric], of 0 off F k], goal_cases)
    case (4 off' s1)
    then show ?case using step[of s1 off'] un by simp
  qed (use o r un in simp_all)
  then show ?thesis
    unfolding writei_def runs_bnd[of "gets _"] runs_gets Let_def if_not_P[OF nd] if_not_P[OF g1] runs_bnd[of "u32_add _ _"] runs_u32_add if_not_P[OF g2]
    using l32 by (simp add: ri)
qed

end
