(* ===== verification/Xv6_Icache.thy ===== *)
theory Xv6_Icache
  imports Xv6_Rw
begin

text \<open>
  The inode cache: \<open>iget\<close>, \<open>idup\<close>, \<open>ilock\<close> and \<open>iunlock\<close> change reference counts, locks and which
  inodes are cached, and never the logical state of the file system.
\<close>

section \<open>Steps that leave the disk alone\<close>

definition quiet :: "nat \<Rightarrow> 'z kfs_scheme \<Rightarrow> 'z kfs_scheme \<Rightarrow> bool" where
  "quiet st s s' \<longleftrightarrow> cache_abs s' = cache_abs s \<and> (\<forall>F k. tx s st F k \<longrightarrow> tx s' st F k) \<and> fs_sb s' = fs_sb s \<and>
     myproc s' = myproc s \<and> kfs.more s' = kfs.more s \<and> devsw_read s' = devsw_read s \<and> devsw_write s' = devsw_write s"

lemma kfs_ktrans [simp]:
  "icache (kacq lk s) = icache s" "icache (krel lk s) = icache s" "icache (kwake ch s) = icache s"
  "icache (sl_take l s) = icache s" "icache (sl_drop l s) = icache s"
  "fs_sb (kacq lk s) = fs_sb s" "fs_sb (krel lk s) = fs_sb s" "fs_sb (kwake ch s) = fs_sb s"
  "fs_sb (sl_take l s) = fs_sb s" "fs_sb (sl_drop l s) = fs_sb s"
  "devsw_read (kacq lk s) = devsw_read s" "devsw_read (krel lk s) = devsw_read s" "devsw_read (kwake ch s) = devsw_read s" "devsw_read (sl_take l s) = devsw_read s" "devsw_read (sl_drop l s) = devsw_read s"
  "devsw_write (kacq lk s) = devsw_write s" "devsw_write (krel lk s) = devsw_write s" "devsw_write (kwake ch s) = devsw_write s" "devsw_write (sl_take l s) = devsw_write s" "devsw_write (sl_drop l s) = devsw_write s"
  "kfs.more (kacq lk s) = kfs.more s" "kfs.more (krel lk s) = kfs.more s" "kfs.more (kwake ch s) = kfs.more s" "kfs.more (sl_take l s) = kfs.more s" "kfs.more (sl_drop l s) = kfs.more s"
  by (simp_all add: ktrans_defs)

lemma log_inv_cong_fields:
  assumes "cache_inv s' = cache_inv s" "cache_abs s' = cache_abs s" "lh_block s' = lh_block s" "lh_n s' = lh_n s"
    "lg_start s' = lg_start s" "lg_dev s' = lg_dev s"
  shows "log_inv s' st n = log_inv s st n"
  using assms by (simp add: log_inv_def log_layout_def logged_def[abs_def])

lemma tx_fields:
  assumes "cache_inv s' = cache_inv s" "cache_abs s' = cache_abs s" "lh_block s' = lh_block s" "lh_n s' = lh_n s"
    "lg_start s' = lg_start s" "lg_dev s' = lg_dev s" "lg_size s' = lg_size s" "lg_outstanding s' = lg_outstanding s"
  shows "tx s' st F k = tx s st F k"
  using assms log_inv_cong_fields[OF assms(1-6)] by (simp add: tx_def)

lemma cache_inode_lock [simp]:
  "cache_inv (sl_take (SlInode c) s) = cache_inv s" "cache_abs (sl_take (SlInode c) s) = cache_abs s"
  "cache_inv (sl_drop (SlInode c) s) = cache_inv s" "cache_abs (sl_drop (SlInode c) s) = cache_abs s"
proof -
  have l: "locked (sl_take (SlInode c) s) = locked s" "locked (sl_drop (SlInode c) s) = locked s"
    by (simp_all add: locked_def[abs_def])
  show "cache_inv (sl_take (SlInode c) s) = cache_inv s" "cache_abs (sl_take (SlInode c) s) = cache_abs s"
    "cache_inv (sl_drop (SlInode c) s) = cache_inv s" "cache_abs (sl_drop (SlInode c) s) = cache_abs s"
    by (simp_all add: cache_inv_def cache_abs_def l)
qed

lemma klog_slp [simp]:
  "lh_block (sl_take l s) = lh_block s" "lh_n (sl_take l s) = lh_n s" "lg_start (sl_take l s) = lg_start s"
  "lg_dev (sl_take l s) = lg_dev s" "lg_size (sl_take l s) = lg_size s" "lg_outstanding (sl_take l s) = lg_outstanding s"
  "lh_block (sl_drop l s) = lh_block s" "lh_n (sl_drop l s) = lh_n s" "lg_start (sl_drop l s) = lg_start s"
  "lg_dev (sl_drop l s) = lg_dev s" "lg_size (sl_drop l s) = lg_size s" "lg_outstanding (sl_drop l s) = lg_outstanding s"
  by (simp_all add: ktrans_defs)

lemma tx_ktrans [simp]:
  "tx (kacq lk s) st F k = tx s st F k" "tx (krel lk s) st F k = tx s st F k" "tx (kwake ch s) st F k = tx s st F k"
  "tx (sl_take (SlInode c) s) st F k = tx s st F k" "tx (sl_drop (SlInode c) s) st F k = tx s st F k"
  by (rule tx_fields; simp)+

lemma quiet_refl [simp, intro]: "quiet st s s"
  by (simp add: quiet_def)

lemma quiet_trans: "quiet st s s' \<Longrightarrow> quiet st s' s'' \<Longrightarrow> quiet st s s''"
  by (simp add: quiet_def)

lemma quiet_steps [intro]:
  "quiet st s t \<Longrightarrow> quiet st s (kacq lk t)" "quiet st s t \<Longrightarrow> quiet st s (krel lk t)" "quiet st s t \<Longrightarrow> quiet st s (kwake ch t)"
  "quiet st s t \<Longrightarrow> quiet st s (sl_take (SlInode c) t)" "quiet st s t \<Longrightarrow> quiet st s (sl_drop (SlInode c) t)" "quiet st s t \<Longrightarrow> quiet st s (upd_inode c f t)"
proof -
  have q: "quiet st t (kacq lk t)" "quiet st t (krel lk t)" "quiet st t (kwake ch t)" "quiet st t (sl_take (SlInode c) t)" "quiet st t (sl_drop (SlInode c) t)"
    unfolding quiet_def by simp_all
  have u: "quiet st t (upd_inode c f t)" unfolding quiet_def by (simp add: upd_inode_def)
  show "quiet st s t \<Longrightarrow> quiet st s (kacq lk t)" "quiet st s t \<Longrightarrow> quiet st s (krel lk t)" "quiet st s t \<Longrightarrow> quiet st s (kwake ch t)"
    "quiet st s t \<Longrightarrow> quiet st s (sl_take (SlInode c) t)" "quiet st s t \<Longrightarrow> quiet st s (sl_drop (SlInode c) t)" "quiet st s t \<Longrightarrow> quiet st s (upd_inode c f t)"
    using q u by (blast intro: quiet_trans)+
qed

text \<open>Changes to the cache of inodes that keep what is cached keep the logical state.\<close>

lemma icache_frame:
  fixes s s' :: "'z kfs_scheme"
  assumes I: "fs_inv s st" and e: "view s' = view s" "fs_sb s' = fs_sb s" "icache_ok s'"
    and c: "\<And>j. j < ninodes s \<Longrightarrow> eff s' j = eff s j"
  shows "fs_inv s' st" "same_files s s'" "nfree s' = nfree s" "j < ninodes s \<Longrightarrow> addr s' j = addr s j"
proof -
  have ad: "addr s' j = addr s j" if "j < ninodes s" for j using c[OF that] e(1) by simp
  show "j < ninodes s \<Longrightarrow> addr s' j = addr s j" using ad .
  show "same_files s s'" unfolding same_files_def using c e ad fblk_cong[OF fun_cong[OF ad] e(1)] by simp
  show "nfree s' = nfree s" using e by (simp add: nfree_def)
  have "refs_ok (fs_sb s') (addr s') (used (view s') (fs_sb s'))"
    using fs_invD(4)[OF I] ad unfolding e(1,2) refs_ok_def by auto
  then show "fs_inv s' st" using fs_invD[OF I] e c ad unfolding fs_inv_def by simp
qed

lemma eff_uncached: "(\<And>c. c < NINODE \<Longrightarrow> \<not> cached s c i) \<Longrightarrow> eff s i = disk_inode s i"
  by (auto simp: eff_def find_None_iff[THEN iffD2] split: option.split dest: find_Some_iff[THEN iffD1])

lemma eff_eqI:
  fixes s s' :: "'z kfs_scheme"
  assumes ok: "icache_ok s" "icache_ok s'" and e: "view s' = view s" "fs_sb s' = fs_sb s"
    and c: "\<And>c. cached s c i \<Longrightarrow> cached s' c i \<and> to_dinode (icache s' c) = to_dinode (icache s c)"
    and n: "\<And>c. cached s' c i \<Longrightarrow> cached s c i \<or> ((\<forall>c'. \<not> cached s c' i) \<and> to_dinode (icache s' c) = disk_inode s i)"
  shows "eff s' i = eff s i"
proof (cases "\<exists>c. cached s' c i")
  case True
  then obtain c where c': "cached s' c i" by auto
  show ?thesis
  proof (cases "cached s c i")
    case True
    then show ?thesis using c[OF True] eff_cached[OF ok(1) True] eff_cached[OF ok(2) c'] by simp
  next
    case False
    then show ?thesis using n[OF c'] eff_cached[OF ok(2) c'] eff_uncached[of s i] by auto
  qed
next
  case False
  then have "eff s' i = disk_inode s' i" "eff s i = disk_inode s i" using c eff_uncached by blast+
  then show ?thesis using e by (simp add: disk_inode_def)
qed

section \<open>Getting and locking inodes\<close>

definition slot_of :: "'z kfs_scheme \<Rightarrow> nat \<Rightarrow> nat option" where
  "slot_of s i = find (\<lambda>c. 0 < i_ref (icache s c) \<and> i_dev (icache s c) = ROOTDEV \<and> i_inum (icache s c) = of_nat i) [0..<NINODE]"

text \<open>The outcome of \<open>iget\<close>: slot \<open>c\<close> refers to inode \<open>i\<close> and has gained a reference.\<close>

definition got :: "'z kfs_scheme \<Rightarrow> 'z kfs_scheme \<Rightarrow> nat \<Rightarrow> nat \<Rightarrow> nat \<Rightarrow> bool" where
  "got s s' st i c \<longleftrightarrow> quiet st s s' \<and> (\<forall>x. slp s' (SlInode x) = slp s (SlInode x)) \<and> fs_inv s' st \<and> same_files s s' \<and> nfree s' = nfree s \<and>
     (\<forall>j < ninodes s. eff s' j = eff s j) \<and> c < NINODE \<and>
     (\<forall>c'. c' \<noteq> c \<longrightarrow> icache s' c' = icache s c') \<and>
     i_dev (icache s' c) = ROOTDEV \<and> i_inum (icache s' c) = of_nat i \<and>
     (case slot_of s i of Some c' \<Rightarrow> c' = c \<and> icache s' c = (icache s c)\<lparr>i_ref := i_ref (icache s c) + 1\<rparr>
      | None \<Rightarrow> i_ref (icache s c) = 0 \<and> i_ref (icache s' c) = 1 \<and> i_flags (icache s' c) = 0)"

lemma inode_flags_0: "\<not> inode_is_valid (ip\<lparr>i_flags := 0\<rparr>)" "i_flags ip = 0 \<Longrightarrow> \<not> inode_is_valid ip"
  by (simp_all add: inode_is_valid_def)

lemma got_hit:
  assumes I: "fs_inv s st" and c: "slot_of s i = Some c" and q: "quiet st s s'" "\<And>x. slp s' (SlInode x) = slp s (SlInode x)"
    and ic: "icache s' = (icache s)(c := (icache s c)\<lparr>i_ref := i_ref (icache s c) + 1\<rparr>)"
  shows "got s s' st i c"
proof -
  have v: "view s' = view s" "fs_sb s' = fs_sb s" using q(1) by (simp_all add: quiet_def)
  have k: "c < NINODE" "0 < i_ref (icache s c)" "i_dev (icache s c) = ROOTDEV" "i_inum (icache s c) = of_nat i"
    using c by (auto simp: slot_of_def find_Some_iff)
  have ok: "icache_ok s'" using fs_invD(3)[OF I] k(2) unfolding icache_ok_def ic by (auto split: if_splits)
  have "cached s' c' j = cached s c' j" for c' j using k(2) by (simp add: cached_def ic inode_is_valid_def)
  then have "eff s' j = eff s j" for j
    by (intro eff_eqI[OF fs_invD(3)[OF I] ok v]) (auto simp: ic to_dinode_def)
  then show ?thesis unfolding got_def using icache_frame[OF I v ok] q k c ic by simp
qed

lemma got_miss:
  assumes I: "fs_inv s st" and c: "slot_of s i = None" "c < NINODE" "i_ref (icache s c) = 0" and q: "quiet st s s'" "\<And>x. slp s' (SlInode x) = slp s (SlInode x)"
    and ic: "icache s' = (icache s)(c := (icache s c)\<lparr>i_dev := ROOTDEV, i_inum := of_nat i, i_ref := 1, i_flags := 0\<rparr>)"
  shows "got s s' st i c"
proof -
  have v: "view s' = view s" "fs_sb s' = fs_sb s" using q(1) by (simp_all add: quiet_def)
  have no: "\<not> (0 < i_ref (icache s c') \<and> i_dev (icache s c') = ROOTDEV \<and> i_inum (icache s c') = of_nat i)" if "c' < NINODE" for c'
    using c(1) that by (auto simp: slot_of_def find_None_iff)
  have ok: "icache_ok s'" using fs_invD(3)[OF I] no unfolding icache_ok_def ic by (auto split: if_splits) metis
  have "cached s' c' j = cached s c' j" for c' j
    using c(3) by (cases "c' = c") (simp_all add: cached_def ic inode_is_valid_def)
  moreover have "cached s c' j \<Longrightarrow> c' \<noteq> c" for c' j using c(3) by (auto simp: cached_def)
  ultimately have "eff s' j = eff s j" for j
    by (intro eff_eqI[OF fs_invD(3)[OF I] ok v]) (auto simp: ic)
  then show ?thesis unfolding got_def using icache_frame[OF I v ok] q c ic by simp
qed

lemma runs_iget:
  fixes s :: "'z kfs_scheme"
  assumes I: "fs_inv s st" and r: "\<And>c. slot_of s i = Some c \<Longrightarrow> i_ref (icache s c) < 2 ^ 31 - 1"
    and f: "slot_of s i = None \<Longrightarrow> \<exists>c < NINODE. i_ref (icache s c) = 0"
    and Q: "\<And>c s'. got s s' st i c \<Longrightarrow> Q c s'"
  shows "runs (iget ROOTDEV (of_nat i)) s Q"
proof (cases "slot_of s i")
  case (Some c)
  have k: "0 < i_ref (icache s c)" using Some by (auto simp: slot_of_def find_Some_iff)
  have "got s (krel LkIcache (upd_inode c (\<lambda>ip. ip\<lparr>i_ref := i_ref (icache s c) + 1\<rparr>) (kacq LkIcache s))) st i c"
    by (rule got_hit[OF I Some]) (auto intro!: quiet_steps)
  then have "Q c (krel LkIcache (upd_inode c (\<lambda>ip. ip\<lparr>i_ref := i_ref (icache s c) + 1\<rparr>) (kacq LkIcache s)))" by (rule Q)
  then show ?thesis using Some r[OF Some] k by (simp add: iget_def slot_of_def i32_range_def)
next
  case None
  then obtain c where c: "find (\<lambda>c. is_free (icache s c)) [0..<NINODE] = Some c" using f
    by (cases "find (\<lambda>c. is_free (icache s c)) [0..<NINODE]") (auto simp: find_None_iff is_free_def)
  then have k: "c < NINODE" "i_ref (icache s c) = 0" by (auto simp: find_Some_iff is_free_def)
  have "got s (krel LkIcache (upd_inode c (\<lambda>ip. ip\<lparr>i_dev := ROOTDEV, i_inum := of_nat i, i_ref := 1, i_flags := 0\<rparr>) (kacq LkIcache s))) st i c"
    by (rule got_miss[OF I None k]) (auto intro!: quiet_steps)
  from Q[OF this] show ?thesis using None c by (simp add: iget_def slot_of_def)
qed

text \<open>Reading a block inside a transaction is such a step.\<close>

lemma quiet_fields:
  fixes s s' :: "'z kfs_scheme"
  assumes "tx s' st F k" "cache_abs s' = cache_abs s" "lg_size s' = lg_size s" "lg_outstanding s' = lg_outstanding s"
    "fs_sb s' = fs_sb s" "myproc s' = myproc s" "kfs.more s' = kfs.more s" "devsw_read s' = devsw_read s" "devsw_write s' = devsw_write s"
  shows "quiet st s s'"
  using assms by (auto simp: quiet_def tx_def)

lemma quiet_tx:
  fixes s s' :: "'z kfs_scheme"
  assumes "tx s' st F k" "cache_abs s' = cache_abs s" "log_ext s' = log_ext s"
  shows "quiet st s s'"
  by (rule quiet_fields[OF assms(1,2)]) (use kfs_frame[OF assms(3)] log_ext_fields[OF assms(3)] in auto)

text \<open>Slot \<open>c\<close> holds a reference to inode \<open>i\<close>.\<close>

definition refers :: "'z kfs_scheme \<Rightarrow> nat \<Rightarrow> nat \<Rightarrow> bool" where
  "refers s c i \<longleftrightarrow> c < NINODE \<and> 0 < i_ref (icache s c) \<and> i_dev (icache s c) = ROOTDEV \<and> i_inum (icache s c) = of_nat i"

lemma cached_refers: "cached s c i \<longleftrightarrow> refers s c i \<and> inode_is_valid (icache s c)"
  by (auto simp: cached_def refers_def)

definition locked_inode :: "'z kfs_scheme \<Rightarrow> 'z kfs_scheme \<Rightarrow> nat \<Rightarrow> nat \<Rightarrow> nat \<Rightarrow> bool" where
  "locked_inode s s' st i c \<longleftrightarrow> quiet st s s' \<and> fs_inv s' st \<and> same_files s s' \<and> nfree s' = nfree s \<and>
     (\<forall>j < ninodes s. eff s' j = eff s j) \<and> cached s' c i \<and> sl_locked (slp s' (SlInode c)) = 1 \<and>
     (\<forall>c'. c' \<noteq> c \<longrightarrow> icache s' c' = icache s c' \<and> slp s' (SlInode c') = slp s (SlInode c')) \<and>
     i_ref (icache s' c) = i_ref (icache s c)"

lemma flags_valid [simp]: "inode_is_valid (inode_mark_valid ip)"
proof -
  have "(x OR 2) AND 2 = (2 :: int)" for x by (rule bit_eqI) (auto simp: bit_simps)
  then show ?thesis by (simp add: inode_is_valid_def inode_mark_valid_def I_VALID_def)
qed

lemma load_inode:
  fixes s s' :: "'z kfs_scheme"
  assumes I: "fs_inv s st" and c: "refers s c i" "i < ninodes s" "\<not> inode_is_valid (icache s c)"
    and e: "view s' = view s" "fs_sb s' = fs_sb s" "icache s' = (icache s)(c := inode_mark_valid (from_dinode (disk_inode s i) (icache s c)))"
  shows "cached s' c i" "icache_ok s'" "j < ninodes s \<Longrightarrow> eff s' j = eff s j"
proof -
  have same: "i_dev (icache s' x) = i_dev (icache s x)" "i_inum (icache s' x) = i_inum (icache s x)" "i_ref (icache s' x) = i_ref (icache s x)" for x
    by (simp_all add: e(3) inode_mark_valid_def from_dinode_def)
  have val: "inode_is_valid (icache s' x) \<longleftrightarrow> x = c \<or> inode_is_valid (icache s x)" for x by (simp add: e(3))
  show c': "cached s' c i" using c(1) by (simp add: cached_refers refers_def same val)
  show ok: "icache_ok s'" using fs_invD(3)[OF I] same by (simp add: icache_ok_def)
  have other: "cached s' x j = (cached s x j \<or> (x = c \<and> refers s c j))" for x j
    using c(3) by (auto simp: cached_refers refers_def same val)
  have u: "\<not> cached s x i" for x
  proof
    assume x: "cached s x i"
    then have "x = c" using fs_invD(3)[OF I, unfolded icache_ok_def, rule_format, of x c] c(1) by (simp add: cached_def refers_def)
    then show False using x c(3) by (simp add: cached_def)
  qed
  show "eff s' j = eff s j" if j: "j < ninodes s"
  proof (rule eff_eqI[OF fs_invD(3)[OF I] ok e(1,2)])
    fix x assume x: "cached s x j"
    then have "x \<noteq> c" using c(3) by (auto simp: cached_def)
    then show "cached s' x j \<and> to_dinode (icache s' x) = to_dinode (icache s x)" using x other e(3) by simp
  next
    fix x assume x: "cached s' x j"
    show "cached s x j \<or> ((\<forall>c'. \<not> cached s c' j) \<and> to_dinode (icache s' x) = disk_inode s j)"
    proof (cases "cached s x j")
      case False
      then have "x = c" "refers s c j" using x other by auto
      then have "j = i" using c(1,2) j of_nat_inum_inj[of j "fs_sb s" i] by (auto simp: refers_def)
      then show ?thesis using u \<open>x = c\<close> by (simp add: e(3) to_dinode_def inode_mark_valid_def from_dinode_def)
    qed simp
  qed
qed

lemma runs_ilock:
  fixes s :: "'z kfs_scheme"
  assumes I: "fs_inv s st" and c: "refers s c i" "i < ninodes s" and l: "sl_locked (slp s (SlInode c)) = 0"
    and t: "tx s st F k" and h: "held s (iblk (fs_sb s) i) = None" "card (dom (held s)) \<le> 1" and ty: "di_type (eff s i) \<noteq> 0"
    and Q: "\<And>s'. locked_inode s s' st i c \<Longrightarrow> Q () s'"
  shows "runs (ilock (Some c)) s Q"
proof -
  let ?s1 = "krel (LkInner (SlInode c)) (sl_take (SlInode c) (kacq (LkInner (SlInode c)) s))"
  have q1: "quiet st s ?s1" by (auto intro!: quiet_steps)
  have my: "myproc s \<noteq> None" using tx_cache[OF t] by (simp add: cache_inv_def)
  have r: "1 \<le> i_ref (icache s c)" using c(1) by (simp add: refers_def)
  have sl: "sl_locked (slp ?s1 (SlInode c)) = 1" "c' \<noteq> c \<Longrightarrow> slp ?s1 (SlInode c') = slp s (SlInode c')" for c' by simp_all
  show ?thesis
  proof (cases "inode_is_valid (icache s c)")
    case True
    have "locked_inode s ?s1 st i c" unfolding locked_inode_def
      using q1 fs_same[OF I, of ?s1] c(1) True by (simp add: cached_refers refers_def)
    then show ?thesis using True r my l Q by (simp add: ilock_def runs_acquiresleep)
  next
    case False
    note g = fs_invD(1)[OF I]
    have t1: "tx ?s1 st F k" using t by simp
    have n: "i_inum (icache s c) = of_nat i" "unat (of_nat i :: u32) = i" "i_dev (icache s c) = ROOTDEV"
      using c unsigned_less[of "sb_ninodes (fs_sb s)", where 'a = nat] by (auto simp: refers_def intro!: unat_of_nat_u32)
    have u: "eff s i = disk_inode s i"
    proof (rule eff_uncached)
      fix x show "\<not> cached s x i"
        using fs_invD(3)[OF I, unfolded icache_ok_def, rule_format, of x c] c(1) False by (auto simp: cached_def refers_def)
    qed
    have "runs (bread ROOTDEV (iblk (fs_sb s) i)) ?s1 (\<lambda>buf s2. buf_data s2 buf = view s (iblk (fs_sb s) i) \<and>
        runs (brelse buf) (upd_inode c (\<lambda>ip. inode_mark_valid (from_dinode (disk_inode s i) ip)) s2) Q)"
    proof (rule tx_bread[OF t1 iblk_unat(3)[OF g c(2)]], goal_cases)
      case (3 buf s2)
      note e2 = kfs_frame[OF 3(3)]
      let ?s3 = "upd_inode c (\<lambda>ip. inode_mark_valid (from_dinode (disk_inode s i) ip)) s2"
      have "runs (brelse buf) ?s3 Q"
      proof (rule tx_brelse[of ?s3 st F k "iblk (fs_sb s) i"], goal_cases)
        case (4 s4)
        note e4 = kfs_frame[OF 4(3)]
        have ic: "icache s4 = (icache s)(c := inode_mark_valid (from_dinode (disk_inode s i) (icache s c)))" using e4(1) e2(1) by simp
        have ca: "cache_abs s4 = cache_abs s" using 4(2) 3(2) h(1) by (simp add: fun_upd_idem)
        note L = load_inode[OF I c False, of s4] 
        have v: "view s4 = view s" "fs_sb s4 = fs_sb s" using ca e4(2) e2(2) by simp_all
        note L = L[OF v ic]
        note F = icache_frame[OF I v L(2,3)]
        have slp4: "slp s4 (SlInode x) = slp ?s1 (SlInode x)" "myproc s4 = myproc s" for x
          using log_ext_fields(5,6)[OF 4(3)] log_ext_fields(5,6)[OF 3(3)] by simp_all
        have "quiet st s s4"
          by (rule quiet_fields[OF 4(1) ca]) (use log_ext_fields(1,2)[OF 4(3)] log_ext_fields(1,2)[OF 3(3)] v slp4 e4 e2 in \<open>simp_all add: upd_inode_def\<close>)
        then have "locked_inode s s4 st i c" unfolding locked_inode_def
          using F(1-3) L(1,3) sl slp4(1) ic by (auto simp: inode_mark_valid_def from_dinode_def)
        then show ?case by (rule Q)
      qed (use 3 h tx_clean[OF t h(1)] in \<open>auto simp: bc.unheld\<close>)
      then show ?case using 3(4) by simp
    qed (use h in simp_all)
    then have "runs (bread ROOTDEV (iblk (fs_sb s) i)) ?s1 (\<lambda>buf s2. runs (bnd (gets (\<lambda>s. get_dinode (buf_data s buf) (i mod IPB))) (\<lambda>d.
        bnd (modify (upd_inode c (\<lambda>ip. inode_mark_valid (from_dinode d ip)))) (\<lambda>_.
        bnd (guardk (di_type d \<noteq> 0) (Panic ''ilock: no type'')) (\<lambda>_. brelse buf)))) s2 Q)"
      by (rule runs_mono) (use ty u in \<open>auto simp: disk_inode_def\<close>)
    then show ?thesis using False r my l n by (simp add: ilock_def runs_acquiresleep runs_iblock[OF g c(2)])
  qed
qed

text \<open>Reading blocks first makes no difference to \<open>iget\<close>.\<close>

lemma got_after:
  fixes s s1 s' :: "'z kfs_scheme"
  assumes I: "fs_inv s st" and e: "tx s1 st F k" "cache_abs s1 = cache_abs s" "log_ext s1 = log_ext s" and g: "got s1 s' st i c"
  shows "got s s' st i c"
proof -
  note fr = kfs_frame[OF e(3)]
  have v: "view s1 = view s" using e(2) by simp
  note S = fs_same[OF I v fr(1,2)]
  have "slot_of s1 i = slot_of s i" by (simp add: slot_of_def fr(1))
  then show ?thesis
    using g quiet_trans[OF quiet_tx[OF e]] S fr log_ext_fields(6)[OF e(3)] same_files_trans[of s s1 s']
    unfolding got_def by (auto split: option.splits)
qed

section \<open>Unlocking and giving back\<close>

text \<open>The outcome of dropping a reference without freeing the inode.\<close>

definition dropped :: "'z kfs_scheme \<Rightarrow> 'z kfs_scheme \<Rightarrow> nat \<Rightarrow> nat \<Rightarrow> bool" where
  "dropped s s' st c \<longleftrightarrow> quiet st s s' \<and> (\<forall>x. slp s' (SlInode x) = slp s (SlInode x)) \<and> fs_inv s' st \<and> same_files s s' \<and> nfree s' = nfree s \<and>
     (\<forall>j < ninodes s. eff s' j = eff s j) \<and> icache s' = (icache s)(c := (icache s c)\<lparr>i_ref := i_ref (icache s c) - 1\<rparr>)"

lemma runs_iput_keep:
  fixes s :: "'z kfs_scheme"
  assumes I: "fs_inv s st" and c: "refers s c i" "i < ninodes s" and keep: "i_ref (icache s c) \<noteq> 1 \<or> \<not> inode_is_valid (icache s c) \<or> i_nlink (icache s c) \<noteq> 0"
    and sync: "i_ref (icache s c) = 1 \<Longrightarrow> eff s i = disk_inode s i" and b: "i_ref (icache s c) < 2 ^ 31"
    and Q: "\<And>s'. dropped s s' st c \<Longrightarrow> Q () s'"
  shows "runs (iput c) s Q"
proof -
  let ?r = "i_ref (icache s c)"
  let ?s' = "krel LkIcache (upd_inode c (\<lambda>ip. ip\<lparr>i_ref := ?r - 1\<rparr>) (kacq LkIcache s))"
  have ic: "icache ?s' = (icache s)(c := (icache s c)\<lparr>i_ref := ?r - 1\<rparr>)" by simp
  have r: "0 < ?r" "c < NINODE" using c(1) by (simp_all add: refers_def)
  have v: "view ?s' = view s" "fs_sb ?s' = fs_sb s" by simp_all
  have ok: "icache_ok ?s'" using fs_invD(3)[OF I] r(1) unfolding icache_ok_def ic by (auto split: if_splits)
  have ca: "cached ?s' x j \<longleftrightarrow> cached s x j \<and> (x = c \<longrightarrow> 1 < ?r)" for x j by (auto simp: cached_def inode_is_valid_def)
  have "eff ?s' j = eff s j" if j: "j < ninodes s" for j
  proof (cases "?r = 1 \<and> j = i")
    case True
    have "\<not> cached ?s' x i" for x
    proof
      assume x: "cached ?s' x i"
      then have "cached s x i" "x = c \<longrightarrow> 1 < ?r" using ca by blast+
      moreover have "x = c" using fs_invD(3)[OF I, unfolded icache_ok_def, rule_format, of x c] c(1) \<open>cached s x i\<close> by (simp add: cached_def refers_def)
      ultimately show False using True by simp
    qed
    then have "eff ?s' i = disk_inode ?s' i" by (intro eff_uncached)
    then show ?thesis using True sync v by (simp add: disk_inode_def)
  next
    case False
    show ?thesis
    proof (rule eff_eqI[OF fs_invD(3)[OF I] ok v])
      fix x assume x: "cached s x j"
      have "1 < ?r" if "x = c"
      proof -
        have "j = i" using x c j of_nat_inum_inj[of j "fs_sb s" i] that by (auto simp: cached_def refers_def)
        then show ?thesis using False r(1) by simp
      qed
      then show "cached ?s' x j \<and> to_dinode (icache ?s' x) = to_dinode (icache s x)" using x ca by (auto simp: to_dinode_def)
    qed (use ca in blast)
  qed
  note F = icache_frame[OF I v ok this]
  have "dropped s ?s' st c" unfolding dropped_def using F(1-3) ic \<open>\<And>j. j < ninodes s \<Longrightarrow> eff ?s' j = eff s j\<close>
    by (auto intro!: quiet_steps)
  from Q[OF this] show ?thesis using keep r b by (auto simp: iput_def i32_range_def)
qed

definition unlocked_inode :: "'z kfs_scheme \<Rightarrow> 'z kfs_scheme \<Rightarrow> nat \<Rightarrow> bool" where
  "unlocked_inode s s' c \<longleftrightarrow> (\<forall>st. quiet st s s') \<and> icache s' = icache s \<and> sl_locked (slp s' (SlInode c)) = 0 \<and>
     (\<forall>x. x \<noteq> c \<longrightarrow> slp s' (SlInode x) = slp s (SlInode x))"

lemma runs_iunlock:
  fixes s :: "'z kfs_scheme"
  assumes "sl_locked (slp s (SlInode c)) \<noteq> 0" "1 \<le> i_ref (icache s c)" and Q: "\<And>s'. unlocked_inode s s' c \<Longrightarrow> Q () s'"
  shows "runs (iunlock (Some c)) s Q"
proof -
  let ?l = "LkInner (SlInode c)"
  let ?s' = "krel ?l (krel LkPtable (kwake (ChSleeplock (SlInode c)) (kacq LkPtable (sl_drop (SlInode c) (kacq ?l (krel ?l (kacq ?l s)))))))"
  have "unlocked_inode s ?s' c" unfolding unlocked_inode_def by (auto intro!: quiet_steps)
  from Q[OF this] show ?thesis using assms(1,2) by (simp add: iunlock_def runs_holdingsleep runs_releasesleep)
qed

lemma runs_idup:
  fixes s :: "'z kfs_scheme"
  assumes I: "fs_inv s st" and c: "refers s c i" "i_ref (icache s c) < 2 ^ 31 - 1"
    and Q: "\<And>s'. got s s' st i c \<Longrightarrow> Q c s'"
  shows "runs (idup c) s Q"
proof -
  let ?s' = "krel LkIcache (upd_inode c (\<lambda>ip. ip\<lparr>i_ref := i_ref (icache s c) + 1\<rparr>) (kacq LkIcache s))"
  have k: "c < NINODE" "0 < i_ref (icache s c)" "i_dev (icache s c) = ROOTDEV" "i_inum (icache s c) = of_nat i"
    using c(1) by (simp_all add: refers_def)
  have "slot_of s i = Some c"
  proof (cases "slot_of s i")
    case None
    then show ?thesis using k by (auto simp: slot_of_def find_None_iff)
  next
    case (Some x)
    then have "x < NINODE" "0 < i_ref (icache s x)" "i_dev (icache s x) = ROOTDEV" "i_inum (icache s x) = of_nat i"
      by (auto simp: slot_of_def find_Some_iff)
    then show ?thesis using Some fs_invD(3)[OF I, unfolded icache_ok_def, rule_format, of x c] k by simp
  qed
  then have "got s ?s' st i c" by (rule got_hit[OF I]) (auto intro!: quiet_steps)
  from Q[OF this] show ?thesis using c(2) k(2) by (simp add: idup_def i32_range_def)
qed

end
