(* ===== verification/Xv6_Content.thy ===== *)
theory Xv6_Content
  imports Xv6_Icache
begin

text \<open>
  What \<open>readi\<close> and \<open>writei\<close> do to files, with a small file system on which they run.
\<close>

section \<open>Reading\<close>

lemma slice_content:
  "off + m \<le> unat (di_size (eff s i)) \<Longrightarrow> map (fbyte s i) [off..<off + m] = slice off m (content s i)"
  by (intro nth_equalityI) (simp_all add: content_def slice_def)

lemma runs_readi:
  fixes s :: "'z kfs_scheme"
  assumes I: "fs_inv s st" and c: "cached s c i" "i < ninodes s" and h: "held s = Map.empty" and nd: "\<not> is_dev (icache s c)"
    and t: "tx s st F k" and o: "unat off \<le> unat (di_size (eff s i))" "unat off + unat n < 2 ^ 32"
    and Q: "\<And>s'. tx s' st F k \<Longrightarrow> cache_abs s' = cache_abs s \<Longrightarrow> log_ext s' = log_ext s \<Longrightarrow>
      Q (int (min (unat n) (unat (di_size (eff s i)) - unat off)), slice (unat off) (min (unat n) (unat (di_size (eff s i)) - unat off)) (content s i)) s'"
  shows "runs (readi c off n) s Q"
proof -
  note f = cached_facts[OF I c] and z = size_le[OF I c(2)]
  let ?z = "unat (di_size (eff s i))"
  have iz: "i_size (icache s c) = di_size (eff s i)" using f(1) by (simp add: to_dinode_def)
  have g: "\<not> (i_size (icache s c) < off \<or> off + n < off)"
    using o iz unat_u32_add[OF o(2)] by (auto simp: word_less_nat_alt)
  have sub: "unat (i_size (icache s c) - off) = ?z - unat off" using o(1) iz by (simp add: unat_sub word_le_nat_alt)
  let ?n = "min n (i_size (icache s c) - off)"
  have un: "unat ?n = min (unat n) (?z - unat off)" using sub by (simp add: min_def word_le_nat_alt)
  have le: "unat off + unat ?n \<le> ?z" using un o(1) by simp
  have "?n = of_nat (min (unat n) (?z - unat off))" using arg_cong[OF un, of "of_nat :: nat \<Rightarrow> u32"] by simp
  then have r: "i32_of_u32 ?n = int (min (unat n) (?z - unat off))" using z i32_of_u32_nat[of "min (unat n) (?z - unat off)"] by simp
  have "runs (readi_from c ?n 0 off) s (\<lambda>bs s'. Q (i32_of_u32 ?n, bs) s')"
    by (rule runs_readi_from[OF I c t h]) (use le Q slice_content[OF le] un r in simp_all)
  then show ?thesis unfolding readi_def runs_bnd[of "gets _"] runs_gets if_not_P[OF nd] if_not_P[OF g] Let_def by simp
qed

section \<open>A small file system\<close>

definition kfs_zero :: "(u32 \<Rightarrow> u8 list) \<Rightarrow> 'z \<Rightarrow> 'z kfs_scheme" where
  "kfs_zero d z = kcons_zero d \<lparr>icache = (\<lambda>_. inode_zero), fs_sb = sb_of (replicate BSIZE 0), devsw_read = Map.empty,
     devsw_write = Map.empty, \<dots> = z\<rparr>"

text \<open>The root directory is inode 1 and inode 2 a file; both are empty, and no data block is in use.\<close>

definition demo_inodes :: "u8 list" where
  "demo_inodes = put_dinode 2 (dinode_zero\<lparr>di_type := T_FILE, di_nlink := 1\<rparr>)
     (put_dinode 1 (dinode_zero\<lparr>di_type := T_DIR, di_nlink := 1\<rparr>) (replicate BSIZE 0))"

definition demo_bitmap :: "u8 list" where
  "demo_bitmap = fold set_bit_at [0..<59] (replicate BSIZE 0)"

definition demo_fs :: "u32 \<Rightarrow> u8 list" where
  "demo_fs bn = (if bn = 32 then demo_inodes else if bn = 58 then demo_bitmap else demo_disk bn)"

definition boot_fs :: "('z kfs_scheme, unit) kop" where
  "boot_fs = bnd boot_log (\<lambda>_. bnd (iinit 1) (\<lambda>_. begin_op))"

lemma demo_sb_fields [simp]:
  "sb_size demo_sb = 1000" "sb_ninodes demo_sb = 200" "sb_nlog demo_sb = 30" "sb_logstart demo_sb = 2"
  "sb_inodestart demo_sb = 32" "sb_bmapstart demo_sb = 58"
  by (simp_all add: demo_sb_def)

lemma get_dinode_zeros: "k < IPB \<Longrightarrow> get_dinode (replicate BSIZE 0) k = dinode_zero"
proof -
  assume "k < IPB"
  then have "slice (k * 64) 64 (replicate 512 0) = replicate 64 (0 :: u8)" by (simp add: slice_def min_def)
  moreover have "dinode_of (replicate 64 0) = dinode_zero" by code_simp
  ultimately show ?thesis by (simp add: get_dinode_def)
qed

lemma length_set_bits [simp]: "length (fold set_bit_at bs d) = length d"
  by (induction bs arbitrary: d) simp_all

lemma bit_at_demo_bitmap: "j < 4096 \<Longrightarrow> bit_at demo_bitmap j \<longleftrightarrow> j < 59"
proof -
  assume j: "j < 4096"
  have z: "\<not> bit_at (replicate BSIZE 0) j" using j by (simp add: bit_at_def less_mult_imp_div_less)
  have "bit_at (fold set_bit_at [0..<n] (replicate BSIZE 0)) j \<longleftrightarrow> j < n" if "n \<le> 4096" for n
    using that
  proof (induction n)
    case (Suc n)
    then show ?case using bit_at_set[of n "fold set_bit_at [0..<n] (replicate BSIZE 0)" j] by auto
  qed (use z in simp)
  then show ?thesis by (simp add: demo_bitmap_def del: upt_rec_numeral)
qed

lemma length_demo_fs: "length (demo_fs a) = BSIZE"
  by (simp add: demo_fs_def demo_inodes_def demo_bitmap_def length_demo_disk dinode_zero_def del: upt_rec_numeral)

definition demo_inode :: "nat \<Rightarrow> dinode" where
  "demo_inode i = (if i = 1 then dinode_zero\<lparr>di_type := T_DIR, di_nlink := 1\<rparr> else
     if i = 2 then dinode_zero\<lparr>di_type := T_FILE, di_nlink := 1\<rparr> else dinode_zero)"

lemma get_demo_inodes: "k < IPB \<Longrightarrow> get_dinode demo_inodes k = demo_inode k"
  unfolding demo_inodes_def using get_dinode_zeros[of k]
  by (simp add: get_put_dinode dinode_zero_def demo_inode_def)

lemma demo_disk_inode: "i < 200 \<Longrightarrow> get_dinode (demo_fs (iblk demo_sb i)) (i mod IPB) = demo_inode i"
proof -
  assume i: "i < 200"
  then have b: "iblk demo_sb i = of_nat (32 + i div 8)" by (simp add: iblk_def)
  have u: "unat (iblk demo_sb i) = 32 + i div 8" unfolding b using i by (intro unat_of_nat_u32) simp
  have ne: "iblk demo_sb i \<noteq> 58" "iblk demo_sb i \<noteq> 1" using u i by auto
  show ?thesis
  proof (cases "i < 8")
    case True
    then show ?thesis using b get_demo_inodes[of i] by (simp add: demo_fs_def)
  next
    case False
    then have "iblk demo_sb i \<noteq> 32" using u by auto
    then have "demo_fs (iblk demo_sb i) = replicate BSIZE 0" using ne by (simp add: demo_fs_def demo_disk_def)
    moreover have "demo_inode i = dinode_zero" using False by (simp add: demo_inode_def)
    ultimately show ?thesis using get_dinode_zeros[of "i mod 8"] by simp
  qed
qed

text \<open>The state of a kernel that runs on this disk.\<close>

definition demo_up :: "'z kfs_scheme \<Rightarrow> bool" where
  "demo_up s \<longleftrightarrow> fs_inv s 2 \<and> fs_sb s = demo_sb \<and> held s = Map.empty \<and> dirty s = {} \<and> (\<exists>n. log_inv s 2 n) \<and> lg_outstanding s = 1 \<and> lg_size s = 30 \<and>
     (\<forall>c. i_ref (icache s c) = 0) \<and> (\<forall>c < NINODE. sl_locked (slp s (SlInode c)) = 0) \<and> nfree s = 941 \<and> (\<forall>i < 200. eff s i = demo_inode i)"

lemma demo_tx: "demo_up s \<Longrightarrow> finite F \<Longrightarrow> card F + k < LOGCAP \<Longrightarrow> tx s 2 F k"
  by (auto simp: demo_up_def tx_def)

lemma demo_view:
  assumes v: "\<And>x. x \<noteq> 2 \<Longrightarrow> view s x = demo_fs x" and e: "fs_sb s = demo_sb" "\<And>c. i_ref (icache s c) = 0"
  shows "fs_inv s 2" "nfree s = 941" "i < 200 \<Longrightarrow> eff s i = demo_inode i"
proof -
  have eff: "eff s i = demo_inode i" if i: "i < 200" for i
  proof -
    have "eff s i = disk_inode s i" by (rule eff_uncached) (simp add: cached_def e(2))
    moreover have "iblk demo_sb i \<noteq> 2"
      using iblk_unat(1)[of demo_sb 2 i] i by (auto simp: fs_geom_def)
    ultimately show ?thesis using v[of "iblk demo_sb i"] demo_disk_inode[OF i] e(1) by (simp add: disk_inode_def)
  qed
  then show "i < 200 \<Longrightarrow> eff s i = demo_inode i" .
  have ad: "addr s i p = 0" if "i < 200" "p \<le> MAXFILE" for i p
    using eff[OF that(1)] that(2) by (auto simp: faddr_def demo_inode_def dinode_zero_def nth_Cons split: nat.split)
  have us: "used (view s) demo_sb b \<longleftrightarrow> b < 59" if "b < 4096" for b
    using v[of 58] bit_at_demo_bitmap[OF that] by (simp add: used_def demo_fs_def)
  have "{b. b < 1000 \<and> \<not> used (view s) demo_sb b} = {59..<1000}" using us by auto
  then show "nfree s = 941" by (simp add: nfree_def e(1))
  have g: "fs_geom demo_sb 2" by (simp add: fs_geom_def)
  have "refs_ok demo_sb (addr s) (used (view s) demo_sb)" using ad us unfolding refs_ok_def by auto
  moreover have "icache_ok s" by (simp add: icache_ok_def e(2))
  moreover have "sb_of (view s 1) = demo_sb" using v[of 1] demo_disk_facts(1) by (simp add: demo_fs_def)
  moreover have "inode_ok (view s) (eff s i)" if "i < 200" for i
    using eff[OF that] by (simp add: inode_ok_def demo_inode_def dinode_zero_def)
  ultimately show "fs_inv s 2" using g by (simp add: fs_inv_def e(1))
qed

section \<open>Bringing it up\<close>

text \<open>The parts of the kernel that \<open>iinit\<close> keeps.\<close>

definition kept :: "'z kfs_scheme \<Rightarrow> 'z kfs_scheme \<Rightarrow> bool" where
  "kept s s' \<longleftrightarrow> cache_abs s' = cache_abs s \<and> (cache_inv s \<longrightarrow> cache_inv s') \<and> kfs.more s' = kfs.more s \<and> icache s' = icache s \<and>
     lg_size s' = lg_size s \<and> lg_outstanding s' = lg_outstanding s \<and> lg_committing s' = lg_committing s \<and> lh_n s' = lh_n s \<and>
     lh_block s' = lh_block s \<and> lg_start s' = lg_start s \<and> lg_dev s' = lg_dev s"

lemma kept_log: "kept s s' \<Longrightarrow> log_inv s st n \<Longrightarrow> log_inv s' st n"
proof -
  assume k: "kept s s'" and l: "log_inv s st n"
  then have "cache_inv s" by (simp add: log_inv_def)
  then show ?thesis using k l log_inv_cong_fields[of s' s st n] by (simp add: kept_def)
qed

lemma cache_sl_init [simp]:
  "cache_inv (sl_init (SlInode c) nm s) = cache_inv s" "cache_abs (sl_init (SlInode c) nm s) = cache_abs s"
proof -
  have l: "locked (sl_init (SlInode c) nm s) = locked s" by (simp add: locked_def[abs_def])
  show "cache_inv (sl_init (SlInode c) nm s) = cache_inv s" "cache_abs (sl_init (SlInode c) nm s) = cache_abs s"
    by (simp_all add: cache_inv_def cache_abs_def l) (simp add: sl_init_def lru_def)+
qed

lemma kept_sl_init: "kept s t \<Longrightarrow> kept s (sl_init (SlInode c) nm t)"
  unfolding kept_def by (simp) (simp add: sl_init_def)

lemma runs_iinit:
  fixes s :: "'z kfs_scheme"
  assumes s: "cache_inv s" "held s = Map.empty" "dirty s = {}"
    and Q: "\<And>s'. kept s s' \<Longrightarrow> fs_sb s' = sb_of (view s 1) \<Longrightarrow> (\<And>c. c < NINODE \<Longrightarrow> sl_locked (slp s' (SlInode c)) = 0) \<Longrightarrow> Q () s'"
  shows "runs (iinit 1) s Q"
proof -
  let ?s0 = "s\<lparr>spin := (spin s)(LkIcache := (spin s LkIcache)\<lparr>lk_locked := 0, lk_name := ''icache'', lk_cpu := None\<rparr>)\<rparr>"
  let ?I = "\<lambda>cs t. kept s t \<and> (\<forall>c < NINODE. c \<notin> set cs \<longrightarrow> sl_locked (slp t (SlInode c)) = 0)"
  have k0: "kept s ?s0" by (simp add: kept_def)
  have loop: "runs (for_each (\<lambda>i. initsleeplock (SlInode i) ''inode'') [0..<NINODE]) ?s0 (\<lambda>_ t. ?I [] t)"
    by (rule runs_for_each[where I = ?I]) (use k0 kept_sl_init in auto)
  have "runs (readsb 1) t (\<lambda>sb t'. Q () (t'\<lparr>fs_sb := sb\<rparr>))" if t: "?I [] t" for t :: "'z kfs_scheme"
  proof (rule runs_readsb, goal_cases)
    case (4 t')
    have "kept t (t'\<lparr>fs_sb := sb_of (view t 1)\<rparr>)"
      using 4 klog_frame[OF 4(3)] log_ext_cache[OF 4(3)] kfs_frame[of t' t] by (simp add: kept_def)
    then have "kept s (t'\<lparr>fs_sb := sb_of (view t 1)\<rparr>)" using t by (auto simp: kept_def)
    moreover have "slp t' (SlInode c) = slp t (SlInode c)" for c using 4(3) by (auto simp: cache_ext_def fun_eq_iff)
    ultimately show ?case using t by (intro Q) (auto simp: kept_def)
  qed (use t s in \<open>auto simp: kept_def NBUF_def\<close>)
  then show ?thesis using runs_mono[OF loop] by (simp add: iinit_def initlock_def)
qed

lemma klog_more_kfs:
  fixes s s' :: "'z kfs_scheme"
  assumes "klog.more s' = klog.more s"
  shows "icache s' = icache s" "kfs.more s' = kfs.more s"
  using assms by (cases s; cases s'; simp)+

lemma runs_boot_fs:
  fixes z :: 'z
  shows "runs boot_fs (kfs_zero demo_fs z) (\<lambda>_ s. demo_up s \<and> kfs.more s = z)"
proof -
  let ?z = "kfs_zero demo_fs z"
  have up: "runs (bnd (iinit 1) (\<lambda>_. begin_op)) t (\<lambda>_ s. demo_up s \<and> kfs.more s = z)"
    if t: "log_inv t 2 0" "held t = Map.empty" "lg_outstanding t = 0" "\<not> lg_committing t" "lg_size t = 30" "klog.more t = klog.more ?z"
      "\<And>x. x \<noteq> 2 \<Longrightarrow> view t x = demo_fs x" for t :: "'z kfs_scheme"
    unfolding runs_bnd
  proof (rule runs_iinit, goal_cases)
    case (4 s)
    have L: "log_inv s 2 0" by (rule kept_log[OF 4(1) t(1)])
    let ?s' = "krel LkLog ((kacq LkLog s)\<lparr>lg_outstanding := 1\<rparr>)"
    have k: "icache s = (\<lambda>_. inode_zero)" "kfs.more s = z"
      using klog_more_kfs[OF t(6)] 4(1) by (simp_all add: kept_def kfs_zero_def kcons_zero_def klog_zero_def kbuf_zero_def kern_zero_def)
    have sb: "fs_sb s = demo_sb" using 4(2) t(7)[of 1] demo_disk_facts(1) by (simp add: demo_fs_def)
    have ca: "cache_abs ?s' = cache_abs s" by simp
    have v: "view ?s' x = demo_fs x" if "x \<noteq> 2" for x using 4(1) t(7)[OF that] ca by (simp add: kept_def)
    have D: "fs_inv ?s' 2" "nfree ?s' = 941" "\<And>i. i < 200 \<Longrightarrow> eff ?s' i = demo_inode i"
      by (rule demo_view[OF v]; simp add: sb k inode_zero_def)+
    have "log_inv ?s' 2 0" using log_inv_cong_fields[of ?s' s 2 0] L by simp
    moreover have "dirty s = {}" using L by (simp add: log_inv_def)
    moreover have "held s = Map.empty" "lg_size s = 30" "lg_outstanding s = 0" "\<not> lg_committing s" "lh_n s = 0"
      using 4(1) t L by (simp_all add: kept_def log_inv_def)
    ultimately have "demo_up ?s' \<and> kfs.more ?s' = z"
      unfolding demo_up_def using D sb k 4(3) by (auto simp: inode_zero_def)
    then show ?case using \<open>\<not> lg_committing s\<close> \<open>lg_outstanding s = 0\<close> \<open>lh_n s = 0\<close> by (simp add: runs_begin_op)
  qed (use t in \<open>auto simp: log_inv_def\<close>)
  have b: "runs boot_log ?z (\<lambda>_ t. log_inv t 2 0 \<and> held t = Map.empty \<and> lg_outstanding t = 0 \<and> \<not> lg_committing t \<and>
      lg_size t = i32_of_u32 (sb_nlog (sb_of (demo_fs 1))) \<and> klog.more t = klog.more ?z \<and>
      (\<forall>x. x \<noteq> of_nat 2 \<longrightarrow> view t x = demo_fs x \<and> cs_media (cache_abs t) x = demo_fs x))"
  proof -
    have e: "?z = klog_zero demo_fs (klog.more ?z)" by (simp add: kfs_zero_def kcons_zero_def klog_zero_def kbuf_zero_def kern_zero_def)
    show ?thesis
      by (subst e, rule runs_boot_log) (use length_demo_fs demo_disk_facts in \<open>simp_all add: demo_fs_def demo_disk_def demo_sb_def\<close>)
  qed
  have "i32_of_u32 (sb_nlog (sb_of (demo_fs 1))) = 30"
    using demo_disk_facts(1) i32_of_u32_nat[of 30] by (simp add: demo_fs_def)
  then show ?thesis unfolding boot_fs_def runs_bnd[of boot_log] by (intro runs_mono[OF b] up) auto
qed

definition open_inode :: "nat \<Rightarrow> ('z kfs_scheme, nat) kop" where
  "open_inode i = bnd (iget ROOTDEV (of_nat i)) (\<lambda>c. bnd (ilock (Some c)) (\<lambda>_. ret c))"

definition demo_open :: "'z kfs_scheme \<Rightarrow> nat \<Rightarrow> nat \<Rightarrow> bool" where
  "demo_open s i c \<longleftrightarrow> fs_inv s 2 \<and> fs_sb s = demo_sb \<and> held s = Map.empty \<and> cached s c i \<and> eff s i = demo_inode i \<and> nfree s = 941 \<and>
     (\<forall>F k. finite F \<longrightarrow> card F + k < LOGCAP \<longrightarrow> tx s 2 F k) \<and> (\<forall>j < 200. eff s j = demo_inode j) \<and>
     (\<forall>x. i_ref (icache s x) = (if x = c then 1 else 0)) \<and> (\<forall>x < NINODE. x \<noteq> c \<longrightarrow> sl_locked (slp s (SlInode x)) = 0)"

lemma runs_open_inode:
  fixes s :: "'z kfs_scheme"
  assumes up: "demo_up s" and i: "i = 1 \<or> i = 2"
  shows "runs (open_inode i) s (\<lambda>c s'. demo_open s' i c \<and> kfs.more s' = kfs.more s)"
proof -
  have I: "fs_inv s 2" "fs_sb s = demo_sb" "held s = Map.empty" and r0: "\<And>c. i_ref (icache s c) = 0"
    and l0: "\<And>c. c < NINODE \<Longrightarrow> sl_locked (slp s (SlInode c)) = 0" and n: "nfree s = 941"
    and ef: "\<And>j. j < 200 \<Longrightarrow> eff s j = demo_inode j" using up by (auto simp: demo_up_def)
  have none: "slot_of s i = None" by (simp add: slot_of_def find_None_iff r0)
  show ?thesis unfolding open_inode_def runs_bnd[of "iget _ _"]
  proof (rule runs_iget[OF I(1)], goal_cases)
    case 2
    show ?case using r0 by (auto simp: NINODE_def intro: exI[of _ 0])
  next
    case (3 c s1)
    note g = 3[unfolded got_def none option.case]
    have s1: "fs_inv s1 2" "refers s1 c i" "i < ninodes s1" "eff s1 i = demo_inode i" "fs_sb s1 = demo_sb" "cache_abs s1 = cache_abs s"
      using g I(2) i ef by (auto simp: refers_def quiet_def)
    have "tx s 2 {} 0" by (rule demo_tx[OF up]) simp_all
    then have t1: "tx s1 2 {} 0" using g by (auto simp: quiet_def)
    have l1: "sl_locked (slp s1 (SlInode c)) = 0" using g l0 by auto
    show ?case unfolding runs_bnd
    proof (rule runs_ilock[OF s1(1-3) l1 t1], goal_cases)
      case (4 s2)
      note k = 4[unfolded locked_inode_def]
      have "tx s2 2 F m" if "finite F" "card F + m < LOGCAP" for F m
        using k g demo_tx[OF up that] unfolding quiet_def by blast
      then show ?case using k g n ef i I s1 r0 l0 unfolding demo_open_def quiet_def by auto
    qed (use s1 I(3) i in \<open>auto simp: demo_inode_def\<close>)
  qed (use none in simp_all)
qed

lemma demo_open_run:
  fixes z :: 'z
  assumes "i = 1 \<or> i = 2"
  shows "\<exists>s c. bnd boot_fs (\<lambda>_. open_inode i) (kfs_zero demo_fs z) = Inr (c, s) \<and> demo_open s i c \<and> kfs.more s = z"
proof -
  have "runs (bnd boot_fs (\<lambda>_. open_inode i)) (kfs_zero demo_fs z) (\<lambda>c s. demo_open s i c \<and> kfs.more s = z)"
    unfolding runs_bnd by (rule runs_mono[OF runs_boot_fs], rule runs_mono, rule runs_open_inode) (use assms in auto)
  then show ?thesis by (auto simp: runs_Inr)
qed

lemma demo_room:
  assumes "demo_open s i c" "i = 1 \<or> i = 2" "k \<le> 9"
  shows "room s 2 {58, 32} i k" "iblk (fs_sb s) i = 32"
proof -
  have a: "addr s i MAXFILE = 0" using assms(1,2) by (auto simp: demo_open_def demo_inode_def dinode_zero_def faddr_def)
  have "tx s 2 {58, 32} (k + 1)" using assms(1,3) unfolding demo_open_def by (simp add: card_insert_if)
  then show "room s 2 {58, 32} i k" using assms a unfolding room_def indneed_def demo_open_def by simp
  show "iblk (fs_sb s) i = 32" using assms(1,2) by (auto simp: demo_open_def iblk_def)
qed

lemma demo_file: "demo_open s 2 c \<Longrightarrow> \<not> is_dev (icache s c)"
  using eff_cached[of s c 2] fs_invD(3)[of s 2]
  by (auto simp: demo_open_def is_dev_def to_dinode_def demo_inode_def dinode_zero_def)

text \<open>The file after a first write.\<close>

lemma demo_written:
  assumes s: "demo_open s 2 c"
  shows "\<exists>s'. writei c [104, 105] 0 s = Inr (2, s') \<and> fs_inv s' 2 \<and> cached s' c 2 \<and> 2 < ninodes s' \<and> held s' = Map.empty \<and>
    \<not> is_dev (icache s' c) \<and> content s' 2 = [104, 105] \<and> tx s' 2 {58, 32} 0"
proof -
  have D: "fs_inv s 2" "cached s c 2" "held s = Map.empty" "fs_sb s = demo_sb" "eff s 2 = demo_inode 2" "content s 2 = []"
    using s by (auto simp: demo_open_def content_def demo_inode_def dinode_zero_def)
  have "runs (writei c [104, 105] 0) s (\<lambda>r s'. r = 2 \<and> fs_inv s' 2 \<and> cached s' c 2 \<and> 2 < ninodes s' \<and> held s' = Map.empty \<and>
    \<not> is_dev (icache s' c) \<and> content s' 2 = [104, 105] \<and> tx s' 2 {58, 32} 0)"
  proof (rule runs_writei[OF D(1,2) _ D(3) demo_file[OF s], where F = "{58, 32}" and k = 0], goal_cases)
    case (6 s')
    have "tx s' 2 {58, 32} 0" using 6(6) tx_less[of s' 2 "{58, 32}" "indneed s' 2" 0] by (simp add: room_def)
    then show ?case using 6 D demo_file[OF s] by (auto simp: copy_at_def is_dev_def)
  qed (use D demo_room[OF s, of 1] in \<open>auto simp: nblk_def demo_inode_def dinode_zero_def\<close>)
  then show ?thesis by (simp add: runs_Inr)
qed

section \<open>Properties\<close>

text \<open>
  C3: writing a file. Inside a transaction with room for the blocks touched, \<open>writei\<close> of a file or
  directory puts the bytes at the offset, extends the file if they reach beyond its end, and returns
  the number of bytes; every other file keeps its contents, and the invariant of the file system
  (blocks referred to once, in use and inside the data area, no holes) is kept.
\<close>

theorem writei_replaces:
  fixes s :: "'z kfs_scheme"
  assumes I: "fs_inv s st" and c: "cached s c i" "i < ninodes s" and h: "held s = Map.empty" and nd: "\<not> is_dev (icache s c)"
    and o: "unat off \<le> unat (di_size (eff s i))" "unat off + length src \<le> MAXFILE * BSIZE"
    and r: "room s st F i (nblk (unat off) (length src))" "iblk (fs_sb s) i \<in> F"
  shows "\<exists>s'. writei c src off s = Inr (int (length src), s') \<and> fs_inv s' st \<and>
    content s' i = copy_at (unat off) src (content s i) \<and>
    (\<forall>j < ninodes s. j \<noteq> i \<longrightarrow> content s' j = content s j \<and> meta (eff s' j) = meta (eff s j))"
proof -
  have "room s st F i (0 + nblk (unat off) (length src))" using r(1) by simp
  from runs_writei[OF I c h nd o this r(2), where Q = "\<lambda>r s'. r = int (length src) \<and> fs_inv s' st \<and>
    content s' i = copy_at (unat off) src (content s i) \<and>
    (\<forall>j < ninodes s. j \<noteq> i \<longrightarrow> content s' j = content s j \<and> meta (eff s' j) = meta (eff s j))"]
  show ?thesis by (simp add: runs_Inr)
qed

theorem writei_replaces_witness:
  "\<exists>s s' c. bnd boot_fs (\<lambda>_. open_inode 2) (kfs_zero demo_fs ()) = Inr (c, s) \<and>
     writei c [104, 105] 0 s = Inr (2, s') \<and> content s 2 = [] \<and> content s' 2 = [104, 105] \<and> content s' 1 = []"
proof -
  obtain s :: kfs and c where s: "bnd boot_fs (\<lambda>_. open_inode 2) (kfs_zero demo_fs ()) = Inr (c, s)" "demo_open s 2 c"
    using demo_open_run[of 2 "()"] by auto
  have D: "fs_inv s 2" "cached s c 2" "held s = Map.empty" "fs_sb s = demo_sb" "eff s 1 = demo_inode 1" "eff s 2 = demo_inode 2"
    using s(2) by (auto simp: demo_open_def)
  note nd = demo_file[OF s(2)]
  have e: "content s 1 = []" "content s 2 = []" using D by (simp_all add: content_def demo_inode_def dinode_zero_def)
  have "\<exists>s'. writei c [104, 105] 0 s = Inr (int (length [104, 105 :: u8]), s') \<and> fs_inv s' 2 \<and>
    content s' 2 = copy_at (unat (0 :: u32)) [104, 105] (content s 2) \<and>
    (\<forall>j < ninodes s. j \<noteq> 2 \<longrightarrow> content s' j = content s j \<and> meta (eff s' j) = meta (eff s j))"
    by (rule writei_replaces[OF D(1,2) _ D(3) nd, where F = "{58, 32}"])
       (use D demo_room[OF s(2), of 1] in \<open>auto simp: nblk_def demo_inode_def dinode_zero_def\<close>)
  then obtain s' where s': "writei c [104, 105] 0 s = Inr (2, s')" "content s' 2 = copy_at 0 [104, 105] (content s 2)"
    "content s' 1 = content s 1" using D(4) by auto
  then show ?thesis using s(1) e by (intro exI[of _ s] exI[of _ s'] exI[of _ c]) (simp add: copy_at_def)
qed

text \<open>
  C12: reading a file. From an offset inside the file, \<open>readi\<close> returns the bytes up to the end of the
  request or of the file, with their number, and leaves the blocks and the file system as they were.
\<close>

theorem readi_returns:
  fixes s :: "'z kfs_scheme"
  assumes I: "fs_inv s st" and c: "cached s c i" "i < ninodes s" and h: "held s = Map.empty" and nd: "\<not> is_dev (icache s c)"
    and t: "tx s st F k" and o: "unat off \<le> unat (di_size (eff s i))" "unat off + unat n < 2 ^ 32"
  shows "\<exists>s'. readi c off n s = Inr ((int (min (unat n) (unat (di_size (eff s i)) - unat off)),
      slice (unat off) (min (unat n) (unat (di_size (eff s i)) - unat off)) (content s i)), s') \<and>
    cache_abs s' = cache_abs s \<and> icache s' = icache s \<and> fs_inv s' st"
proof -
  have "runs (readi c off n) s (\<lambda>r s'. r = (int (min (unat n) (unat (di_size (eff s i)) - unat off)),
      slice (unat off) (min (unat n) (unat (di_size (eff s i)) - unat off)) (content s i)) \<and>
    cache_abs s' = cache_abs s \<and> icache s' = icache s \<and> fs_inv s' st)"
  proof (rule runs_readi[OF I c h nd t o], goal_cases)
    case (1 s')
    note e = kfs_frame[OF 1(3)]
    have "fs_inv s' st" by (rule fs_same(1)[OF I]) (use 1 e in simp_all)
    then show ?case using 1 e(1) by simp
  qed
  then show ?thesis by (simp add: runs_Inr)
qed

theorem readi_returns_witness:
  "\<exists>s s' s'' c. bnd boot_fs (\<lambda>_. open_inode 2) (kfs_zero demo_fs ()) = Inr (c, s) \<and> writei c [104, 105] 0 s = Inr (2, s') \<and>
     readi c 1 10 s' = Inr ((1, [105]), s'')"
proof -
  obtain s :: kfs and c where s: "bnd boot_fs (\<lambda>_. open_inode 2) (kfs_zero demo_fs ()) = Inr (c, s)" "demo_open s 2 c"
    using demo_open_run[of 2 "()"] by auto
  obtain s' where s': "writei c [104, 105] 0 s = Inr (2, s')" "fs_inv s' 2" "cached s' c 2" "2 < ninodes s'" "held s' = Map.empty"
    "\<not> is_dev (icache s' c)" "content s' 2 = [104, 105]" "tx s' 2 {58, 32} 0"
    using demo_written[OF s(2)] by auto
  have z: "unat (di_size (eff s' 2)) = 2" using arg_cong[OF s'(7), of length] by simp
  obtain s'' where "readi c 1 10 s' = Inr ((1, [105]), s'')"
    using readi_returns[OF s'(2-6,8), of 1 10] z s'(7) by (auto simp: slice_def)
  then show ?thesis using s(1) s'(1) by blast
qed

text \<open>
  C11: what was written is what is read. After a \<open>writei\<close>, a \<open>readi\<close> at the same offset returns the
  bytes written.
\<close>

theorem writei_readi:
  fixes s :: "'z kfs_scheme"
  assumes I: "fs_inv s st" and c: "cached s c i" "i < ninodes s" and h: "held s = Map.empty" and nd: "\<not> is_dev (icache s c)"
    and o: "unat off \<le> unat (di_size (eff s i))" "unat off + length src \<le> MAXFILE * BSIZE"
    and r: "room s st F i (nblk (unat off) (length src))" "iblk (fs_sb s) i \<in> F"
  shows "\<exists>s'. bnd (writei c src off) (\<lambda>_. readi c off (of_nat (length src))) s = Inr ((int (length src), src), s')"
proof -
  have r': "room s st F i (0 + nblk (unat off) (length src))" using r(1) by simp
  have un: "unat (of_nat (length src) :: u32) = length src" using o(2) by (intro unat_of_nat_u32) simp
  have "runs (writei c src off) s (\<lambda>_ s1. runs (readi c off (of_nat (length src))) s1 (\<lambda>r _. r = (int (length src), src)))"
  proof (rule runs_writei[OF I c h nd o r' r(2)], goal_cases)
    case (1 s1)
    have t: "tx s1 st F (indneed s1 i)" using 1(6) by (simp add: room_def)
    have i1: "i < ninodes s1" using 1(5) c(2) by simp
    have n1: "\<not> is_dev (icache s1 c)" using 1(8) nd by (auto simp: is_dev_def)
    have z: "unat (di_size (eff s1 i)) = max (unat (di_size (eff s i))) (unat off + length src)"
      using arg_cong[OF 1(7), of length] o(1) by (simp add: copy_at_def)
    have sl: "slice (unat off) (length src) (copy_at (unat off) src (content s i)) = src"
      using o(1) by (simp add: slice_def copy_at_def min_def)
    show ?case
      by (rule runs_readi[OF 1(1,2) i1 1(3) n1 t]) (use z un o 1(7) sl in \<open>auto simp: min_def max_def\<close>)
  qed
  then have "runs (bnd (writei c src off) (\<lambda>_. readi c off (of_nat (length src)))) s (\<lambda>r _. r = (int (length src), src))" by simp
  then show ?thesis unfolding runs_Inr by blast
qed

theorem writei_readi_witness:
  "\<exists>s s' c. bnd boot_fs (\<lambda>_. open_inode 2) (kfs_zero demo_fs ()) = Inr (c, s) \<and>
     bnd (writei c [104, 105] 0) (\<lambda>_. readi c 0 2) s = Inr ((2, [104, 105]), s')"
proof -
  obtain s :: kfs and c where s: "bnd boot_fs (\<lambda>_. open_inode 2) (kfs_zero demo_fs ()) = Inr (c, s)" "demo_open s 2 c"
    using demo_open_run[of 2 "()"] by auto
  have D: "fs_inv s 2" "cached s c 2" "held s = Map.empty" "fs_sb s = demo_sb" "eff s 2 = demo_inode 2" using s(2) by (auto simp: demo_open_def)
  have "\<exists>s'. bnd (writei c [104, 105] 0) (\<lambda>_. readi c 0 (of_nat (length [104, 105 :: u8]))) s = Inr ((int (length [104, 105 :: u8]), [104, 105]), s')"
    by (rule writei_readi[OF D(1,2) _ D(3) demo_file[OF s(2)], where F = "{58, 32}"])
       (use D demo_room[OF s(2), of 1] in \<open>auto simp: nblk_def demo_inode_def dinode_zero_def\<close>)
  then show ?thesis using s(1) by auto
qed

end
