(* ===== verification/Xv6_Dir.thy ===== *)
theory Xv6_Dir
  imports Xv6_Content
begin

text \<open>
  Directories and path names (the last part of \<^verbatim>\<open>crates/fs/src/fs.rs\<close>). A C string is the list of its
  bytes; its end counts as the terminating zero.
\<close>

section \<open>Names\<close>

abbreviation SLASH :: u8 where "SLASH \<equiv> 47"

definition cstr_hd :: "u8 list \<Rightarrow> u8" where
  "cstr_hd p = (case p of [] \<Rightarrow> 0 | b # _ \<Rightarrow> b)"

definition at0 :: "u8 list \<Rightarrow> nat \<Rightarrow> u8" where
  "at0 s i = (if i < length s then s ! i else 0)"

fun namecmp_from :: "u8 list \<Rightarrow> u8 list \<Rightarrow> nat list \<Rightarrow> bool" where
  "namecmp_from s t [] = True"
| "namecmp_from s t (i # is) =
     (if at0 s i \<noteq> at0 t i then False else if at0 s i = 0 then True else namecmp_from s t is)"

definition namecmp :: "u8 list \<Rightarrow> u8 list \<Rightarrow> bool" where
  "namecmp s t = namecmp_from s t [0..<min (length s) DIRSIZ]"

fun name_len_from :: "nat \<Rightarrow> u8 list \<Rightarrow> nat" where
  "name_len_from 0 s = 0"
| "name_len_from (Suc k) s = (if cstr_hd s \<noteq> 0 then Suc (name_len_from k (tl s)) else 0)"

definition name_len :: "u8 list \<Rightarrow> nat" where
  "name_len s = name_len_from DIRSIZ s"

section \<open>Entries\<close>

text \<open>
  The scan of \<open>dirlookup\<close>. Each round reads one entry; the offset grows with overflow checking, which
  bounds the loop. The result is the inode with the offset that the code stores through \<open>poff\<close>.
\<close>

function dirlookup_from :: "nat \<Rightarrow> u8 list \<Rightarrow> u32 \<Rightarrow> ('z kfs_scheme, (nat \<times> u32) option) kop" where
  "dirlookup_from dp name off = bnd (gets (\<lambda>s. i_size (icache s dp))) (\<lambda>sz.
     if off < sz then
       bnd (readi dp off (of_nat DIRENT_SIZE)) (\<lambda>(r, bs).
       bnd (guardk (r = int DIRENT_SIZE) (Panic ''dirlookup read'')) (\<lambda>_.
       let de = dirent_of bs in
       if de_inum de \<noteq> 0 \<and> namecmp (take (name_len name) name) (de_name de) then
         bnd (gets (\<lambda>s. i_dev (icache s dp))) (\<lambda>dev.
         bnd (iget dev (ucast (de_inum de))) (\<lambda>ip. ret (Some (ip, off))))
       else if unat off + DIRENT_SIZE < 2 ^ 32 then dirlookup_from dp name (off + of_nat DIRENT_SIZE)
       else stopk add_overflow))
     else ret None)"
  by pat_completeness auto
termination
  by (relation "measure (\<lambda>(dp, name, off). 2 ^ 32 - unat off)") (auto simp: unat_word_ariths)

declare dirlookup_from.simps [simp del]

definition dirlookup :: "nat \<Rightarrow> u8 list \<Rightarrow> ('z kfs_scheme, (nat \<times> u32) option) kop" where
  "dirlookup dp name = bnd (gets (\<lambda>s. is_dir (icache s dp))) (\<lambda>d.
     bnd (guardk d (Panic ''dirlookup not DIR'')) (\<lambda>_.
     dirlookup_from dp name 0))"

function dirlink_slot :: "nat \<Rightarrow> u32 \<Rightarrow> ('z kfs_scheme, u32) kop" where
  "dirlink_slot dp off = bnd (gets (\<lambda>s. i_size (icache s dp))) (\<lambda>sz.
     if off < sz then
       bnd (readi dp off (of_nat DIRENT_SIZE)) (\<lambda>(r, bs).
       bnd (guardk (r = int DIRENT_SIZE) (Panic ''dirlink read'')) (\<lambda>_.
       if de_inum (dirent_of bs) = 0 then ret off
       else if unat off + DIRENT_SIZE < 2 ^ 32 then dirlink_slot dp (off + of_nat DIRENT_SIZE)
       else stopk add_overflow))
     else ret off)"
  by pat_completeness auto
termination
  by (relation "measure (\<lambda>(dp, off). 2 ^ 32 - unat off)") (auto simp: unat_word_ariths)

declare dirlink_slot.simps [simp del]

text \<open>The entry that \<open>dirlink\<close> writes: the name cut to \<open>DIRSIZ\<close> bytes and filled with zeros.\<close>

definition new_dirent :: "u8 list \<Rightarrow> u32 \<Rightarrow> dirent" where
  "new_dirent name inum = (let n = take (min (name_len name) DIRSIZ) name in
     \<lparr>de_inum = ucast inum, de_name = n @ replicate (DIRSIZ - length n) 0\<rparr>)"

definition dirlink :: "nat \<Rightarrow> u8 list \<Rightarrow> u32 \<Rightarrow> ('z kfs_scheme, i32) kop" where
  "dirlink dp name inum = bnd (dirlookup dp name) (\<lambda>r. case r of
       Some (ip, off) \<Rightarrow> bnd (iput ip) (\<lambda>_. ret (-1))
     | None \<Rightarrow>
         bnd (dirlink_slot dp 0) (\<lambda>off.
         bnd (writei dp (dirent_bytes (new_dirent name inum)) off) (\<lambda>w.
         bnd (guardk (w = int DIRENT_SIZE) (Panic ''dirlink'')) (\<lambda>_.
         ret 0))))"

section \<open>Paths\<close>

fun skip_slashes :: "u8 list \<Rightarrow> u8 list" where
  "skip_slashes [] = []"
| "skip_slashes (b # bs) = (if b = SLASH then skip_slashes bs else b # bs)"

fun elem_end :: "u8 list \<Rightarrow> u8 list \<times> u8 list" where
  "elem_end [] = ([], [])"
| "elem_end (b # bs) = (if b \<noteq> SLASH \<and> b \<noteq> 0 then (case elem_end bs of (e, r) \<Rightarrow> (b # e, r)) else ([], b # bs))"

text \<open>\<open>skipelem\<close> returns the rest of the path and the name buffer after the copy.\<close>

definition skipelem :: "u8 list \<Rightarrow> u8 list \<Rightarrow> (u8 list \<times> u8 list) option" where
  "skipelem path name = (let p = skip_slashes path in
     if cstr_hd p = 0 then None
     else let (e, r) = elem_end p; n = min (length e) DIRSIZ; buf = take n e @ drop n name in
       Some (skip_slashes r, if n < DIRSIZ then buf[n := 0] else buf))"

lemma skip_slashes_le: "length (skip_slashes p) \<le> length p"
  by (induction p) (auto simp: le_Suc_eq)

lemma elem_end_split: "fst (elem_end p) @ snd (elem_end p) = p"
  by (induction p) (auto split: prod.splits)

lemma elem_end_pos: "cstr_hd p \<noteq> 0 \<Longrightarrow> cstr_hd p \<noteq> SLASH \<Longrightarrow> fst (elem_end p) \<noteq> []"
  by (cases p) (auto simp: cstr_hd_def split: prod.splits)

lemma skip_slashes_hd: "cstr_hd (skip_slashes p) \<noteq> SLASH"
  by (induction p) (auto simp: cstr_hd_def)

lemma skipelem_shorter: "skipelem path name = Some (r, n) \<Longrightarrow> length r < length path"
proof -
  assume a: "skipelem path name = Some (r, n)"
  let ?p = "skip_slashes path"
  obtain e q where e: "elem_end ?p = (e, q)" by (cases "elem_end ?p")
  then have r: "r = skip_slashes q" "cstr_hd ?p \<noteq> 0" using a by (auto simp: skipelem_def Let_def split: if_splits)
  then have "e \<noteq> []" using elem_end_pos[of ?p] skip_slashes_hd e by simp
  then have "length q < length ?p" using elem_end_split[of ?p] e by (metis fst_conv snd_conv length_append length_greater_0_conv less_add_same_cancel2)
  then show ?thesis using r(1) skip_slashes_le[of q] skip_slashes_le[of path] by simp
qed

text \<open>The loop of \<open>namex\<close>; \<open>None\<close> is the null pointer. The second result is the name buffer.\<close>

function namex_loop :: "nat \<Rightarrow> u8 list \<Rightarrow> bool \<Rightarrow> u8 list \<Rightarrow> ('z kfs_scheme, nat option \<times> u8 list) kop" where
  "namex_loop ip path find_parent name = (case skipelem path name of
       None \<Rightarrow>
         if find_parent then bnd (iput ip) (\<lambda>_. ret (None, name)) else ret (Some ip, name)
     | Some (rest, name') \<Rightarrow>
         bnd (ilock (Some ip)) (\<lambda>_.
         bnd (gets (\<lambda>s. is_dir (icache s ip))) (\<lambda>d.
         if \<not> d then bnd (iunlockput ip) (\<lambda>_. ret (None, name'))
         else if find_parent \<and> cstr_hd rest = 0 then
           bnd (iunlock (Some ip)) (\<lambda>_. ret (Some ip, name'))
         else
           bnd (dirlookup ip name') (\<lambda>next.
           bnd (iunlockput ip) (\<lambda>_. case next of
               None \<Rightarrow> ret (None, name')
             | Some (ip', off) \<Rightarrow> namex_loop ip' rest find_parent name')))))"
  by pat_completeness auto
termination
  by (relation "measure (\<lambda>(ip, path, fp, name). length path)") (auto dest: skipelem_shorter)

declare namex_loop.simps [simp del]

text \<open>\<open>my_proc_cwd\<close>; a process without a directory makes \<open>idup\<close> use a null pointer.\<close>

definition my_proc_cwd :: "('z kern_scheme, nat option) kop" where
  "my_proc_cwd = bnd my_proc (\<lambda>p. gets (\<lambda>s. pr_cwd (ptable s p)))"

definition namex :: "u8 list \<Rightarrow> bool \<Rightarrow> u8 list \<Rightarrow> ('z kfs_scheme, nat option \<times> u8 list) kop" where
  "namex path find_parent name =
     bnd (if cstr_hd path = SLASH then iget ROOTDEV 1
          else bnd my_proc_cwd (\<lambda>cwd. case cwd of None \<Rightarrow> stopk (Fault ''idup: null'') | Some c \<Rightarrow> idup c)) (\<lambda>ip.
     namex_loop ip path find_parent name)"

definition namei :: "u8 list \<Rightarrow> ('z kfs_scheme, nat option) kop" where
  "namei path = bnd (namex path False (replicate DIRSIZ 0)) (\<lambda>(r, name). ret r)"

definition nameiparent :: "u8 list \<Rightarrow> ('z kfs_scheme, (nat \<times> u8 list) option) kop" where
  "nameiparent path = bnd (namex path True (replicate DIRSIZ 0)) (\<lambda>(r, name).
     ret (case r of None \<Rightarrow> None | Some ip \<Rightarrow> Some (ip, name)))"

section \<open>Matching names\<close>

lemma namecmp_from_iff:
  assumes "n \<le> length s" "0 \<notin> set s"
  shows "namecmp_from s t [k..<n] \<longleftrightarrow> (\<forall>i. k \<le> i \<longrightarrow> i < n \<longrightarrow> s ! i = at0 t i)"
proof (induction "n - k" arbitrary: k)
  case 0
  then show ?case by simp
next
  case (Suc m)
  then have k: "k < n" by simp
  then have "s ! k \<in> set s" using assms(1) by (intro nth_mem) simp
  then have "s ! k \<noteq> 0" using assms(2) by metis
  then have a: "at0 s k = s ! k" "s ! k \<noteq> 0" using assms(1) k by (simp_all add: at0_def)
  have "[k..<n] = k # [Suc k..<n]" using k by (rule upt_conv_Cons)
  then show ?case using Suc(1)[of "Suc k"] Suc(2) a k by (auto simp: Suc_le_eq dest: le_neq_implies_less)
qed

lemma name_len_from_le: "name_len_from k s \<le> k" "name_len_from k s \<le> length s"
  by (induction k s rule: name_len_from.induct) (auto simp: cstr_hd_def split: list.splits)

lemma name_len_nonzero: "0 \<notin> set (take (name_len_from k s) s)"
  by (induction k s rule: name_len_from.induct) (auto simp: cstr_hd_def split: list.splits)

text \<open>The bytes of the directory as a list of entries.\<close>

definition dirents :: "u8 list \<Rightarrow> dirent list" where
  "dirents d = map (\<lambda>k. dirent_of (slice (16 * k) 16 d)) [0..<length d div 16]"

definition name_matches :: "u8 list \<Rightarrow> dirent \<Rightarrow> bool" where
  "name_matches name de \<longleftrightarrow> de_inum de \<noteq> 0 \<and> namecmp (take (name_len name) name) (de_name de)"

lemma length_dirents [simp]: "length (dirents d) = length d div 16"
  by (simp add: dirents_def)

lemma nth_dirents: "k < length d div 16 \<Longrightarrow> dirents d ! k = dirent_of (slice (16 * k) 16 d)"
  by (simp add: dirents_def)

section \<open>Scanning a directory\<close>

text \<open>A directory, open and locked, inside a transaction.\<close>

definition open_dir :: "'z kfs_scheme \<Rightarrow> nat \<Rightarrow> nat \<Rightarrow> nat \<Rightarrow> bool" where
  "open_dir s st c i \<longleftrightarrow> fs_inv s st \<and> cached s c i \<and> i < ninodes s \<and> held s = Map.empty \<and> is_dir (icache s c) \<and>
     unat (di_size (eff s i)) mod 16 = 0"

lemma open_dirD:
  assumes "open_dir s st c i"
  shows "fs_inv s st" "cached s c i" "i < ninodes s" "held s = Map.empty" "\<not> is_dev (icache s c)" "is_dir (icache s c)"
    "unat (di_size (eff s i)) mod 16 = 0" "i_size (icache s c) = di_size (eff s i)" "i_dev (icache s c) = ROOTDEV" "unat (di_size (eff s i)) \<le> 71680"
proof -
  have D: "fs_inv s st" "cached s c i" "i < ninodes s" using assms by (simp_all add: open_dir_def)
  show "i_size (icache s c) = di_size (eff s i)" using arg_cong[OF cached_facts(1)[OF D], of di_size] by (simp add: to_dinode_def)
  show "i_dev (icache s c) = ROOTDEV" by (rule cached_facts(4)[OF D])
  show "unat (di_size (eff s i)) \<le> 71680" using size_le[OF D(1,3)] by simp
qed (use assms in \<open>auto simp: open_dir_def is_dir_def is_dev_def\<close>)

lemma open_dir_same:
  fixes s s' :: "'z kfs_scheme"
  assumes "open_dir s st c i" "cache_abs s' = cache_abs s" "log_ext s' = log_ext s"
  shows "open_dir s' st c i" "eff s' = eff s" "content s' i = content s i"
proof -
  note e = kfs_frame[OF assms(3)]
  have v: "view s' = view s" using assms(2) by simp
  note S = fs_same[OF open_dirD(1)[OF assms(1)] v e(1,2)]
  show "open_dir s' st c i" using assms S e by (simp add: open_dir_def)
  show "eff s' = eff s" by (rule S(3))
  show "content s' i = content s i" using S(3,7) by (simp add: content_def fbyte_def)
qed

lemma read_entry:
  fixes s :: "'z kfs_scheme"
  assumes d: "open_dir s st c i" and t: "tx s st F m" and k: "k < length (content s i) div 16" "off = of_nat (16 * k)"
    and Q: "\<And>s'. tx s' st F m \<Longrightarrow> cache_abs s' = cache_abs s \<Longrightarrow> log_ext s' = log_ext s \<Longrightarrow> Q (16, slice (16 * k) 16 (content s i)) s'"
  shows "runs (readi c off (of_nat DIRENT_SIZE)) s Q"
proof -
  note D = open_dirD[OF d]
  have le: "16 * k + 16 \<le> unat (di_size (eff s i))" using k(1) D(7) by simp
  have u: "unat off = 16 * k" unfolding k(2) using le D(10) by (intro unat_of_nat_u32) simp
  show ?thesis
    by (rule runs_readi[OF D(1-5) t]) (use le u D(10) Q in auto)
qed

lemma next_entry:
  assumes "open_dir s st c i" "k < length (content s i) div 16"
  shows "unat (of_nat (16 * k) :: u32) = 16 * k" "of_nat (16 * k) < di_size (eff s i)"
    "of_nat (16 * k) + of_nat DIRENT_SIZE = (of_nat (16 * Suc k) :: u32)" "16 * k + 16 < 2 ^ 32"
proof -
  note D = open_dirD[OF assms(1)]
  have le: "16 * k + 16 \<le> unat (di_size (eff s i))" using assms(2) D(7) by simp
  then show u: "unat (of_nat (16 * k) :: u32) = 16 * k" using D(10) by (intro unat_of_nat_u32) simp
  show "of_nat (16 * k) < di_size (eff s i)" using le u by (simp add: word_less_nat_alt)
  show "of_nat (16 * k) + of_nat DIRENT_SIZE = (of_nat (16 * Suc k) :: u32)" by simp
  show "16 * k + 16 < 2 ^ 32" using le D(10) by simp
qed

text \<open>The first entry from position \<open>k\<close> on with a property.\<close>

definition first_entry :: "(dirent \<Rightarrow> bool) \<Rightarrow> nat \<Rightarrow> u8 list \<Rightarrow> nat option" where
  "first_entry P k d = find (\<lambda>j. P (dirents d ! j)) [k..<length d div 16]"

lemma first_entry_step:
  "k < length d div 16 \<Longrightarrow> first_entry P k d = (if P (dirents d ! k) then Some k else first_entry P (Suc k) d)"
  by (simp add: first_entry_def upt_conv_Cons)

lemma runs_dirlookup_from:
  fixes s :: "'z kfs_scheme"
  assumes d: "open_dir s st c i" and t: "tx s st F m" and k: "k \<le> length (content s i) div 16"
    and none: "\<And>s'. first_entry (name_matches name) k (content s i) = None \<Longrightarrow> tx s' st F m \<Longrightarrow> cache_abs s' = cache_abs s \<Longrightarrow>
      log_ext s' = log_ext s \<Longrightarrow> Q None s'"
    and some: "\<And>j s1. first_entry (name_matches name) k (content s i) = Some j \<Longrightarrow> tx s1 st F m \<Longrightarrow> cache_abs s1 = cache_abs s \<Longrightarrow>
      log_ext s1 = log_ext s \<Longrightarrow>
      runs (iget ROOTDEV (of_nat (unat (de_inum (dirents (content s i) ! j))))) s1 (\<lambda>ip s'. Q (Some (ip, of_nat (16 * j))) s')"
  shows "runs (dirlookup_from c name (of_nat (16 * k))) s Q"
  using d t k none some
proof (induction "length (content s i) div 16 - k" arbitrary: k s)
  case 0
  note D = open_dirD[OF 0(2)]
  have "k = length (content s i) div 16" using 0 by simp
  then have "16 * k = unat (di_size (eff s i))" using D(7) mult_div_mod_eq[of 16 "unat (di_size (eff s i))"] by simp
  then have "\<not> of_nat (16 * k) < i_size (icache s c)" using D(8) by simp
  moreover have "first_entry (name_matches name) k (content s i) = None" using 0(1) by (simp add: first_entry_def)
  ultimately show ?case using 0(5)[OF _ 0(3)] by (simp add: dirlookup_from.simps)
next
  case (Suc r)
  note D = open_dirD[OF Suc(3)]
  have k: "k < length (content s i) div 16" using Suc(2) by simp
  note ne = next_entry[OF Suc(3) k]
  let ?de = "dirents (content s i) ! k"
  have sl: "dirent_of (slice (16 * k) 16 (content s i)) = ?de" using nth_dirents[OF k] by simp
  note fs = first_entry_step[OF k, of "name_matches name"]
  have lt: "of_nat (16 * k) < i_size (icache s c)" using ne(2) D(8) by simp
  show ?case
    unfolding dirlookup_from.simps[of c name "of_nat (16 * k)"] runs_bnd[of "gets _"] runs_gets if_P[OF lt] runs_bnd[of "readi _ _ _"]
  proof (rule read_entry[OF Suc(3,4) k refl], goal_cases)
    case (1 s1)
    have dev: "i_dev (icache s1 c) = ROOTDEV" using D(9) kfs_frame(1)[OF 1(3)] by simp
    have uc: "ucast (de_inum ?de) = (of_nat (unat (de_inum ?de)) :: u32)" by simp
    note S = open_dir_same[OF Suc(3) 1(2,3)]
    show ?case
    proof (cases "name_matches name ?de")
      case True
      then have "runs (iget ROOTDEV (of_nat (unat (de_inum ?de)))) s1 (\<lambda>ip s'. Q (Some (ip, of_nat (16 * k))) s')"
        using Suc(7)[OF _ 1] fs by simp
      then show ?thesis using True sl dev by (simp add: name_matches_def Let_def)
    next
      case False
      have "runs (dirlookup_from c name (of_nat (16 * Suc k))) s1 Q"
        by (rule Suc(1)[OF _ S(1) 1(1)]) (use Suc(2,6,7) k fs False S(2,3) 1 in auto)
      then show ?thesis using False sl ne(1,3,4) by (auto simp: name_matches_def Let_def add.commute)
    qed
  qed
qed

lemma runs_dirlookup:
  fixes s :: "'z kfs_scheme"
  assumes d: "open_dir s st c i" and t: "tx s st F m"
    and none: "\<And>s'. first_entry (name_matches name) 0 (content s i) = None \<Longrightarrow> tx s' st F m \<Longrightarrow> cache_abs s' = cache_abs s \<Longrightarrow>
      log_ext s' = log_ext s \<Longrightarrow> Q None s'"
    and some: "\<And>j s1. first_entry (name_matches name) 0 (content s i) = Some j \<Longrightarrow> tx s1 st F m \<Longrightarrow> cache_abs s1 = cache_abs s \<Longrightarrow>
      log_ext s1 = log_ext s \<Longrightarrow>
      runs (iget ROOTDEV (of_nat (unat (de_inum (dirents (content s i) ! j))))) s1 (\<lambda>ip s'. Q (Some (ip, of_nat (16 * j))) s')"
  shows "runs (dirlookup c name) s Q"
  using runs_dirlookup_from[OF d t, of 0 name Q] none some open_dirD(6)[OF d] by (simp add: dirlookup_def)

section \<open>Adding an entry\<close>

lemma runs_dirlink_slot:
  fixes s :: "'z kfs_scheme"
  assumes d: "open_dir s st c i" and t: "tx s st F m" and k: "k \<le> length (content s i) div 16"
    and Q: "\<And>s'. tx s' st F m \<Longrightarrow> cache_abs s' = cache_abs s \<Longrightarrow> log_ext s' = log_ext s \<Longrightarrow>
      Q (of_nat (16 * (case first_entry (\<lambda>de. de_inum de = 0) k (content s i) of Some j \<Rightarrow> j | None \<Rightarrow> length (content s i) div 16))) s'"
  shows "runs (dirlink_slot c (of_nat (16 * k))) s Q"
  using d t k Q
proof (induction "length (content s i) div 16 - k" arbitrary: k s)
  case 0
  note D = open_dirD[OF 0(2)]
  have k: "k = length (content s i) div 16" using 0 by simp
  then have "16 * k = unat (di_size (eff s i))" using D(7) mult_div_mod_eq[of 16 "unat (di_size (eff s i))"] by simp
  then have "\<not> of_nat (16 * k) < i_size (icache s c)" using D(8) by simp
  moreover have "first_entry (\<lambda>de. de_inum de = 0) k (content s i) = None" using 0(1) by (simp add: first_entry_def)
  ultimately show ?case using 0(5)[OF 0(3)] k by (simp add: dirlink_slot.simps)
next
  case (Suc r)
  note D = open_dirD[OF Suc(3)]
  have k: "k < length (content s i) div 16" using Suc(2) by simp
  note ne = next_entry[OF Suc(3) k]
  let ?de = "dirents (content s i) ! k"
  have sl: "dirent_of (slice (16 * k) 16 (content s i)) = ?de" using nth_dirents[OF k] by simp
  note fs = first_entry_step[OF k, of "\<lambda>de. de_inum de = 0"]
  have lt: "of_nat (16 * k) < i_size (icache s c)" using ne(2) D(8) by simp
  show ?case
    unfolding dirlink_slot.simps[of c "of_nat (16 * k)"] runs_bnd[of "gets _"] runs_gets if_P[OF lt] runs_bnd[of "readi _ _ _"]
  proof (rule read_entry[OF Suc(3,4) k refl], goal_cases)
    case (1 s1)
    note S = open_dir_same[OF Suc(3) 1(2,3)]
    show ?case
    proof (cases "de_inum ?de = 0")
      case True
      then show ?thesis using Suc(6)[OF 1] fs sl by simp
    next
      case False
      have "runs (dirlink_slot c (of_nat (16 * Suc k))) s1 Q"
      proof (rule Suc(1)[OF _ S(1) 1(1)], goal_cases)
        case (3 s')
        show ?case unfolding S(3) fs[unfolded if_not_P[OF False], symmetric] by (rule Suc(6)) (use 1 3 in simp_all)
      qed (use Suc(2) k S(2) in auto)
      then show ?thesis using False sl ne(1,3,4) by (auto simp: add.commute)
    qed
  qed
qed

lemma length_new_dirent: "length (de_name (new_dirent name inum)) = DIRSIZ"
  using name_len_from_le[of 14 name] by (simp add: new_dirent_def Let_def name_len_def)

lemma length_dirent_bytes: "length (de_name de) = DIRSIZ \<Longrightarrow> length (dirent_bytes de) = 16"
  by (simp add: dirent_bytes_def)

lemma dirents_copy:
  assumes d: "length d mod 16 = 0" "length (de_name de) = DIRSIZ" "k \<le> length d div 16"
  shows "dirents (copy_at (16 * k) (dirent_bytes de) d) =
    (if k < length d div 16 then (dirents d)[k := de] else dirents d @ [de])"
proof -
  let ?n = "length d div 16" let ?b = "dirent_bytes de"
  have n: "length d = 16 * ?n" using d(1) mult_div_mod_eq[of 16 "length d"] by simp
  have lb: "length ?b = 16" using d(2) by (rule length_dirent_bytes)
  have same: "slice (16 * k) 16 (copy_at (16 * k) ?b d) = ?b" using lb d(3) n by (simp add: slice_def copy_at_def min_def)
  have other: "slice (16 * j) 16 (copy_at (16 * k) ?b d) = slice (16 * j) 16 d" if "j < ?n" "j \<noteq> k" for j
  proof (rule nth_equalityI)
    have j: "16 * j + 16 \<le> length d" using that(1) n by simp
    have lc: "length d \<le> length (copy_at (16 * k) ?b d)" using lb d(3) n by (simp add: copy_at_def)
    then show "length (slice (16 * j) 16 (copy_at (16 * k) ?b d)) = length (slice (16 * j) 16 d)" using j by simp
    fix x assume "x < length (slice (16 * j) 16 (copy_at (16 * k) ?b d))"
    then have x: "x < 16" by (simp add: slice_def)
    have "16 * j + x < 16 * k \<or> 16 * k + 16 \<le> 16 * j + x" using that(2) x by arith
    then show "slice (16 * j) 16 (copy_at (16 * k) ?b d) ! x = slice (16 * j) 16 d ! x"
      using x j lc lb d(3) n by (auto simp: nth_slice copy_at_def nth_append)
  qed
  show ?thesis
  proof (cases "k < ?n")
    case True
    then have "length (copy_at (16 * k) ?b d) = length d" using lb n by (simp add: copy_at_def)
    then show ?thesis
      using True same other dirent_round[OF d(2)] by (intro nth_equalityI) (auto simp: nth_dirents nth_list_update)
  next
    case False
    then have k: "k = ?n" using d(3) by simp
    then have "length (copy_at (16 * k) ?b d) = length d + 16" using lb n by (simp add: copy_at_def)
    then have l: "length (copy_at (16 * k) ?b d) div 16 = Suc ?n" by simp
    show ?thesis
      using False same other dirent_round[OF d(2)] k l
      by (intro nth_equalityI) (auto simp: nth_dirents nth_append less_Suc_eq)
  qed
qed

definition free_entry :: "u8 list \<Rightarrow> nat" where
  "free_entry d = (case first_entry (\<lambda>de. de_inum de = 0) 0 d of Some j \<Rightarrow> j | None \<Rightarrow> length d div 16)"

lemma free_entry_le: "free_entry d \<le> length d div 16"
  by (auto simp: free_entry_def first_entry_def find_Some_iff split: option.split)

lemma nblk_entry: "nblk (16 * k) 16 = 1"
proof -
  have "(16 * k) mod 512 = 16 * (k mod 32)" using mult_mod_right[of 16 k 32] by simp
  moreover have "k mod 32 < 32" by simp
  ultimately have "(16 * k) mod 512 + 15 < 512" by simp
  then have "(16 * k + 15) div 512 = (16 * k) div 512" by (rule div_mod_add(1))
  then show ?thesis by (simp add: nblk_def)
qed

lemma runs_dirlink_new:
  fixes s :: "'z kfs_scheme"
  assumes d: "open_dir s st c i" and r: "room s st F i (Suc m)" "iblk (fs_sb s) i \<in> F"
    and new: "first_entry (name_matches name) 0 (content s i) = None" and fit: "16 * free_entry (content s i) + 16 \<le> MAXFILE * BSIZE"
    and Q: "\<And>s'. open_dir s' st c i \<Longrightarrow> room s' st F i m \<Longrightarrow> fs_rest s' = fs_rest s \<Longrightarrow> fs_sb s' = fs_sb s \<Longrightarrow> (\<exists>X z. icache s' = (icache s)(c := (icache s c)\<lparr>i_addrs := X, i_size := z\<rparr>)) \<Longrightarrow>
      dirents (content s' i) = (let es = dirents (content s i); k = free_entry (content s i); de = new_dirent name inum in
        if k < length es then es[k := de] else es @ [de]) \<Longrightarrow>
      (\<And>j. j < ninodes s \<Longrightarrow> j \<noteq> i \<Longrightarrow> content s' j = content s j \<and> meta (eff s' j) = meta (eff s j)) \<Longrightarrow> Q 0 s'"
  shows "runs (dirlink c name inum) s Q"
proof -
  let ?k = "free_entry (content s i)" let ?b = "dirent_bytes (new_dirent name inum)"
  have t: "tx s st F (Suc m + indneed s i)" using r(1) by (simp add: room_def)
  have lb: "length ?b = 16" by (rule length_dirent_bytes[OF length_new_dirent])
  have u: "unat (of_nat (16 * ?k) :: u32) = 16 * ?k" using fit by (intro unat_of_nat_u32) simp
  have main: "runs (bnd (writei c ?b (of_nat (16 * ?k))) (\<lambda>w. bnd (guardk (w = int DIRENT_SIZE) (Panic ''dirlink'')) (\<lambda>_. ret 0))) s2 Q"
    if s2: "tx s2 st F (Suc m + indneed s i)" "cache_abs s2 = cache_abs s" "log_ext s2 = log_ext s" for s2 :: "'z kfs_scheme"
  proof -
    note S = open_dir_same[OF d s2(2,3)] and e = kfs_frame[OF s2(3)]
    note D = open_dirD[OF S(1)]
    have v: "view s2 = view s" using s2(2) by simp
    note G = fs_same[OF open_dirD(1)[OF d] v e(1,2)]
    have le: "16 * ?k \<le> unat (di_size (eff s2 i))" using free_entry_le[of "content s i"] S(2) by simp
    have rm: "room s2 st F i (m + nblk (unat (of_nat (16 * ?k) :: u32)) (length ?b))"
      using r(1) s2 G e(2) u lb nblk_entry by (simp add: room_def indneed_def)
    show ?thesis unfolding runs_bnd[of "writei _ _ _"]
    proof (rule runs_writei[OF D(1-5) _ _ rm], goal_cases)
      case (4 s3)
      have ca: "content s3 i = copy_at (16 * ?k) ?b (content s i)" using 4(7) u S(3) by simp
      have lm: "length (content s i) mod 16 = 0" using open_dirD(7)[OF d] by simp
      have ds: "dirents (content s3 i) = (let es = dirents (content s i); k = ?k; de = new_dirent name inum in
        if k < length es then es[k := de] else es @ [de])"
        unfolding ca dirents_copy[OF lm length_new_dirent free_entry_le] by (simp add: Let_def)
      have "length (content s3 i) mod 16 = 0"
      proof -
        obtain n where n: "length (content s i) = 16 * n" using lm by (metis mult_div_mod_eq add_0_right)
        then have "?k \<le> n" using free_entry_le[of "content s i"] by simp
        then have "length (content s3 i) = 16 * max n (Suc ?k)" unfolding ca using n lb by (auto simp: copy_at_def max_def)
        then show ?thesis by simp
      qed
      then have "unat (di_size (eff s3 i)) mod 16 = 0" by (simp only: length_content)
      moreover have "is_dir (icache s3 c)" using 4(8) D(6) by (auto simp: is_dir_def)
      ultimately have od: "open_dir s3 st c i" using 4(1,2,3,5) D(3) e(2) by (simp add: open_dir_def)
      have "Q 0 s3"
        by (rule Q[OF od 4(6)]) (use 4 fs_rest_ext[OF s2(3)] e ds G(3) same_files_content[OF open_dirD(1)[OF d] G(2)] in auto)
      then show ?case using lb by simp
    qed (use le u lb fit r(2) e(2) in simp_all)
  qed
  show ?thesis unfolding dirlink_def runs_bnd[of "dirlookup _ _"]
  proof (rule runs_dirlookup[OF d t], goal_cases)
    case (1 s1)
    note S = open_dir_same[OF d 1(3,4)]
    have "runs (dirlink_slot c (of_nat (16 * 0))) s1 (\<lambda>off s2. runs (bnd (writei c ?b off) (\<lambda>w.
        bnd (guardk (w = int DIRENT_SIZE) (Panic ''dirlink'')) (\<lambda>_. ret 0))) s2 Q)"
    proof (rule runs_dirlink_slot[OF S(1) 1(2)], goal_cases)
      case (2 s2)
      then show ?case using main[of s2] 1 unfolding S(3) free_entry_def by simp
    qed simp
    then show ?case by simp
  qed (use new in simp)
qed

section \<open>Properties\<close>

text \<open>
  C38: how names are compared. For a name without zeros, of at most \<open>DIRSIZ\<close> bytes, \<open>namecmp\<close> holds
  exactly if the name is a prefix of the entry's name: an entry \<open>abc\<close> answers to \<open>ab\<close> as well.
\<close>

theorem namecmp_prefix:
  assumes "0 \<notin> set s" "length s \<le> DIRSIZ" "length t = DIRSIZ"
  shows "namecmp s t \<longleftrightarrow> take (length s) t = s"
proof -
  have "namecmp s t \<longleftrightarrow> (\<forall>i < length s. s ! i = t ! i)"
    using namecmp_from_iff[of "length s" s t 0] assms by (auto simp: namecmp_def at0_def)
  then show ?thesis using assms(2,3) by (auto simp: list_eq_iff_nth_eq)
qed

theorem namecmp_prefix_witness:
  "namecmp [97, 98] ([97, 98, 99] @ replicate 11 0) \<and> \<not> namecmp [97, 98, 99] ([97, 98] @ replicate 12 0)"
  using namecmp_prefix[of "[97, 98]" "[97, 98, 99] @ replicate 11 0"] namecmp_prefix[of "[97, 98, 99]" "[97, 98] @ replicate 12 0"]
  by simp

text \<open>
  C17: looking up a name. \<open>dirlookup\<close> in an open directory returns the inode and the offset of the first
  entry in use that answers to the name, with a reference taken, and null if there is none; the
  contents of all files stay as they are.
\<close>

theorem dirlookup_first:
  fixes s :: "'z kfs_scheme"
  assumes d: "open_dir s st c i" and t: "tx s st F m"
    and slots: "\<forall>x < NINODE. i_ref (icache s x) < 2 ^ 31 - 1" "\<exists>x < NINODE. i_ref (icache s x) = 0"
  shows "case first_entry (name_matches name) 0 (content s i) of
      None \<Rightarrow> \<exists>s'. dirlookup c name s = Inr (None, s') \<and> cache_abs s' = cache_abs s \<and> log_ext s' = log_ext s
    | Some k \<Rightarrow> \<exists>s' ip. dirlookup c name s = Inr (Some (ip, of_nat (16 * k)), s') \<and>
        got s s' st (unat (de_inum (dirents (content s i) ! k))) ip"
proof -
  have "runs (dirlookup c name) s (\<lambda>r s'. case first_entry (name_matches name) 0 (content s i) of
      None \<Rightarrow> r = None \<and> cache_abs s' = cache_abs s \<and> log_ext s' = log_ext s
    | Some k \<Rightarrow> \<exists>ip. r = Some (ip, of_nat (16 * k)) \<and> got s s' st (unat (de_inum (dirents (content s i) ! k))) ip)"
  proof (rule runs_dirlookup[OF d t], goal_cases)
    case (2 k s1)
    note e = kfs_frame[OF 2(4)]
    have I1: "fs_inv s1 st" by (rule fs_same(1)[OF open_dirD(1)[OF d]]) (use 2 e in simp_all)
    show ?case
    proof (rule runs_iget[OF I1], goal_cases)
      case (1 x)
      then have "x < NINODE" by (auto simp: slot_of_def find_Some_iff)
      then show ?case using slots(1) e(1) by simp
    next
      case (3 ip s')
      then show ?case using got_after[OF open_dirD(1)[OF d] 2(2-4)] 2(1) by simp
    qed (use slots(2) e(1) in simp)
  qed simp
  then show ?thesis unfolding runs_Inr by (cases "first_entry (name_matches name) 0 (content s i)") (simp_all, blast+)
qed

text \<open>
  C16: adding a name. If no entry answers to the name, \<open>dirlink\<close> puts the new entry into the first free
  slot, or behind the last one, and returns 0; the other entries and all other files stay as they are.
\<close>

theorem dirlink_adds:
  fixes s :: "'z kfs_scheme"
  assumes d: "open_dir s st c i" and r: "room s st F i 1" "iblk (fs_sb s) i \<in> F"
    and new: "first_entry (name_matches name) 0 (content s i) = None" and fit: "16 * free_entry (content s i) + 16 \<le> MAXFILE * BSIZE"
  shows "\<exists>s'. dirlink c name inum s = Inr (0, s') \<and> open_dir s' st c i \<and>
    dirents (content s' i) = (let es = dirents (content s i); k = free_entry (content s i); de = new_dirent name inum in
      if k < length es then es[k := de] else es @ [de]) \<and>
    (\<forall>j < ninodes s. j \<noteq> i \<longrightarrow> content s' j = content s j \<and> meta (eff s' j) = meta (eff s j))"
proof -
  have r0: "room s st F i (Suc 0)" using r(1) by simp
  have "runs (dirlink c name inum) s (\<lambda>r s'. r = 0 \<and> open_dir s' st c i \<and>
    dirents (content s' i) = (let es = dirents (content s i); k = free_entry (content s i); de = new_dirent name inum in
      if k < length es then es[k := de] else es @ [de]) \<and>
    (\<forall>j < ninodes s. j \<noteq> i \<longrightarrow> content s' j = content s j \<and> meta (eff s' j) = meta (eff s j)))"
    by (rule runs_dirlink_new[OF d r0 r(2) new fit]) simp
  then show ?thesis unfolding runs_Inr by blast
qed

lemma demo_root:
  assumes "demo_open s 1 c"
  shows "open_dir s 2 c 1" "content s 1 = []"
proof -
  have D: "fs_inv s 2" "cached s c 1" "eff s 1 = demo_inode 1" "fs_sb s = demo_sb" "held s = Map.empty"
    using assms by (auto simp: demo_open_def)
  have "is_dir (icache s c)" using eff_cached[OF fs_invD(3)[OF D(1)] D(2)] D(3) by (simp add: is_dir_def to_dinode_def demo_inode_def dinode_zero_def)
  then show "open_dir s 2 c 1" using D by (simp add: open_dir_def demo_inode_def dinode_zero_def)
  show "content s 1 = []" using D by (simp add: content_def demo_inode_def dinode_zero_def)
qed

lemma demo_linked:
  assumes "demo_open s 1 c"
  shows "\<exists>s'. dirlink c [97, 98] 2 s = Inr (0, s') \<and> open_dir s' 2 c 1 \<and> tx s' 2 {58, 32} 0 \<and>
    dirents (content s' 1) = [\<lparr>de_inum = 2, de_name = [97, 98] @ replicate 12 0\<rparr>] \<and> (\<forall>x. i_ref (icache s' x) = (if x = c then 1 else 0))"
proof -
  note R = demo_root[OF assms]
  have n: "new_dirent [97, 98] 2 = \<lparr>de_inum = 2, de_name = [97, 98] @ replicate 12 0\<rparr>" by code_simp
  have r: "room s 2 {58, 32} 1 (Suc 0)" "iblk (fs_sb s) 1 \<in> {58, 32}" using demo_room[OF assms, of 1] by simp_all
  have "runs (dirlink c [97, 98] 2) s (\<lambda>r s'. r = 0 \<and> open_dir s' 2 c 1 \<and> tx s' 2 {58, 32} 0 \<and>
    dirents (content s' 1) = [\<lparr>de_inum = 2, de_name = [97, 98] @ replicate 12 0\<rparr>] \<and> (\<forall>x. i_ref (icache s' x) = (if x = c then 1 else 0)))"
  proof (rule runs_dirlink_new[OF R(1) r], unfold R(2), goal_cases)
    case (3 s')
    have "tx s' 2 {58, 32} 0" using 3(2) tx_less[of s' 2 "{58, 32}" "indneed s' 1" 0] by (simp add: room_def)
    then show ?case using 3 n assms by (auto simp: dirents_def demo_open_def free_entry_def first_entry_def)
  qed (simp_all add: first_entry_def free_entry_def)
  then show ?thesis by (simp add: runs_Inr)
qed

theorem dirlookup_first_witness:
  "\<exists>s s' s'' c ip. bnd boot_fs (\<lambda>_. open_inode 1) (kfs_zero demo_fs ()) = Inr (c, s) \<and> dirlink c [97, 98] 2 s = Inr (0, s') \<and>
     dirlookup c [97] s' = Inr (Some (ip, 0), s'') \<and> i_inum (icache s'' ip) = 2"
proof -
  obtain s :: kfs and c where s: "bnd boot_fs (\<lambda>_. open_inode 1) (kfs_zero demo_fs ()) = Inr (c, s)" "demo_open s 1 c"
    using demo_open_run[of 1 "()"] by auto
  obtain s' where s': "dirlink c [97, 98] 2 s = Inr (0, s')" "open_dir s' 2 c 1" "tx s' 2 {58, 32} 0"
    "dirents (content s' 1) = [\<lparr>de_inum = 2, de_name = [97, 98] @ replicate 12 0\<rparr>]" "\<And>x. i_ref (icache s' x) = (if x = c then 1 else 0)"
    using demo_linked[OF s(2)] by auto
  have n: "name_matches [97] \<lparr>de_inum = 2, de_name = [97, 98] @ replicate 12 0\<rparr>" by code_simp
  have "length (content s' 1) div 16 = 1" using arg_cong[OF s'(4), of length] by simp
  then have fe: "first_entry (name_matches [97]) 0 (content s' 1) = Some 0" using n s'(4) by (simp add: first_entry_def)
  have b: "\<forall>x < NINODE. i_ref (icache s' x) < 2 ^ 31 - 1" using s'(5) by simp
  have f: "\<exists>x < NINODE. i_ref (icache s' x) = 0" by (rule exI[of _ "if c = 0 then 1 else 0"]) (simp add: s'(5) NINODE_def)
  from dirlookup_first[OF s'(2,3) b f, of "[97]"]
  obtain s'' ip where "dirlookup c [97] s' = Inr (Some (ip, 0), s'')" "got s' s'' 2 2 ip"
    unfolding fe option.case s'(4) by auto
  then show ?thesis using s(1) s'(1) by (auto simp: got_def)
qed

theorem dirlink_adds_witness:
  "\<exists>s s' c. bnd boot_fs (\<lambda>_. open_inode 1) (kfs_zero demo_fs ()) = Inr (c, s) \<and>
     dirlink c [97, 98] 2 s = Inr (0, s') \<and> dirents (content s' 1) = [\<lparr>de_inum = 2, de_name = [97, 98] @ replicate 12 0\<rparr>]"
proof -
  obtain s :: kfs and c where s: "bnd boot_fs (\<lambda>_. open_inode 1) (kfs_zero demo_fs ()) = Inr (c, s)" "demo_open s 1 c"
    using demo_open_run[of 1 "()"] by auto
  note R = demo_root[OF s(2)]
  have fe: "first_entry P 0 (content s 1) = None" for P unfolding R(2) by (simp add: first_entry_def)
  have n: "new_dirent [97, 98] 2 = \<lparr>de_inum = 2, de_name = [97, 98] @ replicate 12 0\<rparr>"
    by code_simp
  obtain s' where "dirlink c [97, 98] 2 s = Inr (0, s')" "dirents (content s' 1) = [new_dirent [97, 98] 2]"
    using dirlink_adds[OF R(1), of "{58, 32}" "[97, 98]" 2, unfolded R(2)] demo_room[OF s(2), of 1] fe[unfolded R(2)]
    by (auto simp: free_entry_def dirents_def)
  then show ?thesis using s(1) n by auto
qed

end
