(* ===== verification/Xv6_Path.thy ===== *)
theory Xv6_Path
  imports Xv6_Dir
begin

text \<open>
  Path resolution: the elements of a path, the walk through the directory tree that they describe, and
  the proof that \<open>namei\<close> and \<open>nameiparent\<close> follow it, leaving one reference on the inode they return
  and every file as it was.
\<close>

section \<open>The elements of a path\<close>

lemma name_len_full: "0 \<notin> set e \<Longrightarrow> length e \<le> k \<Longrightarrow> (k = length e \<or> cstr_hd r = 0) \<Longrightarrow> name_len_from k (e @ r) = length e"
  by (induction e arbitrary: k) (case_tac k; auto simp: cstr_hd_def split: list.splits; case_tac k; auto simp: cstr_hd_def)+

lemma elem_end_chars: "b \<in> set (fst (elem_end p)) \<Longrightarrow> b \<noteq> 0 \<and> b \<noteq> SLASH"
  by (induction p) (auto split: prod.splits if_splits)

lemma skipelem_name:
  assumes s: "skipelem path name = Some (r, n)" and l: "length name = DIRSIZ"
  shows "length n = DIRSIZ" "take (name_len n) n = take DIRSIZ (fst (elem_end (skip_slashes path)))"
    "skipelem path name' = Some (r, n') \<Longrightarrow> length name' = DIRSIZ \<Longrightarrow> take (name_len n') n' = take (name_len n) n"
proof -
  have key: "length n = DIRSIZ \<and> take (name_len n) n = take DIRSIZ (fst (elem_end (skip_slashes path)))"
    if s: "skipelem path name = Some (r, n)" and l: "length name = DIRSIZ" for name n
  proof -
    obtain e q where e: "elem_end (skip_slashes path) = (e, q)" by (cases "elem_end (skip_slashes path)")
    let ?k = "min (length e) DIRSIZ" let ?e = "take DIRSIZ e"
    have z: "0 \<notin> set ?e" using elem_end_chars[of 0 "skip_slashes path"] e by (auto dest: in_set_takeD)
    have n: "n = (if ?k < DIRSIZ then (take ?k e @ drop ?k name)[?k := 0] else take ?k e @ drop ?k name)"
      using s e by (auto simp: skipelem_def Let_def split: if_splits)
    have te: "take ?k e = ?e" by (simp add: min_def)
    have ln: "length n = DIRSIZ" using n l by simp
    have "name_len n = length ?e \<and> take (length ?e) n = ?e"
    proof (cases "length e < 14")
      case True
      then have n': "n = e @ 0 # drop (Suc (length e)) name"
        using n l by (simp add: list_update_append Cons_nth_drop_Suc[symmetric])
      have "name_len_from 14 (e @ 0 # drop (Suc (length e)) name) = length e"
        by (rule name_len_full) (use z True in \<open>simp_all add: cstr_hd_def\<close>)
      then show ?thesis using True n' by (simp add: name_len_def)
    next
      case False
      then have n': "n = ?e @ []" using n l by simp
      have "name_len_from 14 (?e @ []) = length ?e" by (rule name_len_full) (use z False in simp_all)
      then show ?thesis using n' False by (simp add: name_len_def min_def)
    qed
    then show ?thesis using ln e by simp
  qed
  show "length n = DIRSIZ" "take (name_len n) n = take DIRSIZ (fst (elem_end (skip_slashes path)))" using key[OF s l] by auto
  show "take (name_len n') n' = take (name_len n) n" if "skipelem path name' = Some (r, n')" "length name' = DIRSIZ"
    using key[OF s l] key[OF that] by simp
qed

function path_elems :: "u8 list \<Rightarrow> u8 list list" where
  "path_elems p = (case skipelem p (replicate DIRSIZ 0) of None \<Rightarrow> [] | Some (r, n) \<Rightarrow> take (name_len n) n # path_elems r)"
  by pat_completeness auto
termination
  by (relation "measure length") (auto dest: skipelem_shorter)

declare path_elems.simps [simp del]

lemma skipelem_None: "skipelem p name = None \<longleftrightarrow> cstr_hd (skip_slashes p) = 0"
  by (auto simp: skipelem_def Let_def split: prod.splits)

lemma skipelem_rest: "skipelem p name = Some (r, n) \<Longrightarrow> skipelem p name' = Some (r', n') \<Longrightarrow> r' = r"
  by (auto simp: skipelem_def Let_def split: prod.splits if_splits)

lemma path_elems_step:
  assumes "length name = DIRSIZ"
  shows "path_elems p = (case skipelem p name of None \<Rightarrow> [] | Some (r, n) \<Rightarrow> take (name_len n) n # path_elems r)"
proof (cases "skipelem p name")
  case None
  then have "skipelem p (replicate DIRSIZ 0) = None" by (simp add: skipelem_None)
  then show ?thesis using None path_elems.simps[of p] by simp
next
  case (Some rn)
  obtain r n where rn: "rn = (r, n)" by (cases rn)
  have "skipelem p (replicate DIRSIZ 0) \<noteq> None" using Some skipelem_None[of p] by (metis option.distinct(1))
  then obtain r' n' where z: "skipelem p (replicate DIRSIZ 0) = Some (r', n')" by auto
  then have "r' = r" using skipelem_rest Some rn by blast
  then show ?thesis using skipelem_name(3)[OF Some[unfolded rn] assms] z Some rn path_elems.simps[of p] by simp
qed

lemma path_elems_empty: "skip_slashes p = p \<Longrightarrow> path_elems p = [] \<longleftrightarrow> cstr_hd p = 0"
  using path_elems.simps[of p] skipelem_None[of p "replicate DIRSIZ 0"] by (auto split: option.splits)

lemma skip_slashes_idem [simp]: "skip_slashes (skip_slashes p) = skip_slashes p"
  by (induction p) auto

lemma skipelem_rest_skip: "skipelem p name = Some (r, n) \<Longrightarrow> skip_slashes r = r"
  by (auto simp: skipelem_def Let_def split: prod.splits if_splits)

section \<open>The walk\<close>

definition dir_lookup :: "'z kfs_scheme \<Rightarrow> nat \<Rightarrow> u8 list \<Rightarrow> nat option" where
  "dir_lookup s i e = map_option (\<lambda>k. unat (de_inum (dirents (content s i) ! k))) (first_entry (name_matches e) 0 (content s i))"

text \<open>The inode a path leads to from \<open>i\<close>; with \<open>fp\<close>, the directory that holds its last element.\<close>

fun target :: "bool \<Rightarrow> 'z kfs_scheme \<Rightarrow> nat \<Rightarrow> u8 list list \<Rightarrow> nat option" where
  "target fp s i [] = (if fp then None else Some i)"
| "target fp s i (e # es) = (if di_type (eff s i) \<noteq> T_DIR then None else if fp \<and> es = [] then Some i
     else (case dir_lookup s i e of None \<Rightarrow> None | Some j \<Rightarrow> target fp s j es))"

text \<open>A directory tree: whole entries, which name inodes in use with links.\<close>

definition tree_ok :: "'z kfs_scheme \<Rightarrow> bool" where
  "tree_ok s \<longleftrightarrow> (\<forall>i < ninodes s. di_type (eff s i) = T_DIR \<longrightarrow> unat (di_size (eff s i)) mod 16 = 0 \<and>
     (\<forall>de \<in> set (dirents (content s i)). de_inum de \<noteq> 0 \<longrightarrow> unat (de_inum de) < ninodes s \<and>
        di_type (eff s (unat (de_inum de))) \<noteq> 0 \<and> di_nlink (eff s (unat (de_inum de))) \<noteq> 0))"

definition still :: "nat \<Rightarrow> 'z kfs_scheme \<Rightarrow> 'z kfs_scheme \<Rightarrow> bool" where
  "still st s s' \<longleftrightarrow> quiet st s s' \<and> same_files s s' \<and> (\<forall>j < ninodes s. eff s' j = eff s j)"

lemma still_trans:
  assumes a: "still st s s'" and b: "still st s' s''"
  shows "still st s s''"
  unfolding still_def
proof (intro conjI allI impI)
  have n: "ninodes s' = ninodes s" using a unfolding still_def same_files_def by simp
  show "quiet st s s''" using a b unfolding still_def by (elim conjE) (rule quiet_trans)
  show "same_files s s''" using a b unfolding still_def by (elim conjE) (rule same_files_trans)
  fix j assume j: "j < ninodes s"
  have "eff s'' j = eff s' j" using b j n unfolding still_def by (elim conjE) simp
  also have "\<dots> = eff s j" using a j unfolding still_def by (elim conjE) simp
  finally show "eff s'' j = eff s j" .
qed

lemma still_ninodes: "still st s s' \<Longrightarrow> ninodes s' = ninodes s"
  unfolding still_def same_files_def by simp

lemma still_content:
  assumes "fs_inv s st" "still st s s'" "j < ninodes s"
  shows "content s' j = content s j" "eff s' j = eff s j" "ninodes s' = ninodes s"
proof -
  have sf: "same_files s s'" using assms(2) unfolding still_def by (elim conjE)
  show "eff s' j = eff s j" using assms(2,3) unfolding still_def by (elim conjE) simp
  show "ninodes s' = ninodes s" using sf unfolding same_files_def by simp
  show "content s' j = content s j" by (rule same_files_content[OF assms(1) sf assms(3)])
qed

lemma dir_lookup_ok:
  assumes "tree_ok s" "i < ninodes s" "di_type (eff s i) = T_DIR" "dir_lookup s i e = Some j"
  shows "j < ninodes s" "di_type (eff s j) \<noteq> 0" "di_nlink (eff s j) \<noteq> 0"
proof -
  obtain k where k: "first_entry (name_matches e) 0 (content s i) = Some k" "j = unat (de_inum (dirents (content s i) ! k))"
    using assms(4) by (auto simp: dir_lookup_def)
  then have "k < length (content s i) div 16" "name_matches e (dirents (content s i) ! k)" by (auto simp: first_entry_def find_Some_iff)
  then have "dirents (content s i) ! k \<in> set (dirents (content s i))" "de_inum (dirents (content s i) ! k) \<noteq> 0"
    by (auto simp: name_matches_def)
  then show "j < ninodes s" "di_type (eff s j) \<noteq> 0" "di_nlink (eff s j) \<noteq> 0" using assms(1-3) k(2) by (auto simp: tree_ok_def)
qed

lemma tree_ok_still: "fs_inv s st \<Longrightarrow> still st s s' \<Longrightarrow> tree_ok s \<Longrightarrow> tree_ok s'"
  unfolding tree_ok_def using still_content(1,2)[of s st s'] still_ninodes[of st s s'] by simp

lemma target_still:
  assumes "fs_inv s st" "still st s s'" "tree_ok s"
  shows "i < ninodes s \<Longrightarrow> target fp s' i es = target fp s i es"
proof (induction es arbitrary: i)
  case (Cons e es)
  note c = still_content[OF assms(1,2) Cons(2)]
  have "dir_lookup s' i e = dir_lookup s i e" using c(1) by (simp add: dir_lookup_def)
  then show ?case using Cons c(2) dir_lookup_ok(1)[OF assms(3) Cons(2)] by (auto split: option.splits)
qed simp

lemma name_matches_buf: "name_matches (take (name_len n) n) = name_matches n"
proof -
  let ?e = "take (name_len n) n"
  have l: "length ?e = name_len n" "name_len n \<le> 14" using name_len_from_le[of 14 n] by (simp_all add: name_len_def)
  have "name_len_from 14 (?e @ []) = length ?e"
    by (rule name_len_full) (use l name_len_nonzero[of 14 n] in \<open>simp_all add: name_len_def cstr_hd_def\<close>)
  then show ?thesis using l by (simp add: fun_eq_iff name_matches_def name_len_def)
qed

section \<open>References and locks on the way\<close>

abbreviation refs :: "'z kfs_scheme \<Rightarrow> nat \<Rightarrow> i32" where "refs s x \<equiv> i_ref (icache s x)"

text \<open>A transaction in which the inodes of \<open>L\<close> are locked and every inode agrees with the disk.\<close>

definition calm :: "'z kfs_scheme \<Rightarrow> nat \<Rightarrow> u32 set \<Rightarrow> nat \<Rightarrow> nat set \<Rightarrow> bool" where
  "calm s st F m L \<longleftrightarrow> fs_inv s st \<and> tx s st F m \<and> held s = Map.empty \<and>
     (\<forall>x < NINODE. (sl_locked (slp s (SlInode x)) = 0) = (x \<notin> L)) \<and> (\<forall>j < ninodes s. eff s j = disk_inode s j)"

lemma calm_quiet:
  assumes "calm s st F m L" "still st s s'" "fs_inv s' st" "\<And>x. x < NINODE \<Longrightarrow> (sl_locked (slp s' (SlInode x)) = 0) = (x \<notin> L')"
  shows "calm s' st F m L'"
  using assms unfolding calm_def still_def quiet_def same_files_def by (auto simp: disk_inode_def)

lemma got_refs: "got s s' st i c \<Longrightarrow> refs s' x = refs s x + of_bool (x = c)" "got s s' st i c \<Longrightarrow> refers s' c i"
proof -
  assume g: "got s s' st i c"
  show "refs s' x = refs s x + of_bool (x = c)"
    using g by (cases "x = c") (auto simp: got_def split: option.splits)
  have "0 < refs s c" if "slot_of s i = Some c" using that by (auto simp: slot_of_def find_Some_iff)
  then show "refers s' c i" using g by (auto simp: got_def refers_def split: option.splits)
qed

lemma calm_got: "calm s st F m L \<Longrightarrow> got s s' st i c \<Longrightarrow> calm s' st F m L \<and> still st s s'"
proof -
  assume c: "calm s st F m L" and g: "got s s' st i c"
  have "still st s s'" using g by (simp add: got_def still_def)
  moreover have "calm s' st F m L" by (rule calm_quiet[OF c \<open>still st s s'\<close>]) (use g c in \<open>auto simp: got_def calm_def\<close>)
  ultimately show ?thesis by simp
qed

lemma calm_lock:
  fixes s :: "'z kfs_scheme"
  assumes c: "calm s st F m {}" and r: "refers s c i" "i < ninodes s" and ty: "di_type (eff s i) \<noteq> 0"
    and Q: "\<And>s'. calm s' st F m {c} \<Longrightarrow> still st s s' \<Longrightarrow> cached s' c i \<Longrightarrow> (\<And>x. refs s' x = refs s x) \<Longrightarrow> Q () s'"
  shows "runs (ilock (Some c)) s Q"
proof -
  have C: "fs_inv s st" "tx s st F m" "held s = Map.empty" and l: "sl_locked (slp s (SlInode c)) = 0"
    using c r(1) by (auto simp: calm_def refers_def)
  show ?thesis
  proof (rule runs_ilock[OF C(1) r l C(2)], goal_cases)
    case (4 s')
    note k = 4[unfolded locked_inode_def]
    have st: "still st s s'" using k by (simp add: still_def)
    have "calm s' st F m {c}" by (rule calm_quiet[OF c st]) (use k c in \<open>auto simp: calm_def\<close>)
    moreover have "refs s' x = refs s x" for x using k by (cases "x = c") auto
    ultimately show ?case using st k by (intro Q) auto
  qed (use C ty in simp_all)
qed

lemma calm_unlock:
  fixes s :: "'z kfs_scheme"
  assumes c: "calm s st F m {c}" and r: "cached s c i"
    and Q: "\<And>s'. calm s' st F m {} \<Longrightarrow> still st s s' \<Longrightarrow> icache s' = icache s \<Longrightarrow> Q () s'"
  shows "runs (iunlock (Some c)) s Q"
proof (rule runs_iunlock, goal_cases)
  case (3 s')
  note k = 3[unfolded unlocked_inode_def]
  have I: "fs_inv s st" using c by (simp add: calm_def)
  have v: "view s' = view s" "fs_sb s' = fs_sb s" using k by (auto simp: quiet_def)
  have ic: "icache s' = icache s" using k by simp
  note S = fs_same[OF I v(1) ic v(2)]
  have st: "still st s s'" using k S by (simp add: still_def)
  have "calm s' st F m {}" by (rule calm_quiet[OF c st S(1)]) (use k c in \<open>auto simp: calm_def\<close>)
  then show ?case using st ic by (rule Q)
qed (use c r in \<open>auto simp: calm_def cached_def\<close>)

lemma calm_put:
  fixes s :: "'z kfs_scheme"
  assumes c: "calm s st F m L" and r: "refers s c i" "i < ninodes s" "refs s c < 2 ^ 31" and nl: "di_nlink (eff s i) \<noteq> 0"
    and Q: "\<And>s'. calm s' st F m L \<Longrightarrow> still st s s' \<Longrightarrow> (\<And>x. refs s' x = refs s x - of_bool (x = c)) \<Longrightarrow>
      icache s' = (icache s)(c := (icache s c)\<lparr>i_ref := i_ref (icache s c) - 1\<rparr>) \<Longrightarrow> Q () s'"
  shows "runs (iput c) s Q"
proof -
  have I: "fs_inv s st" and sy: "eff s i = disk_inode s i" using c r(2) by (auto simp: calm_def)
  have k: "i_nlink (icache s c) \<noteq> 0" if "inode_is_valid (icache s c)"
    using eff_cached[OF fs_invD(3)[OF I], of c i] r(1) that nl by (simp add: cached_refers to_dinode_def)
  show ?thesis
  proof (rule runs_iput_keep[OF I r(1,2)], goal_cases)
    case (4 s')
    note d = 4[unfolded dropped_def]
    have st: "still st s s'" using d by (simp add: still_def)
    have "calm s' st F m L" by (rule calm_quiet[OF c st]) (use d c in \<open>auto simp: calm_def\<close>)
    then show ?case using st d by (intro Q) auto
  qed (use k sy r in auto)
qed

lemma calm_lookup:
  fixes s :: "'z kfs_scheme"
  assumes c: "calm s st F m {c}" and d: "cached s c i" "i < ninodes s" "di_type (eff s i) = T_DIR" and T: "tree_ok s"
    and slots: "\<forall>x < NINODE. refs s x < 2 ^ 31 - 1" "\<exists>x < NINODE. refs s x = 0"
    and none: "\<And>s'. dir_lookup s i (take (name_len n) n) = None \<Longrightarrow> calm s' st F m {c} \<Longrightarrow> still st s s' \<Longrightarrow> icache s' = icache s \<Longrightarrow> Q None s'"
    and some: "\<And>j c' off s'. dir_lookup s i (take (name_len n) n) = Some j \<Longrightarrow> calm s' st F m {c} \<Longrightarrow> still st s s' \<Longrightarrow>
      (\<And>x. refs s' x = refs s x + of_bool (x = c')) \<Longrightarrow> cached s' c i \<Longrightarrow> refers s' c' j \<Longrightarrow> Q (Some (c', off)) s'"
  shows "runs (dirlookup c n) s Q"
proof -
  have I: "fs_inv s st" and t: "tx s st F m" and h: "held s = Map.empty" using c unfolding calm_def by auto
  have "i_type (icache s c) = T_DIR" using arg_cong[OF eff_cached[OF fs_invD(3)[OF I] d(1)], of di_type] d(3) by (simp add: to_dinode_def)
  then have o: "open_dir s st c i" using I d h T by (auto simp: open_dir_def is_dir_def tree_ok_def)
  show ?thesis
  proof (rule runs_dirlookup[OF o t, of n], goal_cases)
    case (1 s')
    note e = kfs_frame[OF 1(4)]
    have v: "view s' = view s" using 1(3) by simp
    note S = fs_same[OF I v e(1,2)]
    have st: "still st s s'" using quiet_tx[OF 1(2-4)] S(2,3) by (simp add: still_def)
    have "calm s' st F m {c}" by (rule calm_quiet[OF c st S(1)]) (use c log_ext_fields[OF 1(4)] in \<open>simp add: calm_def\<close>)
    then show ?case using 1(1) st e(1) by (intro none) (simp_all add: dir_lookup_def name_matches_buf)
  next
    case (2 k s1)
    note e = kfs_frame[OF 2(4)]
    have I1: "fs_inv s1 st" by (rule fs_same(1)[OF I]) (use 2 e in simp_all)
    show ?case
    proof (rule runs_iget[OF I1], goal_cases)
      case (1 x)
      then have "x < NINODE" by (auto simp: slot_of_def find_Some_iff)
      then show ?case using slots(1) e(1) by simp
    next
      case (3 ip s')
      have g: "got s s' st (unat (de_inum (dirents (content s i) ! k))) ip" by (rule got_after[OF I 2(2-4) 3])
      have "cached s' c i" using g d(1) by (cases "ip = c") (auto simp: got_def cached_def inode_is_valid_def split: option.splits)
      then show ?case using calm_got[OF c g] got_refs[OF g] 2(1)
        by (intro some) (auto simp: dir_lookup_def name_matches_buf)
    qed (use slots(2) e(1) in simp)
  qed
qed

lemma calm_unlockput:
  fixes s :: "'z kfs_scheme"
  assumes c: "calm s st F m {c}" and r: "cached s c i" "i < ninodes s" "refs s c < 2 ^ 31" and nl: "di_nlink (eff s i) \<noteq> 0"
    and Q: "\<And>s'. calm s' st F m {} \<Longrightarrow> still st s s' \<Longrightarrow> (\<And>x. refs s' x = refs s x - of_bool (x = c)) \<Longrightarrow>
      (\<And>x j. refers s x j \<Longrightarrow> (x = c \<Longrightarrow> 1 < refs s c) \<Longrightarrow> refers s' x j) \<Longrightarrow> Q () s'"
  shows "runs (iunlockput c) s Q"
  unfolding iunlockput_def runs_bnd
proof (rule calm_unlock[OF c r(1)], goal_cases)
  case (1 s1)
  have rf: "refers s1 c i" using r(1) 1(3) by (simp add: cached_refers refers_def)
  have n: "i < ninodes s1" "di_nlink (eff s1 i) \<noteq> 0" using still_ninodes[OF 1(2)] r(2) nl 1(2) by (auto simp: still_def)
  show ?case
  proof (rule calm_put[OF 1(1) rf n(1)], goal_cases)
    case (3 s')
    have "still st s s'" by (rule still_trans[OF 1(2) 3(2)])
    moreover have "refers s' x j" if "refers s x j" "x = c \<Longrightarrow> 1 < refs s c" for x j
      using that 1(3) 3(4) by (cases "x = c") (auto simp: refers_def)
    ultimately show ?case using 3(1,3) 1(3) by (intro Q) auto
  qed (use n r 1(3) in simp_all)
qed


section \<open>Following a path\<close>

text \<open>
  The walk holds one reference, in slot \<open>c\<close>, besides those of \<open>R\<close>; two slots that \<open>R\<close> leaves free are
  enough for it at any time.
\<close>

definition walk :: "'z kfs_scheme \<Rightarrow> (nat \<Rightarrow> i32) \<Rightarrow> nat \<Rightarrow> nat \<Rightarrow> bool" where
  "walk s R c i \<longleftrightarrow> refers s c i \<and> i < ninodes s \<and> di_type (eff s i) \<noteq> 0 \<and> di_nlink (eff s i) \<noteq> 0 \<and> (\<forall>x. refs s x = R x + of_bool (x = c))"

definition two_slots :: "(nat \<Rightarrow> i32) \<Rightarrow> bool" where
  "two_slots R \<longleftrightarrow> (\<forall>x < NINODE. 0 \<le> R x \<and> R x < 2 ^ 31 - 2) \<and> (\<exists>x < NINODE. \<exists>y < NINODE. x \<noteq> y \<and> R x = 0 \<and> R y = 0)"

definition arrived :: "'z kfs_scheme \<Rightarrow> (nat \<Rightarrow> i32) \<Rightarrow> nat option \<Rightarrow> nat option \<Rightarrow> bool" where
  "arrived s R t r \<longleftrightarrow> (case t of None \<Rightarrow> r = None \<and> (\<forall>x. refs s x = R x)
     | Some j \<Rightarrow> \<exists>c. r = Some c \<and> refers s c j \<and> (\<forall>x. refs s x = R x + of_bool (x = c)))"

lemma two_slots_free:
  assumes "two_slots R" "\<forall>x. refs s x = R x + of_bool (x = c)"
  shows "\<forall>x < NINODE. refs s x < 2 ^ 31 - 1" "\<exists>x < NINODE. refs s x = 0"
proof -
  show "\<forall>x < NINODE. refs s x < 2 ^ 31 - 1" using assms unfolding two_slots_def by (auto simp: of_bool_def)
  obtain x y where xy: "x < NINODE" "y < NINODE" "x \<noteq> y" "R x = 0" "R y = 0" using assms(1) unfolding two_slots_def by blast
  show "\<exists>x < NINODE. refs s x = 0"
    by (rule exI[of _ "if x = c then y else x"]) (use xy assms(2) in auto)
qed

lemma walk_still: "still st s s' \<Longrightarrow> refers s' c i \<Longrightarrow> (\<forall>x. refs s' x = R x + of_bool (x = c)) \<Longrightarrow> i < ninodes s \<Longrightarrow>
  di_type (eff s i) \<noteq> 0 \<Longrightarrow> di_nlink (eff s i) \<noteq> 0 \<Longrightarrow> walk s' R c i"
  using still_ninodes[of st s s'] unfolding walk_def still_def by simp

lemma path_last: "skipelem path name = Some (rest, n) \<Longrightarrow> length name = DIRSIZ \<Longrightarrow> path_elems rest = [] \<longleftrightarrow> cstr_hd rest = 0"
  by (rule path_elems_empty) (rule skipelem_rest_skip)

lemma calm_descend:
  fixes s :: "'z kfs_scheme"
  assumes c: "calm s st F m {c}" and T: "tree_ok s" and w: "walk s R c i" and R: "two_slots R" and d: "cached s c i" "di_type (eff s i) = T_DIR"
    and none: "\<And>s'. dir_lookup s i (take (name_len n) n) = None \<Longrightarrow> calm s' st F m {} \<Longrightarrow> still st s s' \<Longrightarrow> (\<forall>x. refs s' x = R x) \<Longrightarrow>
      runs (K None) s' Q"
    and some: "\<And>j c' off s'. dir_lookup s i (take (name_len n) n) = Some j \<Longrightarrow> calm s' st F m {} \<Longrightarrow> still st s s' \<Longrightarrow> walk s' R c' j \<Longrightarrow>
      runs (K (Some (c', off))) s' Q"
  shows "runs (bnd (dirlookup c n) (\<lambda>r. bnd (iunlockput c) (\<lambda>_. K r))) s Q"
proof -
  note W = w[unfolded walk_def]
  have Rc: "0 \<le> R c" "R c < 2 ^ 31 - 2" "c < NINODE" using W R by (auto simp: refers_def two_slots_def)
  note fr = two_slots_free[OF R, of s c]
  show ?thesis unfolding runs_bnd
  proof (rule calm_lookup[OF c d(1) _ d(2) T, of n], goal_cases)
    case (4 s1)
    have k: "i < ninodes s1" "di_nlink (eff s1 i) \<noteq> 0" "cached s1 c i" "refs s1 c < 2 ^ 31"
      using still_ninodes[OF 4(3)] W 4(3,4) d(1) Rc by (auto simp: still_def cached_def)
    show ?case by (rule calm_unlockput[OF 4(2) k(3,1,4,2)]) (use 4 W in \<open>auto intro!: none still_trans[OF 4(3)]\<close>)
  next
    case (5 j c' off s1)
    have k: "i < ninodes s1" "di_nlink (eff s1 i) \<noteq> 0" "refs s1 c < 2 ^ 31"
      using still_ninodes[OF 5(3)] W 5(3,4) Rc by (auto simp: still_def)
    note j = dir_lookup_ok[OF T _ d(2) 5(1)]
    show ?case
    proof (rule calm_unlockput[OF 5(2,5) k(1,3,2)], goal_cases)
      case (1 s')
      have st: "still st s s'" by (rule still_trans[OF 5(3) 1(2)])
      have "refers s' c' j" by (rule 1(4)[OF 5(6)]) (use W Rc 5(4)[of c] in auto)
      then have "walk s' R c' j" by (rule walk_still[OF st]) (use 1(3) 5(4) W j in auto)
      then show ?case by (rule some[OF 5(1) 1(1) st])
    qed
  qed (use W fr in auto)
qed

lemma runs_namex_elem:
  fixes s :: "'z kfs_scheme"
  assumes c: "calm s st F m {}" and T: "tree_ok s" and w: "walk s R c i" and R: "two_slots R"
    and fail: "\<And>s'. di_type (eff s i) \<noteq> T_DIR \<or> \<not> stop \<and> dir_lookup s i (take (name_len n) n) = None \<Longrightarrow> calm s' st F m {} \<Longrightarrow> still st s s' \<Longrightarrow>
      (\<forall>x. refs s' x = R x) \<Longrightarrow> Q (None, n) s'"
    and last: "\<And>s'. di_type (eff s i) = T_DIR \<Longrightarrow> stop \<Longrightarrow> calm s' st F m {} \<Longrightarrow> still st s s' \<Longrightarrow> walk s' R c i \<Longrightarrow> Q (Some c, n) s'"
    and down: "\<And>j c' s'. di_type (eff s i) = T_DIR \<Longrightarrow> \<not> stop \<Longrightarrow> dir_lookup s i (take (name_len n) n) = Some j \<Longrightarrow> calm s' st F m {} \<Longrightarrow>
      still st s s' \<Longrightarrow> walk s' R c' j \<Longrightarrow> runs (K c') s' Q"
  shows "runs (bnd (ilock (Some c)) (\<lambda>_. bnd (gets (\<lambda>s. is_dir (icache s c))) (\<lambda>d.
     if \<not> d then bnd (iunlockput c) (\<lambda>_. ret (None, n))
     else if stop then bnd (iunlock (Some c)) (\<lambda>_. ret (Some c, n))
     else bnd (dirlookup c n) (\<lambda>r. bnd (iunlockput c) (\<lambda>_. case r of None \<Rightarrow> ret (None, n) | Some (ip', off) \<Rightarrow> K ip'))))) s Q"
proof -
  note W = w[unfolded walk_def]
  have I: "fs_inv s st" using c by (simp add: calm_def)
  have Rc: "0 \<le> R c" "R c < 2 ^ 31 - 2" using W R by (auto simp: refers_def two_slots_def)
  have "runs (ilock (Some c)) s (\<lambda>_ s1. runs (if \<not> is_dir (icache s1 c) then bnd (iunlockput c) (\<lambda>_. ret (None, n))
     else if stop then bnd (iunlock (Some c)) (\<lambda>_. ret (Some c, n))
     else bnd (dirlookup c n) (\<lambda>r. bnd (iunlockput c) (\<lambda>_. case r of None \<Rightarrow> ret (None, n) | Some (ip', off) \<Rightarrow> K ip'))) s1 Q)"
  proof (rule calm_lock[OF c, of c i], goal_cases)
    case (4 s1)
    note st = 4(2) and C = 4(3)
    have I1: "fs_inv s1 st" using 4(1) by (simp add: calm_def)
    have ef: "eff s1 i = eff s i" "ninodes s1 = ninodes s" using st W still_ninodes[OF st] by (auto simp: still_def)
    have dir: "is_dir (icache s1 c) \<longleftrightarrow> di_type (eff s i) = T_DIR"
      using arg_cong[OF eff_cached[OF fs_invD(3)[OF I1] C], of di_type] ef by (simp add: is_dir_def to_dinode_def)
    have w1: "walk s1 R c i" by (rule walk_still[OF st]) (use C W 4(4) in \<open>auto simp: cached_refers\<close>)
    have dl: "dir_lookup s1 i = dir_lookup s i" using still_content(1)[OF I st] W by (simp add: fun_eq_iff dir_lookup_def)
    have "runs (iunlockput c) s1 (\<lambda>_. Q (None, n))" if "di_type (eff s i) \<noteq> T_DIR"
      by (rule calm_unlockput[OF 4(1) C]) (use W ef Rc 4(4) that in \<open>auto intro!: fail still_trans[OF st]\<close>)
    moreover have "runs (iunlock (Some c)) s1 (\<lambda>_. Q (Some c, n))" if "di_type (eff s i) = T_DIR" stop
    proof (rule calm_unlock[OF 4(1) C], goal_cases)
      case (1 s')
      have "walk s' R c i" by (rule walk_still[OF 1(2)]) (use w1 1(3) in \<open>auto simp: walk_def refers_def\<close>)
      then show ?case using that by (intro last[OF _ _ 1(1) still_trans[OF st 1(2)]])
    qed
    moreover have "runs (bnd (dirlookup c n) (\<lambda>r. bnd (iunlockput c) (\<lambda>_. case r of None \<Rightarrow> ret (None, n) | Some (ip', off) \<Rightarrow> K ip'))) s1 Q"
      if "di_type (eff s i) = T_DIR" "\<not> stop"
      by (rule calm_descend[OF 4(1) tree_ok_still[OF I st T] w1 R C])
        (use ef that dl in \<open>auto intro!: fail down still_trans[OF st]\<close>)
    ultimately show ?case using dir by (simp add: runs_bnd)
  qed (use W in auto)
  then show ?thesis by (simp add: runs_bnd)
qed

lemma runs_namex_loop:
  fixes s :: "'z kfs_scheme"
  assumes c: "calm s st F m {}" and T: "tree_ok s" and w: "walk s R c i" and R: "two_slots R" and n: "length name = DIRSIZ"
    and Q: "\<And>r n s'. calm s' st F m {} \<Longrightarrow> still st s s' \<Longrightarrow> arrived s' R (target fp s i (path_elems path)) r \<Longrightarrow>
      (r \<noteq> None \<Longrightarrow> fp \<Longrightarrow> take (name_len n) n = last (path_elems path)) \<Longrightarrow> Q (r, n) s'"
  shows "runs (namex_loop c path fp name) s Q"
  using c T w n Q
proof (induction path arbitrary: s c i name rule: measure_induct_rule[where f = length])
  case (less path)
  note c = less(2) and T = less(3) and w = less(4)[unfolded walk_def] and n = less(5) and Q = less(6)
  have I: "fs_inv s st" using c by (simp add: calm_def)
  have Rc: "0 \<le> R c" "R c < 2 ^ 31 - 2" using w R by (auto simp: refers_def two_slots_def)
  show ?case
  proof (cases "skipelem path name")
    case None
    then have e: "path_elems path = []" using path_elems_step[OF n, of path] by simp
    have "runs (iput c) s (\<lambda>_ s'. Q (None, name) s')" if fp
      by (rule calm_put[OF c, of c i]) (use w Rc e that in \<open>auto intro!: Q simp: arrived_def\<close>)
    moreover have "Q (Some c, name) s" if "\<not> fp"
      by (rule Q[OF c]) (use w e that in \<open>auto simp: arrived_def still_def quiet_def same_files_def\<close>)
    ultimately show ?thesis using None by (subst namex_loop.simps) (simp add: runs_bnd)
  next
    case (Some rn)
    obtain rest n' where rn: "rn = (rest, n')" by (cases rn)
    note sk = Some[unfolded rn]
    have e: "path_elems path = take (name_len n') n' # path_elems rest" using path_elems_step[OF n, of path] sk by simp
    have n': "length n' = DIRSIZ" by (rule skipelem_name(1)[OF sk n])
    have last: "path_elems rest = [] \<longleftrightarrow> cstr_hd rest = 0" by (rule path_last[OF sk n])
    have W: "i < ninodes s" using w by simp
    have "runs (bnd (ilock (Some c)) (\<lambda>_. bnd (gets (\<lambda>s. is_dir (icache s c))) (\<lambda>d.
       if \<not> d then bnd (iunlockput c) (\<lambda>_. ret (None, n'))
       else if fp \<and> cstr_hd rest = 0 then bnd (iunlock (Some c)) (\<lambda>_. ret (Some c, n'))
       else bnd (dirlookup c n') (\<lambda>r. bnd (iunlockput c) (\<lambda>_. case r of None \<Rightarrow> ret (None, n') | Some (ip', off) \<Rightarrow> namex_loop ip' rest fp n'))))) s Q"
    proof (rule runs_namex_elem[OF c T less(4) R], goal_cases)
      case (3 j c' s')
      have j: "j < ninodes s" by (rule dir_lookup_ok(1)[OF T W 3(1,3)])
      show ?case
      proof (rule less(1)[OF skipelem_shorter[OF sk] 3(4) tree_ok_still[OF I 3(5) T] 3(6) n'], goal_cases)
        case (1 r n s'')
        show ?case
          by (rule Q[OF 1(1) still_trans[OF 3(5) 1(2)]]) (use 1 last 3 target_still[OF I 3(5) T j] e in \<open>auto split: if_splits\<close>)
      qed
    qed (use e last in \<open>auto intro!: Q simp: arrived_def walk_def\<close>)
    then show ?thesis using sk by (subst namex_loop.simps) simp
  qed
qed


text \<open>The inode a path starts from: the root, or the current directory of the process.\<close>

definition starts :: "'z kfs_scheme \<Rightarrow> u8 list \<Rightarrow> nat \<Rightarrow> bool" where
  "starts s path i \<longleftrightarrow> (if cstr_hd path = SLASH then i = 1
     else \<exists>p c. myproc s = Some p \<and> pr_cwd (ptable s p) = Some c \<and> refers s c i) \<and>
     i < ninodes s \<and> di_type (eff s i) \<noteq> 0 \<and> di_nlink (eff s i) \<noteq> 0"

lemma runs_namex:
  fixes s :: "'z kfs_scheme"
  assumes c: "calm s st F m {}" and T: "tree_ok s" and R: "two_slots (refs s)" and i: "starts s path i" and n: "length name = DIRSIZ"
    and Q: "\<And>r n s'. calm s' st F m {} \<Longrightarrow> still st s s' \<Longrightarrow> arrived s' (refs s) (target fp s i (path_elems path)) r \<Longrightarrow>
      (r \<noteq> None \<Longrightarrow> fp \<Longrightarrow> take (name_len n) n = last (path_elems path)) \<Longrightarrow> Q (r, n) s'"
  shows "runs (namex path fp name) s Q"
proof -
  have I: "fs_inv s st" using c by (simp add: calm_def)
  note i' = i[unfolded starts_def]
  have go: "runs (namex_loop x path fp name) s1 Q" if g: "got s s1 st i x" for x s1
  proof -
    note C = calm_got[OF c g]
    have w: "walk s1 (refs s) x i" by (rule walk_still[OF conjunct2[OF C]]) (use got_refs[OF g] i' in auto)
    show ?thesis
      by (rule runs_namex_loop[OF conjunct1[OF C] tree_ok_still[OF I conjunct2[OF C] T] w R n])
        (use target_still[OF I conjunct2[OF C] T] i' still_trans[OF conjunct2[OF C]] in \<open>auto intro!: Q\<close>)
  qed
  have sl: "\<forall>x < NINODE. refs s x < 2 ^ 31 - 1" "\<exists>x < NINODE. refs s x = 0" using R by (auto simp: two_slots_def)
  show ?thesis
  proof (cases "cstr_hd path = SLASH")
    case True
    have "runs (iget ROOTDEV (of_nat i)) s (\<lambda>x s1. runs (namex_loop x path fp name) s1 Q)"
    proof (rule runs_iget[OF I], goal_cases)
      case (1 x)
      then have "x < NINODE" by (auto simp: slot_of_def find_Some_iff)
      then show ?case using sl(1) by simp
    qed (use sl(2) go in auto)
    then show ?thesis using True i' by (simp add: namex_def runs_bnd)
  next
    case False
    then obtain p x where p: "myproc s = Some p" "pr_cwd (ptable s p) = Some x" "refers s x i" using i' by auto
    have "runs (idup x) s (\<lambda>x s1. runs (namex_loop x path fp name) s1 Q)"
      by (rule runs_idup[OF I p(3)]) (use sl(1) p(3) go in \<open>auto simp: refers_def\<close>)
    then show ?thesis using False p by (simp add: namex_def my_proc_cwd_def my_proc_def runs_bnd)
  qed
qed

text \<open>
  C4: path resolution. Inside a transaction, on a directory tree and with two free slots in the table of
  inodes, \<open>namei\<close> returns and gives the inode that the elements of the path lead to, with one reference
  more, or null if there is none; \<open>nameiparent\<close> gives the directory that holds the last element and that
  element as the name. Neither leaves any other reference or lock behind, nor changes a file.
\<close>

theorem path_resolution:
  fixes s :: "'z kfs_scheme"
  assumes "calm s st F m {}" "tree_ok s" "two_slots (refs s)" "starts s path i"
  shows "(\<exists>r s'. namei path s = Inr (r, s') \<and> calm s' st F m {} \<and> still st s s' \<and>
      arrived s' (refs s) (target False s i (path_elems path)) r) \<and>
    (\<exists>r s'. nameiparent path s = Inr (r, s') \<and> calm s' st F m {} \<and> still st s s' \<and>
      arrived s' (refs s) (target True s i (path_elems path)) (map_option fst r) \<and>
      (\<forall>c n. r = Some (c, n) \<longrightarrow> take (name_len n) n = last (path_elems path)))"
proof (intro conjI)
  have "runs (namei path) s (\<lambda>r s'. calm s' st F m {} \<and> still st s s' \<and> arrived s' (refs s) (target False s i (path_elems path)) r)"
    unfolding namei_def runs_bnd by (rule runs_namex[OF assms]) simp_all
  then show "\<exists>r s'. namei path s = Inr (r, s') \<and> calm s' st F m {} \<and> still st s s' \<and>
      arrived s' (refs s) (target False s i (path_elems path)) r" by (simp add: runs_Inr)
  have "runs (nameiparent path) s (\<lambda>r s'. calm s' st F m {} \<and> still st s s' \<and> arrived s' (refs s) (target True s i (path_elems path)) (map_option fst r) \<and>
      (\<forall>c n. r = Some (c, n) \<longrightarrow> take (name_len n) n = last (path_elems path)))"
    unfolding nameiparent_def runs_bnd by (rule runs_namex[OF assms]) (auto split: option.split)
  then show "\<exists>r s'. nameiparent path s = Inr (r, s') \<and> calm s' st F m {} \<and> still st s s' \<and>
      arrived s' (refs s) (target True s i (path_elems path)) (map_option fst r) \<and>
      (\<forall>c n. r = Some (c, n) \<longrightarrow> take (name_len n) n = last (path_elems path))" by (simp add: runs_Inr)
qed

lemma demo_calm:
  assumes "demo_up s"
  shows "calm s 2 {} 0 {}" "tree_ok s" "two_slots (refs s)" "starts s [47, 97] 1" "content s 1 = []" "di_type (eff s 1) = T_DIR"
proof -
  have U: "fs_inv s 2" "fs_sb s = demo_sb" "held s = Map.empty" "\<And>c. i_ref (icache s c) = 0"
    "\<And>c. c < NINODE \<Longrightarrow> sl_locked (slp s (SlInode c)) = 0" "\<And>j. j < 200 \<Longrightarrow> eff s j = demo_inode j"
    using assms unfolding demo_up_def by auto
  have sy: "eff s j = disk_inode s j" for j
  proof -
    have "\<not> cached s c j" for c using U by (simp add: cached_def)
    then show ?thesis by (simp add: eff_def find_None_iff[THEN iffD2])
  qed
  show "calm s 2 {} 0 {}" unfolding calm_def using demo_tx[OF assms, of "{}" 0] U(1,3,5) sy by (intro conjI allI impI) simp_all
  show c1: "content s 1 = []" using U by (simp add: content_def demo_inode_def dinode_zero_def)
  show "di_type (eff s 1) = T_DIR" using U by (simp add: demo_inode_def dinode_zero_def)
  have d1: "i = 1" if "i < 200" "di_type (eff s i) = T_DIR" for i
    using that U(6)[OF that(1)] by (simp add: demo_inode_def dinode_zero_def split: if_splits)
  have z: "unat (di_size (eff s 1)) = 0" using arg_cong[OF c1, of length] by simp
  have "unat (di_size (eff s i)) mod 16 = 0 \<and> dirents (content s i) = []" if "i < ninodes s" "di_type (eff s i) = T_DIR" for i
    using d1[of i] that z c1 U(2) by (simp add: dirents_def)
  then show "tree_ok s" unfolding tree_ok_def by simp
  have "(0 :: nat) < NINODE" "Suc 0 < NINODE" "(0 :: nat) \<noteq> Suc 0" by (simp_all add: NINODE_def)
  then show "two_slots (refs s)" unfolding two_slots_def using U(4) by (intro conjI) (simp, blast)
  show "starts s [47, 97] 1" using U(2) U(6)[of 1] by (simp add: starts_def cstr_hd_def demo_inode_def dinode_zero_def)
qed

theorem path_resolution_witness:
  "\<exists>s s' s'' c n. boot_fs (kfs_zero demo_fs ()) = Inr ((), s) \<and> namei [47, 97] s = Inr (None, s') \<and>
     nameiparent [47, 97] s = Inr (Some (c, n), s'') \<and> i_inum (icache s'' c) = 1 \<and> take (name_len n) n = [97]"
proof -
  have "runs boot_fs (kfs_zero demo_fs ()) (\<lambda>_ s. demo_up s \<and> kfs.more s = ())" by (rule runs_boot_fs)
  then obtain s :: kfs where s: "boot_fs (kfs_zero demo_fs ()) = Inr ((), s)" "demo_up s" unfolding runs_Inr by auto
  note D = demo_calm[OF s(2)]
  have p: "path_elems [47, 97] = [[97]]" by code_simp
  have t: "target False s 1 [[97]] = None" "target True s 1 [[97]] = Some 1"
    using D(5,6) by (simp_all add: dir_lookup_def first_entry_def)
  show ?thesis
    using path_resolution[OF D(1-4), unfolded p t] s(1) by (auto simp: arrived_def refers_def)
qed

end
