(* ===== verification/Xv6_Mem.thy ===== *)
theory Xv6_Mem
  imports Xv6_Prelude
begin

unbundle bit_operations_syntax

text \<open>
  Physical memory and its page allocator: the address arithmetic of \<^verbatim>\<open>crates/arch/src/mmu.rs\<close>
  and \<^verbatim>\<open>crates/mm/src/memlayout.rs\<close>, and the free list of 4 KiB pages of
  \<^verbatim>\<open>crates/mm/src/kalloc.rs\<close>.

  Memory is a function from kernel virtual addresses (the direct map at \<open>KERNBASE\<close>) to bytes;
  64-bit loads and stores are little-endian. The free list is threaded through the free pages
  themselves, as in the code: the first eight bytes of a free page hold the address of the next.
  \<open>Spinlock::acquire\<close> of \<^verbatim>\<open>crates/sync/src/spinlock.rs\<close> does nothing, so the two branches of
  \<open>kfree\<close> and \<open>kalloc\<close> on \<open>use_lock\<close> act alike.
\<close>

section \<open>Loads and stores\<close>

type_synonym memory = "u64 \<Rightarrow> u8"

fun of_le :: "u8 list \<Rightarrow> u64" where
  "of_le [] = 0"
| "of_le (b # bs) = ucast b OR push_bit 8 (of_le bs)"

definition bytes_at :: "memory \<Rightarrow> u64 \<Rightarrow> nat \<Rightarrow> u8 list" where
  "bytes_at m a n = map (\<lambda>i. m (a + of_nat i)) [0..<n]"

definition ld64 :: "memory \<Rightarrow> u64 \<Rightarrow> u64" where
  "ld64 m a = of_le (bytes_at m a 8)"

definition st64 :: "u64 \<Rightarrow> u64 \<Rightarrow> memory \<Rightarrow> memory" where
  "st64 a v m = (\<lambda>x. if unat (x - a) < 8 then ucast (drop_bit (8 * unat (x - a)) v) else m x)"

text \<open>\<open>ptr::write_bytes\<close> and \<open>ptr::copy_nonoverlapping\<close>, the latter from a list of bytes.\<close>

definition fill :: "u64 \<Rightarrow> u8 \<Rightarrow> nat \<Rightarrow> memory \<Rightarrow> memory" where
  "fill a v n m = (\<lambda>x. if unat (x - a) < n then v else m x)"

definition store_bytes :: "u64 \<Rightarrow> u8 list \<Rightarrow> memory \<Rightarrow> memory" where
  "store_bytes a bs m = (\<lambda>x. if unat (x - a) < length bs then bs ! unat (x - a) else m x)"

lemma length_bytes_at [simp]: "length (bytes_at m a n) = n"
  by (simp add: bytes_at_def)

lemma of_le_bit:
  "bit (of_le bs) k \<longleftrightarrow> k < 64 \<and> k div 8 < length bs \<and> bit (bs ! (k div 8)) (k mod 8)"
proof (induction bs arbitrary: k)
  case Nil
  then show ?case by simp
next
  case (Cons b bs)
  show ?case
  proof (cases "k < 8")
    case True
    then show ?thesis by (simp add: bit_simps)
  next
    case False
    then obtain j where k: "k = j + 8" by (metis add.commute le_Suc_ex not_less)
    have "\<not> bit b (j + 8)" by (simp add: high_bit_u8)
    moreover have "(j + 8) div 8 = Suc (j div 8)" "(j + 8) mod 8 = j mod 8" by simp_all
    ultimately show ?thesis using Cons.IH[of j] by (auto simp: k bit_simps)
  qed
qed

lemma u64_bound: "unat (a :: u64) < 2 ^ 64"
  using unsigned_less[of a, where 'a = nat] by simp

lemma of_nat_u64_unat: "n < 2 ^ 64 \<Longrightarrow> unat (of_nat n :: u64) = n"
  by (simp add: unat_of_nat)

lemma ld64_st64_same [simp]: "ld64 (st64 a v m) a = v"
proof (rule bit_word_eqI)
  fix k assume "k < LENGTH(64)"
  then have k: "k < 64" "k div 8 < 8" by simp_all
  have "8 * (k div 8) + k mod 8 = k" by simp
  then show "bit (ld64 (st64 a v m) a) k = bit v k"
    using k by (simp add: ld64_def of_le_bit bytes_at_def st64_def of_nat_u64_unat bit_simps)
qed

text \<open>Two ranges of addresses that do not meet.\<close>

definition apart :: "u64 \<Rightarrow> nat \<Rightarrow> u64 \<Rightarrow> nat \<Rightarrow> bool" where
  "apart a n b k \<longleftrightarrow> unat a + n \<le> 2 ^ 64 \<and> unat b + k \<le> 2 ^ 64 \<and>
     (unat a + n \<le> unat b \<or> unat b + k \<le> unat a)"

lemma apart_sym: "apart a n b k \<longleftrightarrow> apart b k a n"
  by (auto simp: apart_def)

lemma unat_sub_u64: "unat (x - a :: u64) = (if a \<le> x then unat x - unat a else 2 ^ 64 + unat x - unat a)"
proof (cases "a \<le> x")
  case True
  then show ?thesis by (simp add: unat_sub)
next
  case False
  then have "unat x < unat a" by (simp add: word_less_nat_alt not_le)
  moreover have "unat a < 2 ^ 64" by (rule u64_bound)
  ultimately show ?thesis
    using False by (simp add: unat_sub_if_size word_size word_le_nat_alt)
qed

lemma apart_offset:
  assumes "apart a n b k" "i < k"
  shows "\<not> unat (b + of_nat i - a) < n"
proof -
  have b: "unat (b + of_nat i) = unat b + i" using assms by (simp add: apart_def unat_word_ariths unat_of_nat)
  show ?thesis using assms by (simp add: unat_sub_u64 b apart_def word_le_nat_alt) linarith
qed

lemma bytes_at_cong: "(\<And>i. i < n \<Longrightarrow> m (a + of_nat i) = m' (a + of_nat i)) \<Longrightarrow> bytes_at m a n = bytes_at m' a n"
  by (simp add: bytes_at_def)

lemma bytes_at_other:
  "apart a 8 b n \<Longrightarrow> bytes_at (st64 a v m) b n = bytes_at m b n"
  "apart a k b n \<Longrightarrow> bytes_at (fill a w k m) b n = bytes_at m b n"
  "apart a (length bs) b n \<Longrightarrow> bytes_at (store_bytes a bs m) b n = bytes_at m b n"
  by (rule bytes_at_cong, simp add: st64_def fill_def store_bytes_def apart_offset)+

lemma ld64_other:
  "apart a 8 b 8 \<Longrightarrow> ld64 (st64 a v m) b = ld64 m b"
  "apart a k b 8 \<Longrightarrow> ld64 (fill a w k m) b = ld64 m b"
  "apart a (length bs) b 8 \<Longrightarrow> ld64 (store_bytes a bs m) b = ld64 m b"
  by (simp_all add: ld64_def bytes_at_other)

section \<open>Address arithmetic\<close>

definition PGSIZE :: u64 where [simp]: "PGSIZE = 4096"
definition EXTMEM :: u64 where "EXTMEM = 0x100000"
definition PHYSTOP :: u64 where [simp]: "PHYSTOP = 0xE000000"
definition KERNBASE :: u64 where [simp]: "KERNBASE = 0xFFFF800000000000"
definition KERNLINK :: u64 where "KERNLINK = KERNBASE + EXTMEM"

definition V2P :: "u64 \<Rightarrow> u64" where "V2P a = a - KERNBASE"
definition P2V :: "u64 \<Rightarrow> u64" where "P2V a = a + KERNBASE"

text \<open>64-bit additions and subtractions are checked.\<close>

definition u64_add :: "u64 \<Rightarrow> u64 \<Rightarrow> ('s, u64) kop" where
  "u64_add a b = (if unat a + unat b < 2 ^ 64 then ret (a + b) else stopk add_overflow)"

definition u64_sub :: "u64 \<Rightarrow> u64 \<Rightarrow> ('s, u64) kop" where
  "u64_sub a b = (if b \<le> a then ret (a - b) else stopk sub_overflow)"

definition PGROUNDDOWN :: "u64 \<Rightarrow> u64" where
  "PGROUNDDOWN a = a AND NOT (PGSIZE - 1)"

definition PGROUNDUP :: "u64 \<Rightarrow> ('s, u64) kop" where
  "PGROUNDUP sz = bnd (u64_add sz (PGSIZE - 1)) (\<lambda>a. ret (a AND NOT (PGSIZE - 1)))"

lemma runs_u64 [wp, simp]:
  "runs (u64_add a b) s Q = (unat a + unat b < 2 ^ 64 \<and> Q (a + b) s)"
  "runs (u64_sub a b) s Q = (b \<le> a \<and> Q (a - b) s)"
  by (simp_all add: u64_add_def u64_sub_def)

lemma P2V_V2P [simp]: "P2V (V2P a) = a" "V2P (P2V a) = a"
  by (simp_all add: P2V_def V2P_def)

lemma round_mask: "a AND NOT (PGSIZE - 1) = push_bit 12 (drop_bit 12 a)"
proof -
  have m: "PGSIZE - 1 = (mask 12 :: u64)" by (simp add: mask_eq_exp_minus_1)
  show ?thesis unfolding m by (rule bit_word_eqI) (auto simp: bit_simps)
qed

lemma unat_round_mask: "unat (a AND NOT (PGSIZE - 1)) = unat a div 4096 * 4096"
proof -
  have "unat a div 4096 * 4096 < 2 ^ 64"
    using u64_bound[of a] div_times_less_eq_dividend[of "unat a" 4096] by simp
  then show ?thesis
    unfolding round_mask by (simp add: push_bit_eq_mult drop_bit_eq_div unat_word_ariths unat_div)
qed

lemma unat_PGROUNDDOWN: "unat (PGROUNDDOWN a) = unat a div 4096 * 4096"
  unfolding PGROUNDDOWN_def by (rule unat_round_mask)

lemma runs_PGROUNDUP [wp]:
  "runs (PGROUNDUP a) s Q = (unat a + 4095 < 2 ^ 64 \<and> Q (PGROUNDDOWN (a + 4095)) s)"
  by (simp add: PGROUNDUP_def PGROUNDDOWN_def)

text \<open>A page is named by its aligned address; its words do not meet those of another page.\<close>

definition page_aligned :: "u64 \<Rightarrow> bool" where "page_aligned a \<longleftrightarrow> unat a mod 4096 = 0"

lemma aligned_mod: "a mod PGSIZE = 0 \<longleftrightarrow> page_aligned a"
proof -
  have "unat (a mod PGSIZE) = unat a mod 4096" by (simp add: unat_mod)
  then show ?thesis by (metis page_aligned_def unat_eq_zero)
qed

lemma mod_4096 [simp]: "(a :: u64) mod 4096 = 0 \<longleftrightarrow> page_aligned a"
  using aligned_mod[of a] by simp

lemma page_bound: "page_aligned a \<Longrightarrow> unat a + 4096 \<le> 2 ^ 64"
proof -
  assume "page_aligned a"
  then obtain q where q: "unat a = 4096 * q" by (auto simp: page_aligned_def)
  with u64_bound[of a] have "q < 2 ^ 52" by simp
  with q show ?thesis by simp
qed

lemma unat_word_in_page:
  "page_aligned a \<Longrightarrow> i < 512 \<Longrightarrow> unat (a + 8 * of_nat i) = unat a + 8 * i"
  using page_bound[of a] by (simp add: unat_word_ariths unat_of_nat)

lemma pages_apart: "page_aligned a \<Longrightarrow> page_aligned b \<Longrightarrow> a \<noteq> b \<Longrightarrow> apart a 4096 b 4096"
proof -
  assume p: "page_aligned a" "page_aligned b" "a \<noteq> b"
  then have "unat a \<noteq> unat b" by (metis unsigned_word_eqI)
  moreover have "4096 dvd unat a" "4096 dvd unat b" using p by (auto simp: page_aligned_def)
  ultimately show ?thesis using page_bound[OF p(1)] page_bound[OF p(2)] by (auto simp: apart_def dvd_def)
qed

lemma words_apart:
  assumes "page_aligned a" "page_aligned b" "i < 512" "j < 512" "(a, i) \<noteq> (b, j)"
  shows "apart (a + 8 * of_nat i) 8 (b + 8 * of_nat j) 8"
proof (cases "a = b")
  case True
  then show ?thesis using assms page_bound[OF assms(1)] by (auto simp: apart_def unat_word_in_page)
next
  case False
  then show ?thesis
    using pages_apart[OF assms(1,2)] assms(3,4) by (auto simp: apart_def unat_word_in_page assms(1,2))
qed

lemma page_word_apart:
  assumes "page_aligned a" "page_aligned b" "j < 512" "a \<noteq> b"
  shows "apart a 4096 (b + 8 * of_nat j) 8"
  using pages_apart[OF assms(1,2,4)] assms(3) by (auto simp: apart_def unat_word_in_page assms(1,2))

lemma ld64_zeroed:
  assumes "page_aligned a" "i < 512"
  shows "ld64 (fill a 0 4096 m) (a + 8 * of_nat i) = 0"
proof -
  have "a + 8 * of_nat i + of_nat j - a = of_nat (8 * i + j)" for j by simp
  then have "bytes_at (fill a 0 4096 m) (a + 8 * of_nat i) 8 = replicate 8 0"
    using assms by (intro nth_equalityI) (simp_all add: bytes_at_def fill_def unat_of_nat del: of_nat_add)
  then show ?thesis by (simp add: ld64_def numeral_eq_Suc)
qed

section \<open>The page allocator\<close>

text \<open>
  \<open>link_end\<close> is the address of the linker symbol \<open>end\<close>, the first byte past the kernel image;
  the free list is the address of its first page, 0 when empty.
\<close>

record mm =
  pmem :: memory
  kmem_use_lock :: bool
  kmem_freelist :: u64
  link_end :: u64

definition push_free :: "u64 \<Rightarrow> 'z mm_scheme \<Rightarrow> 'z mm_scheme" where
  "push_free r s = s\<lparr>pmem := st64 r (kmem_freelist s) (pmem s), kmem_freelist := r\<rparr>"

definition kfree :: "u64 \<Rightarrow> ('z mm_scheme, unit) kop" where
  "kfree v = bnd (gets (\<lambda>s. v mod PGSIZE \<noteq> 0 \<or> v < link_end s \<or> V2P v \<ge> PHYSTOP)) (\<lambda>bad.
     bnd (guardk (\<not> bad) (Panic ''kfree'')) (\<lambda>_.
     bnd (modify (\<lambda>s. s\<lparr>pmem := fill v 1 4096 (pmem s)\<rparr>)) (\<lambda>_.
     bnd (gets kmem_use_lock) (\<lambda>l.
     if l then modify (push_free v) else modify (push_free v)))))"

definition pop_free :: "('z mm_scheme, u64) kop" where
  "pop_free = bnd (gets kmem_freelist) (\<lambda>r.
     if r \<noteq> 0 then bnd (modify (\<lambda>s. s\<lparr>kmem_freelist := ld64 (pmem s) r\<rparr>)) (\<lambda>_. ret r)
     else panic ''Out of memory!'')"

definition kalloc :: "('z mm_scheme, u64) kop" where
  "kalloc = bnd (gets kmem_use_lock) (\<lambda>l. if l then pop_free else pop_free)"

text \<open>\<open>p.add\<close> past the end of the address space is undefined behaviour.\<close>

function freerange_from :: "u64 \<Rightarrow> u64 \<Rightarrow> ('z mm_scheme, unit) kop" where
  "freerange_from p vend =
     (if 2 ^ 64 \<le> unat p + 4096 then stopk (Fault ''freerange: pointer overflow'')
      else if p + PGSIZE \<le> vend
      then bnd (kfree p) (\<lambda>_. freerange_from (p + PGSIZE) vend)
      else ret ())"
  by pat_completeness auto
termination
  by (relation "measure (\<lambda>(p, vend). unat vend - unat p)")
     (auto simp: word_le_nat_alt unat_word_ariths)

declare freerange_from.simps [simp del]

definition freerange :: "u64 \<Rightarrow> u64 \<Rightarrow> ('z mm_scheme, unit) kop" where
  "freerange vstart vend = bnd (PGROUNDUP vstart) (\<lambda>p. freerange_from p vend)"

definition kinit1 :: "u64 \<Rightarrow> u64 \<Rightarrow> ('z mm_scheme, unit) kop" where
  "kinit1 vstart vend = bnd (modify (\<lambda>s. s\<lparr>kmem_use_lock := False, kmem_freelist := 0\<rparr>)) (\<lambda>_.
     freerange vstart vend)"

definition kinit2 :: "('z mm_scheme, unit) kop" where
  "kinit2 = modify (\<lambda>s. s\<lparr>kmem_use_lock := True\<rparr>)"

section \<open>Contract of a page allocator\<close>

text \<open>
  \<open>pages s xs\<close>: the free pages are \<open>xs\<close>, the next one to be handed out first. \<open>managed s v\<close>:
  \<open>v\<close> is the address of a page the allocator may own. \<open>setm\<close> replaces the memory, as a client
  does when it writes to its own pages.
\<close>

locale page_allocator =
  fixes pages :: "'s \<Rightarrow> u64 list \<Rightarrow> bool" and managed :: "'s \<Rightarrow> u64 \<Rightarrow> bool"
    and memo :: "'s \<Rightarrow> memory" and rest :: "'s \<Rightarrow> 'r"
    and alloc :: "('s, u64) kop" and free :: "u64 \<Rightarrow> ('s, unit) kop" and setm :: "memory \<Rightarrow> 's \<Rightarrow> 's"
  assumes alloc: "pages s (x # xs) \<Longrightarrow>
      runs alloc s (\<lambda>r s'. r = x \<and> pages s' xs \<and> memo s' = memo s \<and> rest s' = rest s)"
    and exhausted: "pages s [] \<Longrightarrow> alloc s = Inl (Panic ''Out of memory!'')"
    and free: "pages s xs \<Longrightarrow> managed s v \<Longrightarrow> v \<notin> set xs \<Longrightarrow> runs (free v) s (\<lambda>_ s'. pages s' (v # xs) \<and>
      (\<forall>b n. apart v 4096 b n \<longrightarrow> bytes_at (memo s') b n = bytes_at (memo s) b n) \<and> rest s' = rest s)"
    and unmanaged: "\<not> managed s v \<Longrightarrow> free v s = Inl (Panic ''kfree'')"
    and wf: "pages s xs \<Longrightarrow> distinct xs \<and> (\<forall>x \<in> set xs. managed s x)"
    and aligned: "managed s v \<Longrightarrow> page_aligned v"
    and managed_rest: "rest s = rest s' \<Longrightarrow> managed s v = managed s' v"
    and setm: "pages s xs \<Longrightarrow> (\<And>x. x \<in> set xs \<Longrightarrow> ld64 m x = ld64 (memo s) x) \<Longrightarrow> pages (setm m s) xs"
      "memo (setm m s) = m" "rest (setm m s) = rest s"
begin

lemma free_alloc:
  assumes "pages s xs" "managed s v" "v \<notin> set xs"
  shows "runs (bnd (free v) (\<lambda>_. alloc)) s (\<lambda>r s'. r = v \<and> pages s' xs)"
  unfolding runs_bnd
  by (rule runs_mono[OF free[OF assms]]) (auto elim!: runs_mono[OF alloc])

text \<open>Pages handed out one after the other are distinct and no longer free.\<close>

lemma alloc_two:
  assumes "pages s (x # y # xs)"
  shows "runs (bnd alloc (\<lambda>a. bnd alloc (\<lambda>b. ret (a, b)))) s (\<lambda>(a, b) s'. a = x \<and> b = y \<and>
    a \<noteq> b \<and> pages s' xs \<and> a \<notin> set xs \<and> b \<notin> set xs)"
proof -
  have d: "distinct (x # y # xs)" using wf[OF assms] by blast
  show ?thesis unfolding runs_bnd
    by (rule runs_mono[OF alloc[OF assms]], clarify, rule runs_mono[OF alloc], assumption)
       (use d in auto)
qed

text \<open>Freeing the pages of a list, in order, leaves them free in the opposite order.\<close>

lemma free_list:
  assumes "pages s xs" "\<forall>v \<in> set vs. managed s v" "distinct vs" "set vs \<inter> set xs = {}"
  shows "runs (for_each free vs) s (\<lambda>_ s'. pages s' (rev vs @ xs) \<and> rest s' = rest s \<and>
    (\<forall>b n. (\<forall>v \<in> set vs. apart v 4096 b n) \<longrightarrow> bytes_at (memo s') b n = bytes_at (memo s) b n))"
  using assms
proof (induction vs arbitrary: s xs)
  case Nil
  then show ?case by simp
next
  case (Cons v vs)
  have v: "managed s v" "v \<notin> set xs" using Cons.prems by auto
  show ?case
    unfolding for_each.simps runs_bnd
  proof (rule runs_mono[OF free[OF Cons.prems(1) v]], elim conjE)
    fix u s1
    assume s1: "pages s1 (v # xs)" "rest s1 = rest s"
      "\<forall>b n. apart v 4096 b n \<longrightarrow> bytes_at (memo s1) b n = bytes_at (memo s) b n"
    have "runs (for_each free vs) s1 (\<lambda>_ s'. pages s' (rev vs @ v # xs) \<and> rest s' = rest s1 \<and>
      (\<forall>b n. (\<forall>v \<in> set vs. apart v 4096 b n) \<longrightarrow> bytes_at (memo s') b n = bytes_at (memo s1) b n))"
      by (rule Cons.IH[OF s1(1)]) (use Cons.prems managed_rest[OF s1(2)] in auto)
    then show "runs (for_each free vs) s1 (\<lambda>_ s'. pages s' (rev (v # vs) @ xs) \<and> rest s' = rest s \<and>
      (\<forall>b n. (\<forall>v \<in> set (v # vs). apart v 4096 b n) \<longrightarrow> bytes_at (memo s') b n = bytes_at (memo s) b n))"
      by (rule runs_mono) (use s1 in auto)
  qed
qed

end

section \<open>The free list meets the contract\<close>

fun flist :: "memory \<Rightarrow> u64 \<Rightarrow> u64 list \<Rightarrow> bool" where
  "flist m p [] \<longleftrightarrow> p = 0"
| "flist m p (x # xs) \<longleftrightarrow> p = x \<and> x \<noteq> 0 \<and> flist m (ld64 m x) xs"

lemma flist_cong: "(\<And>x. x \<in> set xs \<Longrightarrow> ld64 m' x = ld64 m x) \<Longrightarrow> flist m' p xs = flist m p xs"
  by (induction xs arbitrary: p) auto

definition managed_page :: "'z mm_scheme \<Rightarrow> u64 \<Rightarrow> bool" where
  "managed_page s v \<longleftrightarrow> v mod PGSIZE = 0 \<and> link_end s \<le> v \<and> V2P v < PHYSTOP"

definition free_pages :: "'z mm_scheme \<Rightarrow> u64 list \<Rightarrow> bool" where
  "free_pages s xs \<longleftrightarrow> 0 < link_end s \<and> flist (pmem s) (kmem_freelist s) xs \<and> distinct xs \<and>
     (\<forall>x \<in> set xs. managed_page s x)"

definition mm_rest :: "'z mm_scheme \<Rightarrow> bool \<times> u64 \<times> 'z" where
  "mm_rest s = (kmem_use_lock s, link_end s, mm.more s)"

lemma runs_kalloc [wp]:
  "runs kalloc s Q = (kmem_freelist s \<noteq> 0 \<and>
     Q (kmem_freelist s) (s\<lparr>kmem_freelist := ld64 (pmem s) (kmem_freelist s)\<rparr>))"
  by (simp add: kalloc_def pop_free_def)

lemma runs_kfree [wp]:
  "runs (kfree v) s Q = (managed_page s v \<and> Q () (push_free v (s\<lparr>pmem := fill v 1 4096 (pmem s)\<rparr>)))"
  by (auto simp: kfree_def managed_page_def)

lemma kfree_refused: "\<not> managed_page s v \<Longrightarrow> kfree v s = Inl (Panic ''kfree'')"
  by (auto simp: kfree_def managed_page_def exec_simps)

lemma managed_aligned: "managed_page s v \<Longrightarrow> page_aligned v"
  by (simp add: managed_page_def)

lemma first_word_apart: "page_aligned a \<Longrightarrow> page_aligned b \<Longrightarrow> a \<noteq> b \<Longrightarrow> apart a 8 b 8"
  using words_apart[of a b 0 0] by simp

lemma apart_sub: "apart a n b k \<Longrightarrow> n' \<le> n \<Longrightarrow> apart a n' b k"
  by (auto simp: apart_def)

lemma kfree_pages:
  assumes p: "free_pages s xs" and v: "managed_page s v" "v \<notin> set xs"
  shows "runs (kfree v) s (\<lambda>_ s'. free_pages s' (v # xs) \<and>
      (\<forall>b n. apart v 4096 b n \<longrightarrow> bytes_at (pmem s') b n = bytes_at (pmem s) b n) \<and> mm_rest s' = mm_rest s)"
proof -
  let ?m = "st64 v (kmem_freelist s) (fill v 1 4096 (pmem s))"
  have "ld64 ?m x = ld64 (pmem s) x" if "x \<in> set xs" for x
  proof -
    have x: "page_aligned v" "page_aligned x" "v \<noteq> x"
      using that v p by (auto simp: free_pages_def intro: managed_aligned)
    then show ?thesis
      using first_word_apart[OF x] page_word_apart[of v x 0] by (simp add: ld64_other)
  qed
  then have "flist ?m (kmem_freelist s) xs" using p flist_cong[of xs ?m] by (simp add: free_pages_def)
  moreover have "bytes_at ?m b n = bytes_at (pmem s) b n" if "apart v 4096 b n" for b n
    using that by (simp add: bytes_at_other apart_sub)
  moreover have "v \<noteq> 0" using p v(1) by (auto simp: free_pages_def managed_page_def)
  ultimately show ?thesis
    using p v by (auto simp: runs_kfree push_free_def free_pages_def mm_rest_def managed_page_def)
qed

interpretation pa: page_allocator free_pages managed_page pmem mm_rest kalloc kfree "\<lambda>m s. s\<lparr>pmem := m\<rparr>"
proof
  fix s :: "'z mm_scheme" and x v xs
  show "free_pages s (x # xs) \<Longrightarrow>
      runs kalloc s (\<lambda>r s'. r = x \<and> free_pages s' xs \<and> pmem s' = pmem s \<and> mm_rest s' = mm_rest s)"
    by (auto simp: runs_kalloc free_pages_def mm_rest_def managed_page_def)
  show "free_pages s [] \<Longrightarrow> kalloc s = Inl (Panic ''Out of memory!'')"
    by (simp add: free_pages_def kalloc_def pop_free_def exec_simps)
  show "\<not> managed_page s v \<Longrightarrow> kfree v s = Inl (Panic ''kfree'')" by (rule kfree_refused)
  show "free_pages s xs \<Longrightarrow> distinct xs \<and> (\<forall>x \<in> set xs. managed_page s x)" by (simp add: free_pages_def)
  show "managed_page s v \<Longrightarrow> page_aligned v" by (rule managed_aligned)
next
  fix s s' :: "'z mm_scheme" and v
  show "mm_rest s = mm_rest s' \<Longrightarrow> managed_page s v = managed_page s' v"
    by (simp add: mm_rest_def managed_page_def)
next
  fix s :: "'z mm_scheme" and xs m
  show "free_pages (s\<lparr>pmem := m\<rparr>) xs" if "free_pages s xs" "\<And>x. x \<in> set xs \<Longrightarrow> ld64 m x = ld64 (pmem s) x"
    using that flist_cong[of xs m "pmem s"] by (simp add: free_pages_def managed_page_def)
  show "mm_rest (s\<lparr>pmem := m\<rparr>) = mm_rest s" by (simp add: mm_rest_def)
qed (use kfree_pages in auto)

text \<open>The pages \<open>freerange\<close> frees: all whole pages of the range, from its first page boundary on.\<close>

definition range_pages :: "u64 \<Rightarrow> u64 \<Rightarrow> u64 list" where
  "range_pages p vend = map (\<lambda>i. p + of_nat (4096 * i)) [0..<(unat vend - unat p) div 4096]"

lemma range_pages_step:
  assumes "unat p + 4096 < 2 ^ 64" "p + PGSIZE \<le> vend"
  shows "range_pages p vend = p # range_pages (p + PGSIZE) vend"
proof -
  have p: "unat (p + 4096) = unat p + 4096" using assms(1) by (simp add: unat_word_ariths)
  have "unat p + 4096 \<le> unat vend" using assms(2) p by (simp add: word_le_nat_alt)
  then have "(unat vend - unat p) div 4096 = Suc ((unat vend - unat (p + 4096)) div 4096)"
    unfolding p by (simp add: le_div_geq)
  then show ?thesis
    by (simp add: range_pages_def upt_conv_Cons map_Suc_upt[symmetric] algebra_simps del: upt_Suc)
qed

lemma range_pages_stop: "\<not> p + PGSIZE \<le> vend \<Longrightarrow> unat p + 4096 < 2 ^ 64 \<Longrightarrow> range_pages p vend = []"
  by (simp add: range_pages_def word_le_nat_alt unat_word_ariths)

lemma in_range_pages:
  assumes "page_aligned p" "x \<in> set (range_pages p vend)"
  shows "page_aligned x \<and> unat p \<le> unat x \<and> unat x + 4096 \<le> unat vend"
proof -
  obtain i where i: "i < (unat vend - unat p) div 4096" "x = p + of_nat (4096 * i)"
    using assms(2) by (auto simp: range_pages_def)
  then have b: "4096 * i + 4096 \<le> unat vend - unat p" 
    using less_eq_div_iff_mult_less_eq[of 4096 "Suc i" "unat vend - unat p"] by simp
  have "unat x = unat p + 4096 * i"
    using b u64_bound[of vend] by (simp add: i(2) unat_word_ariths unat_of_nat)
  with b assms(1) show ?thesis by (simp add: page_aligned_def)
qed

lemma distinct_range_pages: "distinct (range_pages p vend)"
proof -
  have "inj_on (\<lambda>i. p + of_nat (4096 * i)) {0..<(unat vend - unat p) div 4096}"
  proof (rule inj_onI)
    fix i j assume ij: "i \<in> {0..<(unat vend - unat p) div 4096}" "j \<in> {0..<(unat vend - unat p) div 4096}"
      "p + of_nat (4096 * i) = p + of_nat (4096 * j)"
    have "4096 * k < 2 ^ 64" if "k < (unat vend - unat p) div 4096" for k
      using that u64_bound[of vend] less_eq_div_iff_mult_less_eq[of 4096 "Suc k" "unat vend - unat p"] by simp
    then show "i = j" using ij by (metis add_left_cancel atLeastLessThan_iff mult_left_cancel of_nat_u64_unat zero_neq_numeral)
  qed
  then show ?thesis by (simp add: range_pages_def distinct_map)
qed

lemma freerange_from_eq:
  "unat vend + 4096 < 2 ^ 64 \<Longrightarrow> unat p + 4096 < 2 ^ 64 \<Longrightarrow>
   freerange_from p vend s = for_each kfree (range_pages p vend) s"
proof (induction p vend arbitrary: s rule: freerange_from.induct)
  case (1 p vend)
  have "unat (p + 4096) + 4096 < 2 ^ 64" if "p + 4096 \<le> vend"
    using that 1(2) by (simp add: word_le_nat_alt)
  then show ?case
    using 1 by (cases "p + PGSIZE \<le> vend")
      (auto simp add: freerange_from.simps[of p] range_pages_step range_pages_stop bnd_def split: sum.splits)
qed

lemma runs_freerange:
  assumes xs: "free_pages s xs" and r: "link_end s \<le> vstart" "KERNBASE \<le> vstart"
    "vstart \<le> vend" "vend \<le> P2V PHYSTOP"
    and new: "set (range_pages (PGROUNDDOWN (vstart + 4095)) vend) \<inter> set xs = {}"
  shows "runs (freerange vstart vend) s (\<lambda>_ s'.
    free_pages s' (rev (range_pages (PGROUNDDOWN (vstart + 4095)) vend) @ xs) \<and> mm_rest s' = mm_rest s)"
proof -
  let ?p = "PGROUNDDOWN (vstart + 4095)"
  have top: "unat vend \<le> 0xFFFF80000E000000" using r(4) by (simp add: P2V_def word_le_nat_alt)
  have sum: "unat vstart + 8192 < 2 ^ 64" using r(3) top by (simp add: word_le_nat_alt)
  then have up: "unat ?p = (unat vstart + 4095) div 4096 * 4096"
    by (simp add: unat_PGROUNDDOWN unat_word_ariths)
  have p: "unat vstart \<le> unat ?p" "page_aligned ?p" "unat ?p + 4096 < 2 ^ 64"
    using div_mult_mod_eq[of "unat vstart + 4095" 4096] mod_less_divisor[of 4096 "unat vstart + 4095"] sum
    by (auto simp: up page_aligned_def)
  have "managed_page s x" if "x \<in> set (range_pages ?p vend)" for x
    using in_range_pages[OF p(2) that] p(1) r(1,2) top
    by (simp add: managed_page_def word_le_nat_alt word_less_nat_alt V2P_def unat_sub_u64) linarith
  then have "runs (for_each kfree (range_pages ?p vend)) s
     (\<lambda>_ s'. free_pages s' (rev (range_pages ?p vend) @ xs) \<and> mm_rest s' = mm_rest s)"
    by (intro runs_mono[OF pa.free_list[OF xs _ distinct_range_pages new]]) auto
  then show ?thesis
    using sum top p(3)
    by (simp add: freerange_def runs_PGROUNDUP) (simp add: runs_def freerange_from_eq)
qed

section \<open>Properties\<close>

text \<open>
  C25: the free list. \<open>kfree\<close> of a managed page that is not free makes it the next page \<open>kalloc\<close>
  hands out, keeps the list well formed (distinct, aligned pages of the managed range) and touches
  no byte outside the page; \<open>kalloc\<close> then returns it and restores the list.
\<close>

theorem kfree_kalloc:
  assumes "free_pages s xs" "managed_page s v" "v \<notin> set xs"
  shows "\<exists>s1 s2. kfree v s = Inr ((), s1) \<and> free_pages s1 (v # xs) \<and>
    (\<forall>b n. apart v 4096 b n \<longrightarrow> bytes_at (pmem s1) b n = bytes_at (pmem s) b n) \<and>
    kalloc s1 = Inr (v, s2) \<and> free_pages s2 xs \<and> pmem s2 = pmem s1"
proof -
  obtain s1 where s1: "kfree v s = Inr ((), s1)" "free_pages s1 (v # xs)"
    "\<forall>b n. apart v 4096 b n \<longrightarrow> bytes_at (pmem s1) b n = bytes_at (pmem s) b n"
    using pa.free[OF assms] by (auto simp: runs_Inr)
  then show ?thesis using pa.alloc[OF s1(2)] by (auto simp: runs_Inr)
qed

definition mm_demo :: mm where
  "mm_demo = \<lparr>pmem = (\<lambda>_. 0), kmem_use_lock = False, kmem_freelist = 0, link_end = 0xFFFF800000110000\<rparr>"

theorem kfree_kalloc_witness:
  "\<exists>s1 s2. kfree 0xFFFF800000200000 mm_demo = Inr ((), s1) \<and>
     kalloc s1 = Inr (0xFFFF800000200000, s2) \<and> free_pages s2 []"
proof -
  have "free_pages mm_demo []" by (simp add: free_pages_def mm_demo_def)
  moreover have "managed_page mm_demo 0xFFFF800000200000"
    by (simp add: managed_page_def mm_demo_def V2P_def page_aligned_def)
  ultimately show ?thesis using kfree_kalloc[of mm_demo "[]" "0xFFFF800000200000"] by auto
qed

text \<open>
  boot-time initialisation. Over a range above the kernel image and below the end of physical
  memory, \<open>kinit1\<close> returns with exactly the whole pages of the range free, each once, the highest
  one first.
\<close>

theorem kinit1_frees:
  assumes "0 < link_end s" "link_end s \<le> vstart" "KERNBASE \<le> vstart" "vstart \<le> vend" "vend \<le> P2V PHYSTOP"
  shows "\<exists>s'. kinit1 vstart vend s = Inr ((), s') \<and>
    free_pages s' (rev (range_pages (PGROUNDDOWN (vstart + 4095)) vend))"
proof -
  let ?s = "s\<lparr>kmem_use_lock := False, kmem_freelist := 0\<rparr>"
  have "runs (freerange vstart vend) ?s (\<lambda>_ s'.
    free_pages s' (rev (range_pages (PGROUNDDOWN (vstart + 4095)) vend) @ []) \<and> mm_rest s' = mm_rest ?s)"
    by (rule runs_freerange) (use assms in \<open>auto simp: free_pages_def\<close>)
  then have "runs (kinit1 vstart vend) s (\<lambda>_ s'.
    free_pages s' (rev (range_pages (PGROUNDDOWN (vstart + 4095)) vend)))"
    by (auto simp: kinit1_def elim: runs_mono)
  then show ?thesis by (auto simp: runs_Inr)
qed

theorem kinit1_frees_witness:
  "\<exists>s'. kinit1 0xFFFF800000110800 0xFFFF800000114000 mm_demo = Inr ((), s') \<and>
    free_pages s' [0xFFFF800000113000, 0xFFFF800000112000, 0xFFFF800000111000]"
proof -
  have "PGROUNDDOWN (0xFFFF800000110800 + 4095) = 0xFFFF800000111000" by (simp add: PGROUNDDOWN_def)
  then have "range_pages (PGROUNDDOWN (0xFFFF800000110800 + 4095)) 0xFFFF800000114000
    = [0xFFFF800000111000, 0xFFFF800000112000, 0xFFFF800000113000]"
    by (simp add: range_pages_def upt_rec)
  moreover have "\<exists>s'. kinit1 0xFFFF800000110800 0xFFFF800000114000 mm_demo = Inr ((), s') \<and>
    free_pages s' (rev (range_pages (PGROUNDDOWN (0xFFFF800000110800 + 4095)) 0xFFFF800000114000))"
    by (rule kinit1_frees) (simp_all add: mm_demo_def P2V_def)
  ultimately show ?thesis by simp
qed

end
