(* ===== verification/Xv6_Vm.thy ===== *)
theory Xv6_Vm
  imports Xv6_Mem
begin

unbundle bit_operations_syntax

text \<open>
  Address spaces, \<^verbatim>\<open>crates/arch/src/vm.rs\<close>: four-level page tables built in allocator pages. A
  table is its page address, an entry a 64-bit word of the page; 0 is the null pointer. The
  abstraction of a page table is the function from user pages to leaf entries (\<open>pte\<close>) together
  with the tree of table pages (\<open>tbl\<close>), read off the memory.
\<close>

section \<open>Page-table geometry\<close>

definition PTE_P :: u64 where [simp]: "PTE_P = 0x001"
definition PTE_W :: u64 where [simp]: "PTE_W = 0x002"
definition PTE_U :: u64 where [simp]: "PTE_U = 0x004"
definition PTE_PWT :: u64 where [simp]: "PTE_PWT = 0x008"
definition PTE_PCD :: u64 where [simp]: "PTE_PCD = 0x010"
definition PTE_PS :: u64 where [simp]: "PTE_PS = 0x080"

definition PXMASK :: u64 where "PXMASK = 0x1FF"
definition PMX :: "u64 \<Rightarrow> nat" where "PMX va = unat (drop_bit 39 va AND PXMASK)"
definition PDPX :: "u64 \<Rightarrow> nat" where "PDPX va = unat (drop_bit 30 va AND PXMASK)"
definition PDX :: "u64 \<Rightarrow> nat" where "PDX va = unat (drop_bit 21 va AND PXMASK)"
definition PTX :: "u64 \<Rightarrow> nat" where "PTX va = unat (drop_bit 12 va AND PXMASK)"
definition NPDENTRIES :: nat where "NPDENTRIES = 512"

definition PTE_ADDR :: "u64 \<Rightarrow> u64" where "PTE_ADDR pte = pte AND NOT 0xFFF"
definition PTE_FLAGS :: "u64 \<Rightarrow> u64" where "PTE_FLAGS pte = pte AND 0xFFF"

section \<open>The operations\<close>

record vmem = mm +
  kpml4 :: u64
  kpdpt :: u64
  cr3 :: u64

text \<open>\<open>P2V\<close> of this file is a checked addition.\<close>

definition p2v :: "u64 \<Rightarrow> ('s, u64) kop" where
  "p2v a = u64_add a KERNBASE"

definition load :: "u64 \<Rightarrow> ('z mm_scheme, u64) kop" where
  "load a = gets (\<lambda>s. ld64 (pmem s) a)"

definition store :: "u64 \<Rightarrow> u64 \<Rightarrow> ('z mm_scheme, unit) kop" where
  "store a v = modify (\<lambda>s. s\<lparr>pmem := st64 a v (pmem s)\<rparr>)"

definition write_bytes :: "u64 \<Rightarrow> u8 \<Rightarrow> ('z mm_scheme, unit) kop" where
  "write_bytes p v = modify (\<lambda>s. s\<lparr>pmem := fill p v 4096 (pmem s)\<rparr>)"

definition entry :: "u64 \<Rightarrow> nat \<Rightarrow> u64" where
  "entry t i = t + 8 * of_nat i"

definition switchkvm :: "('z vmem_scheme, unit) kop" where
  "switchkvm = modify (\<lambda>s. s\<lparr>cr3 := V2P (kpml4 s)\<rparr>)"

definition setupkvm :: "('z vmem_scheme, u64) kop" where
  "setupkvm = bnd kalloc (\<lambda>pml4.
     if pml4 = 0 then ret 0 else
     bnd (write_bytes pml4 0) (\<lambda>_.
     bnd (gets kpdpt) (\<lambda>k.
     bnd (store (entry pml4 256) (V2P k OR PTE_P OR PTE_W)) (\<lambda>_.
     ret pml4))))"

definition kvmalloc :: "('z vmem_scheme, unit) kop" where
  "kvmalloc = bnd kalloc (\<lambda>pml4.
     bnd (modify (\<lambda>s. s\<lparr>kpml4 := pml4\<rparr>)) (\<lambda>_.
     bnd (write_bytes pml4 0) (\<lambda>_.
     bnd kalloc (\<lambda>pdpt.
     bnd (modify (\<lambda>s. s\<lparr>kpdpt := pdpt\<rparr>)) (\<lambda>_.
     bnd (write_bytes pdpt 0) (\<lambda>_.
     bnd (store (entry pml4 (PMX KERNBASE)) (V2P pdpt OR PTE_P OR PTE_W)) (\<lambda>_.
     bnd (store (entry pdpt 0) (0 OR PTE_PS OR PTE_P OR PTE_W)) (\<lambda>_.
     bnd (store (entry pdpt 3) (0xC0000000 OR PTE_PS OR PTE_P OR PTE_W OR PTE_PWT OR PTE_PCD)) (\<lambda>_.
     switchkvm)))))))))"

text \<open>One level of \<open>walkpgdir\<close>, which the code writes out three times.\<close>

definition walk_level :: "u64 \<Rightarrow> nat \<Rightarrow> bool \<Rightarrow> ('z mm_scheme, u64) kop" where
  "walk_level t i alloc = bnd (load (entry t i)) (\<lambda>e.
     if e AND PTE_P \<noteq> 0 then p2v (PTE_ADDR e)
     else if \<not> alloc then ret 0
     else bnd kalloc (\<lambda>p.
       if p = 0 then ret 0 else
       bnd (write_bytes p 0) (\<lambda>_.
       bnd (store (entry t i) (V2P p OR PTE_P OR PTE_W OR PTE_U)) (\<lambda>_.
       ret p))))"

definition walkpgdir :: "u64 \<Rightarrow> u64 \<Rightarrow> bool \<Rightarrow> ('z mm_scheme, u64) kop" where
  "walkpgdir pml4 va alloc =
     bnd (walk_level pml4 (PMX va) alloc) (\<lambda>pdp. if pdp = 0 then ret 0 else
     bnd (walk_level pdp (PDPX va) alloc) (\<lambda>pd. if pd = 0 then ret 0 else
     bnd (walk_level pd (PDX va) alloc) (\<lambda>pgtab. if pgtab = 0 then ret 0 else
     ret (entry pgtab (PTX va)))))"

function mappages_from :: "u64 \<Rightarrow> u64 \<Rightarrow> u64 \<Rightarrow> u64 \<Rightarrow> u64 \<Rightarrow> ('z mm_scheme, i32) kop" where
  "mappages_from pgdir a end_page pa perm =
     bnd (walkpgdir pgdir a True) (\<lambda>p. if p = 0 then ret (- 1) else
     bnd (load p) (\<lambda>e.
     bnd (guardk (e AND PTE_P = 0) (Panic ''remap'')) (\<lambda>_.
     bnd (store p (pa OR perm OR PTE_P)) (\<lambda>_.
     if a = end_page then ret 0
     else if unat a + 4096 < 2 ^ 64 \<and> unat pa + 4096 < 2 ^ 64
     then mappages_from pgdir (a + PGSIZE) end_page (pa + PGSIZE) perm
     else stopk add_overflow))))"
  by pat_completeness auto
termination
  by (relation "measure (\<lambda>(_, a, _). 2 ^ 64 - unat a)") (auto simp: unat_word_ariths)

declare mappages_from.simps [simp del]

definition mappages :: "u64 \<Rightarrow> u64 \<Rightarrow> u64 \<Rightarrow> u64 \<Rightarrow> u64 \<Rightarrow> ('z mm_scheme, i32) kop" where
  "mappages pgdir va sz pa perm =
     bnd (u64_add va sz) (\<lambda>e. bnd (u64_sub e 1) (\<lambda>e.
     mappages_from pgdir (PGROUNDDOWN va) (PGROUNDDOWN e) pa perm))"

definition inituvm :: "u64 \<Rightarrow> u8 list \<Rightarrow> u32 \<Rightarrow> ('z mm_scheme, unit) kop" where
  "inituvm pgdir init sz =
     bnd (guardk (ucast sz < PGSIZE) (Panic ''inituvm: more than a page'')) (\<lambda>_.
     bnd kalloc (\<lambda>mem.
     bnd (write_bytes mem 0) (\<lambda>_.
     bnd (mappages pgdir PGSIZE PGSIZE (V2P mem) (PTE_W OR PTE_U)) (\<lambda>_.
     modify (\<lambda>s. s\<lparr>pmem := store_bytes mem (take (unat sz) init) (pmem s)\<rparr>)))))"

text \<open>The loop bodies of \<open>deallocuvm\<close> and \<open>allocuvm\<close> end in \<open>a += PGSIZE\<close>, which is checked.\<close>

function dealloc_from :: "u64 \<Rightarrow> u64 \<Rightarrow> u64 \<Rightarrow> ('z mm_scheme, unit) kop" where
  "dealloc_from pgdir a oldsz =
     (if a < oldsz then
        bnd (walkpgdir pgdir a False) (\<lambda>p.
        bnd (if p = 0 then ret () else
             bnd (load p) (\<lambda>e. whenk (e AND PTE_P \<noteq> 0)
               (bnd (guardk (PTE_ADDR e \<noteq> 0) (Panic ''kfree'')) (\<lambda>_.
                bnd (p2v (PTE_ADDR e)) (\<lambda>v.
                bnd (kfree v) (\<lambda>_.
                store p 0)))))) (\<lambda>_.
        if unat a + 4096 < 2 ^ 64 then dealloc_from pgdir (a + PGSIZE) oldsz
        else stopk add_overflow))
      else ret ())"
  by pat_completeness auto
termination
  by (relation "measure (\<lambda>(_, a, _). 2 ^ 64 - unat a)") (auto simp: unat_word_ariths)

declare dealloc_from.simps [simp del]

definition deallocuvm :: "u64 \<Rightarrow> u64 \<Rightarrow> u64 \<Rightarrow> ('z mm_scheme, u64) kop" where
  "deallocuvm pgdir oldsz newsz =
     (if newsz \<ge> oldsz then ret oldsz else
      bnd (PGROUNDUP newsz) (\<lambda>a. bnd (dealloc_from pgdir a oldsz) (\<lambda>_. ret newsz)))"

function alloc_from :: "u64 \<Rightarrow> u64 \<Rightarrow> u64 \<Rightarrow> u64 \<Rightarrow> ('z mm_scheme, u64) kop" where
  "alloc_from pgdir a oldsz newsz =
     (if a < newsz then
        bnd kalloc (\<lambda>mem.
        if mem = 0 then bnd (deallocuvm pgdir newsz oldsz) (\<lambda>_. ret 0) else
        bnd (write_bytes mem 0) (\<lambda>_.
        bnd (mappages pgdir a PGSIZE (V2P mem) (PTE_W OR PTE_U)) (\<lambda>r.
        if r < 0 then bnd (deallocuvm pgdir newsz oldsz) (\<lambda>_. bnd (kfree mem) (\<lambda>_. ret 0))
        else if unat a + 4096 < 2 ^ 64 then alloc_from pgdir (a + PGSIZE) oldsz newsz
        else stopk add_overflow)))
      else ret newsz)"
  by pat_completeness auto
termination
  by (relation "measure (\<lambda>(_, a, _). 2 ^ 64 - unat a)") (auto simp: unat_word_ariths)

declare alloc_from.simps [simp del]

definition allocuvm :: "u64 \<Rightarrow> u64 \<Rightarrow> u64 \<Rightarrow> ('z mm_scheme, u64) kop" where
  "allocuvm pgdir oldsz newsz =
     (if newsz \<ge> KERNBASE then ret 0
      else if newsz < oldsz then ret oldsz
      else bnd (PGROUNDUP oldsz) (\<lambda>a. alloc_from pgdir a oldsz newsz))"

definition freevm_entry :: "u64 \<Rightarrow> nat \<Rightarrow> (u64 \<Rightarrow> ('z mm_scheme, unit) kop) \<Rightarrow> ('z mm_scheme, unit) kop" where
  "freevm_entry t i f = bnd (load (entry t i)) (\<lambda>e.
     whenk (e AND PTE_P \<noteq> 0) (bnd (p2v (PTE_ADDR e)) f))"

definition freevm :: "u64 \<Rightarrow> ('z mm_scheme, unit) kop" where
  "freevm pml4 =
     bnd (guardk (pml4 \<noteq> 0) (Panic ''freevm: no pgdir'')) (\<lambda>_.
     bnd (for_each (\<lambda>i. freevm_entry pml4 i (\<lambda>pdp.
       bnd (for_each (\<lambda>j. freevm_entry pdp j (\<lambda>pd.
         bnd (for_each (\<lambda>k. freevm_entry pd k (\<lambda>pt.
           bnd (for_each (\<lambda>l. freevm_entry pt l kfree) [0..<NPDENTRIES]) (\<lambda>_.
           kfree pt))) [0..<NPDENTRIES]) (\<lambda>_.
         kfree pd))) [0..<NPDENTRIES]) (\<lambda>_.
       kfree pdp))) [0..<NPDENTRIES div 2]) (\<lambda>_.
     kfree pml4))"

definition clearpteu :: "u64 \<Rightarrow> u64 \<Rightarrow> ('z mm_scheme, unit) kop" where
  "clearpteu pgdir uva = bnd (walkpgdir pgdir uva False) (\<lambda>p.
     bnd (guardk (p \<noteq> 0) (Panic ''clearpteu'')) (\<lambda>_.
     bnd (load p) (\<lambda>e. store p (e AND NOT PTE_U))))"

function copyuvm_from :: "u64 \<Rightarrow> u64 \<Rightarrow> u64 \<Rightarrow> u64 \<Rightarrow> ('z mm_scheme, u64) kop" where
  "copyuvm_from pgdir d i sz =
     (if i < sz then
        bnd (walkpgdir pgdir i False) (\<lambda>p.
        bnd (guardk (p \<noteq> 0) (Panic ''copyuvm: pte should exist'')) (\<lambda>_.
        bnd (load p) (\<lambda>e.
        bnd (guardk (e AND PTE_P \<noteq> 0) (Panic ''copyuvm: page not present'')) (\<lambda>_.
        bnd kalloc (\<lambda>mem.
        if mem = 0 then bnd (freevm d) (\<lambda>_. ret 0) else
        bnd (p2v (PTE_ADDR e)) (\<lambda>src.
        bnd (modify (\<lambda>s. s\<lparr>pmem := store_bytes mem (bytes_at (pmem s) src 4096) (pmem s)\<rparr>)) (\<lambda>_.
        bnd (mappages d i PGSIZE (V2P mem) (PTE_FLAGS e)) (\<lambda>r.
        if r < 0 then bnd (freevm d) (\<lambda>_. ret 0)
        else if unat i + 4096 < 2 ^ 64 then copyuvm_from pgdir d (i + PGSIZE) sz
        else stopk add_overflow))))))))
      else ret d)"
  by pat_completeness auto
termination
  by (relation "measure (\<lambda>(_, _, i, _). 2 ^ 64 - unat i)") (auto simp: unat_word_ariths)

declare copyuvm_from.simps [simp del]

definition copyuvm :: "u64 \<Rightarrow> u32 \<Rightarrow> ('z vmem_scheme, u64) kop" where
  "copyuvm pgdir sz = bnd setupkvm (\<lambda>d. if d = 0 then ret 0 else
     copyuvm_from pgdir d PGSIZE (ucast sz))"

definition uva2ka :: "u64 \<Rightarrow> u64 \<Rightarrow> ('z mm_scheme, u64) kop" where
  "uva2ka pgdir uva = bnd (walkpgdir pgdir uva False) (\<lambda>p. if p = 0 then ret 0 else
     bnd (load p) (\<lambda>e. if e AND PTE_P = 0 \<or> e AND PTE_U = 0 then ret 0 else p2v (PTE_ADDR e)))"

text \<open>\<open>copyout\<close> of the bytes at its pointer; each round copies up to the end of a page.\<close>

function copyout :: "u64 \<Rightarrow> u64 \<Rightarrow> u8 list \<Rightarrow> ('z mm_scheme, i32) kop" where
  "copyout pgdir va buf =
     (if buf = [] then ret 0 else
      bnd (uva2ka pgdir (PGROUNDDOWN va)) (\<lambda>pa0. if pa0 = 0 then ret (- 1) else
        let off = unat va - unat (PGROUNDDOWN va); n = min (4096 - off) (length buf) in
        bnd (modify (\<lambda>s. s\<lparr>pmem := store_bytes (pa0 + of_nat off) (take n buf) (pmem s)\<rparr>)) (\<lambda>_.
        if unat (PGROUNDDOWN va) + 4096 < 2 ^ 64 then copyout pgdir (PGROUNDDOWN va + PGSIZE) (drop n buf)
        else stopk add_overflow)))"
  by pat_completeness auto
termination
proof (relation "measure (\<lambda>(_, _, buf). length buf)", goal_cases)
  case (2 pgdir va buf pa0 off n u)
  have "unat va mod 4096 < 4096" by simp
  moreover have "unat va - unat (PGROUNDDOWN va) = unat va mod 4096"
    by (simp add: unat_PGROUNDDOWN minus_div_mult_eq_mod)
  ultimately show ?case using 2 by (simp add: Let_def)
qed auto

declare copyout.simps [simp del]

section \<open>Bits of entries and indices\<close>

lemma index_nat: "unat (drop_bit k va AND PXMASK) = unat va div 2 ^ k mod 512"
proof -
  have "drop_bit k va AND PXMASK = take_bit 9 (drop_bit k va)"
    by (simp add: PXMASK_def take_bit_eq_mask mask_eq_exp_minus_1)
  then have "unat (drop_bit k va AND PXMASK) = take_bit 9 (drop_bit k (unat va))"
    using u64_bound[of va] by (simp only: unsigned_take_bit_eq unsigned_drop_bit_eq) (simp add: take_bit_nat_eq_self)
  then show ?thesis by (simp add: take_bit_eq_mod drop_bit_eq_div)
qed

lemmas index_nats = PMX_def[unfolded index_nat] PDPX_def[unfolded index_nat] PDX_def[unfolded index_nat]
  PTX_def[unfolded index_nat]

lemma index_bounds [simp]: "PMX va < 512" "PDPX va < 512" "PDX va < 512" "PTX va < 512"
  by (simp_all add: index_nats)

lemma aligned_bits: "page_aligned a \<longleftrightarrow> (\<forall>n < 12. \<not> bit a n)"
proof -
  have "unat (take_bit 12 a) = take_bit 12 (unat a)" by (simp only: unsigned_take_bit_eq)
  then have "unat (take_bit 12 a) = unat a mod 4096" by (simp add: take_bit_eq_mod)
  then have "page_aligned a \<longleftrightarrow> take_bit 12 a = 0"
    by (metis page_aligned_def unat_eq_zero)
  also have "\<dots> \<longleftrightarrow> (\<forall>n < 12. \<not> bit a n)"
    by (auto simp: bit_eq_iff bit_take_bit_iff)
  finally show ?thesis .
qed

lemma flag_bits: "f < 4096 \<Longrightarrow> 12 \<le> n \<Longrightarrow> \<not> bit (f :: u64) n"
proof
  assume f: "f < 4096" "12 \<le> n" "bit f n"
  have "unat f < 2 ^ 12" using f(1) by (simp add: word_less_nat_alt)
  also have "(2::nat) ^ 12 \<le> 2 ^ n" using f(2) by (rule power_increasing) simp
  finally have "\<not> bit (unat f) n" by (simp add: bit_iff_odd)
  with f(3) show False by (simp add: bit_unsigned_iff bit_imp_le_length)
qed

lemma pte_addr_or: "page_aligned a \<Longrightarrow> f < 4096 \<Longrightarrow> PTE_ADDR (a OR f) = a"
proof -
  assume a: "page_aligned a" "f < 4096"
  have m: "0xFFF = (mask 12 :: u64)" by (simp add: mask_eq_exp_minus_1)
  show ?thesis unfolding PTE_ADDR_def m
  proof (rule bit_word_eqI)
    fix n assume "n < LENGTH(64)"
    then show "bit ((a OR f) AND NOT (mask 12)) n = bit a n"
      using a(1) flag_bits[OF a(2), of n] by (auto simp: aligned_bits bit_simps not_less)
  qed
qed

lemma pte_flag_or:
  "page_aligned a \<Longrightarrow> g AND 0xFFF = g \<Longrightarrow> (a OR f) AND g = f AND g"
proof -
  assume a: "page_aligned a" "g AND 0xFFF = g"
  have m: "0xFFF = (mask 12 :: u64)" by (simp add: mask_eq_exp_minus_1)
  have g: "bit g n \<Longrightarrow> n < 12" for n using a(2) by (metis bit_and_iff bit_mask_iff m)
  show ?thesis
    by (rule bit_word_eqI) (use a(1) g in \<open>auto simp: aligned_bits bit_simps\<close>)
qed

section \<open>The tree of tables\<close>

definition child :: "memory \<Rightarrow> u64 \<Rightarrow> nat \<Rightarrow> u64 option" where
  "child m t i = (let e = ld64 m (entry t i) in
     if e AND PTE_P \<noteq> 0 then Some (P2V (PTE_ADDR e)) else None)"

fun tbl :: "memory \<Rightarrow> u64 \<Rightarrow> nat list \<Rightarrow> u64 option" where
  "tbl m t [] = Some t"
| "tbl m t (i # p) = (case child m t i of None \<Rightarrow> None | Some u \<Rightarrow> tbl m u p)"

text \<open>Paths to tables that serve the user half of the address space.\<close>

definition upath :: "nat list \<Rightarrow> bool" where
  "upath p \<longleftrightarrow> length p \<le> 3 \<and> (\<forall>i \<in> set p. i < 512) \<and> (p \<noteq> [] \<longrightarrow> hd p < 256)"

lemma upath_prefix: "upath (p @ q) \<Longrightarrow> upath p"
  by (cases p) (auto simp: upath_def)

lemma upath_snocD: "upath (p @ i # q) \<Longrightarrow> i < 512"
  by (auto simp: upath_def)

lemma tbl_append: "tbl m t (p @ q) = (case tbl m t p of None \<Rightarrow> None | Some u \<Rightarrow> tbl m u q)"
  by (induction p arbitrary: t) (auto split: option.splits)

lemma tbl_frame:
  "(\<And>r j w u. q = r @ j # w \<Longrightarrow> tbl m t r = Some u \<Longrightarrow> ld64 m' (entry u j) = ld64 m (entry u j)) \<Longrightarrow>
   tbl m' t q = tbl m t q"
proof (induction q arbitrary: t)
  case Nil
  then show ?case by simp
next
  case (Cons i q)
  have c: "child m' t i = child m t i" using Cons.prems[of "[]" i q t] by (simp add: child_def)
  show ?case
  proof (cases "child m t i")
    case None
    then show ?thesis using c by simp
  next
    case (Some u)
    have "tbl m' u q = tbl m u q"
    proof (rule Cons.IH)
      fix r j w v assume "q = r @ j # w" "tbl m u r = Some v"
      then show "ld64 m' (entry v j) = ld64 m (entry v j)" using Cons.prems[of "i # r" j w v] Some by simp
    qed
    then show ?thesis using c Some by simp
  qed
qed

lemma entry_apart:
  "page_aligned t \<Longrightarrow> page_aligned u \<Longrightarrow> i < 512 \<Longrightarrow> j < 512 \<Longrightarrow>
   ld64 (st64 (entry t i) v m) (entry u j) = (if t = u \<and> i = j then v else ld64 m (entry u j))"
  using ld64_other(1)[OF words_apart[of t u i j]] by (auto simp: entry_def)

lemma entry_fill:
  "page_aligned x \<Longrightarrow> page_aligned u \<Longrightarrow> j < 512 \<Longrightarrow>
   ld64 (fill x 0 4096 m) (entry u j) = (if u = x then 0 else ld64 m (entry u j))"
  using ld64_other(2)[OF page_word_apart[of x u j]] ld64_zeroed[of x j m] by (auto simp: entry_def)

lemma entry_page: "page_aligned t \<Longrightarrow> i < 512 \<Longrightarrow> page_aligned d \<Longrightarrow> t \<noteq> d \<Longrightarrow> apart (entry t i) 8 d 4096"
  using page_word_apart[of d t i] by (simp add: entry_def apart_sym)

text \<open>A tree without sharing, whose tables are aligned pages.\<close>

definition tree :: "memory \<Rightarrow> u64 \<Rightarrow> bool" where
  "tree m root \<longleftrightarrow>
     (\<forall>p t. upath p \<longrightarrow> tbl m root p = Some t \<longrightarrow> page_aligned t) \<and>
     (\<forall>p q t. upath p \<longrightarrow> upath q \<longrightarrow> tbl m root p = Some t \<longrightarrow> tbl m root q = Some t \<longrightarrow> p = q)"

definition is_table :: "memory \<Rightarrow> u64 \<Rightarrow> u64 \<Rightarrow> bool" where
  "is_table m root t \<longleftrightarrow> (\<exists>p. upath p \<and> tbl m root p = Some t)"

text \<open>Filling an absent entry with a fresh zeroed table adds one leaf to the tree.\<close>

lemma tree_grow:
  assumes T: "tree m root" and p: "tbl m root p = Some t" "upath (p @ [i])" "child m t i = None"
    and x: "page_aligned x" "\<not> is_table m root x" and e: "e AND PTE_P \<noteq> 0" "P2V (PTE_ADDR e) = x"
  defines "m' \<equiv> st64 (entry t i) e (fill x 0 4096 m)"
  shows "\<And>q. upath q \<Longrightarrow> tbl m' root q = (if q = p @ [i] then Some x else tbl m root q)"
    and "\<And>q u j. upath q \<Longrightarrow> tbl m root q = Some u \<Longrightarrow> j < 512 \<Longrightarrow> (q, j) \<noteq> (p, i) \<Longrightarrow>
      ld64 m' (entry u j) = ld64 m (entry u j)"
    and "\<And>j. j < 512 \<Longrightarrow> ld64 m' (entry x j) = 0"
    and "tree m' root"
proof -
  have up: "upath p" "i < 512" using p(2) by (auto intro: upath_prefix upath_snocD)
  have al: "page_aligned u" "u \<noteq> x" if "upath q" "tbl m root q = Some u" for q u
    using that T x(2) by (auto simp: tree_def is_table_def)
  have tx: "page_aligned t" "t \<noteq> x" using al[OF up(1) p(1)] by auto
  show old: "ld64 m' (entry u j) = ld64 m (entry u j)"
    if "upath q" "tbl m root q = Some u" "j < 512" "(q, j) \<noteq> (p, i)" for q u j
  proof -
    have "\<not> (t = u \<and> i = j)" using that T up p(1) unfolding tree_def by blast
    then show ?thesis
      using al[OF that(1,2)] tx up x(1) that(3) by (auto simp: m'_def entry_apart entry_fill)
  qed
  show new: "ld64 m' (entry x j) = 0" if "j < 512" for j
    using that tx x(1) up by (simp add: m'_def entry_apart entry_fill)
  have frame: "tbl m' root q = tbl m root q" if q: "upath q" "\<And>w. q \<noteq> p @ i # w" for q
  proof (rule tbl_frame)
    fix r j w u assume "q = r @ j # w" "tbl m root r = Some u"
    then show "ld64 m' (entry u j) = ld64 m (entry u j)"
      using q old[of r u j] upath_prefix[of r "j # w"] upath_snocD[of r j w] by auto
  qed
  have "tbl m' root p = Some t" using frame[OF up(1)] p(1) by simp
  moreover have "child m' t i = Some x"
    using tx x(1) up e by (simp add: m'_def child_def entry_apart)
  ultimately have px: "tbl m' root (p @ i # w) = tbl m' x w" for w by (simp add: tbl_append)
  show t: "tbl m' root q = (if q = p @ [i] then Some x else tbl m root q)" if "upath q" for q
  proof (cases "\<exists>w. q = p @ i # w")
    case True
    then obtain w where w: "q = p @ i # w" by blast
    have "tbl m root q = None" using p(1,3) by (simp add: w tbl_append)
    moreover have "tbl m' x w = None" if "w \<noteq> []"
      using that new[of "hd w"] \<open>upath q\<close> by (cases w) (auto simp: w child_def upath_def)
    ultimately show ?thesis using px[of w] by (auto simp: w)
  next
    case False
    then show ?thesis using frame[OF that] by auto
  qed
  show "tree m' root" unfolding tree_def
  proof (intro conjI allI impI)
    fix q u assume "upath q" "tbl m' root q = Some u"
    then show "page_aligned u" using t[of q] al x(1) by (auto split: if_splits)
  next
    fix q r u assume "upath q" "upath r" "tbl m' root q = Some u" "tbl m' root r = Some u"
    then show "q = r" using t[of q] t[of r] al(2) T by (auto simp: tree_def split: if_splits)
  qed
qed

section \<open>Walking the tree\<close>

definition pt_inv :: "'z mm_scheme \<Rightarrow> u64 \<Rightarrow> u64 list \<Rightarrow> bool" where
  "pt_inv s root xs \<longleftrightarrow> free_pages s xs \<and> tree (pmem s) root \<and>
     (\<forall>t. is_table (pmem s) root t \<longrightarrow> managed_page s t \<and> t \<notin> set xs)"

definition user_va :: "u64 \<Rightarrow> bool" where "user_va va \<longleftrightarrow> unat va < 2 ^ 47"

definition vpath :: "u64 \<Rightarrow> nat list" where "vpath va = [PMX va, PDPX va, PDX va]"

definition upte :: "memory \<Rightarrow> u64 \<Rightarrow> u64 \<Rightarrow> u64" where
  "upte m root va = (case tbl m root (vpath va) of None \<Rightarrow> 0 | Some t \<Rightarrow> ld64 m (entry t (PTX va)))"

definition data_page :: "'z mm_scheme \<Rightarrow> u64 \<Rightarrow> u64 list \<Rightarrow> u64 \<Rightarrow> bool" where
  "data_page s root xs d \<longleftrightarrow> managed_page s d \<and> d \<notin> set xs \<and> \<not> is_table (pmem s) root d"

text \<open>
  What building tables does: it takes pages off the free list and changes neither a user mapping
  nor a data page.
\<close>

definition grown :: "u64 \<Rightarrow> 'z mm_scheme \<Rightarrow> u64 list \<Rightarrow> 'z mm_scheme \<Rightarrow> u64 list \<Rightarrow> bool" where
  "grown root s xs s' xs' \<longleftrightarrow> pt_inv s' root xs' \<and> mm_rest s' = mm_rest s \<and> (\<exists>ys. xs = ys @ xs') \<and>
     (\<forall>va. user_va va \<longrightarrow> upte (pmem s') root va = upte (pmem s) root va) \<and>
     (\<forall>d. data_page s root xs d \<longrightarrow> data_page s' root xs' d \<and>
        bytes_at (pmem s') d 4096 = bytes_at (pmem s) d 4096)"

lemma grown_refl: "pt_inv s root xs \<Longrightarrow> grown root s xs s xs"
  by (simp add: grown_def)

lemma grown_trans: "grown root s xs s1 xs1 \<Longrightarrow> grown root s1 xs1 s2 xs2 \<Longrightarrow> grown root s xs s2 xs2"
  by (fastforce simp: grown_def)

lemma upath_vpath: "user_va va \<Longrightarrow> upath (vpath va)"
proof -
  assume "user_va va"
  then have "unat va div 2 ^ 39 < 256" by (intro less_mult_imp_div_less) (simp add: user_va_def)
  then have "PMX va < 256" unfolding index_nats by simp
  then show ?thesis by (simp add: upath_def vpath_def)
qed

lemma V2P_aligned: "page_aligned x \<Longrightarrow> page_aligned (V2P x)"
proof -
  assume "page_aligned x"
  then have x: "4096 dvd unat x" by (auto simp: page_aligned_def)
  have k: "4096 dvd unat KERNBASE" "4096 dvd (2 ^ 64 :: nat)" by simp_all
  have "4096 dvd unat (V2P x)"
    unfolding V2P_def unat_sub_u64 using dvd_diff_nat[OF x k(1)] dvd_diff_nat[OF dvd_add[OF k(2) x] k(1)]
    by (rule_tac if_split[THEN iffD2]) blast
  then show ?thesis by (auto simp: page_aligned_def)
qed

lemma table_entry:
  assumes "page_aligned x"
  shows "P2V (PTE_ADDR (V2P x OR PTE_P OR PTE_W OR PTE_U)) = x"
    "(V2P x OR PTE_P OR PTE_W OR PTE_U) AND PTE_P \<noteq> 0"
  using pte_addr_or[OF V2P_aligned[OF assms], of 7] pte_flag_or[OF V2P_aligned[OF assms], of 1 7]
  by (simp_all add: or.assoc)

lemma runs_p2v: "a < PHYSTOP \<Longrightarrow> runs (p2v a) s Q = Q (P2V a) s"
  by (auto simp: p2v_def P2V_def word_less_nat_alt)

lemma runs_walk_present:
  assumes I: "pt_inv s root xs" and p: "tbl (pmem s) root p = Some t" "upath (p @ [i])" "child (pmem s) t i = Some u"
  shows "runs (walk_level t i alloc) s Q = Q u s" "u \<noteq> 0" "tbl (pmem s) root (p @ [i]) = Some u"
proof -
  show u: "tbl (pmem s) root (p @ [i]) = Some u" using p(1,3) by (simp add: tbl_append)
  then have "managed_page s u" using I p(2) unfolding pt_inv_def is_table_def by blast
  then show "runs (walk_level t i alloc) s Q = Q u s"
    using p(3) by (auto simp: walk_level_def load_def child_def Let_def managed_page_def runs_p2v split: if_splits)
  show "u \<noteq> 0" using \<open>managed_page s u\<close> I by (auto simp: pt_inv_def free_pages_def managed_page_def)
qed

lemma runs_walk_level:
  assumes I: "pt_inv s root xs" and p: "tbl (pmem s) root p = Some t" "upath (p @ [i])" and xs: "xs \<noteq> []"
    and Q: "\<And>r s' xs'. r \<noteq> 0 \<Longrightarrow> tbl (pmem s') root (p @ [i]) = Some r \<Longrightarrow> grown root s xs s' xs' \<Longrightarrow>
      length xs \<le> Suc (length xs') \<Longrightarrow> Q r s'"
  shows "runs (walk_level t i True) s Q"
proof (cases "child (pmem s) t i")
  case (Some u)
  note w = runs_walk_present[OF I p Some]
  show ?thesis unfolding w(1) by (rule Q[OF w(2,3) grown_refl[OF I]]) simp
next
  case None
  obtain x xs' where x: "xs = x # xs'" using xs by (cases xs) auto
  define e where "e = V2P x OR PTE_P OR PTE_W OR PTE_U"
  let ?m = "st64 (entry t i) e (fill x 0 4096 (pmem s))"
  have mx: "managed_page s x" "\<not> is_table (pmem s) root x" "page_aligned x" "x \<noteq> 0" "x \<notin> set xs'"
    using I by (auto simp: pt_inv_def x free_pages_def managed_page_def)
  have T: "tree (pmem s) root" using I by (simp add: pt_inv_def)
  note g = tree_grow[OF T p None mx(3,2) table_entry(2,1)[OF mx(3), folded e_def]]
  have tp: "upath p" "i < 512" using p(2) by (auto intro: upath_prefix upath_snocD)
  have mt: "managed_page s t" "t \<notin> set xs" "page_aligned t"
    using I p(1) tp(1) managed_aligned[of s t] by (auto simp: pt_inv_def is_table_def)
  have tb: "is_table ?m root u \<longleftrightarrow> is_table (pmem s) root u \<or> u = x" for u
  proof -
    have "tbl (pmem s) root (p @ [i]) = None" using None p(1) by (simp add: tbl_append)
    moreover have "is_table ?m root u \<longleftrightarrow>
      (\<exists>q. upath q \<and> (if q = p @ [i] then Some x else tbl (pmem s) root q) = Some u)"
      unfolding is_table_def by (rule ex_cong1) (simp add: g(1) cong: conj_cong)
    moreover have "\<dots> \<longleftrightarrow> (\<exists>q. upath q \<and> tbl (pmem s) root q = Some u) \<or> u = x"
      using calculation(1) p(2) by (metis option.distinct(1) option.inject)
    ultimately show ?thesis by (simp only: is_table_def)
  qed
  have fr: "ld64 ?m y = ld64 (pmem s) y" if "y \<in> set xs'" for y
  proof -
    have y: "page_aligned y" "y \<noteq> x" "y \<noteq> t" using I that mt(2) by (auto simp: pt_inv_def x free_pages_def intro: managed_aligned)
    have "y = entry y 0" by (simp add: entry_def)
    then show ?thesis using y mt(3) mx(3) tp(2) entry_apart[of t y i 0] entry_fill[of x y 0] by fastforce
  qed
  have up: "upte ?m root va = upte (pmem s) root va" if "user_va va" for va
  proof -
    have q: "upath (vpath va)" "length (vpath va) = 3" using upath_vpath[OF that] by (simp_all add: vpath_def)
    have "vpath va \<noteq> p" using q(2) p(2) by (auto simp: upath_def)
    then show ?thesis using g(1)[OF q(1)] g(2)[OF q(1)] g(3) None p(1)
      by (auto simp: upte_def tbl_append split: option.splits)
  qed
  have dat: "bytes_at ?m d 4096 = bytes_at (pmem s) d 4096" if "data_page s root xs d" for d
  proof -
    have d: "page_aligned d" "d \<noteq> x" "t \<noteq> d" using that x tp(1) p(1) by (auto simp: data_page_def is_table_def managed_aligned)
    show ?thesis
      using entry_page[OF mt(3) tp(2) d(1,3)] pages_apart[OF mx(3) d(1)] d(2) by (simp add: bytes_at_other)
  qed
  have "runs kalloc s (\<lambda>r s1. r = x \<and> free_pages s1 xs' \<and> pmem s1 = pmem s \<and> mm_rest s1 = mm_rest s)"
    by (rule pa.alloc) (use I in \<open>simp add: pt_inv_def x\<close>)
  moreover have "Q x (s1\<lparr>pmem := ?m\<rparr>)"
    if s1: "free_pages s1 xs'" "pmem s1 = pmem s" "mm_rest s1 = mm_rest s" for s1
  proof (rule Q[where xs' = xs'])
    have same: "managed_page (s1\<lparr>pmem := ?m\<rparr>) = managed_page s" 
      using s1(3) by (simp add: fun_eq_iff managed_page_def mm_rest_def)
    have "free_pages (s1\<lparr>pmem := ?m\<rparr>) xs'" by (rule pa.setm(1)[OF s1(1)]) (simp add: fr s1(2))
    then have "pt_inv (s1\<lparr>pmem := ?m\<rparr>) root xs'"
      using g(4) I mx by (auto simp: pt_inv_def same tb x)
    then show "grown root s xs (s1\<lparr>pmem := ?m\<rparr>) xs'"
      using up dat s1(3) by (auto simp: grown_def x data_page_def same tb mm_rest_def)
    show "tbl (pmem (s1\<lparr>pmem := ?m\<rparr>)) root (p @ [i]) = Some x" using g(1)[OF p(2)] by simp
  qed (use mx(4) x in auto)
  ultimately show ?thesis
    using None mx(4)
    by (auto simp: walk_level_def load_def store_def write_bytes_def child_def Let_def e_def
        split: if_splits elim!: runs_mono)
qed

lemma entry_nonzero: "page_aligned t \<Longrightarrow> t \<noteq> 0 \<Longrightarrow> i < 512 \<Longrightarrow> entry t i \<noteq> 0"
  using unat_word_in_page[of t i] by (auto simp: entry_def unat_eq_zero[symmetric])

lemma table_facts:
  assumes "pt_inv s root xs" "upath p" "tbl (pmem s) root p = Some t"
  shows "managed_page s t" "t \<notin> set xs" "page_aligned t" "t \<noteq> 0"
  using assms managed_aligned[of s t]
  by (auto simp: pt_inv_def is_table_def free_pages_def) (auto simp: managed_page_def)

lemma runs_walkpgdir:
  assumes I: "pt_inv s root xs" and va: "user_va va" and n: "3 \<le> length xs"
    and Q: "\<And>t s' xs'. tbl (pmem s') root (vpath va) = Some t \<Longrightarrow> entry t (PTX va) \<noteq> 0 \<Longrightarrow>
      grown root s xs s' xs' \<Longrightarrow> length xs \<le> 3 + length xs' \<Longrightarrow> Q (entry t (PTX va)) s'"
  shows "runs (walkpgdir root va True) s Q"
proof -
  have up: "upath [PMX va]" "upath [PMX va, PDPX va]" "upath [PMX va, PDPX va, PDX va]"
    using upath_vpath[OF va] by (auto simp: upath_def vpath_def)
  show ?thesis unfolding walkpgdir_def runs_bnd
  proof (rule runs_walk_level[where p = "[]", OF I])
    fix r1 s1 xs1 assume 1: "r1 \<noteq> 0" "tbl (pmem s1) root ([] @ [PMX va]) = Some r1" "grown root s xs s1 xs1"
      "length xs \<le> Suc (length xs1)"
    have I1: "pt_inv s1 root xs1" using 1(3) by (simp add: grown_def)
    show "runs (if r1 = 0 then ret 0 else bnd (walk_level r1 (PDPX va) True) (\<lambda>pd. if pd = 0 then ret 0 else
       bnd (walk_level pd (PDX va) True) (\<lambda>pt. if pt = 0 then ret 0 else ret (entry pt (PTX va))))) s1 Q"
      unfolding if_not_P[OF 1(1)] runs_bnd
    proof (rule runs_walk_level[where p = "[PMX va]", OF I1])
      fix r2 s2 xs2 assume 2: "r2 \<noteq> 0" "tbl (pmem s2) root ([PMX va] @ [PDPX va]) = Some r2" "grown root s1 xs1 s2 xs2"
        "length xs1 \<le> Suc (length xs2)"
      have I2: "pt_inv s2 root xs2" using 2(3) by (simp add: grown_def)
      show "runs (if r2 = 0 then ret 0 else bnd (walk_level r2 (PDX va) True) (\<lambda>pt. if pt = 0 then ret 0
         else ret (entry pt (PTX va)))) s2 Q"
        unfolding if_not_P[OF 2(1)] runs_bnd
      proof (rule runs_walk_level[where p = "[PMX va, PDPX va]", OF I2])
        fix r3 s3 xs3 assume 3: "r3 \<noteq> 0" "tbl (pmem s3) root ([PMX va, PDPX va] @ [PDX va]) = Some r3"
          "grown root s2 xs2 s3 xs3" "length xs2 \<le> Suc (length xs3)"
        have g: "grown root s xs s3 xs3" using 1(3) 2(3) 3(3) by (blast intro: grown_trans)
        then have I3: "pt_inv s3 root xs3" by (simp add: grown_def)
        have "entry r3 (PTX va) \<noteq> 0"
          by (intro entry_nonzero table_facts(3,4)[OF I3 up(3) 3(2)[unfolded append.simps]]) simp
        then show "runs (if r3 = 0 then ret 0 else ret (entry r3 (PTX va))) s3 Q"
          using 3 1(4) 2(4) by (auto intro!: Q[OF _ _ g] simp: vpath_def)
      qed (use 1 2 n up in auto)
    qed (use 1 n up in auto)
  qed (use n up in auto)
qed

lemma runs_walk_lookup:
  assumes I: "pt_inv s root xs" and p: "tbl (pmem s) root p = Some t" "upath (p @ [i])"
  shows "runs (walk_level t i False) s Q = Q (case tbl (pmem s) root (p @ [i]) of None \<Rightarrow> 0 | Some u \<Rightarrow> u) s"
proof (cases "child (pmem s) t i")
  case None
  then show ?thesis using p(1)
    by (auto simp: walk_level_def load_def child_def Let_def tbl_append split: if_splits)
next
  case (Some u)
  note w = runs_walk_present[OF I p Some]
  show ?thesis unfolding w by simp
qed

lemma runs_lookup:
  assumes I: "pt_inv s root xs" and va: "user_va va"
  shows "runs (walkpgdir root va False) s Q =
    Q (case tbl (pmem s) root (vpath va) of None \<Rightarrow> 0 | Some t \<Rightarrow> entry t (PTX va)) s"
proof -
  have up: "upath [PMX va]" "upath [PMX va, PDPX va]" "upath [PMX va, PDPX va, PDX va]"
    using upath_vpath[OF va] by (auto simp: upath_def vpath_def)
  note w = runs_walk_lookup[OF I, of "[PMX va]"] runs_walk_lookup[OF I, of "[PMX va, PDPX va]"]
  have w0: "runs (walk_level root (PMX va) False) s Q =
    Q (case tbl (pmem s) root [PMX va] of None \<Rightarrow> 0 | Some u \<Rightarrow> u) s" for Q
    using runs_walk_lookup[OF I, of "[]" root "PMX va"] up(1) by simp
  have step: "tbl (pmem s) root (p @ [i]) = (case tbl (pmem s) root p of None \<Rightarrow> None | Some u \<Rightarrow> child (pmem s) u i)" for p i
    by (auto simp: tbl_append split: option.splits)
  have nz: "tbl (pmem s) root p = Some t \<Longrightarrow> upath p \<Longrightarrow> t \<noteq> 0" for p t using table_facts(4)[OF I] by blast
  show ?thesis
  proof (cases "tbl (pmem s) root [PMX va]")
    case None
    then show ?thesis using w0 up by (simp add: walkpgdir_def vpath_def split: option.splits)
  next
    case 1: (Some r1)
    show ?thesis
    proof (cases "tbl (pmem s) root [PMX va, PDPX va]")
      case None
      then show ?thesis
        using w0 w(1)[of r1 "PDPX va"] 1 nz[OF 1] up step[of "[PMX va, PDPX va]" "PDX va"]
        by (simp add: walkpgdir_def vpath_def del: tbl.simps)
    next
      case 2: (Some r2)
      show ?thesis
        using w0 w(1)[of r1 "PDPX va"] w(2)[of r2 "PDX va"] 1 2 nz[OF 1] nz[OF 2]
          nz[of "[PMX va, PDPX va, PDX va]"] up
        by (auto simp: walkpgdir_def vpath_def simp del: tbl.simps split: option.splits)
    qed
  qed
qed

text \<open>Two user addresses have the same leaf entry exactly when they lie in the same page.\<close>

lemma same_page:
  assumes "user_va va" "user_va vb"
  shows "vpath va = vpath vb \<and> PTX va = PTX vb \<longleftrightarrow> PGROUNDDOWN va = PGROUNDDOWN vb"
proof -
  have "unat (PGROUNDDOWN va) = unat (PGROUNDDOWN vb) \<longleftrightarrow> unat va div 4096 = unat vb div 4096"
    by (simp add: unat_PGROUNDDOWN)
  moreover have "vpath v = vpath w \<and> PTX v = PTX w \<longleftrightarrow> unat v div 4096 = unat w div 4096"
    if "user_va v" "user_va w" for v w
  proof -
    define a b where "a = unat v div 4096" and "b = unat w div 4096"
    have d: "unat x div 2 ^ 39 = unat x div 4096 div 512 div 512 div 512"
      "unat x div 2 ^ 30 = unat x div 4096 div 512 div 512" "unat x div 2 ^ 21 = unat x div 4096 div 512"
      "unat x div 2 ^ 12 = unat x div 4096" for x :: u64
      by (simp_all add: div_mult2_eq[symmetric])
    have dm: "x mod 512 = y mod 512 \<Longrightarrow> x div 512 = y div 512 \<Longrightarrow> x = y" for x y :: nat
      by (metis div_mult_mod_eq)
    have top: "unat x div 4096 div 512 div 512 div 512 < 512" if "user_va x" for x
      using that by (intro less_mult_imp_div_less) (simp add: user_va_def)
    show ?thesis
      unfolding vpath_def index_nats d a_def[symmetric] b_def[symmetric]
      using top[OF that(1), folded a_def] top[OF that(2), folded b_def] by (auto intro: dm)
  qed
  ultimately show ?thesis using assms by (metis unsigned_word_eqI)
qed

section \<open>Installing entries\<close>

lemma tree_leaf:
  fixes v :: u64
  assumes T: "tree m root" and va: "user_va va" and t: "tbl m root (vpath va) = Some t"
  defines "m' \<equiv> st64 (entry t (PTX va)) v m"
  shows "\<And>q. upath q \<Longrightarrow> tbl m' root q = tbl m root q" and "tree m' root"
    and "\<And>vb. user_va vb \<Longrightarrow> upte m' root vb = (if PGROUNDDOWN vb = PGROUNDDOWN va then v else upte m root vb)"
proof -
  note up = upath_vpath[OF va]
  have al: "page_aligned u" if "upath q" "tbl m root q = Some u" for q u using that T by (auto simp: tree_def)
  have old: "ld64 m' (entry u j) = (if q = vpath va \<and> j = PTX va then v else ld64 m (entry u j))"
    if "upath q" "tbl m root q = Some u" "j < 512" for q u j
  proof -
    have "t = u \<longleftrightarrow> q = vpath va" using that(1,2) up t T unfolding tree_def by (metis option.inject)
    then show ?thesis using al[OF that(1,2)] al[OF up t] that(3) by (auto simp: m'_def entry_apart)
  qed
  show tq: "tbl m' root q = tbl m root q" if "upath q" for q
  proof (rule tbl_frame)
    fix r j w u assume q: "q = r @ j # w" "tbl m root r = Some u"
    then have "r \<noteq> vpath va" using that by (auto simp: upath_def vpath_def)
    then show "ld64 m' (entry u j) = ld64 m (entry u j)"
      using q that old[of r u j] upath_prefix[of r "j # w"] upath_snocD[of r j w] by auto
  qed
  show "tree m' root" using T unfolding tree_def by (simp add: tq cong: imp_cong)
  show "upte m' root vb = (if PGROUNDDOWN vb = PGROUNDDOWN va then v else upte m root vb)" if "user_va vb" for vb
    using same_page[OF that va] tq[OF upath_vpath[OF that]] old[OF upath_vpath[OF that]] t
    by (auto simp: upte_def split: option.splits)
qed

definition remapped :: "u64 \<Rightarrow> (u64 \<Rightarrow> u64) \<Rightarrow> 'z mm_scheme \<Rightarrow> u64 list \<Rightarrow> 'z mm_scheme \<Rightarrow> u64 list \<Rightarrow> bool" where
  "remapped root f s xs s' xs' \<longleftrightarrow> pt_inv s' root xs' \<and> mm_rest s' = mm_rest s \<and> (\<exists>ys. xs = ys @ xs') \<and>
     (\<forall>va. user_va va \<longrightarrow> upte (pmem s') root va = f va) \<and>
     (\<forall>d. data_page s root xs d \<longrightarrow> data_page s' root xs' d \<and>
        bytes_at (pmem s') d 4096 = bytes_at (pmem s) d 4096)"

lemma remapped_trans: "remapped root f s xs s1 xs1 \<Longrightarrow> remapped root g s1 xs1 s2 xs2 \<Longrightarrow> remapped root g s xs s2 xs2"
  by (fastforce simp: remapped_def)

lemma remapped_cong: "remapped root f s xs s' xs' \<Longrightarrow> (\<And>va. user_va va \<Longrightarrow> f va = g va) \<Longrightarrow> remapped root g s xs s' xs'"
  by (simp add: remapped_def)

lemma remapped_inv: "remapped root f s xs s' xs' \<Longrightarrow> pt_inv s' root xs'"
  "remapped root f s xs s' xs' \<Longrightarrow> user_va va \<Longrightarrow> upte (pmem s') root va = f va"
  "remapped root f s xs s' xs' \<Longrightarrow> mm_rest s' = mm_rest s"
  by (simp_all add: remapped_def)

lemma store_pte:
  assumes I: "pt_inv s root xs" and va: "user_va va" and t: "tbl (pmem s) root (vpath va) = Some t"
  shows "remapped root (\<lambda>vb. if PGROUNDDOWN vb = PGROUNDDOWN va then v else upte (pmem s) root vb) s xs
    (s\<lparr>pmem := st64 (entry t (PTX va)) v (pmem s)\<rparr>) xs"
proof -
  let ?m = "st64 (entry t (PTX va)) v (pmem s)"
  have T: "tree (pmem s) root" using I by (simp add: pt_inv_def)
  note l = tree_leaf[OF T va t, where v = v]
  note f = table_facts[OF I upath_vpath[OF va] t]
  have tb: "is_table ?m root u \<longleftrightarrow> is_table (pmem s) root u" for u
    unfolding is_table_def by (rule ex_cong1) (simp add: l(1) cong: conj_cong)
  have "ld64 ?m y = ld64 (pmem s) y" if "y \<in> set xs" for y
  proof -
    have y: "page_aligned y" "t \<noteq> y" using that I f(2) by (auto simp: pt_inv_def free_pages_def intro: managed_aligned)
    have "y = entry y 0" by (simp add: entry_def)
    then show ?thesis using entry_apart[OF f(3) y(1), of "PTX va" 0] y(2) by fastforce
  qed
  then have fp: "free_pages (s\<lparr>pmem := ?m\<rparr>) xs" using I by (intro pa.setm(1)) (simp_all add: pt_inv_def)
  have same: "managed_page (s\<lparr>pmem := ?m\<rparr>) = managed_page s" by (simp add: fun_eq_iff managed_page_def)
  have "bytes_at ?m d 4096 = bytes_at (pmem s) d 4096" if "data_page s root xs d" for d
  proof -
    have "page_aligned d" "t \<noteq> d" using that t upath_vpath[OF va] by (auto simp: data_page_def is_table_def managed_aligned)
    then show ?thesis using entry_page[OF f(3), of "PTX va" d] by (simp add: bytes_at_other)
  qed
  then show ?thesis
    using fp I l(2,3) by (auto simp: remapped_def pt_inv_def same tb data_page_def mm_rest_def)
qed

lemma grown_remapped: "grown root s xs s' xs' \<longleftrightarrow> remapped root (upte (pmem s) root) s xs s' xs'"
  by (simp add: grown_def remapped_def)

lemma PGROUNDDOWN_id: "page_aligned a \<Longrightarrow> PGROUNDDOWN a = a"
proof -
  assume "page_aligned a"
  then have "unat (PGROUNDDOWN a) = unat a" by (simp add: unat_PGROUNDDOWN page_aligned_def dvd_div_mult_self mod_eq_0_iff_dvd)
  then show ?thesis by (rule unsigned_word_eqI)
qed

lemma PGROUNDDOWN_aligned: "page_aligned (PGROUNDDOWN a)"
  by (simp add: page_aligned_def unat_PGROUNDDOWN)

lemma PGROUNDDOWN_le: "PGROUNDDOWN a \<le> a"
  by (simp add: word_le_nat_alt unat_PGROUNDDOWN div_times_less_eq_dividend)

text \<open>One round of \<open>mappages\<close>.\<close>

lemma runs_map_one:
  assumes I: "pt_inv s root xs" and va: "user_va va" and n: "3 \<le> length xs"
    and free: "upte (pmem s) root va AND PTE_P = 0"
    and Q: "\<And>s' xs'. remapped root (\<lambda>vb. if PGROUNDDOWN vb = PGROUNDDOWN va then v else upte (pmem s) root vb) s xs s' xs' \<Longrightarrow>
      length xs \<le> 3 + length xs' \<Longrightarrow> runs k s' Q"
  shows "runs (bnd (walkpgdir root va True) (\<lambda>p. if p = 0 then ret (- 1) else
     bnd (load p) (\<lambda>e. bnd (guardk (e AND PTE_P = 0) (Panic ''remap'')) (\<lambda>_. bnd (store p v) (\<lambda>_. k))))) s Q"
  unfolding runs_bnd[of "walkpgdir root va True"]
proof (rule runs_walkpgdir[OF I va n])
  fix t s1 xs1 assume 1: "tbl (pmem s1) root (vpath va) = Some t" "entry t (PTX va) \<noteq> 0" "grown root s xs s1 xs1"
    "length xs \<le> 3 + length xs1"
  note r1 = 1(3)[unfolded grown_remapped]
  have e: "ld64 (pmem s1) (entry t (PTX va)) = upte (pmem s) root va"
    using remapped_inv(2)[OF r1 va] 1(1) by (simp add: upte_def)
  let ?s2 = "s1\<lparr>pmem := st64 (entry t (PTX va)) v (pmem s1)\<rparr>"
  have "remapped root (\<lambda>vb. if PGROUNDDOWN vb = PGROUNDDOWN va then v else upte (pmem s1) root vb) s xs ?s2 xs1"
    by (rule remapped_trans[OF r1 store_pte[OF remapped_inv(1)[OF r1] va 1(1)]])
  then have "remapped root (\<lambda>vb. if PGROUNDDOWN vb = PGROUNDDOWN va then v else upte (pmem s) root vb) s xs ?s2 xs1"
    by (rule remapped_cong) (simp add: remapped_inv(2)[OF r1])
  from Q[OF this 1(4)] show "runs (if entry t (PTX va) = 0 then ret (- 1) else bnd (load (entry t (PTX va)))
     (\<lambda>e. bnd (guardk (e AND PTE_P = 0) (Panic ''remap'')) (\<lambda>_. bnd (store (entry t (PTX va)) v) (\<lambda>_. k)))) s1 Q"
    using 1(2) e free by (simp add: load_def store_def)
qed

definition mapped_range :: "memory \<Rightarrow> u64 \<Rightarrow> u64 \<Rightarrow> u64 \<Rightarrow> u64 \<Rightarrow> u64 \<Rightarrow> u64 \<Rightarrow> u64" where
  "mapped_range m root a b pa perm va = (if a \<le> PGROUNDDOWN va \<and> PGROUNDDOWN va \<le> b
     then (pa + (PGROUNDDOWN va - a)) OR perm OR PTE_P else upte m root va)"

lemma next_page:
  assumes "page_aligned a" "page_aligned b" "a < b"
  shows "unat (a + PGSIZE) = unat a + 4096" "page_aligned (a + PGSIZE)" "a + PGSIZE \<le> b"
    "(unat b - unat a) div 4096 = Suc ((unat b - unat (a + PGSIZE)) div 4096)"
    "unat b - unat (a + PGSIZE) < unat b - unat a"
proof -
  have "4096 dvd unat a" "4096 dvd unat b" using assms by (auto simp: page_aligned_def)
  then obtain i j where ij: "unat a = 4096 * i" "unat b = 4096 * j" by (auto elim!: dvdE)
  then have lt: "i < j" using assms(3) by (simp add: word_less_nat_alt)
  then show u: "unat (a + PGSIZE) = unat a + 4096"
    using ij u64_bound[of b] by (simp add: unat_word_ariths)
  show "page_aligned (a + PGSIZE)" "a + PGSIZE \<le> b"
    using ij lt assms(1) by (simp_all only: page_aligned_def word_le_nat_alt u) simp_all
  have "4096 * j - 4096 * i = (j - i) * 4096" "4096 * j - (4096 * i + 4096) = (j - Suc i) * 4096"
    by (simp_all add: algebra_simps)
  then show "(unat b - unat a) div 4096 = Suc ((unat b - unat (a + PGSIZE)) div 4096)"
    "unat b - unat (a + PGSIZE) < unat b - unat a"
    unfolding u ij using lt by simp_all
qed

lemma mapped_range_step:
  assumes "page_aligned a" "a < b" "page_aligned b"
    and m1: "upte m1 root va = (if PGROUNDDOWN va = a then pa OR perm OR PTE_P else upte m root va)"
  shows "mapped_range m1 root (a + PGSIZE) b (pa + PGSIZE) perm va = mapped_range m root a b pa perm va"
proof -
  consider "PGROUNDDOWN va < a" | "PGROUNDDOWN va = a" | "a < PGROUNDDOWN va" by fastforce
  then show ?thesis
  proof cases
    case 3
    have "a + PGSIZE \<le> PGROUNDDOWN va" by (rule next_page(3)[OF assms(1) PGROUNDDOWN_aligned 3])
    then show ?thesis using 3 m1 by (auto simp: mapped_range_def)
  qed (use next_page[OF assms(1,3,2)] assms m1 in \<open>auto simp: mapped_range_def word_le_nat_alt word_less_nat_alt\<close>)
qed

lemma runs_mappages_from:
  assumes I: "pt_inv s root xs" and al: "page_aligned a" "page_aligned b" "a \<le> b" "user_va b"
    and n: "3 * ((unat b - unat a) div 4096 + 1) \<le> length xs"
    and free: "\<And>va. user_va va \<Longrightarrow> a \<le> PGROUNDDOWN va \<Longrightarrow> PGROUNDDOWN va \<le> b \<Longrightarrow> upte (pmem s) root va AND PTE_P = 0"
    and pa: "unat pa + (unat b - unat a) < 2 ^ 64"
    and Q: "\<And>s' xs'. remapped root (mapped_range (pmem s) root a b pa perm) s xs s' xs' \<Longrightarrow>
      length xs \<le> 3 * ((unat b - unat a) div 4096 + 1) + length xs' \<Longrightarrow> Q 0 s'"
  shows "runs (mappages_from root a b pa perm) s Q"
  using assms
proof (induction "unat b - unat a" arbitrary: a pa s xs Q rule: less_induct)
  case less
  have ua: "user_va a" using less.prems(4,5) by (simp add: user_va_def word_le_nat_alt)
  have da: "PGROUNDDOWN a = a" by (rule PGROUNDDOWN_id[OF less.prems(2)])
  show ?case
    unfolding mappages_from.simps[of root a]
  proof (rule runs_map_one[OF less.prems(1) ua])
    fix s1 xs1
    assume 1: "remapped root (\<lambda>vb. if PGROUNDDOWN vb = PGROUNDDOWN a then pa OR perm OR PTE_P else upte (pmem s) root vb) s xs s1 xs1"
      "length xs \<le> 3 + length xs1"
    show "runs (if a = b then ret 0 else if unat a + 4096 < 2 ^ 64 \<and> unat pa + 4096 < 2 ^ 64
       then mappages_from root (a + PGSIZE) b (pa + PGSIZE) perm else stopk add_overflow) s1 Q"
    proof (cases "a = b")
      case True
      have "remapped root (mapped_range (pmem s) root a b pa perm) s xs s1 xs1"
        by (rule remapped_cong[OF 1(1)]) (use da True in \<open>auto simp: mapped_range_def\<close>)
      from less.prems(9)[OF this] 1(2) True show ?thesis by simp
    next
      case False
      then have lt: "a < b" using less.prems(4) by simp
      note np = next_page[OF less.prems(2,3) lt]
      have "runs (mappages_from root (a + PGSIZE) b (pa + PGSIZE) perm) s1 Q"
      proof (rule less.hyps[OF np(5) remapped_inv(1)[OF 1(1)] np(2) less.prems(3) np(3) less.prems(5)])
        show "3 * ((unat b - unat (a + PGSIZE)) div 4096 + 1) \<le> length xs1"
          using less.prems(6) 1(2) np(4) by simp
        show "upte (pmem s1) root va AND PTE_P = 0"
          if "user_va va" "a + PGSIZE \<le> PGROUNDDOWN va" "PGROUNDDOWN va \<le> b" for va
          using that less.prems(7)[OF that(1)] remapped_inv(2)[OF 1(1) that(1)] np(1) da
          by (auto simp: word_le_nat_alt)
        show "unat (pa + PGSIZE) + (unat b - unat (a + PGSIZE)) < 2 ^ 64"
          using less.prems(8) np(1,3) by (simp add: unat_word_ariths word_le_nat_alt)
      next
        fix s' xs'
        assume 2: "remapped root (mapped_range (pmem s1) root (a + PGSIZE) b (pa + PGSIZE) perm) s1 xs1 s' xs'"
          "length xs1 \<le> 3 * ((unat b - unat (a + PGSIZE)) div 4096 + 1) + length xs'"
        have "remapped root (mapped_range (pmem s) root a b pa perm) s xs s' xs'"
          by (rule remapped_cong[OF remapped_trans[OF 1(1) 2(1)] mapped_range_step[OF less.prems(2) lt less.prems(3)]])
             (simp add: remapped_inv(2)[OF 1(1)] da)
        then show "Q 0 s'" by (rule less.prems(9)) (use 1(2) 2(2) np(4) in simp)
      qed
      moreover have "unat pa + 4096 < 2 ^ 64" using less.prems(8) np(1,3) by (simp add: word_le_nat_alt)
      moreover have "unat a + 4096 < 2 ^ 64" using np(1) u64_bound[of "a + PGSIZE"] by simp
      ultimately show ?thesis using False by simp
    qed
  qed (use less.prems ua da in auto)
qed

lemma runs_mappages:
  assumes I: "pt_inv s root xs" and sz: "0 < sz" "unat va + unat sz \<le> 2 ^ 47"
    and n: "3 * ((unat (PGROUNDDOWN (va + sz - 1)) - unat (PGROUNDDOWN va)) div 4096 + 1) \<le> length xs"
    and free: "\<And>vb. user_va vb \<Longrightarrow> PGROUNDDOWN va \<le> PGROUNDDOWN vb \<Longrightarrow> PGROUNDDOWN vb \<le> PGROUNDDOWN (va + sz - 1) \<Longrightarrow>
      upte (pmem s) root vb AND PTE_P = 0"
    and pa: "unat pa + unat sz + 4096 < 2 ^ 64"
    and Q: "\<And>s' xs'. remapped root (mapped_range (pmem s) root (PGROUNDDOWN va) (PGROUNDDOWN (va + sz - 1)) pa perm) s xs s' xs' \<Longrightarrow>
      length xs \<le> 3 * ((unat (PGROUNDDOWN (va + sz - 1)) - unat (PGROUNDDOWN va)) div 4096 + 1) + length xs' \<Longrightarrow> Q 0 s'"
  shows "runs (mappages root va sz pa perm) s Q"
proof -
  have e: "unat (va + sz) = unat va + unat sz" using sz(2) by (simp add: unat_word_ariths)
  have s1: "1 \<le> unat sz" using sz(1) by (simp add: word_less_nat_alt)
  then have l: "unat (va + sz - 1) = unat va + unat sz - 1"
    using e by (simp add: unat_sub_u64 word_le_nat_alt)
  have b: "unat (PGROUNDDOWN (va + sz - 1)) \<le> unat va + unat sz - 1" "unat va < unat (PGROUNDDOWN va) + 4096"
    using div_mult_mod_eq[of "unat va" 4096] mod_less_divisor[of 4096 "unat va"]
    by (simp_all only: unat_PGROUNDDOWN l div_times_less_eq_dividend)
  have "PGROUNDDOWN va \<le> PGROUNDDOWN (va + sz - 1)"
    using s1 by (simp add: word_le_nat_alt unat_PGROUNDDOWN l div_le_mono)
  moreover have "user_va (PGROUNDDOWN (va + sz - 1))" using b(1) s1 sz(2) by (simp add: user_va_def)
  moreover have "unat pa + (unat (PGROUNDDOWN (va + sz - 1)) - unat (PGROUNDDOWN va)) < 2 ^ 64" using pa b by linarith
  ultimately have "runs (mappages_from root (PGROUNDDOWN va) (PGROUNDDOWN (va + sz - 1)) pa perm) s Q"
    by (intro runs_mappages_from[where Q = Q, OF I PGROUNDDOWN_aligned PGROUNDDOWN_aligned]) (use n free Q in blast)+
  then show ?thesis
    using e s1 sz(2) by (simp add: mappages_def word_le_nat_alt)
qed

section \<open>Address spaces\<close>

text \<open>
  Changes that may also write to data pages, those in \<open>W\<close>, and give pages back.
\<close>

definition touched ::
    "u64 \<Rightarrow> (u64 \<Rightarrow> u64) \<Rightarrow> u64 set \<Rightarrow> 'z mm_scheme \<Rightarrow> u64 list \<Rightarrow> 'z mm_scheme \<Rightarrow> u64 list \<Rightarrow> bool" where
  "touched root f W s xs s' xs' \<longleftrightarrow> pt_inv s' root xs' \<and> mm_rest s' = mm_rest s \<and>
     (\<forall>va. user_va va \<longrightarrow> upte (pmem s') root va = f va) \<and>
     (\<forall>d. data_page s root xs d \<longrightarrow> d \<notin> W \<longrightarrow> data_page s' root xs' d \<and>
        bytes_at (pmem s') d 4096 = bytes_at (pmem s) d 4096)"

lemma remapped_touched: "remapped root f s xs s' xs' \<Longrightarrow> touched root f W s xs s' xs'"
  by (simp add: remapped_def touched_def)

lemma touched_trans:
  "touched root f W s xs s1 xs1 \<Longrightarrow> touched root g V s1 xs1 s2 xs2 \<Longrightarrow> touched root g (W \<union> V) s xs s2 xs2"
  by (fastforce simp: touched_def)

lemma touched_cong: "touched root f W s xs s' xs' \<Longrightarrow> (\<And>va. user_va va \<Longrightarrow> f va = g va) \<Longrightarrow> touched root g W s xs s' xs'"
  by (simp add: touched_def)

lemma touched_facts:
  assumes "touched root f W s xs s' xs'"
  shows "pt_inv s' root xs'" "mm_rest s' = mm_rest s" "\<And>va. user_va va \<Longrightarrow> upte (pmem s') root va = f va"
    "\<And>d. data_page s root xs d \<Longrightarrow> d \<notin> W \<Longrightarrow> data_page s' root xs' d"
    "\<And>d. data_page s root xs d \<Longrightarrow> d \<notin> W \<Longrightarrow> bytes_at (pmem s') d 4096 = bytes_at (pmem s) d 4096"
  using assms by (auto simp: touched_def)

text \<open>A write confined to a data page leaves the tree, the free list and the other pages alone.\<close>

definition agree_off :: "u64 \<Rightarrow> memory \<Rightarrow> memory \<Rightarrow> bool" where
  "agree_off d m m' \<longleftrightarrow> (\<forall>b n. apart d 4096 b n \<longrightarrow> bytes_at m' b n = bytes_at m b n)"

lemma agree_off_entry:
  "agree_off d m m' \<Longrightarrow> page_aligned d \<Longrightarrow> page_aligned t \<Longrightarrow> d \<noteq> t \<Longrightarrow> i < 512 \<Longrightarrow>
   ld64 m' (entry t i) = ld64 m (entry t i)"
  using page_word_apart[of d t i] by (simp add: agree_off_def ld64_def entry_def)

lemma data_change:
  assumes I: "pt_inv s root xs" and d: "data_page s root xs d" and m: "agree_off d (pmem s) (pmem s')"
    and r: "mm_rest s' = mm_rest s" and fp: "free_pages s' ys" and ys: "set ys \<subseteq> insert d (set xs)"
  shows "touched root (upte (pmem s) root) {d} s xs s' ys"
    and "\<And>u. is_table (pmem s') root u \<longleftrightarrow> is_table (pmem s) root u" and "managed_page s' = managed_page s"
    and "\<And>q. upath q \<Longrightarrow> tbl (pmem s') root q = tbl (pmem s) root q"
proof -
  let ?m = "pmem s'"
  have al: "page_aligned d" using d by (auto simp: data_page_def managed_aligned)
  have w: "ld64 ?m (entry t i) = ld64 (pmem s) (entry t i)" if "upath q" "tbl (pmem s) root q = Some t" "i < 512" for q t i
  proof -
    have "d \<noteq> t" using d that by (auto simp: data_page_def is_table_def)
    then show ?thesis using agree_off_entry[OF m al table_facts(3)[OF I that(1,2)]] that(3) by simp
  qed
  show tq: "tbl ?m root q = tbl (pmem s) root q" if "upath q" for q
  proof (rule tbl_frame)
    fix r j v u assume "q = r @ j # v" "tbl (pmem s) root r = Some u"
    then show "ld64 ?m (entry u j) = ld64 (pmem s) (entry u j)"
      using w[of r u j] that upath_prefix[of r "j # v"] upath_snocD[of r j v] by auto
  qed
  show tb: "is_table ?m root u \<longleftrightarrow> is_table (pmem s) root u" for u
    unfolding is_table_def by (rule ex_cong1) (simp add: tq cong: conj_cong)
  have up: "upte ?m root va = upte (pmem s) root va" if "user_va va" for va
    using tq[OF upath_vpath[OF that]] w[OF upath_vpath[OF that]] by (auto simp: upte_def split: option.splits)
  show same: "managed_page s' = managed_page s" using pa.managed_rest[OF r] by (simp add: fun_eq_iff)
  have tr: "tree ?m root" using I unfolding pt_inv_def tree_def by (simp add: tq cong: imp_cong)
  have "bytes_at ?m e 4096 = bytes_at (pmem s) e 4096" if "data_page s root xs e" "e \<noteq> d" for e
    using m pages_apart[OF al, of e] that by (auto simp: agree_off_def data_page_def managed_aligned)
  then show "touched root (upte (pmem s) root) {d} s xs s' ys"
    using fp tr I up d ys r by (auto simp: touched_def pt_inv_def same tb data_page_def)
qed

lemma data_write:
  assumes I: "pt_inv s root xs" and d: "data_page s root xs d" and m: "agree_off d (pmem s) m"
  shows "touched root (upte (pmem s) root) {d} s xs (s\<lparr>pmem := m\<rparr>) xs" and "data_page (s\<lparr>pmem := m\<rparr>) root xs d"
proof -
  have al: "page_aligned d" using d by (auto simp: data_page_def managed_aligned)
  have "ld64 m y = ld64 (pmem s) y" if "y \<in> set xs" for y
    using agree_off_entry[OF m al, of y 0] that I d
    by (auto simp: entry_def pt_inv_def free_pages_def data_page_def intro: managed_aligned)
  then have fp: "free_pages (s\<lparr>pmem := m\<rparr>) xs" using I by (intro pa.setm(1)) (simp_all add: pt_inv_def)
  have c: "agree_off d (pmem s) (pmem (s\<lparr>pmem := m\<rparr>))" "mm_rest (s\<lparr>pmem := m\<rparr>) = mm_rest s"
    using m by (simp_all add: mm_rest_def)
  note dc = data_change[OF I d c fp subset_insertI]
  show "touched root (upte (pmem s) root) {d} s xs (s\<lparr>pmem := m\<rparr>) xs" by (rule dc(1))
  show "data_page (s\<lparr>pmem := m\<rparr>) root xs d" using d dc(2,3) by (simp add: data_page_def)
qed

lemma runs_take_page:
  assumes "pt_inv s root (x # xs)"
    and "\<And>s'. x \<noteq> 0 \<Longrightarrow> pmem s' = pmem s \<Longrightarrow> remapped root (upte (pmem s) root) s (x # xs) s' xs \<Longrightarrow>
      data_page s' root xs x \<Longrightarrow> Q x s'"
  shows "runs kalloc s Q"
proof (rule runs_mono[OF pa.alloc])
  show fp: "free_pages s (x # xs)" using assms(1) by (simp add: pt_inv_def)
  fix r s' assume "r = x \<and> free_pages s' xs \<and> pmem s' = pmem s \<and> mm_rest s' = mm_rest s"
  then have s': "r = x" "free_pages s' xs" "pmem s' = pmem s" "mm_rest s' = mm_rest s" by auto
  have same: "managed_page s' = managed_page s" using pa.managed_rest[OF s'(4)] by (simp add: fun_eq_iff)
  have "x \<noteq> 0" using fp by (auto simp: free_pages_def)
  then show "Q r s'" unfolding s'(1)
    by (rule assms(2)) (use s' assms(1) fp in \<open>auto simp: remapped_def pt_inv_def data_page_def same free_pages_def\<close>)
qed

text \<open>
  An address space: every present user entry names a data page, and no two pages share one.
\<close>

definition frame :: "memory \<Rightarrow> u64 \<Rightarrow> u64 \<Rightarrow> u64" where
  "frame m root va = P2V (PTE_ADDR (upte m root va))"

definition present :: "memory \<Rightarrow> u64 \<Rightarrow> u64 \<Rightarrow> bool" where
  "present m root va \<longleftrightarrow> upte m root va AND PTE_P \<noteq> 0"

definition as_inv :: "'z mm_scheme \<Rightarrow> u64 \<Rightarrow> u64 list \<Rightarrow> bool" where
  "as_inv s root xs \<longleftrightarrow> pt_inv s root xs \<and> KERNBASE < link_end s \<and>
     (\<forall>va. user_va va \<longrightarrow> present (pmem s) root va \<longrightarrow> data_page s root xs (frame (pmem s) root va)) \<and>
     (\<forall>va vb. user_va va \<longrightarrow> user_va vb \<longrightarrow> present (pmem s) root va \<longrightarrow> present (pmem s) root vb \<longrightarrow>
        frame (pmem s) root va = frame (pmem s) root vb \<longrightarrow> PGROUNDDOWN va = PGROUNDDOWN vb)"

lemma agree_off_fill: "agree_off x m (fill x w 4096 m)"
  by (simp add: agree_off_def bytes_at_other)

lemma bytes_at_filled: "page_aligned x \<Longrightarrow> bytes_at (fill x w 4096 m) x 4096 = replicate 4096 w"
  by (rule nth_equalityI) (auto simp: bytes_at_def fill_def unat_of_nat)

lemma flags_or: "a < 4096 \<Longrightarrow> b < 4096 \<Longrightarrow> (a OR b :: u64) < 4096"
proof -
  assume ab: "a < 4096" "b < 4096"
  have "take_bit 12 (a OR b) = a OR b"
    by (rule bit_word_eqI) (metis ab bit_or_iff bit_take_bit_iff flag_bits not_le)
  moreover have "unat (take_bit 12 (a OR b)) = take_bit 12 (unat (a OR b))" by (simp only: unsigned_take_bit_eq)
  ultimately show ?thesis using take_bit_nat_less_exp[of 12 "unat (a OR b)"] by (simp add: word_less_nat_alt)
qed

lemma user_pte:
  assumes "page_aligned x" "p < 4096"
  shows "PTE_ADDR (V2P x OR p OR PTE_P) = V2P x" "(V2P x OR p OR PTE_P) AND PTE_P \<noteq> 0"
    "(V2P x OR p OR PTE_P) AND PTE_U = p AND PTE_U"
proof -
  have f: "p OR PTE_P < 4096" by (rule flags_or[OF assms(2)]) simp
  note v = V2P_aligned[OF assms(1)]
  show "PTE_ADDR (V2P x OR p OR PTE_P) = V2P x" by (rule pte_addr_or[OF v f])
  show "(V2P x OR p OR PTE_P) AND PTE_P \<noteq> 0"
    using pte_flag_or[OF v, of PTE_P "p OR PTE_P"] by (simp add: bit.conj_disj_distrib2)
  show "(V2P x OR p OR PTE_P) AND PTE_U = p AND PTE_U"
    using pte_flag_or[OF v, of PTE_U "p OR PTE_P"] by (simp add: bit.conj_disj_distrib2)
qed

lemma last_of_page: "page_aligned a \<Longrightarrow> PGROUNDDOWN (a + PGSIZE - 1) = a"
proof -
  assume a: "page_aligned a"
  then obtain i where i: "unat a = 4096 * i" by (auto simp: page_aligned_def elim!: dvdE)
  have "a + PGSIZE - 1 = a + 4095" by simp
  then have "unat (a + PGSIZE - 1) = 4096 * i + 4095"
    using page_bound[OF a] i by (simp add: unat_word_ariths)
  then have "unat (PGROUNDDOWN (a + PGSIZE - 1)) = unat a" using i by (simp only: unat_PGROUNDDOWN) simp
  then show ?thesis by (rule unsigned_word_eqI)
qed

lemma user_page_bound: "page_aligned a \<Longrightarrow> user_va a \<Longrightarrow> unat a + 4096 \<le> 2 ^ 47"
proof -
  assume a: "page_aligned a" "user_va a"
  then obtain i where i: "unat a = 4096 * i" by (auto simp: page_aligned_def elim!: dvdE)
  with a(2) have "i < 2 ^ 35" by (simp add: user_va_def)
  with i show ?thesis by simp
qed

text \<open>The entry of \<open>a\<close> after mapping page \<open>x\<close> there.\<close>

definition map_at :: "memory \<Rightarrow> u64 \<Rightarrow> u64 \<Rightarrow> u64 \<Rightarrow> u64 \<Rightarrow> u64 \<Rightarrow> u64" where
  "map_at m root a x perm va = (if PGROUNDDOWN va = a then V2P x OR perm OR PTE_P else upte m root va)"

lemma upte_page: "PGROUNDDOWN va = PGROUNDDOWN vb \<Longrightarrow> user_va va \<Longrightarrow> user_va vb \<Longrightarrow> upte m root va = upte m root vb"
  using same_page[of va vb] by (auto simp: upte_def split: option.splits)

lemma runs_map_page:
  assumes A: "as_inv s root xs" and x: "data_page s root xs x"
    and new: "\<And>va. user_va va \<Longrightarrow> present (pmem s) root va \<Longrightarrow> frame (pmem s) root va \<noteq> x"
    and a: "page_aligned a" "user_va a" "\<not> present (pmem s) root a" and n: "3 \<le> length xs" and p: "perm < 4096"
    and Q: "\<And>s' xs'. touched root (map_at (pmem s) root a x perm) {} s xs s' xs' \<Longrightarrow> as_inv s' root xs' \<Longrightarrow>
      length xs \<le> 3 + length xs' \<Longrightarrow> Q 0 s'"
  shows "runs (mappages root a PGSIZE (V2P x) perm) s Q"
proof -
  note da = PGROUNDDOWN_id[OF a(1)] last_of_page[OF a(1)]
  have I: "pt_inv s root xs" using A by (simp add: as_inv_def)
  have xa: "page_aligned x" "V2P x < PHYSTOP" using x by (auto simp: data_page_def managed_page_def)
  have eq: "mapped_range (pmem s) root a a (V2P x) perm va = map_at (pmem s) root a x perm va" for va
    by (auto simp: mapped_range_def map_at_def)
  show ?thesis
  proof (rule runs_mappages[OF I])
    show "unat a + unat PGSIZE \<le> 2 ^ 47" using user_page_bound[OF a(1,2)] by simp
    show "upte (pmem s) root vb AND PTE_P = 0"
      if "user_va vb" "PGROUNDDOWN a \<le> PGROUNDDOWN vb" "PGROUNDDOWN vb \<le> PGROUNDDOWN (a + PGSIZE - 1)" for vb
      using that a(2,3) upte_page[of vb a "pmem s"] unfolding da by (auto simp: present_def da)
    show "unat (V2P x) + unat PGSIZE + 4096 < 2 ^ 64" using xa(2) by (simp add: word_less_nat_alt)
  next
    fix s' xs'
    assume r: "remapped root (mapped_range (pmem s) root (PGROUNDDOWN a) (PGROUNDDOWN (a + PGSIZE - 1)) (V2P x) perm) s xs s' xs'"
      "length xs \<le> 3 * ((unat (PGROUNDDOWN (a + PGSIZE - 1)) - unat (PGROUNDDOWN a)) div 4096 + 1) + length xs'"
    then have r': "remapped root (map_at (pmem s) root a x perm) s xs s' xs'" unfolding da by (simp add: eq[abs_def])
    note u = remapped_inv[OF r']
    have fr: "frame (pmem s') root va = (if PGROUNDDOWN va = a then x else frame (pmem s) root va)"
      "present (pmem s') root va \<longleftrightarrow> PGROUNDDOWN va = a \<or> present (pmem s) root va" if "user_va va" for va
      using user_pte[OF xa(1) p] by (auto simp: frame_def present_def u(2)[OF that] map_at_def)
    have dp: "data_page s' root xs' d" if "data_page s root xs d" for d using r' that by (auto simp: remapped_def)
    have "as_inv s' root xs'"
      unfolding as_inv_def
    proof (intro conjI allI impI)
      show "pt_inv s' root xs'" by (rule u(1))
      show "KERNBASE < link_end s'" using A u(3) by (simp add: as_inv_def mm_rest_def)
      fix va assume va: "user_va va" "present (pmem s') root va"
      have "present (pmem s) root va \<Longrightarrow> data_page s' root xs' (frame (pmem s) root va)"
        using A va(1) dp unfolding as_inv_def by blast
      then show "data_page s' root xs' (frame (pmem s') root va)"
        using dp[OF x] fr[OF va(1)] va(2) by (cases "PGROUNDDOWN va = a") simp_all
    next
      fix va vb assume v: "user_va va" "user_va vb" "present (pmem s') root va" "present (pmem s') root vb"
        "frame (pmem s') root va = frame (pmem s') root vb"
      show "PGROUNDDOWN va = PGROUNDDOWN vb"
      proof (cases "PGROUNDDOWN va = a \<or> PGROUNDDOWN vb = a")
        case True
        then show ?thesis using v fr[OF v(1)] fr[OF v(2)] new[OF v(1)] new[OF v(2)] by (auto split: if_splits)
      next
        case False
        then show ?thesis using v fr[OF v(1)] fr[OF v(2)] A unfolding as_inv_def by metis
      qed
    qed
    then show "Q 0 s'" using r(2) unfolding da by (intro Q[OF remapped_touched[OF r']]) simp_all
  qed (use n in \<open>simp_all only: da\<close>, simp_all)
qed

text \<open>Allocating a zeroed page and mapping it, as \<open>allocuvm\<close> does in each round.\<close>

lemma as_inv_touched:
  assumes A: "as_inv s root xs" and t: "touched root (upte (pmem s) root) W s xs s' xs'"
    and W: "\<And>va. user_va va \<Longrightarrow> present (pmem s) root va \<Longrightarrow> frame (pmem s) root va \<notin> W"
  shows "as_inv s' root xs'"
proof -
  note u = touched_facts[OF t]
  have "frame (pmem s') root va = frame (pmem s) root va" "present (pmem s') root va = present (pmem s) root va"
    if "user_va va" for va
    by (simp_all add: frame_def present_def u(3)[OF that])
  moreover have "KERNBASE < link_end s'" using A u(2) by (simp add: as_inv_def mm_rest_def)
  ultimately show ?thesis using A u(1,4) W unfolding as_inv_def by metis
qed

lemma runs_add_page:
  assumes A: "as_inv s root xs" and a: "page_aligned a" "user_va a" "\<not> present (pmem s) root a"
    and n: "4 \<le> length xs" and p: "perm < 4096"
    and Q: "\<And>x s' xs'. touched root (map_at (pmem s) root a x perm) {} s xs s' xs' \<Longrightarrow> as_inv s' root xs' \<Longrightarrow>
      data_page s' root xs' x \<Longrightarrow> page_aligned x \<Longrightarrow> bytes_at (pmem s') x 4096 = replicate 4096 0 \<Longrightarrow>
      length xs \<le> 4 + length xs' \<Longrightarrow> runs (k x 0) s' Q"
  shows "runs (bnd kalloc (\<lambda>mem. if mem = 0 then e else bnd (write_bytes mem 0) (\<lambda>_.
    bnd (mappages root a PGSIZE (V2P mem) perm) (k mem)))) s Q"
proof -
  obtain x xs1 where xs: "xs = x # xs1" using n by (cases xs) auto
  have I: "pt_inv s root (x # xs1)" using A xs by (simp add: as_inv_def)
  show ?thesis unfolding runs_bnd[of kalloc]
  proof (rule runs_take_page[OF I])
    fix s1 assume 1: "x \<noteq> 0" "pmem s1 = pmem s" "remapped root (upte (pmem s) root) s (x # xs1) s1 xs1" "data_page s1 root xs1 x"
    let ?s2 = "s1\<lparr>pmem := fill x 0 4096 (pmem s1)\<rparr>"
    have al: "page_aligned x" using 1(4) by (auto simp: data_page_def managed_aligned)
    note w = data_write[OF remapped_inv(1)[OF 1(3)] 1(4) agree_off_fill[of x _ 0]]
    have out: "frame (pmem s) root va \<noteq> x" if "user_va va" "present (pmem s) root va" for va
      using A that by (auto simp: as_inv_def data_page_def xs)
    have A1: "as_inv s1 root xs1"
      by (rule as_inv_touched[OF A[unfolded xs] remapped_touched[OF 1(3), of "{}"]]) simp
    have A2: "as_inv ?s2 root xs1" by (rule as_inv_touched[OF A1 w(1)]) (simp add: 1(2) out)
    note t2 = touched_trans[OF remapped_touched[OF 1(3), of "{}"] w(1)]
    have "runs (mappages root a PGSIZE (V2P x) perm) ?s2 (\<lambda>r s'. runs (k x r) s' Q)"
    proof (rule runs_map_page[OF A2 w(2)])
      show "frame (pmem ?s2) root va \<noteq> x" if "user_va va" "present (pmem ?s2) root va" for va
        using that out touched_facts(3)[OF w(1) that(1)] 1(2) by (simp add: frame_def present_def)
      show "\<not> present (pmem ?s2) root a" using a(3) touched_facts(3)[OF w(1) a(2)] 1(2) by (simp add: present_def)
    next
      fix s' xs'
      assume 3: "touched root (map_at (pmem ?s2) root a x perm) {} ?s2 xs1 s' xs'" "as_inv s' root xs'" "length xs1 \<le> 3 + length xs'"
      have "touched root (map_at (pmem s) root a x perm) ({} \<union> {x} \<union> {}) s xs s' xs'"
        unfolding xs by (rule touched_cong[OF touched_trans[OF t2 3(1)]])
          (use touched_facts(3)[OF w(1)] 1(2) in \<open>simp add: map_at_def\<close>)
      then have "touched root (map_at (pmem s) root a x perm) {} s xs s' xs'" by (auto simp: touched_def data_page_def xs)
      then show "runs (k x 0) s' Q"
        by (rule Q) (use 3 al touched_facts(4,5)[OF 3(1) w(2)] bytes_at_filled[OF al] n xs in auto)
    qed (use a p n xs in auto)
    then show "runs (if x = 0 then e else bnd (write_bytes x 0) (\<lambda>_. bnd (mappages root a PGSIZE (V2P x) perm) (k x))) s1 Q"
      using 1(1) by (simp add: write_bytes_def)
  qed
qed

end
