(* ===== verification/Xv6_Uvm.thy ===== *)
theory Xv6_Uvm
  imports Xv6_Vm
begin

unbundle bit_operations_syntax

text \<open>
  The operations on user address spaces of \<^verbatim>\<open>crates/arch/src/vm.rs\<close>, on top of the page-table
  tree of \<open>Xv6_Vm\<close>: growing and shrinking (\<open>allocuvm\<close>, \<open>deallocuvm\<close>), copying (\<open>copyuvm\<close>), and
  writing through the tables (\<open>copyout\<close>).
\<close>

section \<open>Growing\<close>

definition zero_pages :: "memory \<Rightarrow> memory \<Rightarrow> u64 \<Rightarrow> u64 \<Rightarrow> u64 \<Rightarrow> u64 \<Rightarrow> bool" where
  "zero_pages m m' root a b va \<longleftrightarrow>
     (if a \<le> PGROUNDDOWN va \<and> PGROUNDDOWN va < b
      then upte m' root va AND PTE_P \<noteq> 0 \<and> upte m' root va AND PTE_U \<noteq> 0 \<and>
           bytes_at m' (frame m' root va) 4096 = replicate 4096 0
      else upte m' root va = upte m root va)"

definition pages_between :: "u64 \<Rightarrow> u64 \<Rightarrow> nat" where
  "pages_between a b = (unat b - unat a + 4095) div 4096"

lemma pages_between_step:
  "a < b \<Longrightarrow> unat a + 4096 < 2 ^ 64 \<Longrightarrow> pages_between a b = Suc (pages_between (a + PGSIZE) b)"
proof -
  assume ab: "a < b" "unat a + 4096 < 2 ^ 64"
  then have u: "unat (a + 4096) = unat a + 4096" by (simp add: unat_word_ariths)
  define d where "d = unat b - unat a"
  have d: "1 \<le> d" using ab(1) by (simp add: word_less_nat_alt d_def)
  have "unat b - unat (a + 4096) = d - 4096" unfolding u d_def by simp
  moreover have "(d + 4095) div 4096 = Suc ((d - 4096 + 4095) div 4096)"
  proof (cases "4096 \<le> d")
    case True
    then have "d + 4095 = (d - 4096 + 4095) + 4096" by simp
    then show ?thesis by (metis Suc_eq_plus1 div_add_self2 zero_neq_numeral)
  next
    case False
    then have "d + 4095 = (d - 1) + 4096" "d - 4096 = 0" "(d - 1) div 4096 = 0" using d by simp_all
    moreover have "(4095::nat) div 4096 = 0" by simp
    ultimately show ?thesis by (metis Suc_eq_plus1 add_0 div_add_self2 zero_neq_numeral)
  qed
  ultimately show ?thesis by (simp only: pages_between_def d_def[symmetric] PGSIZE_def)
qed

lemma map_at_same: "PGROUNDDOWN va = a \<Longrightarrow> map_at m root a x perm va = V2P x OR perm OR PTE_P"
  "PGROUNDDOWN va \<noteq> a \<Longrightarrow> map_at m root a x perm va = upte m root va"
  by (simp_all add: map_at_def)

lemma runs_alloc_from:
  assumes "as_inv s root xs" "page_aligned a" "unat b \<le> 2 ^ 47" "4 * pages_between a b \<le> length xs"
    and "\<And>va. user_va va \<Longrightarrow> a \<le> PGROUNDDOWN va \<Longrightarrow> PGROUNDDOWN va < b \<Longrightarrow> \<not> present (pmem s) root va"
    and "\<And>s' xs'. as_inv s' root xs' \<Longrightarrow> touched root (upte (pmem s') root) {} s xs s' xs' \<Longrightarrow>
      (\<And>va. user_va va \<Longrightarrow> zero_pages (pmem s) (pmem s') root a b va) \<Longrightarrow>
      length xs \<le> 4 * pages_between a b + length xs' \<Longrightarrow> Q b s'"
  shows "runs (alloc_from root a oldsz b) s Q"
  using assms
proof (induction "unat b - unat a" arbitrary: a s xs Q rule: less_induct)
  case less
  show ?case
  proof (cases "a < b")
    case False
    have I: "pt_inv s root xs" using less.prems(1) by (simp add: as_inv_def)
    have "Q b s"
      by (rule less.prems(6)[OF less.prems(1)])
         (use False I in \<open>auto simp: zero_pages_def touched_def\<close>)
    then show ?thesis using False by (simp add: alloc_from.simps)
  next
    case True
    have ua: "user_va a" using True less.prems(3) by (simp add: user_va_def word_less_nat_alt)
    note da = PGROUNDDOWN_id[OF less.prems(2)]
    have ub: "unat a + 4096 < 2 ^ 64" using user_page_bound[OF less.prems(2) ua] by simp
    then have u: "unat (a + PGSIZE) = unat a + 4096" by (simp add: unat_word_ariths)
    have al: "page_aligned (a + PGSIZE)" using less.prems(2) u by (simp add: page_aligned_def)
    have nx: "a + 4096 \<le> PGROUNDDOWN va \<longleftrightarrow> a \<le> PGROUNDDOWN va \<and> PGROUNDDOWN va \<noteq> a" for va
      using next_page(3)[OF less.prems(2) PGROUNDDOWN_aligned, of va] u
      by (auto simp: word_le_nat_alt word_less_nat_alt) (metis le_neq_implies_less unsigned_word_eqI)
    have na: "\<not> a + 4096 \<le> a" using u by (simp add: word_le_nat_alt)
    note pb = pages_between_step[OF True ub]
    show ?thesis
      unfolding alloc_from.simps[of root a] if_P[OF True]
    proof (rule runs_add_page[OF less.prems(1,2) ua])
      fix x s1 xs1
      assume 1: "touched root (map_at (pmem s) root a x (PTE_W OR PTE_U)) {} s xs s1 xs1" "as_inv s1 root xs1"
        "data_page s1 root xs1 x" "page_aligned x" "bytes_at (pmem s1) x 4096 = replicate 4096 0" "length xs \<le> 4 + length xs1"
      note t1 = touched_facts[OF 1(1)]
      have "runs (alloc_from root (a + PGSIZE) oldsz b) s1 Q"
      proof (rule less.hyps[OF _ 1(2) al less.prems(3)])
        show "unat b - unat (a + PGSIZE) < unat b - unat a" using True u by (simp add: word_less_nat_alt)
        show "4 * pages_between (a + PGSIZE) b \<le> length xs1" using less.prems(4) 1(6) pb by simp
        show "\<not> present (pmem s1) root va" if "user_va va" "a + PGSIZE \<le> PGROUNDDOWN va" "PGROUNDDOWN va < b" for va
          using that less.prems(5)[OF that(1)] t1(3)[OF that(1)] by (simp add: nx present_def map_at_same)
      next
        fix s' xs'
        assume 2: "as_inv s' root xs'" "touched root (upte (pmem s') root) {} s1 xs1 s' xs'"
          "\<And>va. user_va va \<Longrightarrow> zero_pages (pmem s1) (pmem s') root (a + PGSIZE) b va"
          "length xs1 \<le> 4 * pages_between (a + PGSIZE) b + length xs'"
        have "zero_pages (pmem s) (pmem s') root a b va" if va: "user_va va" for va
        proof (cases "PGROUNDDOWN va = a")
          case pa: True
          have e: "upte (pmem s') root va = V2P x OR (PTE_W OR PTE_U) OR PTE_P"
            using 2(3)[OF va] t1(3)[OF va] pa na by (simp add: zero_pages_def map_at_same)
          then have "frame (pmem s') root va = x" using user_pte(1)[OF 1(4), of "PTE_W OR PTE_U"] by (simp add: frame_def)
          moreover have "bytes_at (pmem s') x 4096 = replicate 4096 0" using touched_facts(5)[OF 2(2) 1(3)] 1(5) by simp
          ultimately show ?thesis
            using e user_pte(2,3)[OF 1(4), of "PTE_W OR PTE_U"] pa True by (simp add: zero_pages_def)
        next
          case pa: False
          then show ?thesis using 2(3)[OF va] t1(3)[OF va] by (auto simp: zero_pages_def nx map_at_same split: if_splits)
        qed
        moreover have "touched root (upte (pmem s') root) {} s xs s' xs'"
          using touched_trans[OF 1(1) 2(2)] by simp
        moreover have "length xs \<le> 4 * pages_between a b + length xs'" using 1(6) 2(4) pb by simp
        ultimately show "Q b s'" using less.prems(6)[OF 2(1)] by blast
      qed
      then show "runs (if (0::i32) < 0 then bnd (deallocuvm root b oldsz) (\<lambda>_. bnd (kfree x) (\<lambda>_. ret 0))
        else if unat a + 4096 < 2 ^ 64 then alloc_from root (a + PGSIZE) oldsz b else stopk add_overflow) s1 Q"
        using ub by simp
    next
      show "\<not> present (pmem s) root a" using less.prems(5)[OF ua] True da by simp
      show "4 \<le> length xs" using less.prems(4) pb by simp
    qed simp
  qed
qed

section \<open>Shrinking\<close>

lemma frame_facts:
  assumes "as_inv s root xs" "user_va a" "present (pmem s) root a"
  shows "data_page s root xs (frame (pmem s) root a)" "managed_page s (frame (pmem s) root a)"
    "PTE_ADDR (upte (pmem s) root a) \<noteq> 0" "PTE_ADDR (upte (pmem s) root a) < PHYSTOP"
proof -
  show d: "data_page s root xs (frame (pmem s) root a)" using assms by (simp add: as_inv_def)
  then show m: "managed_page s (frame (pmem s) root a)" by (simp add: data_page_def)
  have v: "V2P (frame (pmem s) root a) = PTE_ADDR (upte (pmem s) root a)" by (simp add: frame_def)
  then show "PTE_ADDR (upte (pmem s) root a) < PHYSTOP" using m by (simp add: managed_page_def)
  show "PTE_ADDR (upte (pmem s) root a) \<noteq> 0"
  proof
    assume "PTE_ADDR (upte (pmem s) root a) = 0"
    then have "frame (pmem s) root a = KERNBASE" by (simp add: frame_def P2V_def)
    then show False using m assms(1) unfolding managed_page_def as_inv_def by (metis linorder_not_less)
  qed
qed

lemma runs_drop_page:
  assumes A: "as_inv s root xs" and a: "user_va a" "present (pmem s) root a" and t: "tbl (pmem s) root (vpath a) = Some t"
    and Q: "\<And>s'. touched root (\<lambda>va. if PGROUNDDOWN va = PGROUNDDOWN a then 0 else upte (pmem s) root va)
        {frame (pmem s) root a} s xs s' (frame (pmem s) root a # xs) \<Longrightarrow>
      as_inv s' root (frame (pmem s) root a # xs) \<Longrightarrow> Q () s'"
  shows "runs (bnd (kfree (frame (pmem s) root a)) (\<lambda>_. store (entry t (PTX a)) 0)) s Q"
proof -
  define v where "v = frame (pmem s) root a"
  note ff = frame_facts[OF A a, folded v_def]
  have I: "pt_inv s root xs" and fp: "free_pages s xs" and vx: "v \<notin> set xs"
    using A ff(1) by (auto simp: as_inv_def pt_inv_def data_page_def)
  have step: "Q () (s1\<lparr>pmem := st64 (entry t (PTX a)) 0 (pmem s1)\<rparr>)"
    if s1: "free_pages s1 (v # xs)" "agree_off v (pmem s) (pmem s1)" "mm_rest s1 = mm_rest s" for s1
  proof -
    let ?s2 = "s1\<lparr>pmem := st64 (entry t (PTX a)) 0 (pmem s1)\<rparr>"
    note dc = data_change[OF I ff(1) s1(2,3,1), simplified]
    note c = touched_facts[OF dc(1)]
    have t1: "tbl (pmem s1) root (vpath a) = Some t" using dc(4)[OF upath_vpath[OF a(1)]] t by simp
    have tt: "touched root (\<lambda>va. if PGROUNDDOWN va = PGROUNDDOWN a then 0 else upte (pmem s) root va) {v} s xs ?s2 (v # xs)"
      by (rule touched_cong[OF touched_trans[OF dc(1) remapped_touched[OF store_pte[OF c(1) a(1) t1, of 0], of "{}"], simplified]])
         (simp add: c(3))
    note f = touched_facts[OF tt]
    have "as_inv ?s2 root (v # xs)"
      unfolding as_inv_def
    proof (intro conjI allI impI)
      show "pt_inv ?s2 root (v # xs)" by (rule f(1))
      show "KERNBASE < link_end ?s2" using A f(2) by (simp add: as_inv_def mm_rest_def)
      have old: "present (pmem s) root va \<and> frame (pmem s) root va = frame (pmem ?s2) root va \<and> frame (pmem s) root va \<noteq> v"
        if "user_va va" "present (pmem ?s2) root va" for va
      proof -
        have pg: "PGROUNDDOWN va \<noteq> PGROUNDDOWN a" using that f(3)[OF that(1)] by (auto simp: present_def)
        then have "upte (pmem ?s2) root va = upte (pmem s) root va" using f(3)[OF that(1)] by simp
        then have eq: "present (pmem s) root va" "frame (pmem s) root va = frame (pmem ?s2) root va"
          using that(2) by (simp_all add: present_def frame_def)
        moreover have "frame (pmem s) root va \<noteq> v" using A that(1) a eq(1) pg unfolding as_inv_def v_def by blast
        ultimately show ?thesis by blast
      qed
      fix va assume va: "user_va va" "present (pmem ?s2) root va"
      then show "data_page ?s2 root (v # xs) (frame (pmem ?s2) root va)"
        using old[OF va] f(4) A unfolding as_inv_def by (metis singletonD)
      fix vb assume "user_va vb" "present (pmem ?s2) root vb" "frame (pmem ?s2) root va = frame (pmem ?s2) root vb"
      then show "PGROUNDDOWN va = PGROUNDDOWN vb" using old va A unfolding as_inv_def by metis
    qed
    then show ?thesis using Q[of ?s2] tt unfolding v_def by blast
  qed
  show ?thesis
    unfolding v_def[symmetric] runs_bnd
    by (rule runs_mono[OF pa.free[OF fp ff(2) vx]]) (auto simp: store_def agree_off_def intro: step)
qed

definition in_pages :: "u64 \<Rightarrow> u64 \<Rightarrow> u64 \<Rightarrow> bool" where
  "in_pages a b va \<longleftrightarrow> user_va va \<and> a \<le> PGROUNDDOWN va \<and> PGROUNDDOWN va < b"

definition frames :: "memory \<Rightarrow> u64 \<Rightarrow> u64 \<Rightarrow> u64 \<Rightarrow> u64 set" where
  "frames m root a b = frame m root ` {va. in_pages a b va \<and> present m root va}"

definition unmapped :: "memory \<Rightarrow> memory \<Rightarrow> u64 \<Rightarrow> u64 \<Rightarrow> u64 \<Rightarrow> u64 \<Rightarrow> bool" where
  "unmapped m m' root a b va \<longleftrightarrow>
     (if in_pages a b va then \<not> present m' root va else upte m' root va = upte m root va)"

lemma next_in_pages:
  assumes a: "page_aligned a" "unat a + 4096 < 2 ^ 64"
  shows "in_pages a b va \<longleftrightarrow> user_va va \<and> a < b \<and> PGROUNDDOWN va = a \<or> in_pages (a + PGSIZE) b va"
    "\<not> a + PGSIZE \<le> a"
proof -
  have u: "unat (a + PGSIZE) = unat a + 4096" using a(2) by (simp add: unat_word_ariths)
  show n: "\<not> a + PGSIZE \<le> a" using u by (simp add: word_le_nat_alt)
  have "a + PGSIZE \<le> PGROUNDDOWN va \<longleftrightarrow> a \<le> PGROUNDDOWN va \<and> PGROUNDDOWN va \<noteq> a"
    using next_page(3)[OF a(1) PGROUNDDOWN_aligned, of va] u
    by (auto simp: word_le_nat_alt word_less_nat_alt) (metis le_neq_implies_less unsigned_word_eqI)
  then show "in_pages a b va \<longleftrightarrow> user_va va \<and> a < b \<and> PGROUNDDOWN va = a \<or> in_pages (a + PGSIZE) b va"
    unfolding in_pages_def by auto
qed

text \<open>The body of \<open>deallocuvm\<close>'s loop: afterwards the page is not present, and its frame is free.\<close>

lemma runs_dealloc_one:
  assumes A: "as_inv s root xs" and a: "page_aligned a" "user_va a"
    and Q: "\<And>s' xs'. as_inv s' root xs' \<Longrightarrow>
      touched root (\<lambda>va. if PGROUNDDOWN va = a \<and> present (pmem s) root va then 0 else upte (pmem s) root va)
        (frame (pmem s) root ` {va. user_va va \<and> PGROUNDDOWN va = a \<and> present (pmem s) root va}) s xs s' xs' \<Longrightarrow>
      set xs' = set xs \<union> frame (pmem s) root ` {va. user_va va \<and> PGROUNDDOWN va = a \<and> present (pmem s) root va} \<Longrightarrow>
      runs k s' Q"
  shows "runs (bnd (walkpgdir root a False) (\<lambda>p.
        bnd (if p = 0 then ret () else
             bnd (load p) (\<lambda>e. whenk (e AND PTE_P \<noteq> 0)
               (bnd (guardk (PTE_ADDR e \<noteq> 0) (Panic ''kfree'')) (\<lambda>_.
                bnd (p2v (PTE_ADDR e)) (\<lambda>v.
                bnd (kfree v) (\<lambda>_.
                store p 0)))))) (\<lambda>_. k))) s Q"
proof -
  have I: "pt_inv s root xs" using A by (simp add: as_inv_def)
  note da = PGROUNDDOWN_id[OF a(1)]
  have pg: "present m root va = present m root a" "frame m root va = frame m root a"
    if "user_va va" "PGROUNDDOWN va = a" for va m
    using upte_page[of va a m root] that a(2) da by (simp_all add: present_def frame_def)
  show ?thesis
  proof (cases "present (pmem s) root a")
    case False
    have e: "{va. user_va va \<and> PGROUNDDOWN va = a \<and> present (pmem s) root va} = {}" using pg False by blast
    have "touched root (\<lambda>va. if PGROUNDDOWN va = a \<and> present (pmem s) root va then 0 else upte (pmem s) root va) {} s xs s xs"
      using I e by (auto simp: touched_def)
    from Q[OF A, unfolded e image_empty, OF this] have k: "runs k s Q" by simp
    show ?thesis
    proof (cases "tbl (pmem s) root (vpath a)")
      case None
      then show ?thesis using k by (simp add: runs_lookup[OF I a(2)])
    next
      case (Some t)
      then show ?thesis using k False by (simp add: runs_lookup[OF I a(2)] load_def present_def upte_def)
    qed
  next
    case True
    then obtain t where t: "tbl (pmem s) root (vpath a) = Some t" "ld64 (pmem s) (entry t (PTX a)) = upte (pmem s) root a"
      by (auto simp: present_def upte_def split: option.splits)
    have nz: "entry t (PTX a) \<noteq> 0"
      by (rule entry_nonzero) (use table_facts[OF I upath_vpath[OF a(2)] t(1)] in auto)
    note ff = frame_facts[OF A a(2) True]
    have e: "frame (pmem s) root ` {va. user_va va \<and> PGROUNDDOWN va = a \<and> present (pmem s) root va} = {frame (pmem s) root a}"
    proof -
      let ?S = "{va. user_va va \<and> PGROUNDDOWN va = a \<and> present (pmem s) root va}"
      have "frame (pmem s) root ` ?S = (\<lambda>_. frame (pmem s) root a) ` ?S" by (rule image_cong) (auto simp: pg(2))
      moreover have "a \<in> ?S" using True a(2) da by simp
      ultimately show ?thesis by auto
    qed
    have "runs (bnd (kfree (frame (pmem s) root a)) (\<lambda>_. store (entry t (PTX a)) 0)) s (\<lambda>_ s'. runs k s' Q)"
    proof (rule runs_drop_page[OF A a(2) True t(1)])
      fix s' assume 1: "touched root (\<lambda>va. if PGROUNDDOWN va = PGROUNDDOWN a then 0 else upte (pmem s) root va)
        {frame (pmem s) root a} s xs s' (frame (pmem s) root a # xs)" "as_inv s' root (frame (pmem s) root a # xs)"
      show "runs k s' Q"
        by (rule Q[OF 1(2), unfolded e]) (rule touched_cong[OF 1(1)], simp_all add: pg(1) True da)
    qed
    then show ?thesis
      using True nz ff(3,4) t
      by (simp add: runs_lookup[OF I a(2)] load_def present_def runs_p2v frame_def)
  qed
qed

lemma runs_dealloc_from:
  assumes "as_inv s root xs" "page_aligned a" "unat b \<le> 2 ^ 47"
    and "\<And>s' xs'. as_inv s' root xs' \<Longrightarrow> touched root (upte (pmem s') root) (frames (pmem s) root a b) s xs s' xs' \<Longrightarrow>
      set xs' = set xs \<union> frames (pmem s) root a b \<Longrightarrow>
      (\<And>va. user_va va \<Longrightarrow> unmapped (pmem s) (pmem s') root a b va) \<Longrightarrow> Q () s'"
  shows "runs (dealloc_from root a b) s Q"
  using assms
proof (induction "unat b - unat a" arbitrary: a s xs Q rule: less_induct)
  case less
  show ?case
  proof (cases "a < b")
    case False
    have I: "pt_inv s root xs" using less.prems(1) by (simp add: as_inv_def)
    have none: "\<not> in_pages a b va" for va using False by (auto simp: in_pages_def)
    have "Q () s"
      by (rule less.prems(4)[OF less.prems(1)])
         (use I in \<open>simp_all add: none touched_def frames_def unmapped_def\<close>)
    then show ?thesis using False by (simp add: dealloc_from.simps)
  next
    case True
    have ua: "user_va a" using True less.prems(3) by (simp add: user_va_def word_less_nat_alt)
    have ub: "unat a + 4096 < 2 ^ 64" using user_page_bound[OF less.prems(2) ua] by simp
    then have u: "unat (a + PGSIZE) = unat a + 4096" by (simp add: unat_word_ariths)
    have al: "page_aligned (a + PGSIZE)" using less.prems(2) u by (simp add: page_aligned_def)
    note nx = next_in_pages[OF less.prems(2) ub]
    let ?one = "frame (pmem s) root ` {va. user_va va \<and> PGROUNDDOWN va = a \<and> present (pmem s) root va}"
    show ?thesis
      unfolding dealloc_from.simps[of root a] if_P[OF True]
    proof (rule runs_dealloc_one[OF less.prems(1,2) ua])
      fix s1 xs1
      assume 1: "as_inv s1 root xs1" "touched root (\<lambda>va. if PGROUNDDOWN va = a \<and> present (pmem s) root va then 0
          else upte (pmem s) root va) ?one s xs s1 xs1" "set xs1 = set xs \<union> ?one"
      note t1 = touched_facts[OF 1(2)]
      have later: "upte (pmem s1) root va = upte (pmem s) root va" if "in_pages (a + PGSIZE) b va" for va
        using that t1(3)[of va] nx(2) by (auto simp: in_pages_def)
      have fr: "frames (pmem s1) root (a + PGSIZE) b = frames (pmem s) root (a + PGSIZE) b"
        unfolding frames_def by (rule image_cong) (auto simp: present_def frame_def later)
      have all: "frames (pmem s) root a b = ?one \<union> frames (pmem s) root (a + PGSIZE) b"
        unfolding frames_def image_Un[symmetric] using nx(1)[of b] True by (intro arg_cong[of _ _ "image _"]) blast
      have "runs (dealloc_from root (a + PGSIZE) b) s1 Q"
      proof (rule less.hyps[OF _ 1(1) al less.prems(3)])
        show "unat b - unat (a + PGSIZE) < unat b - unat a" using True u by (simp add: word_less_nat_alt)
        fix s' xs'
        assume 2: "as_inv s' root xs'" "touched root (upte (pmem s') root) (frames (pmem s1) root (a + PGSIZE) b) s1 xs1 s' xs'"
          "set xs' = set xs1 \<union> frames (pmem s1) root (a + PGSIZE) b"
          "\<And>va. user_va va \<Longrightarrow> unmapped (pmem s1) (pmem s') root (a + PGSIZE) b va"
        show "Q () s'"
        proof (rule less.prems(4)[OF 2(1)])
          show "touched root (upte (pmem s') root) (frames (pmem s) root a b) s xs s' xs'"
            using touched_trans[OF 1(2) 2(2)] by (simp only: fr all)
          show "set xs' = set xs \<union> frames (pmem s) root a b" using 2(3) 1(3) by (simp only: fr all Un_assoc)
          show "unmapped (pmem s) (pmem s') root a b va" if va: "user_va va" for va
            using 2(4)[OF va] t1(3)[OF va] nx(1)[of b va] nx(2) va True
            by (auto simp: unmapped_def present_def in_pages_def split: if_splits)
        qed
      qed
      then show "runs (if unat a + 4096 < 2 ^ 64 then dealloc_from root (a + PGSIZE) b else stopk add_overflow) s1 Q"
        using ub by simp
    qed
  qed
qed

section \<open>A fresh address space\<close>

lemma runs_setupkvm:
  fixes s :: "'z vmem_scheme"
  assumes fp: "free_pages s (x # xs)" and k: "KERNBASE < link_end s"
    and Q: "\<And>s'. as_inv s' x xs \<Longrightarrow> mm_rest s' = mm_rest s \<Longrightarrow> (\<And>va. user_va va \<Longrightarrow> upte (pmem s') x va = 0) \<Longrightarrow>
      (\<And>d. managed_page s d \<Longrightarrow> d \<notin> set (x # xs) \<Longrightarrow> data_page s' x xs d \<and> bytes_at (pmem s') d 4096 = bytes_at (pmem s) d 4096) \<Longrightarrow>
      Q x s'"
  shows "runs setupkvm s Q"
proof -
  have mx: "managed_page s x" "x \<notin> set xs" "page_aligned x" "x \<noteq> 0"
    using fp by (auto simp: free_pages_def intro: managed_aligned)
  have step: "Q x (s1\<lparr>pmem := st64 (entry x 256) v (fill x 0 4096 (pmem s))\<rparr>)"
    if s1: "free_pages s1 xs" "pmem s1 = pmem s" "mm_rest s1 = mm_rest s" for v and s1 :: "'z vmem_scheme"
  proof -
    let ?m = "st64 (entry x 256) v (fill x 0 4096 (pmem s))" and ?s = "s1\<lparr>pmem := st64 (entry x 256) v (fill x 0 4096 (pmem s))\<rparr>"
    have same: "managed_page ?s = managed_page s" using s1(3) by (simp add: fun_eq_iff managed_page_def mm_rest_def)
    have "child ?m x i = None" if "i < 256" for i
      using that mx(3) by (simp add: child_def entry_apart entry_fill)
    then have tb: "tbl ?m x p = (if p = [] then Some x else None)" if "upath p" for p
      using that by (cases p) (auto simp: upath_def)
    have it: "is_table ?m x t \<longleftrightarrow> t = x" for t
      using tb upath_prefix[of "[]"] by (auto simp: is_table_def upath_def split: if_splits intro!: exI[of _ "[]"])
    have ag: "agree_off x (pmem s) ?m"
      unfolding agree_off_def
    proof (intro allI impI)
      fix b n assume ap: "apart x 4096 b n"
      then have "apart (entry x 256) 8 b n"
        using unat_word_in_page[OF mx(3), of 256] by (auto simp: apart_def entry_def)
      then show "bytes_at ?m b n = bytes_at (pmem s) b n" using ap by (simp add: bytes_at_other)
    qed
    have "ld64 ?m y = ld64 (pmem s) y" if "y \<in> set xs" for y
      using agree_off_entry[OF ag mx(3), of y 0] that fp mx(2)
      by (auto simp: entry_def free_pages_def intro: managed_aligned)
    then have "free_pages ?s xs" using s1 by (intro pa.setm(1)) auto
    then have "pt_inv ?s x xs" using mx tb by (auto simp: pt_inv_def tree_def it same split: if_splits)
    moreover have z: "upte (pmem ?s) x va = 0" if "user_va va" for va
      using tb[OF upath_vpath[OF that]] by (simp add: upte_def vpath_def)
    ultimately have "as_inv ?s x xs" using k s1(3) by (auto simp: as_inv_def present_def mm_rest_def)
    moreover have "data_page ?s x xs d \<and> bytes_at ?m d 4096 = bytes_at (pmem s) d 4096"
      if "managed_page s d" "d \<notin> set (x # xs)" for d
      using that ag pages_apart[OF mx(3) managed_aligned[OF that(1)]] by (auto simp: data_page_def it same agree_off_def)
    ultimately show ?thesis using z s1(3) by (intro Q) (simp_all add: mm_rest_def)
  qed
  show ?thesis
    unfolding setupkvm_def runs_bnd[of kalloc]
    by (rule runs_mono[OF pa.alloc[OF fp]])
       (use mx(4) in \<open>auto simp: write_bytes_def store_def simp del: PTE_P_def PTE_W_def intro!: step\<close>)
qed

section \<open>Properties of growing and shrinking\<close>

definition vm_demo :: vmem where
  "vm_demo = \<lparr>pmem = (\<lambda>_. 0), kmem_use_lock = False, kmem_freelist = 0, link_end = 0xFFFF800000110000,
     kpml4 = 0, kpdpt = 0, cr3 = 0\<rparr>"

definition demo_boot :: "(vmem, u64) kop" where
  "demo_boot = bnd (kinit1 0xFFFF800000200000 0xFFFF800000240000) (\<lambda>_. setupkvm)"

lemma demo_space:
  "\<exists>root s xs. demo_boot vm_demo = Inr (root, s) \<and> as_inv s root xs \<and> length xs = 63 \<and>
     (\<forall>va. user_va va \<longrightarrow> upte (pmem s) root va = 0)"
proof -
  let ?xs = "rev (range_pages (PGROUNDDOWN (0xFFFF800000200000 + 4095)) 0xFFFF800000240000)"
  have "PGROUNDDOWN (0xFFFF800000200000 + 4095) = 0xFFFF800000200000" by (simp add: PGROUNDDOWN_def)
  then have len: "length ?xs = 64" by (simp add: range_pages_def)
  have fp0: "free_pages (vm_demo\<lparr>kmem_use_lock := False, kmem_freelist := 0\<rparr>) []"
    by (simp add: free_pages_def vm_demo_def)
  have "runs (freerange 0xFFFF800000200000 0xFFFF800000240000) (vm_demo\<lparr>kmem_use_lock := False, kmem_freelist := 0\<rparr>)
    (\<lambda>_ s'. free_pages s' (?xs @ []) \<and> mm_rest s' = mm_rest (vm_demo\<lparr>kmem_use_lock := False, kmem_freelist := 0\<rparr>))"
    by (rule runs_freerange[OF fp0]) (simp_all add: vm_demo_def P2V_def)
  then obtain s0 where s0: "kinit1 0xFFFF800000200000 0xFFFF800000240000 vm_demo = Inr ((), s0)" "free_pages s0 ?xs"
    "link_end s0 = link_end vm_demo"
    by (auto simp: runs_Inr kinit1_def exec_simps mm_rest_def)
  obtain x xs where xs: "?xs = x # xs" "length xs = 63" using len by (cases ?xs) auto
  have "runs setupkvm s0 (\<lambda>r s'. r = x \<and> as_inv s' x xs \<and> (\<forall>va. user_va va \<longrightarrow> upte (pmem s') x va = 0))"
    by (rule runs_setupkvm[OF s0(2)[unfolded xs(1)]]) (auto simp: s0(3) vm_demo_def)
  then show ?thesis using s0(1) xs(2) by (auto simp: runs_Inr demo_boot_def exec_simps)
qed

lemma allocuvm_space:
  assumes "as_inv s root xs" "oldsz \<le> newsz" "unat newsz \<le> 2 ^ 47"
    and "4 * pages_between (PGROUNDDOWN (oldsz + 4095)) newsz \<le> length xs"
    and "\<forall>va. in_pages (PGROUNDDOWN (oldsz + 4095)) newsz va \<longrightarrow> \<not> present (pmem s) root va"
  shows "\<exists>s' xs'. allocuvm root oldsz newsz s = Inr (newsz, s') \<and> as_inv s' root xs' \<and>
    (\<forall>va. user_va va \<longrightarrow> zero_pages (pmem s) (pmem s') root (PGROUNDDOWN (oldsz + 4095)) newsz va) \<and>
    (\<forall>d. data_page s root xs d \<longrightarrow> bytes_at (pmem s') d 4096 = bytes_at (pmem s) d 4096) \<and>
    length xs \<le> 4 * pages_between (PGROUNDDOWN (oldsz + 4095)) newsz + length xs'"
proof -
  have o: "unat oldsz + 4095 < 2 ^ 64" and k: "\<not> KERNBASE \<le> newsz"
    using assms(2,3) by (auto simp: word_le_nat_alt)
  have "runs (alloc_from root (PGROUNDDOWN (oldsz + 4095)) oldsz newsz) s (\<lambda>r s'. r = newsz \<and> (\<exists>xs'. as_inv s' root xs' \<and>
    (\<forall>va. user_va va \<longrightarrow> zero_pages (pmem s) (pmem s') root (PGROUNDDOWN (oldsz + 4095)) newsz va) \<and>
    (\<forall>d. data_page s root xs d \<longrightarrow> bytes_at (pmem s') d 4096 = bytes_at (pmem s) d 4096) \<and>
    length xs \<le> 4 * pages_between (PGROUNDDOWN (oldsz + 4095)) newsz + length xs'))"
    by (rule runs_alloc_from[OF assms(1) PGROUNDDOWN_aligned assms(3,4)])
       (use assms(5) in \<open>auto simp: in_pages_def touched_def\<close>)
  then have "runs (allocuvm root oldsz newsz) s (\<lambda>r s'. r = newsz \<and> (\<exists>xs'. as_inv s' root xs' \<and>
    (\<forall>va. user_va va \<longrightarrow> zero_pages (pmem s) (pmem s') root (PGROUNDDOWN (oldsz + 4095)) newsz va) \<and>
    (\<forall>d. data_page s root xs d \<longrightarrow> bytes_at (pmem s') d 4096 = bytes_at (pmem s) d 4096) \<and>
    length xs \<le> 4 * pages_between (PGROUNDDOWN (oldsz + 4095)) newsz + length xs'))"
    unfolding allocuvm_def if_not_P[OF k] if_not_P[OF leD[OF assms(2)]] using o by (simp add: runs_PGROUNDUP)
  then show ?thesis by (auto simp: runs_Inr)
qed

text \<open>
  C22: growing an address space. With enough free pages and nothing mapped in the new range,
  \<open>allocuvm\<close> returns the new size; every page of the range is then present, user-accessible and
  zeroed, every other user page maps as before, no existing page changes, the page tables stay well
  formed with all frames distinct, and at most four pages per new page leave the free list.
\<close>

theorem allocuvm_grows:
  assumes "as_inv s root xs" "oldsz \<le> newsz" "unat newsz \<le> 2 ^ 47"
    and "4 * pages_between (PGROUNDDOWN (oldsz + 4095)) newsz \<le> length xs"
    and "\<forall>va. in_pages (PGROUNDDOWN (oldsz + 4095)) newsz va \<longrightarrow> \<not> present (pmem s) root va"
  shows "\<exists>s' xs'. allocuvm root oldsz newsz s = Inr (newsz, s') \<and> as_inv s' root xs' \<and>
    (\<forall>va. user_va va \<longrightarrow> zero_pages (pmem s) (pmem s') root (PGROUNDDOWN (oldsz + 4095)) newsz va) \<and>
    (\<forall>d. data_page s root xs d \<longrightarrow> bytes_at (pmem s') d 4096 = bytes_at (pmem s) d 4096) \<and>
    length xs \<le> 4 * pages_between (PGROUNDDOWN (oldsz + 4095)) newsz + length xs'"
  by (rule allocuvm_space[OF assms])

theorem allocuvm_grows_witness:
  "\<exists>root s s'. demo_boot vm_demo = Inr (root, s) \<and> allocuvm root 4096 12288 s = Inr (12288, s') \<and>
     present (pmem s') root 0x2345 \<and> bytes_at (pmem s') (frame (pmem s') root 0x2345) 4096 = replicate 4096 0"
proof -
  obtain root s xs where s: "demo_boot vm_demo = Inr (root, s)" "as_inv s root xs" "length xs = 63"
    "\<forall>va. user_va va \<longrightarrow> upte (pmem s) root va = 0" using demo_space by blast
  have pg: "PGROUNDDOWN (4096 + 4095) = 4096" "PGROUNDDOWN 0x2345 = 0x2000" by (simp_all add: PGROUNDDOWN_def)
  have "4 * pages_between (PGROUNDDOWN (4096 + 4095)) 12288 \<le> length xs"
    unfolding pg s(3) by (simp add: pages_between_def)
  moreover have "\<forall>va. in_pages (PGROUNDDOWN (4096 + 4095)) 12288 va \<longrightarrow> \<not> present (pmem s) root va"
    using s(4) by (simp add: in_pages_def present_def)
  ultimately obtain s' where s': "allocuvm root 4096 12288 s = Inr (12288, s')"
    "\<forall>va. user_va va \<longrightarrow> zero_pages (pmem s) (pmem s') root (PGROUNDDOWN (4096 + 4095)) 12288 va"
    using allocuvm_grows[OF s(2), of 4096 12288] by auto
  have "user_va 0x2345" by (simp add: user_va_def)
  then have "zero_pages (pmem s) (pmem s') root 4096 12288 0x2345" using s'(2) pg(1) by simp
  then show ?thesis using s(1) s'(1) pg(2) by (auto simp: zero_pages_def present_def)
qed

text \<open>
  C23: shrinking an address space. \<open>deallocuvm\<close> returns the new size with no page of the dropped
  range present, all other user pages mapped as before, exactly the frames of the dropped pages
  added to the free list, and every other page of the kernel unchanged.
\<close>

theorem deallocuvm_shrinks:
  assumes "as_inv s root xs" "newsz < oldsz" "unat oldsz \<le> 2 ^ 47"
  shows "\<exists>s' xs'. deallocuvm root oldsz newsz s = Inr (newsz, s') \<and> as_inv s' root xs' \<and>
    (\<forall>va. user_va va \<longrightarrow> unmapped (pmem s) (pmem s') root (PGROUNDDOWN (newsz + 4095)) oldsz va) \<and>
    set xs' = set xs \<union> frames (pmem s) root (PGROUNDDOWN (newsz + 4095)) oldsz \<and>
    (\<forall>d. data_page s root xs d \<longrightarrow> d \<notin> frames (pmem s) root (PGROUNDDOWN (newsz + 4095)) oldsz \<longrightarrow>
       bytes_at (pmem s') d 4096 = bytes_at (pmem s) d 4096)"
proof -
  let ?P = "\<lambda>s'. \<exists>xs'. as_inv s' root xs' \<and>
    (\<forall>va. user_va va \<longrightarrow> unmapped (pmem s) (pmem s') root (PGROUNDDOWN (newsz + 4095)) oldsz va) \<and>
    set xs' = set xs \<union> frames (pmem s) root (PGROUNDDOWN (newsz + 4095)) oldsz \<and>
    (\<forall>d. data_page s root xs d \<longrightarrow> d \<notin> frames (pmem s) root (PGROUNDDOWN (newsz + 4095)) oldsz \<longrightarrow>
       bytes_at (pmem s') d 4096 = bytes_at (pmem s) d 4096)"
  have o: "unat newsz + 4095 < 2 ^ 64" using assms(2,3) by (simp add: word_less_nat_alt)
  have "runs (dealloc_from root (PGROUNDDOWN (newsz + 4095)) oldsz) s (\<lambda>_ s'. ?P s')"
  proof (rule runs_dealloc_from[OF assms(1) PGROUNDDOWN_aligned assms(3)])
    fix s' xs' assume r: "as_inv s' root xs'"
      "touched root (upte (pmem s') root) (frames (pmem s) root (PGROUNDDOWN (newsz + 4095)) oldsz) s xs s' xs'"
      "set xs' = set xs \<union> frames (pmem s) root (PGROUNDDOWN (newsz + 4095)) oldsz"
      "\<And>va. user_va va \<Longrightarrow> unmapped (pmem s) (pmem s') root (PGROUNDDOWN (newsz + 4095)) oldsz va"
    show "?P s'" using r(1,3,4) touched_facts(5)[OF r(2)] by blast
  qed
  then have "runs (deallocuvm root oldsz newsz) s (\<lambda>r s'. r = newsz \<and> ?P s')"
    unfolding deallocuvm_def if_not_P[OF assms(2)[unfolded not_le[symmetric]]] using o by (simp add: runs_PGROUNDUP)
  then show ?thesis by (auto simp: runs_Inr)
qed

theorem deallocuvm_shrinks_witness:
  "\<exists>root s s'. demo_boot vm_demo = Inr (root, s) \<and> deallocuvm root 12288 4096 s = Inr (4096, s') \<and>
     \<not> present (pmem s') root 0x2345"
proof -
  obtain root s xs where s: "demo_boot vm_demo = Inr (root, s)" "as_inv s root xs" using demo_space by blast
  obtain s' where s': "deallocuvm root 12288 4096 s = Inr (4096, s')"
    "\<forall>va. user_va va \<longrightarrow> unmapped (pmem s) (pmem s') root (PGROUNDDOWN (4096 + 4095)) 12288 va"
    using deallocuvm_shrinks[OF s(2), of 4096 12288] by auto
  have "in_pages (PGROUNDDOWN (4096 + 4095)) 12288 0x2345" by (simp add: in_pages_def user_va_def PGROUNDDOWN_def)
  then show ?thesis using s(1) s' by (auto simp: unmapped_def in_pages_def)
qed

section \<open>Copying\<close>

text \<open>Two address spaces that share nothing: to each, the tables and frames of the other are data.\<close>

definition owns :: "memory \<Rightarrow> u64 \<Rightarrow> u64 \<Rightarrow> bool" where
  "owns m root x \<longleftrightarrow> is_table m root x \<or> (\<exists>va. user_va va \<and> present m root va \<and> x = frame m root va)"

lemma page_words:
  "bytes_at m' t 4096 = bytes_at m t 4096 \<Longrightarrow> i < 512 \<Longrightarrow> ld64 m' (entry t i) = ld64 m (entry t i)"
proof -
  assume b: "bytes_at m' t 4096 = bytes_at m t 4096" and i: "i < 512"
  have "bytes_at m (entry t i) 8 = map (\<lambda>j. bytes_at m t 4096 ! (8 * i + j)) [0..<8]" for m
    by (rule nth_equalityI) (use i in \<open>simp_all add: bytes_at_def entry_def add.assoc\<close>)
  then show ?thesis by (simp only: ld64_def b)
qed

lemma as_inv_pt: "as_inv s root xs \<Longrightarrow> pt_inv s root xs"
  by (simp add: as_inv_def)

lemma other_space:
  assumes A: "as_inv s pg xs"
    and own: "\<And>x. owns (pmem s) pg x \<Longrightarrow> bytes_at (pmem s') x 4096 = bytes_at (pmem s) x 4096 \<and> data_page s' d xs' x"
    and fp: "free_pages s' xs'" and rest: "mm_rest s' = mm_rest s"
  shows "as_inv s' pg xs'" "\<And>va. user_va va \<Longrightarrow> upte (pmem s') pg va = upte (pmem s) pg va"
    "\<And>x. owns (pmem s') pg x \<longleftrightarrow> owns (pmem s) pg x"
proof -
  have I: "pt_inv s pg xs" using A by (simp add: as_inv_def)
  have w: "ld64 (pmem s') (entry u i) = ld64 (pmem s) (entry u i)" if "upath q" "tbl (pmem s) pg q = Some u" "i < 512" for q u i
    using own[of u] that by (intro page_words) (auto simp: owns_def is_table_def)
  have tq: "tbl (pmem s') pg q = tbl (pmem s) pg q" if "upath q" for q
  proof (rule tbl_frame)
    fix r j v u assume "q = r @ j # v" "tbl (pmem s) pg r = Some u"
    then show "ld64 (pmem s') (entry u j) = ld64 (pmem s) (entry u j)"
      using w[of r u j] that upath_prefix[of r "j # v"] upath_snocD[of r j v] by auto
  qed
  have tb: "is_table (pmem s') pg u \<longleftrightarrow> is_table (pmem s) pg u" for u
    unfolding is_table_def by (rule ex_cong1) (simp add: tq cong: conj_cong)
  show up: "upte (pmem s') pg va = upte (pmem s) pg va" if "user_va va" for va
    using tq[OF upath_vpath[OF that]] w[OF upath_vpath[OF that]] by (auto simp: upte_def split: option.splits)
  have fr: "frame (pmem s') pg va = frame (pmem s) pg va" "present (pmem s') pg va = present (pmem s) pg va" if "user_va va" for va
    by (simp_all add: frame_def present_def up[OF that])
  show "owns (pmem s') pg x \<longleftrightarrow> owns (pmem s) pg x" for x
    unfolding owns_def tb using fr by metis
  have mg: "managed_page s' x" "x \<notin> set xs'" if "owns (pmem s) pg x" for x
    using own[OF that] by (auto simp: data_page_def)
  have tr: "tree (pmem s') pg" using I unfolding pt_inv_def tree_def by (simp add: tq cong: imp_cong)
  have pt: "pt_inv s' pg xs'"
    unfolding pt_inv_def
  proof (intro conjI allI impI)
    show "free_pages s' xs'" by (rule fp)
    show "tree (pmem s') pg" by (rule tr)
    fix u assume "is_table (pmem s') pg u"
    then have "owns (pmem s) pg u" by (simp add: tb owns_def)
    then show "managed_page s' u" "u \<notin> set xs'" using mg by auto
  qed
  show "as_inv s' pg xs'"
    unfolding as_inv_def
  proof (intro conjI allI impI)
    show "pt_inv s' pg xs'" by (rule pt)
    show "KERNBASE < link_end s'" using A rest by (simp add: as_inv_def mm_rest_def)
    fix va assume va: "user_va va" "present (pmem s') pg va"
    then have "owns (pmem s) pg (frame (pmem s) pg va)" using fr[OF va(1)] by (auto simp: owns_def)
    moreover have "\<not> is_table (pmem s) pg (frame (pmem s) pg va)"
      using A va fr[OF va(1)] by (auto simp: as_inv_def data_page_def)
    ultimately show "data_page s' pg xs' (frame (pmem s') pg va)" using mg by (simp add: data_page_def tb fr[OF va(1)])
    fix vb assume "user_va vb" "present (pmem s') pg vb" "frame (pmem s') pg va = frame (pmem s') pg vb"
    then show "PGROUNDDOWN va = PGROUNDDOWN vb" using A va fr unfolding as_inv_def by metis
  qed
qed

lemma other_tree:
  assumes A: "as_inv s pg xs" and D: "\<And>x. owns (pmem s) pg x \<Longrightarrow> data_page s d xs x \<and> x \<notin> W"
    and T: "touched d f W s xs s' xs'"
  shows "as_inv s' pg xs'" "\<And>va. user_va va \<Longrightarrow> upte (pmem s') pg va = upte (pmem s) pg va"
    "\<And>x. owns (pmem s') pg x \<longleftrightarrow> owns (pmem s) pg x"
    "\<And>x. owns (pmem s) pg x \<Longrightarrow> bytes_at (pmem s') x 4096 = bytes_at (pmem s) x 4096 \<and> data_page s' d xs' x"
proof -
  note t = touched_facts[OF T]
  show own: "bytes_at (pmem s') x 4096 = bytes_at (pmem s) x 4096 \<and> data_page s' d xs' x" if "owns (pmem s) pg x" for x
    using D[OF that] t(4,5) by blast
  have fp: "free_pages s' xs'" using t(1) by (simp add: pt_inv_def)
  note o = other_space[OF A own fp t(2)]
  show "as_inv s' pg xs'" "\<And>va. user_va va \<Longrightarrow> upte (pmem s') pg va = upte (pmem s) pg va"
    "\<And>x. owns (pmem s') pg x \<longleftrightarrow> owns (pmem s) pg x" by (rule o; assumption)+
qed

definition separate :: "'z mm_scheme \<Rightarrow> u64 \<Rightarrow> u64 \<Rightarrow> u64 list \<Rightarrow> bool" where
  "separate s pg d xs \<longleftrightarrow> as_inv s pg xs \<and> as_inv s d xs \<and>
     (\<forall>x. owns (pmem s) pg x \<longrightarrow> data_page s d xs x \<and> \<not> owns (pmem s) d x)"

definition copied :: "memory \<Rightarrow> memory \<Rightarrow> u64 \<Rightarrow> u64 \<Rightarrow> u64 \<Rightarrow> u64 \<Rightarrow> u64 \<Rightarrow> bool" where
  "copied m m' pg d a b va \<longleftrightarrow>
     (if in_pages a b va
      then present m' d va \<and> PTE_FLAGS (upte m' d va) = PTE_FLAGS (upte m pg va) \<and>
           bytes_at m' (frame m' d va) 4096 = bytes_at m (frame m pg va) 4096
      else upte m' d va = upte m d va)"

lemma bytes_at_stored: "page_aligned x \<Longrightarrow> length bs = 4096 \<Longrightarrow> bytes_at (store_bytes x bs m) x 4096 = bs"
  by (rule nth_equalityI) (auto simp: bytes_at_def store_bytes_def unat_of_nat)

lemma agree_off_stored: "length bs = 4096 \<Longrightarrow> agree_off x m (store_bytes x bs m)"
  by (simp add: agree_off_def bytes_at_other)

lemma flags_of_copy:
  assumes "page_aligned x" "e AND PTE_P \<noteq> 0"
  shows "PTE_FLAGS (V2P x OR PTE_FLAGS e OR PTE_P) = PTE_FLAGS e" "PTE_FLAGS e < 4096"
proof -
  have le: "PTE_FLAGS e \<le> 0xFFF" unfolding PTE_FLAGS_def by (rule word_and_le1)
  then show "PTE_FLAGS e < 4096" by (simp add: word_le_nat_alt word_less_nat_alt)
  have b: "bit e 0" using assms(2) by (simp add: and_one_eq odd_iff_mod_2_eq_one bit_0 split: if_splits)
  have m: "0xFFF = (mask 12 :: u64)" by (simp add: mask_eq_exp_minus_1)
  show "PTE_FLAGS (V2P x OR PTE_FLAGS e OR PTE_P) = PTE_FLAGS e"
    unfolding PTE_FLAGS_def m
    by (rule bit_word_eqI) (use V2P_aligned[OF assms(1)] b in \<open>auto simp: aligned_bits bit_simps bit_1_iff\<close>)
qed

text \<open>One round of \<open>copyuvm\<close> on separate spaces: a fresh page with the given contents, mapped in \<open>d\<close>.\<close>

lemma runs_copy_page:
  assumes S: "separate s pg d xs" and a: "page_aligned a" "user_va a" "\<not> present (pmem s) d a"
    and n: "4 \<le> length xs" and p: "perm < 4096" and src: "owns (pmem s) pg src" "V2P src < PHYSTOP"
    and Q: "\<And>x s' xs'. touched d (map_at (pmem s) d a x perm) {} s xs s' xs' \<Longrightarrow> separate s' pg d xs' \<Longrightarrow>
      (\<And>y. owns (pmem s') pg y \<longleftrightarrow> owns (pmem s) pg y) \<Longrightarrow>
      (\<And>va. user_va va \<Longrightarrow> upte (pmem s') pg va = upte (pmem s) pg va) \<Longrightarrow>
      (\<And>y. owns (pmem s) pg y \<Longrightarrow> bytes_at (pmem s') y 4096 = bytes_at (pmem s) y 4096) \<Longrightarrow>
      data_page s' d xs' x \<Longrightarrow> page_aligned x \<Longrightarrow> bytes_at (pmem s') x 4096 = bytes_at (pmem s) src 4096 \<Longrightarrow>
      length xs \<le> 4 + length xs' \<Longrightarrow> runs (k 0) s' Q"
  shows "runs (bnd kalloc (\<lambda>mem. if mem = 0 then e else bnd (p2v (V2P src)) (\<lambda>v.
     bnd (modify (\<lambda>s. s\<lparr>pmem := store_bytes mem (bytes_at (pmem s) v 4096) (pmem s)\<rparr>)) (\<lambda>_.
     bnd (mappages d a PGSIZE (V2P mem) perm) k)))) s Q"
proof -
  obtain x xs1 where xs: "xs = x # xs1" using n by (cases xs) auto
  have A: "as_inv s d (x # xs1)" and Ap: "as_inv s pg (x # xs1)"
    and own: "\<And>y. owns (pmem s) pg y \<Longrightarrow> data_page s d (x # xs1) y \<and> \<not> owns (pmem s) d y"
    using S by (simp_all add: separate_def xs)
  have D: "data_page s d (x # xs1) y" "y \<noteq> x" if "owns (pmem s) pg y" for y
    using own[OF that] by (auto simp: data_page_def)
  show ?thesis unfolding runs_bnd[of kalloc]
  proof (rule runs_take_page[OF as_inv_pt[OF A]])
    fix s1 assume 1: "x \<noteq> 0" "pmem s1 = pmem s" "remapped d (upte (pmem s) d) s (x # xs1) s1 xs1" "data_page s1 d xs1 x"
    let ?bs = "bytes_at (pmem s) src 4096"
    let ?s2 = "s1\<lparr>pmem := store_bytes x ?bs (pmem s)\<rparr>"
    have al: "page_aligned x" using 1(4) by (auto simp: data_page_def managed_aligned)
    note r1 = remapped_touched[OF 1(3), of "{}"]
    have ag: "agree_off x (pmem s1) (store_bytes x ?bs (pmem s))" unfolding 1(2) by (rule agree_off_stored) simp
    note w = data_write[OF remapped_inv(1)[OF 1(3)] 1(4) ag]
    have out: "frame (pmem s) d va \<noteq> x" if "user_va va" "present (pmem s) d va" for va
      using A that by (auto simp: as_inv_def data_page_def)
    have A1: "as_inv s1 d xs1" by (rule as_inv_touched[OF A r1]) simp
    have A2: "as_inv ?s2 d xs1" by (rule as_inv_touched[OF A1 w(1)]) (simp add: 1(2) out)
    have t2: "touched d (upte (pmem s) d) {x} s (x # xs1) ?s2 xs1" using touched_trans[OF r1 w(1)] by (simp add: 1(2))
    have D2: "data_page s d (x # xs1) y \<and> y \<notin> {x}" if "owns (pmem s) pg y" for y using D[OF that] by simp
    note o2 = other_tree[OF Ap D2 t2]
    have "runs (mappages d a PGSIZE (V2P x) perm) ?s2 (\<lambda>r s'. runs (k r) s' Q)"
    proof (rule runs_map_page[OF A2 w(2)])
      show "frame (pmem ?s2) d va \<noteq> x" if "user_va va" "present (pmem ?s2) d va" for va
        using that out touched_facts(3)[OF t2 that(1)] by (simp add: frame_def present_def)
      show "\<not> present (pmem ?s2) d a" using a(3) touched_facts(3)[OF t2 a(2)] by (simp add: present_def)
    next
      fix s' xs'
      assume 3: "touched d (map_at (pmem ?s2) d a x perm) {} ?s2 xs1 s' xs'" "as_inv s' d xs'" "length xs1 \<le> 3 + length xs'"
      have D3: "data_page ?s2 d xs1 y \<and> y \<notin> {}" if "owns (pmem ?s2) pg y" for y using o2(3,4) that by simp
      note o3 = other_tree[OF o2(1) D3 3(1)]
      have t3: "touched d (map_at (pmem s) d a x perm) ({x} \<union> {}) s xs s' xs'"
        unfolding xs by (rule touched_cong[OF touched_trans[OF t2 3(1)]])
          (use touched_facts(3)[OF t2] in \<open>simp add: map_at_def\<close>)
      then have t3': "touched d (map_at (pmem s) d a x perm) {} s xs s' xs'" by (auto simp: touched_def data_page_def xs)
      have "\<not> owns (pmem s') d y" if y: "owns (pmem s) pg y" for y
      proof -
        have "data_page s' d xs' y" using o3(4) o2(3) y by blast
        moreover have "y \<noteq> frame (pmem s') d va" if va: "user_va va" "present (pmem s') d va" for va
        proof -
          have u: "upte (pmem s') d va = map_at (pmem s) d a x perm va" by (rule touched_facts(3)[OF t3' va(1)])
          show ?thesis
          proof (cases "PGROUNDDOWN va = a")
            case True
            then show ?thesis using D(2)[OF y] user_pte(1)[OF al p] by (simp add: frame_def u map_at_same)
          next
            case False
            then have "upte (pmem s') d va = upte (pmem s) d va" by (simp add: u map_at_same)
            then have "owns (pmem s) d (frame (pmem s') d va)" using va by (auto simp: owns_def frame_def present_def)
            then show ?thesis using own[OF y] by auto
          qed
        qed
        ultimately show ?thesis by (auto simp: owns_def data_page_def)
      qed
      then have "separate s' pg d xs'" using o3(1,3,4) 3(2) o2(3) by (simp add: separate_def)
      moreover have "bytes_at (pmem s') x 4096 = ?bs"
        using touched_facts(5)[OF 3(1) w(2)] bytes_at_stored[OF al, of ?bs "pmem s"] by simp
      ultimately show "runs (k 0) s' Q"
        using Q[OF t3' _ _ _ _ touched_facts(4)[OF 3(1) w(2)] al] o2 o3 3(3) xs by simp
    qed (use a p n xs in auto)
    then show "runs (if x = 0 then e else bnd (p2v (V2P src)) (\<lambda>v.
       bnd (modify (\<lambda>s. s\<lparr>pmem := store_bytes x (bytes_at (pmem s) v 4096) (pmem s)\<rparr>)) (\<lambda>_.
       bnd (mappages d a PGSIZE (V2P x) perm) k))) s1 Q"
      using 1(1,2) src(2) by (simp add: runs_p2v)
  qed
qed

lemma runs_copyuvm_from:
  assumes "separate s pg d xs" "page_aligned a" "unat b \<le> 2 ^ 47" "4 * pages_between a b \<le> length xs"
    and "\<And>va. in_pages a b va \<Longrightarrow> present (pmem s) pg va \<and> \<not> present (pmem s) d va"
    and "\<And>s' xs'. separate s' pg d xs' \<Longrightarrow> (\<And>va. user_va va \<Longrightarrow> upte (pmem s') pg va = upte (pmem s) pg va) \<Longrightarrow>
      (\<And>x. owns (pmem s) pg x \<Longrightarrow> bytes_at (pmem s') x 4096 = bytes_at (pmem s) x 4096) \<Longrightarrow>
      touched d (upte (pmem s') d) {} s xs s' xs' \<Longrightarrow>
      (\<And>va. user_va va \<Longrightarrow> copied (pmem s) (pmem s') pg d a b va) \<Longrightarrow> Q d s'"
  shows "runs (copyuvm_from pg d a b) s Q"
  using assms
proof (induction "unat b - unat a" arbitrary: a s xs Q rule: less_induct)
  case less
  have Ap: "as_inv s pg xs" using less.prems(1) by (simp add: separate_def)
  show ?case
  proof (cases "a < b")
    case False
    have none: "\<not> in_pages a b va" for va using False by (auto simp: in_pages_def)
    have "pt_inv s d xs" using less.prems(1) by (simp add: separate_def as_inv_pt)
    then have "Q d s" using less.prems(6)[OF less.prems(1)] by (simp add: none copied_def touched_def)
    then show ?thesis using False by (simp add: copyuvm_from.simps)
  next
    case True
    have ua: "user_va a" using True less.prems(3) by (simp add: user_va_def word_less_nat_alt)
    note da = PGROUNDDOWN_id[OF less.prems(2)]
    have ub: "unat a + 4096 < 2 ^ 64" using user_page_bound[OF less.prems(2) ua] by simp
    then have u: "unat (a + PGSIZE) = unat a + 4096" by (simp add: unat_word_ariths)
    have al: "page_aligned (a + PGSIZE)" using less.prems(2) u by (simp add: page_aligned_def)
    note nx = next_in_pages[OF less.prems(2) ub] and pb = pages_between_step[OF True ub]
    have ia: "in_pages a b a" using ua True da by (simp add: in_pages_def)
    have pr: "present (pmem s) pg a" "\<not> present (pmem s) d a" using less.prems(5)[OF ia] by auto
    define e where "e = upte (pmem s) pg a"
    obtain t where t: "tbl (pmem s) pg (vpath a) = Some t" "ld64 (pmem s) (entry t (PTX a)) = e"
      using pr(1) by (auto simp: present_def upte_def e_def split: option.splits)
    have nz: "entry t (PTX a) \<noteq> 0"
      by (rule entry_nonzero) (use table_facts[OF as_inv_pt[OF Ap] upath_vpath[OF ua] t(1)] in auto)
    have src: "owns (pmem s) pg (frame (pmem s) pg a)" using pr(1) ua by (auto simp: owns_def)
    have sv: "V2P (frame (pmem s) pg a) = PTE_ADDR e" by (simp add: frame_def e_def)
    have pe: "e AND PTE_P \<noteq> 0" using pr(1) by (simp add: present_def e_def)
    have "runs (bnd kalloc (\<lambda>mem. if mem = 0 then bnd (freevm d) (\<lambda>_. ret 0) else bnd (p2v (V2P (frame (pmem s) pg a))) (\<lambda>v.
      bnd (modify (\<lambda>s. s\<lparr>pmem := store_bytes mem (bytes_at (pmem s) v 4096) (pmem s)\<rparr>)) (\<lambda>_.
      bnd (mappages d a PGSIZE (V2P mem) (PTE_FLAGS e)) (\<lambda>r. if r < 0 then bnd (freevm d) (\<lambda>_. ret 0)
        else if unat a + 4096 < 2 ^ 64 then copyuvm_from pg d (a + PGSIZE) b else stopk add_overflow))))) s Q"
    proof (rule runs_copy_page[OF less.prems(1,2) ua pr(2) _ _ src])
      show "PTE_FLAGS e < 4096" using flags_of_copy(2)[of 0 e] pe by (simp add: page_aligned_def)
      show "V2P (frame (pmem s) pg a) < PHYSTOP" using frame_facts(4)[OF Ap ua pr(1)] by (simp add: sv e_def)
    next
      fix x s1 xs1
      assume 1: "touched d (map_at (pmem s) d a x (PTE_FLAGS e)) {} s xs s1 xs1" "separate s1 pg d xs1"
        "\<And>y. owns (pmem s1) pg y \<longleftrightarrow> owns (pmem s) pg y"
        "\<And>va. user_va va \<Longrightarrow> upte (pmem s1) pg va = upte (pmem s) pg va"
        "\<And>y. owns (pmem s) pg y \<Longrightarrow> bytes_at (pmem s1) y 4096 = bytes_at (pmem s) y 4096"
        "data_page s1 d xs1 x" "page_aligned x" "bytes_at (pmem s1) x 4096 = bytes_at (pmem s) (frame (pmem s) pg a) 4096"
        "length xs \<le> 4 + length xs1"
      note t1 = touched_facts(3)[OF 1(1)]
      have fr: "frame (pmem s1) pg va = frame (pmem s) pg va" "present (pmem s1) pg va = present (pmem s) pg va"
        if "user_va va" for va by (simp_all add: frame_def present_def 1(4)[OF that])
      have "runs (copyuvm_from pg d (a + PGSIZE) b) s1 Q"
      proof (rule less.hyps[OF _ 1(2) al less.prems(3)])
        show "unat b - unat (a + PGSIZE) < unat b - unat a" using True u by (simp add: word_less_nat_alt)
        show "4 * pages_between (a + PGSIZE) b \<le> length xs1" using less.prems(4) 1(9) pb by simp
        show "present (pmem s1) pg va \<and> \<not> present (pmem s1) d va" if i: "in_pages (a + PGSIZE) b va" for va
        proof -
          have va: "user_va va" "PGROUNDDOWN va \<noteq> a" "in_pages a b va" using i nx by (auto simp: in_pages_def)
          show ?thesis using less.prems(5)[OF va(3)] fr(2)[OF va(1)] t1[OF va(1)] va(2) by (simp add: present_def map_at_same)
        qed
      next
        fix s' xs'
        assume 2: "separate s' pg d xs'" "\<And>va. user_va va \<Longrightarrow> upte (pmem s') pg va = upte (pmem s1) pg va"
          "\<And>x. owns (pmem s1) pg x \<Longrightarrow> bytes_at (pmem s') x 4096 = bytes_at (pmem s1) x 4096"
          "touched d (upte (pmem s') d) {} s1 xs1 s' xs'"
          "\<And>va. user_va va \<Longrightarrow> copied (pmem s1) (pmem s') pg d (a + PGSIZE) b va"
        have cp: "copied (pmem s) (pmem s') pg d a b va" if va: "user_va va" for va
        proof (cases "PGROUNDDOWN va = a")
          case pa: True
          have ni: "\<not> in_pages (a + PGSIZE) b va" "in_pages a b va" using nx pa va True by (auto simp: in_pages_def)
          have e1: "upte (pmem s) pg va = e" using upte_page[of va a] pa va ua da by (simp add: e_def)
          have e': "upte (pmem s') d va = V2P x OR PTE_FLAGS e OR PTE_P"
            using 2(5)[OF va] ni(1) t1[OF va] pa by (simp add: copied_def map_at_same)
          then have "frame (pmem s') d va = x" using user_pte(1)[OF 1(7) flags_of_copy(2)[OF 1(7) pe]] by (simp add: frame_def)
          moreover have "bytes_at (pmem s') x 4096 = bytes_at (pmem s) (frame (pmem s) pg va) 4096"
            using touched_facts(5)[OF 2(4) 1(6)] 1(8) e1 by (simp add: frame_def e_def)
          moreover have "present (pmem s') d va"
            using user_pte(2)[OF 1(7) flags_of_copy(2)[OF 1(7) pe]] by (simp add: present_def e')
          ultimately show ?thesis using ni(2) e' e1 flags_of_copy(1)[OF 1(7) pe] by (simp add: copied_def)
        next
          case pa: False
          then have "in_pages a b va \<longleftrightarrow> in_pages (a + PGSIZE) b va" using nx(1)[of b va] by blast
          moreover have "bytes_at (pmem s1) (frame (pmem s) pg va) 4096 = bytes_at (pmem s) (frame (pmem s) pg va) 4096"
            if "in_pages a b va" using 1(5) less.prems(5)[OF that] va by (auto simp: owns_def)
          ultimately show ?thesis
            using 2(5)[OF va] t1[OF va] pa fr[OF va] 1(4)[OF va] by (auto simp: copied_def map_at_same split: if_splits)
        qed
        show "Q d s'"
          by (rule less.prems(6)[OF 2(1)])
             (use 1(3,4,5) 2(2,3) touched_trans[OF 1(1) 2(4)] cp in simp_all)
      qed
      then show "runs (if (0::i32) < 0 then bnd (freevm d) (\<lambda>_. ret 0)
        else if unat a + 4096 < 2 ^ 64 then copyuvm_from pg d (a + PGSIZE) b else stopk add_overflow) s1 Q"
        using ub by simp
    qed (use less.prems(4) pb in simp)
    then show ?thesis
      unfolding copyuvm_from.simps[of pg d a] if_P[OF True]
      using nz t pe ub by (simp add: runs_lookup[OF as_inv_pt[OF Ap] ua] load_def sv cong: if_cong)
  qed
qed

lemma owned_managed: "as_inv s root xs \<Longrightarrow> owns (pmem s) root x \<Longrightarrow> managed_page s x \<and> x \<notin> set xs"
  unfolding owns_def using frame_facts(1) by (fastforce simp: as_inv_def pt_inv_def data_page_def)

text \<open>The demonstration space with two pages, from \<open>PGSIZE\<close> on.\<close>

lemma demo_grown:
  "\<exists>pg s0 s1 xs1. demo_boot vm_demo = Inr (pg, s0) \<and> allocuvm pg 4096 12288 s0 = Inr (12288, s1) \<and>
     as_inv s1 pg xs1 \<and> 55 \<le> length xs1 \<and>
     (\<forall>va. in_pages PGSIZE 12288 va \<longrightarrow> present (pmem s1) pg va \<and> upte (pmem s1) pg va AND PTE_U \<noteq> 0)"
proof -
  obtain pg s0 xs where s: "demo_boot vm_demo = Inr (pg, s0)" "as_inv s0 pg xs" "length xs = 63"
    "\<forall>va. user_va va \<longrightarrow> upte (pmem s0) pg va = 0" using demo_space by blast
  have pb: "pages_between 4096 12288 = 2" by (simp add: pages_between_def)
  have pg: "PGROUNDDOWN 8191 = 4096" by (simp add: PGROUNDDOWN_def)
  have "\<exists>s1 xs1. allocuvm pg 4096 12288 s0 = Inr (12288, s1) \<and> as_inv s1 pg xs1 \<and>
    (\<forall>va. user_va va \<longrightarrow> zero_pages (pmem s0) (pmem s1) pg (PGROUNDDOWN (4096 + 4095)) 12288 va) \<and>
    (\<forall>d. data_page s0 pg xs d \<longrightarrow> bytes_at (pmem s1) d 4096 = bytes_at (pmem s0) d 4096) \<and>
    length xs \<le> 4 * pages_between (PGROUNDDOWN (4096 + 4095)) 12288 + length xs1"
    by (rule allocuvm_space[OF s(2)])
       (use s(4) in \<open>simp_all add: pg pb s(3) in_pages_def present_def\<close>)
  then obtain s1 xs1 where s1: "allocuvm pg 4096 12288 s0 = Inr (12288, s1)" "as_inv s1 pg xs1" "55 \<le> length xs1"
    "\<forall>va. user_va va \<longrightarrow> zero_pages (pmem s0) (pmem s1) pg 4096 12288 va"
    by (auto simp: pg pb s(3))
  moreover have "\<forall>va. in_pages PGSIZE 12288 va \<longrightarrow> present (pmem s1) pg va \<and> upte (pmem s1) pg va AND PTE_U \<noteq> 0"
    using s1(4) by (auto simp: in_pages_def zero_pages_def present_def)
  ultimately show ?thesis using s(1) by blast
qed

lemma copyuvm_space:
  fixes s :: "'z vmem_scheme"
  assumes "as_inv s pg xs" "Suc (4 * pages_between PGSIZE (ucast sz)) \<le> length xs"
    and "\<forall>va. in_pages PGSIZE (ucast sz) va \<longrightarrow> present (pmem s) pg va"
  shows "\<exists>s' d xs'. copyuvm pg sz s = Inr (d, s') \<and> d \<noteq> 0 \<and> separate s' pg d xs' \<and>
    (\<forall>va. user_va va \<longrightarrow> upte (pmem s') pg va = upte (pmem s) pg va) \<and>
    (\<forall>x. owns (pmem s) pg x \<longrightarrow> bytes_at (pmem s') x 4096 = bytes_at (pmem s) x 4096) \<and>
    (\<forall>va. user_va va \<longrightarrow> (if in_pages PGSIZE (ucast sz) va
       then present (pmem s') d va \<and> PTE_FLAGS (upte (pmem s') d va) = PTE_FLAGS (upte (pmem s) pg va) \<and>
            bytes_at (pmem s') (frame (pmem s') d va) 4096 = bytes_at (pmem s) (frame (pmem s) pg va) 4096
       else upte (pmem s') d va = 0))"
    (is "\<exists>s' d xs'. _ \<and> _ \<and> ?P s' d xs'")
proof -
  obtain x xs1 where xs: "xs = x # xs1" using assms(2) by (cases xs) auto
  have fp: "free_pages s (x # xs1)" and k: "KERNBASE < link_end s" using assms(1) xs by (simp_all add: as_inv_def pt_inv_def)
  have x0: "x \<noteq> 0" using fp by (auto simp: free_pages_def)
  have "runs (copyuvm pg sz) s (\<lambda>d s'. d \<noteq> 0 \<and> (\<exists>xs'. ?P s' d xs'))"
    unfolding copyuvm_def runs_bnd
  proof (rule runs_setupkvm[OF fp k])
    fix s1 :: "'z vmem_scheme"
    assume 1: "as_inv s1 x xs1" "mm_rest s1 = mm_rest s" "\<And>va. user_va va \<Longrightarrow> upte (pmem s1) x va = 0"
      "\<And>d. managed_page s d \<Longrightarrow> d \<notin> set (x # xs1) \<Longrightarrow> data_page s1 x xs1 d \<and> bytes_at (pmem s1) d 4096 = bytes_at (pmem s) d 4096"
    have own: "bytes_at (pmem s1) y 4096 = bytes_at (pmem s) y 4096 \<and> data_page s1 x xs1 y" if "owns (pmem s) pg y" for y
      using 1(4) owned_managed[OF assms(1) that] by (simp add: xs)
    have fp1: "free_pages s1 xs1" using 1(1) by (simp add: as_inv_def pt_inv_def)
    have o: "as_inv s1 pg xs1" "\<And>va. user_va va \<Longrightarrow> upte (pmem s1) pg va = upte (pmem s) pg va"
      "\<And>y. owns (pmem s1) pg y \<longleftrightarrow> owns (pmem s) pg y"
      using other_space[OF assms(1) own fp1 1(2)] by auto
    have np: "\<not> present (pmem s1) x va" if "user_va va" for va using 1(3)[OF that] by (simp add: present_def)
    have sep: "separate s1 pg x xs1"
      using o(1,3) 1(1) own np by (auto simp: separate_def owns_def data_page_def)
    have b: "unat (ucast sz :: u64) \<le> 2 ^ 47"
      using unsigned_less[of sz, where 'a = nat] by (simp add: unsigned_ucast_eq take_bit_nat_eq_self)
    have "runs (copyuvm_from pg x PGSIZE (ucast sz)) s1 (\<lambda>d s'. d \<noteq> 0 \<and> (\<exists>xs'. ?P s' d xs'))"
    proof (rule runs_copyuvm_from[OF sep _ b])
      show "present (pmem s1) pg va \<and> \<not> present (pmem s1) x va" if "in_pages PGSIZE (ucast sz) va" for va
        using that assms(3) o(2)[of va] np[of va] by (auto simp: in_pages_def present_def)
    next
      fix s' :: "'z vmem_scheme" and xs'
      assume 2: "separate s' pg x xs'" "\<And>va. user_va va \<Longrightarrow> upte (pmem s') pg va = upte (pmem s1) pg va"
        "\<And>y. owns (pmem s1) pg y \<Longrightarrow> bytes_at (pmem s') y 4096 = bytes_at (pmem s1) y 4096"
        "\<And>va. user_va va \<Longrightarrow> copied (pmem s1) (pmem s') pg x PGSIZE (ucast sz) va"
      have "bytes_at (pmem s1) (frame (pmem s) pg va) 4096 = bytes_at (pmem s) (frame (pmem s) pg va) 4096"
        if "in_pages PGSIZE (ucast sz) va" for va
        using own[of "frame (pmem s) pg va"] that assms(3) by (auto simp: owns_def in_pages_def)
      then have "if in_pages PGSIZE (ucast sz) va
        then present (pmem s') x va \<and> PTE_FLAGS (upte (pmem s') x va) = PTE_FLAGS (upte (pmem s) pg va) \<and>
            bytes_at (pmem s') (frame (pmem s') x va) 4096 = bytes_at (pmem s) (frame (pmem s) pg va) 4096
        else upte (pmem s') x va = 0" if "user_va va" for va
        using 2(4)[OF that] 1(3)[OF that] o(2)[OF that] by (simp add: copied_def frame_def split: if_splits)
      moreover have "bytes_at (pmem s') y 4096 = bytes_at (pmem s) y 4096" if "owns (pmem s) pg y" for y
        using 2(3) own[OF that] o(3) that by simp
      moreover have "upte (pmem s') pg va = upte (pmem s) pg va" if "user_va va" for va using 2(2) o(2) that by simp
      ultimately show "x \<noteq> 0 \<and> (\<exists>xs'. ?P s' x xs')" using x0 2(1) by blast
    qed (use assms(2) xs in \<open>simp_all add: page_aligned_def\<close>)
    then show "runs (if x = 0 then ret 0 else copyuvm_from pg x PGSIZE (ucast sz)) s1 (\<lambda>d s'. d \<noteq> 0 \<and> (\<exists>xs'. ?P s' d xs'))"
      using x0 by simp
  qed
  then show ?thesis by (auto simp: runs_Inr)
qed

text \<open>
  C8: copying an address space (\<open>fork\<close>). If the parent has every page from \<open>PGSIZE\<close> up to \<open>sz\<close> and
  there are enough free pages, \<open>copyuvm\<close> returns a new address space that shares no page with the
  parent, in which each of those pages is present with the parent's contents and flags and nothing
  else is mapped; the parent's mappings, tables and pages are unchanged.
\<close>

theorem copyuvm_copies:
  fixes s :: "'z vmem_scheme"
  assumes "as_inv s pg xs" "Suc (4 * pages_between PGSIZE (ucast sz)) \<le> length xs"
    and "\<forall>va. in_pages PGSIZE (ucast sz) va \<longrightarrow> present (pmem s) pg va"
  shows "\<exists>s' d xs'. copyuvm pg sz s = Inr (d, s') \<and> d \<noteq> 0 \<and> separate s' pg d xs' \<and>
    (\<forall>va. user_va va \<longrightarrow> upte (pmem s') pg va = upte (pmem s) pg va) \<and>
    (\<forall>x. owns (pmem s) pg x \<longrightarrow> bytes_at (pmem s') x 4096 = bytes_at (pmem s) x 4096) \<and>
    (\<forall>va. user_va va \<longrightarrow> (if in_pages PGSIZE (ucast sz) va
       then present (pmem s') d va \<and> PTE_FLAGS (upte (pmem s') d va) = PTE_FLAGS (upte (pmem s) pg va) \<and>
            bytes_at (pmem s') (frame (pmem s') d va) 4096 = bytes_at (pmem s) (frame (pmem s) pg va) 4096
       else upte (pmem s') d va = 0))"
  by (rule copyuvm_space[OF assms])

theorem copyuvm_copies_witness:
  "\<exists>pg s0 s1 s2 d. demo_boot vm_demo = Inr (pg, s0) \<and> allocuvm pg 4096 12288 s0 = Inr (12288, s1) \<and>
     copyuvm pg 12288 s1 = Inr (d, s2) \<and> present (pmem s2) d 0x2345 \<and>
     bytes_at (pmem s2) (frame (pmem s2) d 0x2345) 4096 = bytes_at (pmem s1) (frame (pmem s1) pg 0x2345) 4096"
proof -
  obtain pg s0 s1 xs1 where s: "demo_boot vm_demo = Inr (pg, s0)" "allocuvm pg 4096 12288 s0 = Inr (12288, s1)"
    "as_inv s1 pg xs1" "55 \<le> length xs1" "\<forall>va. in_pages PGSIZE 12288 va \<longrightarrow> present (pmem s1) pg va"
    using demo_grown by blast
  have u: "(ucast (12288 :: u32) :: u64) = 12288" by simp
  have pr: "\<forall>va. in_pages PGSIZE (ucast (12288 :: u32)) va \<longrightarrow> present (pmem s1) pg va" unfolding u by (rule s(5))
  have len: "Suc (4 * pages_between PGSIZE (ucast (12288 :: u32))) \<le> length xs1"
    using s(4) by (simp add: pages_between_def)
  obtain s2 d where s2: "copyuvm pg 12288 s1 = Inr (d, s2)"
    "\<forall>va. user_va va \<longrightarrow> (if in_pages PGSIZE (ucast (12288 :: u32)) va
       then present (pmem s2) d va \<and> PTE_FLAGS (upte (pmem s2) d va) = PTE_FLAGS (upte (pmem s1) pg va) \<and>
            bytes_at (pmem s2) (frame (pmem s2) d va) 4096 = bytes_at (pmem s1) (frame (pmem s1) pg va) 4096
       else upte (pmem s2) d va = 0)"
    using copyuvm_copies[OF s(3) len pr] by blast
  have "in_pages PGSIZE (ucast (12288 :: u32)) 0x2345" "user_va 0x2345"
    by (simp_all add: in_pages_def user_va_def PGROUNDDOWN_def)
  then show ?thesis using s(1,2) s2 by auto
qed

section \<open>Writing through the tables\<close>

definition accessible :: "memory \<Rightarrow> u64 \<Rightarrow> u64 \<Rightarrow> bool" where
  "accessible m root va \<longleftrightarrow> present m root va \<and> upte m root va AND PTE_U \<noteq> 0"

text \<open>The byte a user program sees at \<open>va\<close>.\<close>

definition ubyte :: "memory \<Rightarrow> u64 \<Rightarrow> u64 \<Rightarrow> u8" where
  "ubyte m root va = m (frame m root va + (va - PGROUNDDOWN va))"

lemma runs_uva2ka:
  assumes A: "as_inv s root xs" and va: "user_va va"
  shows "runs (uva2ka root va) s Q = Q (if accessible (pmem s) root va then frame (pmem s) root va else 0) s"
proof (cases "tbl (pmem s) root (vpath va)")
  case None
  then show ?thesis
    using va by (simp add: uva2ka_def runs_lookup[OF as_inv_pt[OF A]] accessible_def present_def upte_def)
next
  case (Some t)
  have nz: "entry t (PTX va) \<noteq> 0"
    by (rule entry_nonzero) (use table_facts[OF as_inv_pt[OF A] upath_vpath[OF va] Some] in auto)
  have e: "ld64 (pmem s) (entry t (PTX va)) = upte (pmem s) root va" using Some by (simp add: upte_def)
  show ?thesis
    using nz Some va frame_facts(4)[OF A va]
    by (auto simp: uva2ka_def runs_lookup[OF as_inv_pt[OF A]] load_def e accessible_def present_def runs_p2v frame_def)
qed

lemma unat_page_off: "unat (va - PGROUNDDOWN va) = unat va mod 4096"
  by (simp add: unat_sub_u64 PGROUNDDOWN_le unat_PGROUNDDOWN minus_div_mult_eq_mod)

lemma byte_of_page: "i < 4096 \<Longrightarrow> m (x + of_nat i) = bytes_at m x 4096 ! i"
  by (simp add: bytes_at_def)

text \<open>Storing \<open>bs\<close> at offset \<open>off\<close> of a page.\<close>

lemma store_in_page:
  assumes "page_aligned x" "off + length bs \<le> 4096"
  shows "agree_off x m (store_bytes (x + of_nat off) bs m)"
    "i < 4096 \<Longrightarrow> store_bytes (x + of_nat off) bs m (x + of_nat i) =
       (if off \<le> i \<and> i < off + length bs then bs ! (i - off) else m (x + of_nat i))"
proof -
  have ux: "unat (x + of_nat j) = unat x + j" if "j < 4096" for j
    using page_bound[OF assms(1)] that by (simp add: unat_word_ariths unat_of_nat)
  show "agree_off x m (store_bytes (x + of_nat off) bs m)"
  proof (cases "bs = []")
    case True
    then show ?thesis by (simp add: agree_off_def store_bytes_def)
  next
    case False
    then have "off < 4096" using assms(2) by (cases bs) auto
    show ?thesis unfolding agree_off_def
    proof (intro allI impI)
      fix b n assume "apart x 4096 b n"
      then have "apart (x + of_nat off) (length bs) b n" using ux[OF \<open>off < 4096\<close>] assms(2) by (auto simp: apart_def)
      then show "bytes_at (store_bytes (x + of_nat off) bs m) b n = bytes_at m b n" by (rule bytes_at_other)
    qed
  qed
  show "store_bytes (x + of_nat off) bs m (x + of_nat i) =
       (if off \<le> i \<and> i < off + length bs then bs ! (i - off) else m (x + of_nat i))" if i: "i < 4096"
  proof (cases "off < 4096")
    case True
    have "unat (x + of_nat i - (x + of_nat off)) = (if off \<le> i then i - off else 2 ^ 64 + i - off)"
      using ux[OF i] ux[OF True] i True by (simp add: unat_sub_u64 word_le_nat_alt unat_of_nat)
    then show ?thesis using assms(2) i by (auto simp: store_bytes_def)
  next
    case False
    then show ?thesis using assms(2) i by (simp add: store_bytes_def)
  qed
qed

lemma as_inv_write:
  assumes A: "as_inv s root xs" and d: "data_page s root xs d" and m: "agree_off d (pmem s) m"
  shows "as_inv (s\<lparr>pmem := m\<rparr>) root xs" "\<And>va. user_va va \<Longrightarrow> upte m root va = upte (pmem s) root va"
proof -
  note w = data_write[OF as_inv_pt[OF A] d m]
  note t = touched_facts[OF w(1)]
  show up: "upte m root va = upte (pmem s) root va" if "user_va va" for va using t(3)[OF that] by simp
  have f: "frame m root va = frame (pmem s) root va" "present m root va = present (pmem s) root va" if "user_va va" for va
    by (simp_all add: frame_def present_def up[OF that])
  have dp: "data_page (s\<lparr>pmem := m\<rparr>) root xs e" if "data_page s root xs e" for e
    using t(4)[OF that] w(2) by (cases "e = d") auto
  show "as_inv (s\<lparr>pmem := m\<rparr>) root xs"
    unfolding as_inv_def
  proof (intro conjI allI impI)
    show "pt_inv (s\<lparr>pmem := m\<rparr>) root xs" by (rule t(1))
    show "KERNBASE < link_end (s\<lparr>pmem := m\<rparr>)" using A by (simp add: as_inv_def)
    fix va assume va: "user_va va" "present (pmem (s\<lparr>pmem := m\<rparr>)) root va"
    then show "data_page (s\<lparr>pmem := m\<rparr>) root xs (frame (pmem (s\<lparr>pmem := m\<rparr>)) root va)"
      using dp[OF frame_facts(1)[OF A va(1)]] f[OF va(1)] by simp
    fix vb assume vb: "user_va vb" "present (pmem (s\<lparr>pmem := m\<rparr>)) root vb"
      "frame (pmem (s\<lparr>pmem := m\<rparr>)) root va = frame (pmem (s\<lparr>pmem := m\<rparr>)) root vb"
    then have "present (pmem s) root va" "present (pmem s) root vb" "frame (pmem s) root va = frame (pmem s) root vb"
      using va f[OF va(1)] f[OF vb(1)] by simp_all
    then show "PGROUNDDOWN va = PGROUNDDOWN vb" using A va(1) vb(1) unfolding as_inv_def by blast
  qed
qed

lemma ubyte_store:
  assumes A: "as_inv s root xs" and a: "user_va a" "present (pmem s) root a" and v: "user_va v" "present (pmem s) root v"
    and bs: "off + length bs \<le> 4096"
  shows "ubyte (store_bytes (frame (pmem s) root a + of_nat off) bs (pmem s)) root v =
    (if PGROUNDDOWN v = PGROUNDDOWN a \<and> off \<le> unat v mod 4096 \<and> unat v mod 4096 < off + length bs
     then bs ! (unat v mod 4096 - off) else ubyte (pmem s) root v)"
proof -
  let ?x = "frame (pmem s) root a" and ?m = "store_bytes (frame (pmem s) root a + of_nat off) bs (pmem s)"
  have al: "page_aligned ?x" using frame_facts(2)[OF A a] by (rule managed_aligned)
  note si = store_in_page[OF al bs, where m = "pmem s"]
  note w = as_inv_write[OF A frame_facts(1)[OF A a] si(1)]
  have fr: "frame ?m root v = frame (pmem s) root v" using w(2)[OF v(1)] by (simp add: frame_def)
  have o: "v - PGROUNDDOWN v = of_nat (unat v mod 4096)" by (metis unat_page_off of_nat_unat ucast_id)
  show ?thesis
  proof (cases "PGROUNDDOWN v = PGROUNDDOWN a")
    case True
    then have "frame (pmem s) root v = ?x" using upte_page[OF True v(1) a(1)] by (simp add: frame_def)
    then show ?thesis using True si(2)[of "unat v mod 4096"] unfolding ubyte_def fr o by simp
  next
    case False
    then have "frame (pmem s) root v \<noteq> ?x" using A a v unfolding as_inv_def by blast
    then have "apart ?x 4096 (frame (pmem s) root v) 4096"
      using al managed_aligned[OF frame_facts(2)[OF A v]] by (intro pages_apart) auto
    then have "bytes_at ?m (frame (pmem s) root v) 4096 = bytes_at (pmem s) (frame (pmem s) root v) 4096"
      using si(1) by (simp add: agree_off_def)
    then have "?m (frame (pmem s) root v + of_nat (unat v mod 4096)) = pmem s (frame (pmem s) root v + of_nat (unat v mod 4096))"
      by (simp only: byte_of_page[OF mod_less_divisor[OF zero_less_numeral]])
    then show ?thesis using False by (simp only: ubyte_def fr o) simp
  qed
qed

lemma in_page:
  assumes "page_aligned a"
  shows "x div 4096 * 4096 = unat a \<longleftrightarrow> unat a \<le> x \<and> x < unat a + 4096"
proof -
  obtain i where i: "unat a = 4096 * i" using assms by (auto simp: page_aligned_def elim!: dvdE)
  have "x div 4096 = i \<longleftrightarrow> 4096 * i \<le> x \<and> x < 4096 * i + 4096"
    using div_mult_mod_eq[of x 4096] mod_less_divisor[of 4096 x] by (auto intro!: div_nat_eqI)
  then show ?thesis by (simp add: i mult.commute)
qed

definition written :: "u64 \<Rightarrow> u8 list \<Rightarrow> (u64 \<Rightarrow> u8) \<Rightarrow> u64 \<Rightarrow> u8" where
  "written va buf f v = (if unat va \<le> unat v \<and> unat v < unat va + length buf then buf ! (unat v - unat va) else f v)"

lemma runs_copyout:
  fixes s :: "'z mm_scheme"
  assumes "as_inv s root xs" "unat va + length buf \<le> 2 ^ 47"
    and "\<And>v. unat va \<le> unat v \<Longrightarrow> unat v < unat va + length buf \<Longrightarrow> accessible (pmem s) root v"
    and "\<And>s'. as_inv s' root xs \<Longrightarrow> (\<And>v. user_va v \<Longrightarrow> upte (pmem s') root v = upte (pmem s) root v) \<Longrightarrow>
      (\<And>v. user_va v \<Longrightarrow> present (pmem s) root v \<Longrightarrow>
         ubyte (pmem s') root v = written va buf (ubyte (pmem s) root) v) \<Longrightarrow> Q 0 s'"
  shows "runs (copyout root va buf) s Q"
  using assms
proof (induction "length buf" arbitrary: va buf s rule: less_induct)
  case less
  show ?case
  proof (cases "buf = []")
    case True
    then have "Q 0 s" by (intro less.prems(4)[OF less.prems(1)]) (auto simp: written_def)
    then show ?thesis using True by (simp add: copyout.simps)
  next
    case False
    define a off n where "a = PGROUNDDOWN va" and "off = unat va - unat (PGROUNDDOWN va)"
      and "n = min (4096 - off) (length buf)"
    have va: "user_va va" using less.prems(2) False by (cases buf) (auto simp: user_va_def)
    have off: "off = unat va mod 4096" "off < 4096" "unat va = unat a + off"
      using unat_PGROUNDDOWN[of va] div_mult_mod_eq[of "unat va" 4096]
      by (simp_all add: off_def a_def minus_div_mult_eq_mod)
    have a: "page_aligned a" "user_va a" "PGROUNDDOWN a = a" "PGROUNDDOWN va = PGROUNDDOWN a"
      using va off(3) PGROUNDDOWN_id[OF PGROUNDDOWN_aligned, of va]
      by (simp_all add: a_def PGROUNDDOWN_aligned user_va_def)
    have n: "0 < n" "n \<le> length buf" "off + n \<le> 4096" "n = length buf \<or> off + n = 4096"
      using off(2) False by (auto simp: n_def min_def)
    have acc: "accessible (pmem s) root a"
      using less.prems(3)[of va] upte_page[OF a(4) va a(2)] False by (simp add: accessible_def present_def)
    then have pr: "present (pmem s) root a" by (simp add: accessible_def)
    note ff = frame_facts[OF less.prems(1) a(2) pr]
    have nz: "frame (pmem s) root a \<noteq> 0" using ff(2) less.prems(1) by (auto simp: managed_page_def as_inv_def)
    let ?m = "store_bytes (frame (pmem s) root a + of_nat off) (take n buf) (pmem s)"
    have len: "length (take n buf) = n" using n by simp
    note w = as_inv_write[OF less.prems(1) ff(1) store_in_page(1)[OF managed_aligned[OF ff(2)], of off "take n buf", unfolded len, OF n(3)]]
    have ub: "unat a + 4096 \<le> 2 ^ 47" by (rule user_page_bound[OF a(1,2)])
    then have u: "unat (a + PGSIZE) = unat a + 4096" by (simp add: unat_word_ariths)
    have "runs (copyout root (a + PGSIZE) (drop n buf)) (s\<lparr>pmem := ?m\<rparr>) Q"
    proof (rule less.hyps[OF _ w(1)])
      show "unat (a + PGSIZE) + length (drop n buf) \<le> 2 ^ 47"
        using u ub less.prems(2) off(3) n by auto
      show "accessible (pmem (s\<lparr>pmem := ?m\<rparr>)) root v"
        if "unat (a + PGSIZE) \<le> unat v" "unat v < unat (a + PGSIZE) + length (drop n buf)" for v
      proof -
        have "unat va \<le> unat v" "unat v < unat va + length buf" using that u off(3) n by auto
        moreover from this have "user_va v" using less.prems(2) by (simp add: user_va_def)
        ultimately show ?thesis using less.prems(3)[of v] w(2)[of v] by (simp add: accessible_def present_def)
      qed
    next
      fix s' :: "'z mm_scheme"
      assume 1: "as_inv s' root xs" "\<And>v. user_va v \<Longrightarrow> upte (pmem s') root v = upte (pmem (s\<lparr>pmem := ?m\<rparr>)) root v"
        "\<And>v. user_va v \<Longrightarrow> present (pmem (s\<lparr>pmem := ?m\<rparr>)) root v \<Longrightarrow>
          ubyte (pmem s') root v = written (a + PGSIZE) (drop n buf) (ubyte (pmem (s\<lparr>pmem := ?m\<rparr>)) root) v"
      show "Q 0 s'"
      proof (rule less.prems(4)[OF 1(1)])
        show "upte (pmem s') root v = upte (pmem s) root v" if "user_va v" for v using 1(2) w(2) that by simp
        show "ubyte (pmem s') root v = written va buf (ubyte (pmem s) root) v" if v: "user_va v" "present (pmem s) root v" for v
        proof -
          have b: "ubyte ?m root v = (if PGROUNDDOWN v = PGROUNDDOWN a \<and> off \<le> unat v mod 4096 \<and> unat v mod 4096 < off + n
             then take n buf ! (unat v mod 4096 - off) else ubyte (pmem s) root v)"
            using ubyte_store[OF less.prems(1) a(2) pr v, of off "take n buf"] n by simp
          have "PGROUNDDOWN v = a \<longleftrightarrow> unat (PGROUNDDOWN v) = unat a" by (metis unsigned_word_eqI)
          then have pg: "PGROUNDDOWN v = PGROUNDDOWN a \<longleftrightarrow> unat a \<le> unat v \<and> unat v < unat a + 4096"
            using in_page[OF a(1), of "unat v"] by (simp add: a(3) unat_PGROUNDDOWN)
          have r: "unat v mod 4096 = unat v - unat a" if "PGROUNDDOWN v = PGROUNDDOWN a"
            using that unat_PGROUNDDOWN[of v] minus_div_mult_eq_mod[of "unat v" 4096] by (simp add: a(3))
          have "present (pmem (s\<lparr>pmem := ?m\<rparr>)) root v" using v w(2)[OF v(1)] by (simp add: present_def)
          from 1(3)[OF v(1) this] have e: "ubyte (pmem s') root v = written (a + PGSIZE) (drop n buf) (ubyte ?m root) v" by simp
          show ?thesis
          proof (cases "PGROUNDDOWN v = PGROUNDDOWN a")
            case True
            then have "\<not> unat (a + PGSIZE) \<le> unat v" using pg u by simp
            then have "ubyte (pmem s') root v = ubyte ?m root v" using e by (simp only: written_def) simp
            also have "\<dots> = written va buf (ubyte (pmem s) root) v"
              using True r[OF True] pg off(3) n unfolding b written_def by auto
            finally show ?thesis .
          next
            case False
            then have out: "unat v < unat a \<or> unat a + 4096 \<le> unat v" using pg by auto
            have "unat (a + PGSIZE) \<le> unat v \<and> unat v < unat (a + PGSIZE) + length (drop n buf) \<longleftrightarrow>
                unat va \<le> unat v \<and> unat v < unat va + length buf"
              using out u off(2,3) n by auto
            moreover have "drop n buf ! (unat v - unat (a + PGSIZE)) = buf ! (unat v - unat va)"
              if "unat (a + PGSIZE) \<le> unat v" "unat v < unat (a + PGSIZE) + length (drop n buf)"
            proof -
              have "n + (unat v - unat (a + PGSIZE)) = unat v - unat va" using that u off(2,3) n by auto
              then show ?thesis by (simp only: nth_drop[OF n(2)])
            qed
            ultimately show ?thesis using e b False by (auto simp only: written_def split: if_splits)
          qed
        qed
      qed
    qed (use n in auto)
    moreover have "unat a + 4096 < 2 ^ 64" using ub by simp
    moreover have "unat va - unat a = off" by (simp add: off_def a_def)
    ultimately show ?thesis
      using False acc nz
      by (simp add: copyout.simps[of root va] runs_uva2ka[OF less.prems(1)] a a_def[symmetric] n_def[symmetric] Let_def)
  qed
qed

text \<open>
  C24: \<open>copyout\<close> on a range of accessible user pages. It returns 0; a user program then reads the
  given bytes in the range and what it read before everywhere else, and no mapping changes.
\<close>

theorem copyout_writes:
  assumes "as_inv s root xs" "unat va + length buf \<le> 2 ^ 47"
    and "\<forall>v. unat va \<le> unat v \<longrightarrow> unat v < unat va + length buf \<longrightarrow> accessible (pmem s) root v"
  shows "\<exists>s'. copyout root va buf s = Inr (0, s') \<and> as_inv s' root xs \<and>
    (\<forall>v. user_va v \<longrightarrow> upte (pmem s') root v = upte (pmem s) root v) \<and>
    (\<forall>v. user_va v \<longrightarrow> present (pmem s) root v \<longrightarrow> ubyte (pmem s') root v =
       (if unat va \<le> unat v \<and> unat v < unat va + length buf then buf ! (unat v - unat va) else ubyte (pmem s) root v))"
proof -
  have "runs (copyout root va buf) s (\<lambda>r s'. r = 0 \<and> as_inv s' root xs \<and>
    (\<forall>v. user_va v \<longrightarrow> upte (pmem s') root v = upte (pmem s) root v) \<and>
    (\<forall>v. user_va v \<longrightarrow> present (pmem s) root v \<longrightarrow> ubyte (pmem s') root v =
       (if unat va \<le> unat v \<and> unat v < unat va + length buf then buf ! (unat v - unat va) else ubyte (pmem s) root v)))"
    by (rule runs_copyout[OF assms(1,2)]) (use assms(3) in \<open>simp_all add: written_def\<close>)
  then show ?thesis by (auto simp: runs_Inr)
qed

theorem copyout_writes_witness:
  "\<exists>root s0 s1 s2. demo_boot vm_demo = Inr (root, s0) \<and> allocuvm root 4096 12288 s0 = Inr (12288, s1) \<and>
     copyout root 0x1FFF [7, 8] s1 = Inr (0, s2) \<and> ubyte (pmem s2) root 0x1FFF = 7 \<and> ubyte (pmem s2) root 0x2000 = 8"
proof -
  obtain root s0 s1 xs1 where s: "demo_boot vm_demo = Inr (root, s0)" "allocuvm root 4096 12288 s0 = Inr (12288, s1)"
    "as_inv s1 root xs1" "\<forall>va. in_pages PGSIZE 12288 va \<longrightarrow> accessible (pmem s1) root va"
    using demo_grown unfolding accessible_def by blast
  have acc: "\<forall>v. unat (0x1FFF :: u64) \<le> unat v \<longrightarrow> unat v < unat (0x1FFF :: u64) + length [7, 8 :: u8] \<longrightarrow> accessible (pmem s1) root v"
  proof (intro allI impI)
    fix v :: u64 assume "unat (0x1FFF :: u64) \<le> unat v" "unat v < unat (0x1FFF :: u64) + length [7, 8 :: u8]"
    then have "unat v = 0x1FFF \<or> unat v = 0x2000" by auto
    then have "in_pages PGSIZE 12288 v"
      by (auto simp: in_pages_def user_va_def word_le_nat_alt word_less_nat_alt unat_PGROUNDDOWN)
    then show "accessible (pmem s1) root v" using s(4) by blast
  qed
  obtain s2 where s2: "copyout root 0x1FFF [7, 8] s1 = Inr (0, s2)"
    "\<forall>v. user_va v \<longrightarrow> present (pmem s1) root v \<longrightarrow> ubyte (pmem s2) root v =
       (if unat (0x1FFF :: u64) \<le> unat v \<and> unat v < unat (0x1FFF :: u64) + length [7, 8 :: u8]
        then [7, 8] ! (unat v - unat (0x1FFF :: u64)) else ubyte (pmem s1) root v)"
    using copyout_writes[OF s(3) _ acc] by auto
  have "user_va 0x1FFF" "user_va 0x2000" by (simp_all add: user_va_def)
  moreover have "present (pmem s1) root 0x1FFF" "present (pmem s1) root 0x2000" using acc by (auto simp: accessible_def)
  ultimately have "ubyte (pmem s2) root 0x1FFF = 7" "ubyte (pmem s2) root 0x2000 = 8" using s2(2) by auto
  then show ?thesis using s(1,2) s2(1) by blast
qed

end
