(* ===== verification/Xv6_File.thy ===== *)
theory Xv6_File
  imports Xv6_Content Xv6_Vm Xv6_Ring
begin

text \<open>
  Open files (\<^verbatim>\<open>crates/fs/src/file.rs\<close>) and pipes (\<^verbatim>\<open>crates/fs/src/pipe.rs\<close>).

  The kernel state gains the table of open files, the pipes, addressed by the page they live in, and the
  physical memory of \<^verbatim>\<open>Xv6_Vm\<close>; \<open>vmop\<close> runs an operation of the memory component in the bigger state.
  A pipe operation that has to wait ends with \<open>Wait\<close> and the place at which it continues once it has been
  woken up; the lock of the pipe is then still held, and \<open>sleep\<close> gives it up. \<open>pipewrite\<close> and
  \<open>piperead\<close> themselves stop with \<open>Sleep\<close> there.
\<close>

section \<open>Pipes\<close>

definition PIPESIZE :: nat where [simp]: "PIPESIZE = 512"

record pipe =
  pi_data :: "u8 list"
  pi_nread :: u32
  pi_nwrite :: u32
  pi_readopen :: bool
  pi_writeopen :: bool

datatype filetype = FD_NONE | FD_PIPE | FD_INODE

record File =
  f_type :: filetype
  f_ref :: i32
  f_readable :: bool
  f_writable :: bool
  f_pipe :: u64
  f_ip :: "nat option"
  f_off :: u32

definition file_empty :: File where
  "file_empty = \<lparr>f_type = FD_NONE, f_ref = 0, f_readable = False, f_writable = False, f_pipe = 0, f_ip = None, f_off = 0\<rparr>"

definition NFILE :: nat where "NFILE = 100"

record kfile = kfs +
  ftable :: "nat \<Rightarrow> File"
  pipes :: "u64 \<Rightarrow> pipe"
  kvm :: vmem

definition vmop :: "(vmem, 'a) kop \<Rightarrow> ('z kfile_scheme, 'a) kop" where
  "vmop m s = (case m (kvm s) of Inl e \<Rightarrow> Inl e | Inr (x, v) \<Rightarrow> Inr (x, s\<lparr>kvm := v\<rparr>))"

lemma runs_vmop [wp, simp]: "runs (vmop m) s Q = runs m (kvm s) (\<lambda>x v. Q x (s\<lparr>kvm := v\<rparr>))"
  by (simp add: vmop_def runs_def split: sum.split prod.split)

definition upd_file :: "nat \<Rightarrow> (File \<Rightarrow> File) \<Rightarrow> 'z kfile_scheme \<Rightarrow> 'z kfile_scheme" where
  "upd_file f g s = s\<lparr>ftable := (ftable s)(f := g (ftable s f))\<rparr>"

definition upd_pipe :: "u64 \<Rightarrow> (pipe \<Rightarrow> pipe) \<Rightarrow> 'z kfile_scheme \<Rightarrow> 'z kfile_scheme" where
  "upd_pipe p g s = s\<lparr>pipes := (pipes s)(p := g (pipes s p))\<rparr>"

definition my_proc_killed :: "('z kern_scheme, i32) kop" where
  "my_proc_killed = bnd my_proc (\<lambda>p. gets (\<lambda>s. pr_killed (ptable s p)))"

text \<open>The sum in \<open>is_full\<close> is checked.\<close>

definition pipe_is_full :: "pipe \<Rightarrow> ('s, bool) kop" where
  "pipe_is_full p = bnd (u32_add (pi_nread p) (of_nat PIPESIZE)) (\<lambda>e. ret (pi_nwrite p = e))"

definition pipe_is_empty :: "pipe \<Rightarrow> bool" where "pipe_is_empty p \<longleftrightarrow> pi_nread p = pi_nwrite p"
definition pipe_is_dead :: "pipe \<Rightarrow> bool" where "pipe_is_dead p \<longleftrightarrow> \<not> pi_readopen p \<and> \<not> pi_writeopen p"
definition read_pos :: "pipe \<Rightarrow> nat" where "read_pos p = unat (pi_nread p mod of_nat PIPESIZE)"
definition write_pos :: "pipe \<Rightarrow> nat" where "write_pos p = unat (pi_nwrite p mod of_nat PIPESIZE)"

abbreviation LkP :: "u64 \<Rightarrow> lockid" where "LkP p \<equiv> LkPipe (unat p)"
abbreviation ChR :: "u64 \<Rightarrow> chan" where "ChR p \<equiv> ChPipeRead (unat p)"
abbreviation ChW :: "u64 \<Rightarrow> chan" where "ChW p \<equiv> ChPipeWrite (unat p)"

definition pipeclose :: "u64 \<Rightarrow> bool \<Rightarrow> ('z kfile_scheme, unit) kop" where
  "pipeclose p writable = bnd (acquire (LkP p)) (\<lambda>_.
     bnd (if writable then bnd (modify (upd_pipe p (\<lambda>q. q\<lparr>pi_writeopen := False\<rparr>))) (\<lambda>_. wakeup (ChR p))
          else bnd (modify (upd_pipe p (\<lambda>q. q\<lparr>pi_readopen := False\<rparr>))) (\<lambda>_. wakeup (ChW p))) (\<lambda>_.
     bnd (gets (\<lambda>s. pipe_is_dead (pipes s p))) (\<lambda>dead.
     bnd (release (LkP p)) (\<lambda>_.
     whenk dead (vmop (kfree p))))))"

datatype ('a, 'b) waits = Done 'a | Wait 'b

text \<open>
  The loop of \<open>pipewrite\<close> from byte \<open>i\<close> on, with the lock held; \<open>src\<close> are the bytes behind \<open>addr\<close>,
  and to read behind them is a fault.
\<close>

definition pipe_put :: "u64 \<Rightarrow> u8 \<Rightarrow> ('z kfile_scheme, unit) kop" where
  "pipe_put p b = bnd (modify (upd_pipe p (\<lambda>q. q\<lparr>pi_data := (pi_data q)[write_pos q := b]\<rparr>))) (\<lambda>_.
     bnd (gets (\<lambda>s. pi_nwrite (pipes s p))) (\<lambda>w.
     bnd (u32_add w 1) (\<lambda>w'.
     modify (upd_pipe p (\<lambda>q. q\<lparr>pi_nwrite := w'\<rparr>)))))"

function pipewrite_from :: "u64 \<Rightarrow> u8 list \<Rightarrow> nat \<Rightarrow> nat \<Rightarrow> ('z kfile_scheme, (bool, nat) waits) kop" where
  "pipewrite_from p src n i = (if n \<le> i then
       bnd (wakeup (ChR p)) (\<lambda>_. bnd (release (LkP p)) (\<lambda>_. ret (Done True)))
     else
       bnd (gets (\<lambda>s. pipes s p)) (\<lambda>q.
       bnd (pipe_is_full q) (\<lambda>full.
       if full then
         bnd (if pi_readopen q then my_proc_killed else ret 1) (\<lambda>k.
         if k \<noteq> 0 then bnd (release (LkP p)) (\<lambda>_. ret (Done False))
         else bnd (wakeup (ChR p)) (\<lambda>_. ret (Wait i)))
       else
         bnd (guardk (i < length src) (Fault ''pipewrite: addr'')) (\<lambda>_.
         bnd (pipe_put p (src ! i)) (\<lambda>_.
         pipewrite_from p src n (Suc i))))))"
  by pat_completeness auto
termination
  by (relation "measure (\<lambda>(p, src, n, i). n - i)") auto

declare pipewrite_from.simps [simp del]

definition pipewrite :: "u64 \<Rightarrow> u8 list \<Rightarrow> i32 \<Rightarrow> ('z kfile_scheme, i32) kop" where
  "pipewrite p src n = bnd (acquire (LkP p)) (\<lambda>_.
     bnd (pipewrite_from p src (usize_of_i32 n) 0) (\<lambda>r. case r of
         Done ok \<Rightarrow> ret (if ok then n else -1)
       | Wait i \<Rightarrow> stopk (Sleep (ChW p))))"

text \<open>The waiting loop of \<open>piperead\<close> and its copying loop, which gives back the bytes it stores.\<close>

definition piperead_wait :: "u64 \<Rightarrow> ('z kfile_scheme, (bool, unit) waits) kop" where
  "piperead_wait p = bnd (gets (\<lambda>s. pipes s p)) (\<lambda>q.
     if pipe_is_empty q \<and> pi_writeopen q then
       bnd my_proc_killed (\<lambda>k.
       if k \<noteq> 0 then bnd (release (LkP p)) (\<lambda>_. ret (Done False)) else ret (Wait ()))
     else ret (Done True))"

function piperead_copy :: "u64 \<Rightarrow> i32 \<Rightarrow> i32 \<Rightarrow> ('z kfile_scheme, u8 list) kop" where
  "piperead_copy p n count = (if count < n then
       bnd (gets (\<lambda>s. pipes s p)) (\<lambda>q.
       if pipe_is_empty q then ret []
       else
         bnd (u32_add (pi_nread q) 1) (\<lambda>r.
         bnd (modify (upd_pipe p (\<lambda>q. q\<lparr>pi_nread := r\<rparr>))) (\<lambda>_.
         bnd (piperead_copy p n (count + 1)) (\<lambda>bs.
         ret (pi_data q ! read_pos q # bs)))))
     else ret [])"
  by pat_completeness auto
termination
  by (relation "measure (\<lambda>(p, n, count). nat (n - count))") auto

declare piperead_copy.simps [simp del]

definition piperead_body :: "u64 \<Rightarrow> i32 \<Rightarrow> ('z kfile_scheme, (i32 \<times> u8 list, unit) waits) kop" where
  "piperead_body p n = bnd (piperead_wait p) (\<lambda>w. case w of
       Wait u \<Rightarrow> ret (Wait ())
     | Done False \<Rightarrow> ret (Done (-1, []))
     | Done True \<Rightarrow>
         bnd (piperead_copy p n 0) (\<lambda>bs.
         bnd (wakeup (ChW p)) (\<lambda>_.
         bnd (release (LkP p)) (\<lambda>_.
         ret (Done (int (length bs), bs))))))"

definition piperead :: "u64 \<Rightarrow> i32 \<Rightarrow> ('z kfile_scheme, i32 \<times> u8 list) kop" where
  "piperead p n = bnd (acquire (LkP p)) (\<lambda>_.
     bnd (piperead_body p n) (\<lambda>r. case r of Done x \<Rightarrow> ret x | Wait u \<Rightarrow> stopk (Sleep (ChR p))))"

section \<open>The table of open files\<close>

definition file_is_free :: "File \<Rightarrow> bool" where "file_is_free f \<longleftrightarrow> f_ref f = 0"
definition can_read :: "File \<Rightarrow> bool" where "can_read f \<longleftrightarrow> f_readable f"
definition can_write :: "File \<Rightarrow> bool" where "can_write f \<longleftrightarrow> f_writable f"

definition fileinit :: "('z kfile_scheme, unit) kop" where
  "fileinit = initlock LkFtable ''ftable''"

definition filealloc :: "('z kfile_scheme, nat option) kop" where
  "filealloc = bnd (acquire LkFtable) (\<lambda>_.
     bnd (gets (\<lambda>s. find (\<lambda>f. file_is_free (ftable s f)) [0..<NFILE])) (\<lambda>r. case r of
         Some f \<Rightarrow>
           bnd (modify (upd_file f (\<lambda>x. x\<lparr>f_ref := 1\<rparr>))) (\<lambda>_.
           bnd (release LkFtable) (\<lambda>_. ret (Some f)))
       | None \<Rightarrow> bnd (release LkFtable) (\<lambda>_. ret None)))"

definition filedup :: "nat \<Rightarrow> ('z kfile_scheme, nat) kop" where
  "filedup f = bnd (acquire LkFtable) (\<lambda>_.
     bnd (gets (\<lambda>s. f_ref (ftable s f))) (\<lambda>r.
     bnd (guardk (1 \<le> r) (Panic ''filedup'')) (\<lambda>_.
     bnd (i32_add r 1) (\<lambda>r'.
     bnd (modify (upd_file f (\<lambda>x. x\<lparr>f_ref := r'\<rparr>))) (\<lambda>_.
     bnd (release LkFtable) (\<lambda>_. ret f))))))"

definition iput_null :: "nat option \<Rightarrow> ('z kfs_scheme, unit) kop" where
  "iput_null ip = (case ip of None \<Rightarrow> stopk (Fault ''iput: null'') | Some i \<Rightarrow> iput i)"

definition fileclose :: "nat \<Rightarrow> ('z kfile_scheme, unit) kop" where
  "fileclose f = bnd (acquire LkFtable) (\<lambda>_.
     bnd (gets (\<lambda>s. ftable s f)) (\<lambda>ff.
     bnd (guardk (1 \<le> f_ref ff) (Panic ''fileclose'')) (\<lambda>_.
     bnd (modify (upd_file f (\<lambda>x. x\<lparr>f_ref := f_ref ff - 1\<rparr>))) (\<lambda>_.
     if 0 < f_ref ff - 1 then release LkFtable
     else
       bnd (modify (upd_file f (\<lambda>x. x\<lparr>f_type := FD_NONE, f_pipe := 0, f_ip := None\<rparr>))) (\<lambda>_.
       bnd (release LkFtable) (\<lambda>_.
       case f_type ff of
           FD_PIPE \<Rightarrow> pipeclose (f_pipe ff) (f_writable ff)
         | FD_INODE \<Rightarrow>
             bnd begin_op (\<lambda>_.
             bnd (iput_null (f_ip ff)) (\<lambda>_.
             end_op))
         | FD_NONE \<Rightarrow> ret ()))))))"

definition cleanup :: "u64 \<Rightarrow> nat option \<Rightarrow> nat option \<Rightarrow> ('z kfile_scheme, i32) kop" where
  "cleanup p f0 f1 =
     bnd (whenk (p \<noteq> 0) (vmop (kfree p))) (\<lambda>_.
     bnd (case f0 of None \<Rightarrow> ret () | Some f \<Rightarrow> fileclose f) (\<lambda>_.
     bnd (case f1 of None \<Rightarrow> ret () | Some f \<Rightarrow> fileclose f) (\<lambda>_.
     ret (-1))))"

text \<open>The results stored through \<open>f0\<close> and \<open>f1\<close> are returned with the status.\<close>

definition pipealloc :: "('z kfile_scheme, i32 \<times> nat option \<times> nat option) kop" where
  "pipealloc = bnd filealloc (\<lambda>r0. case r0 of
       None \<Rightarrow> bnd (cleanup 0 None None) (\<lambda>r. ret (r, None, None))
     | Some f0 \<Rightarrow> bnd filealloc (\<lambda>r1. case r1 of
           None \<Rightarrow> bnd (cleanup 0 (Some f0) None) (\<lambda>r. ret (r, Some f0, None))
         | Some f1 \<Rightarrow>
             bnd (vmop kalloc) (\<lambda>p.
             if p = 0 then bnd (cleanup 0 (Some f0) (Some f1)) (\<lambda>r. ret (r, Some f0, Some f1))
             else
               bnd (modify (upd_pipe p (\<lambda>q. q\<lparr>pi_readopen := True, pi_writeopen := True, pi_nwrite := 0, pi_nread := 0\<rparr>))) (\<lambda>_.
               bnd (initlock (LkP p) ''pipe'') (\<lambda>_.
               bnd (modify (upd_file f0 (\<lambda>x. x\<lparr>f_type := FD_PIPE, f_readable := True, f_writable := False, f_pipe := p\<rparr>))) (\<lambda>_.
               bnd (modify (upd_file f1 (\<lambda>x. x\<lparr>f_type := FD_PIPE, f_readable := False, f_writable := True, f_pipe := p\<rparr>))) (\<lambda>_.
               ret (0, Some f0, Some f1))))))))"

definition filestat :: "nat \<Rightarrow> ('z kfile_scheme, i32 \<times> stat option) kop" where
  "filestat f = bnd (gets (\<lambda>s. ftable s f)) (\<lambda>ff. case (f_type ff, f_ip ff) of
       (FD_INODE, ip) \<Rightarrow>
         bnd (ilock ip) (\<lambda>_. case ip of None \<Rightarrow> stopk (Fault ''stati: null'') | Some i \<Rightarrow>
         bnd (stati i) (\<lambda>st.
         bnd (iunlock ip) (\<lambda>_.
         ret (0, Some st))))
     | _ \<Rightarrow> ret (-1, None))"

definition fileread :: "nat \<Rightarrow> i32 \<Rightarrow> ('z kfile_scheme, i32 \<times> u8 list) kop" where
  "fileread f n = bnd (gets (\<lambda>s. ftable s f)) (\<lambda>ff.
     if \<not> can_read ff then ret (-1, [])
     else case f_type ff of
         FD_PIPE \<Rightarrow> piperead (f_pipe ff) n
       | FD_INODE \<Rightarrow>
           bnd (ilock (f_ip ff)) (\<lambda>_. case f_ip ff of None \<Rightarrow> stopk (Fault ''readi: null'') | Some i \<Rightarrow>
           bnd (gets (\<lambda>s. f_off (ftable s f))) (\<lambda>off.
           bnd (readi i off (u32_of_i32 n)) (\<lambda>(r, bs).
           bnd (if 0 < r then bnd (u32_add off (u32_of_i32 r)) (\<lambda>off'. modify (upd_file f (\<lambda>x. x\<lparr>f_off := off'\<rparr>))) else ret ()) (\<lambda>_.
           bnd (iunlock (f_ip ff)) (\<lambda>_.
           ret (r, bs))))))
       | FD_NONE \<Rightarrow> panic ''fileread'')"

definition FILEMAX :: i32 where "FILEMAX = ((int LOGSIZE - 1 - 1 - 2) div 2) * 512"

text \<open>One round of the loop of \<open>filewrite\<close>: a transaction that writes the given bytes at the offset.\<close>

definition filewrite_chunk :: "nat \<Rightarrow> u8 list \<Rightarrow> ('z kfile_scheme, i32) kop" where
  "filewrite_chunk f src = bnd (gets (\<lambda>s. f_ip (ftable s f))) (\<lambda>ip.
     bnd begin_op (\<lambda>_.
     bnd (ilock ip) (\<lambda>_. case ip of None \<Rightarrow> stopk (Fault ''writei: null'') | Some i \<Rightarrow>
     bnd (gets (\<lambda>s. f_off (ftable s f))) (\<lambda>off.
     bnd (writei i src off) (\<lambda>r.
     bnd (if 0 < r then bnd (u32_add off (u32_of_i32 r)) (\<lambda>off'. modify (upd_file f (\<lambda>x. x\<lparr>f_off := off'\<rparr>))) else ret ()) (\<lambda>_.
     bnd (iunlock ip) (\<lambda>_.
     bnd end_op (\<lambda>_.
     ret r))))))))"

function filewrite_from :: "nat \<Rightarrow> u8 list \<Rightarrow> i32 \<Rightarrow> i32 \<Rightarrow> ('z kfile_scheme, i32) kop" where
  "filewrite_from f src n i = (if i < n then
       let n1 = min (n - i) FILEMAX in
       bnd (filewrite_chunk f (slice (nat i) (nat n1) src)) (\<lambda>r.
       if r < 0 then ret i
       else if r \<noteq> n1 then panic ''short filewrite''
       else filewrite_from f src n (i + n1))
     else ret i)"
  by pat_completeness auto
termination
  by (relation "measure (\<lambda>(f, src, n, i). nat (n - i))") (auto simp: FILEMAX_def LOGSIZE_def)

declare filewrite_from.simps [simp del]

definition filewrite :: "nat \<Rightarrow> u8 list \<Rightarrow> i32 \<Rightarrow> ('z kfile_scheme, i32) kop" where
  "filewrite f src n = bnd (gets (\<lambda>s. ftable s f)) (\<lambda>ff.
     if \<not> can_write ff then ret (-1)
     else case f_type ff of
         FD_PIPE \<Rightarrow> pipewrite (f_pipe ff) src n
       | FD_INODE \<Rightarrow> bnd (filewrite_from f src n 0) (\<lambda>i. ret (if i = n then n else -1))
       | FD_NONE \<Rightarrow> panic ''filewrite'')"

end
