(* ===== verification/Xv6_Proc.thy ===== *)
theory Xv6_Proc
  imports Xv6_File Xv6_Dir
begin

text \<open>
  Processes (\<^verbatim>\<open>crates/proc/src/proc.rs\<close>): creation, the first user process, memory growth, fork, exit,
  wait, kill and the scheduler.

  The kernel state gains the flag of \<open>forkret\<close>, the address of \<open>forkret\<close>, which the linker chooses, and
  the tick counter of \<^verbatim>\<open>crates/arch/src/traps.rs\<close>. \<open>exit\<close> is modelled up to the switch to the scheduler,
  and a pass of the scheduler takes what the chosen process does until it comes back as an argument.
\<close>

record kproc = kfile +
  forkret_first :: bool
  sym_forkret :: u64
  ticks :: u32

definition upd_proc :: "nat \<Rightarrow> (proc \<Rightarrow> proc) \<Rightarrow> 'z kern_scheme \<Rightarrow> 'z kern_scheme" where
  "upd_proc i f s = s\<lparr>ptable := (ptable s)(i := f (ptable s i))\<rparr>"

section \<open>Creation\<close>

definition pinit :: "('z kern_scheme, unit) kop" where
  "pinit = initlock LkPtable ''ptable''"

text \<open>
  \<open>safestrcpy\<close> into a buffer: bytes up to a NUL or the last but one, then a NUL; the rest stays.
\<close>

fun safestrcpy_from :: "u8 list \<Rightarrow> u8 list \<Rightarrow> nat \<Rightarrow> u8 list" where
  "safestrcpy_from [] src n = []"
| "safestrcpy_from (d # dst) src 0 = d # dst"
| "safestrcpy_from (d # dst) src (Suc 0) = 0 # dst"
| "safestrcpy_from (d # dst) src (Suc (Suc n)) =
     (if cstr_hd src = 0 then 0 # dst else cstr_hd src # safestrcpy_from dst (tl src) (Suc n))"

definition safestrcpy :: "u8 list \<Rightarrow> u8 list \<Rightarrow> u8 list" where
  "safestrcpy dst src = safestrcpy_from dst src (length dst)"

text \<open>
  The trap frame and the context lie in the new kernel stack; the frame keeps whatever is there until
  the caller fills it in.
\<close>

definition allocproc :: "('z kproc_scheme, nat option) kop" where
  "allocproc = bnd (acquire LkPtable) (\<lambda>_.
     bnd (gets (\<lambda>s. find (\<lambda>i. pr_state (ptable s i) = UNUSED) [0..<NPROC])) (\<lambda>r. case r of
         None \<Rightarrow> bnd (release LkPtable) (\<lambda>_. ret None)
       | Some p \<Rightarrow>
           bnd (gets nextpid) (\<lambda>pid.
           bnd (modify (upd_proc p (\<lambda>x. x\<lparr>pr_state := EMBRYO, pr_pid := pid\<rparr>))) (\<lambda>_.
           bnd (i32_add pid 1) (\<lambda>n.
           bnd (modify (\<lambda>s. s\<lparr>nextpid := n\<rparr>)) (\<lambda>_.
           bnd (release LkPtable) (\<lambda>_.
           bnd (vmop kalloc) (\<lambda>k.
           if k = 0 then bnd (modify (upd_proc p (\<lambda>x. x\<lparr>pr_state := UNUSED\<rparr>))) (\<lambda>_. ret None)
           else
             bnd (gets sym_forkret) (\<lambda>fr.
             bnd (modify (upd_proc p (\<lambda>x. x\<lparr>pr_kstack := k, pr_context := ctxt_zero\<lparr>cx_rip := fr\<rparr>\<rparr>))) (\<lambda>_.
             ret (Some p)))))))))))"

definition FL_IF :: u64 where "FL_IF = 0x200"

definition userinit :: "u8 list \<Rightarrow> ('z kproc_scheme, unit) kop" where
  "userinit initcode = bnd allocproc (\<lambda>r.
     bnd (modify (\<lambda>s. s\<lparr>initproc := r\<rparr>)) (\<lambda>_.
     bnd (vmop setupkvm) (\<lambda>pgdir.
     bnd (guardk (pgdir \<noteq> 0) (Panic ''userinit: out of memory?'')) (\<lambda>_.
     case r of None \<Rightarrow> stopk (Fault ''userinit: null'') | Some p \<Rightarrow>
     bnd (modify (upd_proc p (\<lambda>x. x\<lparr>pr_pgdir := pgdir\<rparr>))) (\<lambda>_.
     bnd (vmop (inituvm pgdir initcode (of_nat (length initcode)))) (\<lambda>_.
     bnd (modify (upd_proc p (\<lambda>x. x\<lparr>pr_sz := PGSIZE * 2,
       pr_tf := trapframe_zero\<lparr>tf_r11 := FL_IF, tf_rsp := PGSIZE * 2, tf_rcx := PGSIZE\<rparr>,
       pr_name := safestrcpy (pr_name x) [105, 110, 105, 116, 99, 111, 100, 101, 0]\<rparr>))) (\<lambda>_.
     bnd (namei [SLASH, 0]) (\<lambda>cwd.
     modify (upd_proc p (\<lambda>x. x\<lparr>pr_cwd := cwd, pr_state := RUNNABLE\<rparr>))))))))))"

text \<open>\<open>switchuvm\<close> is a stub in the source; it only nests and unnests the disabling of interrupts.\<close>

definition switchuvm :: "nat \<Rightarrow> ('z kern_scheme, unit) kop" where
  "switchuvm p = bnd pushcli (\<lambda>_. popcli)"

definition growproc :: "int \<Rightarrow> ('z kproc_scheme, i32) kop" where
  "growproc n = bnd my_proc (\<lambda>p.
     bnd (gets (\<lambda>s. ptable s p)) (\<lambda>pr.
     bnd (if 0 < n then
            bnd (u64_add (pr_sz pr) (word_of_int n)) (\<lambda>new.
            vmop (allocuvm (pr_pgdir pr) (pr_sz pr) new))
          else if n < 0 then vmop (deallocuvm (pr_pgdir pr) (pr_sz pr) (pr_sz pr + word_of_int n))
          else ret (pr_sz pr)) (\<lambda>sz.
     if n \<noteq> 0 \<and> sz = 0 then ret (-1)
     else
       bnd (modify (upd_proc p (\<lambda>x. x\<lparr>pr_sz := sz\<rparr>))) (\<lambda>_.
       bnd (switchuvm p) (\<lambda>_.
       ret 0)))))"

section \<open>Fork\<close>

text \<open>The loop over the open files of the parent \<open>p\<close>, for the child \<open>np\<close>.\<close>

definition fork_ofile :: "nat \<Rightarrow> nat \<Rightarrow> nat \<Rightarrow> ('z kfile_scheme, unit) kop" where
  "fork_ofile p np i = bnd (gets (\<lambda>s. pr_ofile (ptable s p) ! i)) (\<lambda>f. case f of
       None \<Rightarrow> ret ()
     | Some f \<Rightarrow> bnd (filedup f) (\<lambda>f'. modify (upd_proc np (\<lambda>x. x\<lparr>pr_ofile := (pr_ofile x)[i := Some f']\<rparr>))))"

text \<open>The end of \<open>fork\<close>: files, directory and name, and the child becomes runnable.\<close>

definition fork_rest :: "nat \<Rightarrow> nat \<Rightarrow> proc \<Rightarrow> ('z kproc_scheme, i32) kop" where
  "fork_rest p np pr = bnd (for_each (fork_ofile p np) [0..<NOFILE]) (\<lambda>_.
     bnd (case pr_cwd pr of None \<Rightarrow> stopk (Fault ''idup: null'') | Some c \<Rightarrow> idup c) (\<lambda>cwd.
     bnd (modify (upd_proc np (\<lambda>x. x\<lparr>pr_cwd := Some cwd, pr_name := safestrcpy (pr_name x) (pr_name pr)\<rparr>))) (\<lambda>_.
     bnd (gets (\<lambda>s. pr_pid (ptable s np))) (\<lambda>pid.
     bnd (modify (upd_proc np (\<lambda>x. x\<lparr>pr_state := RUNNABLE\<rparr>))) (\<lambda>_.
     ret pid)))))"

definition fork :: "('z kproc_scheme, i32) kop" where
  "fork = bnd my_proc (\<lambda>p.
     bnd allocproc (\<lambda>r. case r of None \<Rightarrow> ret (-1) | Some np \<Rightarrow>
     bnd (gets (\<lambda>s. ptable s p)) (\<lambda>pr.
     bnd (vmop (copyuvm (pr_pgdir pr) (ucast (pr_sz pr)))) (\<lambda>new_pgdir.
     if new_pgdir = 0 then
       bnd (gets (\<lambda>s. pr_kstack (ptable s np))) (\<lambda>k.
       bnd (vmop (kfree k)) (\<lambda>_.
       bnd (modify (upd_proc np (\<lambda>x. x\<lparr>pr_kstack := 0, pr_state := UNUSED\<rparr>))) (\<lambda>_.
       ret (-1))))
     else
       bnd (modify (upd_proc np (\<lambda>x. x\<lparr>pr_pgdir := new_pgdir, pr_sz := pr_sz pr, pr_parent := Some p,
         pr_tf := (pr_tf pr)\<lparr>tf_rax := 0\<rparr>\<rparr>))) (\<lambda>_.
       fork_rest p np pr)))))"

section \<open>Exit, wait and kill\<close>

definition exit_ofile :: "nat \<Rightarrow> nat \<Rightarrow> ('z kfile_scheme, unit) kop" where
  "exit_ofile p fd = bnd (gets (\<lambda>s. pr_ofile (ptable s p) ! fd)) (\<lambda>f. case f of
       None \<Rightarrow> ret ()
     | Some f \<Rightarrow> bnd (fileclose f) (\<lambda>_. modify (upd_proc p (\<lambda>x. x\<lparr>pr_ofile := (pr_ofile x)[fd := None]\<rparr>))))"

text \<open>The channel that is the address of a process, or null.\<close>

fun proc_chan :: "nat option \<Rightarrow> chan" where
  "proc_chan None = ChNull"
| "proc_chan (Some i) = ChProc i"

definition exit_child :: "nat \<Rightarrow> nat \<Rightarrow> ('z kern_scheme, unit) kop" where
  "exit_child p i = bnd (gets (\<lambda>s. (ptable s i, initproc s))) (\<lambda>(c, ini).
     if pr_parent c = Some p then
       bnd (modify (upd_proc i (\<lambda>x. x\<lparr>pr_parent := ini\<rparr>))) (\<lambda>_.
       whenk (pr_state c = ZOMBIE) (wakeup1 (proc_chan ini)))
     else ret ())"

text \<open>
  \<open>exit\<close> before its \<open>sched\<close>, which does not come back; \<open>exit_tail\<close> is the part under the lock of the table.
\<close>

definition exit_tail :: "nat \<Rightarrow> ('z kern_scheme, unit) kop" where
  "exit_tail p = bnd (acquire LkPtable) (\<lambda>_.
     bnd (gets (\<lambda>s. pr_parent (ptable s p))) (\<lambda>par.
     bnd (wakeup1 (proc_chan par)) (\<lambda>_.
     bnd (for_each (exit_child p) [0..<NPROC]) (\<lambda>_.
     modify (upd_proc p (\<lambda>x. x\<lparr>pr_state := ZOMBIE\<rparr>))))))"

definition exit_before :: "('z kproc_scheme, unit) kop" where
  "exit_before = bnd my_proc (\<lambda>p.
     bnd (gets initproc) (\<lambda>ini.
     bnd (guardk (ini \<noteq> Some p) (Panic ''init exiting'')) (\<lambda>_.
     bnd (for_each (exit_ofile p) [0..<NOFILE]) (\<lambda>_.
     bnd begin_op (\<lambda>_.
     bnd (gets (\<lambda>s. pr_cwd (ptable s p))) (\<lambda>cwd.
     bnd (iput_null cwd) (\<lambda>_.
     bnd end_op (\<lambda>_.
     bnd (modify (upd_proc p (\<lambda>x. x\<lparr>pr_cwd := None\<rparr>))) (\<lambda>_.
     exit_tail p)))))))))"

definition exit_enter :: "('z kproc_scheme, i32) kop" where
  "exit_enter = bnd exit_before (\<lambda>_. sched)"

definition wait_reap :: "nat \<Rightarrow> ('z kproc_scheme, i32) kop" where
  "wait_reap i = bnd (gets (\<lambda>s. ptable s i)) (\<lambda>c.
     bnd (vmop (kfree (pr_kstack c))) (\<lambda>_.
     bnd (modify (upd_proc i (\<lambda>x. x\<lparr>pr_kstack := 0\<rparr>))) (\<lambda>_.
     bnd (vmop (freevm (pr_pgdir c))) (\<lambda>_.
     bnd (modify (upd_proc i (\<lambda>x. x\<lparr>pr_pid := 0, pr_parent := None, pr_name := (pr_name x)[0 := 0], pr_killed := 0, pr_state := UNUSED\<rparr>))) (\<lambda>_.
     bnd (release LkPtable) (\<lambda>_.
     ret (pr_pid c)))))))"

text \<open>
  One round of the loop of \<open>wait\<close>, with the lock held: the first child that has exited is reaped. \<open>Wait\<close>
  is the call of \<open>sleep_proc\<close> on the process itself, after which the loop starts again.
\<close>

definition wait_round :: "nat \<Rightarrow> ('z kproc_scheme, (i32, unit) waits) kop" where
  "wait_round p = bnd (gets (\<lambda>s. find (\<lambda>i. pr_parent (ptable s i) = Some p \<and> pr_state (ptable s i) = ZOMBIE) [0..<NPROC])) (\<lambda>z. case z of
       Some i \<Rightarrow> bnd (wait_reap i) (\<lambda>pid. ret (Done pid))
     | None \<Rightarrow>
         bnd (gets (\<lambda>s. list_ex (\<lambda>i. pr_parent (ptable s i) = Some p) [0..<NPROC])) (\<lambda>havekids.
         bnd (gets (\<lambda>s. pr_killed (ptable s p))) (\<lambda>k.
         if \<not> havekids \<or> k \<noteq> 0 then bnd (release LkPtable) (\<lambda>_. ret (Done (-1)))
         else ret (Wait ()))))"

definition wait :: "('z kproc_scheme, i32) kop" where
  "wait = bnd my_proc (\<lambda>p.
     bnd (acquire LkPtable) (\<lambda>_.
     bnd (wait_round p) (\<lambda>r. case r of Done pid \<Rightarrow> ret pid | Wait u \<Rightarrow> stopk (Sleep (ChProc p)))))"

definition kill :: "i32 \<Rightarrow> ('z kern_scheme, i32) kop" where
  "kill pid = bnd (acquire LkPtable) (\<lambda>_.
     bnd (gets (\<lambda>s. find (\<lambda>i. pr_pid (ptable s i) = pid) [0..<NPROC])) (\<lambda>r. case r of
         Some i \<Rightarrow>
           bnd (modify (upd_proc i (\<lambda>x. x\<lparr>pr_killed := 1, pr_state := (if pr_state x = SLEEPING then RUNNABLE else pr_state x)\<rparr>))) (\<lambda>_.
           bnd (release LkPtable) (\<lambda>_. ret 0))
       | None \<Rightarrow> bnd (release LkPtable) (\<lambda>_. ret (-1))))"

section \<open>The scheduler\<close>

text \<open>
  One round of the loop over the table, and one pass. \<open>run i\<close> is what happens between \<open>swtch\<close> into process
  \<open>i\<close> and its return; \<open>skipped\<close> is checked like every sum. The pass also gives the processes it has run.
\<close>

definition sched_slot :: "(nat \<Rightarrow> ('z kproc_scheme, unit) kop) \<Rightarrow> nat \<Rightarrow> u32 \<times> nat list \<Rightarrow> ('z kproc_scheme, u32 \<times> nat list) kop" where
  "sched_slot run i = (\<lambda>(skipped, trace).
     bnd (gets (\<lambda>s. pr_state (ptable s i))) (\<lambda>st.
     if st \<noteq> RUNNABLE then bnd (u32_add skipped 1) (\<lambda>k. ret (k, trace))
     else
       bnd (modify (\<lambda>s. s\<lparr>myproc := Some i\<rparr>)) (\<lambda>_.
       bnd (switchuvm i) (\<lambda>_.
       bnd (modify (upd_proc i (\<lambda>x. x\<lparr>pr_state := RUNNING\<rparr>))) (\<lambda>_.
       bnd (run i) (\<lambda>_.
       bnd (vmop switchkvm) (\<lambda>_.
       bnd (modify (\<lambda>s. s\<lparr>myproc := None\<rparr>)) (\<lambda>_.
       ret (0, trace @ [i])))))))))"

fun sched_slots :: "(nat \<Rightarrow> ('z kproc_scheme, unit) kop) \<Rightarrow> nat list \<Rightarrow> u32 \<times> nat list \<Rightarrow> ('z kproc_scheme, u32 \<times> nat list) kop" where
  "sched_slots run [] x = ret x"
| "sched_slots run (i # is) x = bnd (sched_slot run i x) (\<lambda>y. sched_slots run is y)"

definition sched_pass :: "(nat \<Rightarrow> ('z kproc_scheme, unit) kop) \<Rightarrow> u32 \<Rightarrow> ('z kproc_scheme, u32 \<times> nat list) kop" where
  "sched_pass run skipped = bnd (modify (\<lambda>s. s\<lparr>eflags_if := True\<rparr>)) (\<lambda>_.
     bnd (acquire LkPtable) (\<lambda>_.
     bnd (sched_slots run [0..<NPROC] (skipped, [])) (\<lambda>(k, trace).
     bnd (release LkPtable) (\<lambda>_.
     ret (if of_nat NPROC < k then 0 else k, trace)))))"

text \<open>The first thing a new process does.\<close>

definition forkret :: "('z kproc_scheme, unit) kop" where
  "forkret = bnd (release LkPtable) (\<lambda>_.
     bnd (gets forkret_first) (\<lambda>b.
     whenk b (bnd (modify (\<lambda>s. s\<lparr>forkret_first := False\<rparr>)) (\<lambda>_.
       bnd (iinit (i32_of_u32 ROOTDEV)) (\<lambda>_.
       initlog (i32_of_u32 ROOTDEV))))))"

end
