(* ===== verification/Xv6_Pipe.thy ===== *)
theory Xv6_Pipe
  imports Xv6_File
begin

text \<open>
  Pipes as queues of bytes. The ring of a pipe is an instance of the locale \<open>ring\<close>; writing appends to
  the queue, reading removes from its front, whatever the order in which a reader and a writer run, and
  of the two at least one can always continue.
\<close>

section \<open>The queue in the ring\<close>

interpretation pring: ring PIPESIZE
  by unfold_locales simp

definition pipe_ok :: "pipe \<Rightarrow> bool" where
  "pipe_ok q \<longleftrightarrow> length (pi_data q) = PIPESIZE \<and> unat (pi_nread q) \<le> unat (pi_nwrite q) \<and> unat (pi_nwrite q) \<le> unat (pi_nread q) + PIPESIZE"

definition pqueue :: "pipe \<Rightarrow> u8 list" where
  "pqueue q = ring_seq PIPESIZE (pi_data q) (unat (pi_nread q)) (unat (pi_nwrite q))"

lemma length_pqueue: "length (pqueue q) = unat (pi_nwrite q) - unat (pi_nread q)"
  by (simp add: pqueue_def)

lemma pos_mod: "read_pos q = unat (pi_nread q) mod PIPESIZE" "write_pos q = unat (pi_nwrite q) mod PIPESIZE"
  by (simp_all add: read_pos_def write_pos_def unat_mod)

lemma pipe_is_empty_iff: "pipe_ok q \<Longrightarrow> pipe_is_empty q \<longleftrightarrow> pqueue q = []"
  by (auto simp: pipe_is_empty_def pipe_ok_def pqueue_def word_unat_eq_iff)

lemma pipe_full_iff:
  assumes "pipe_ok q" "unat (pi_nread q) + PIPESIZE < 2 ^ 32"
  shows "pi_nwrite q = pi_nread q + of_nat PIPESIZE \<longleftrightarrow> length (pqueue q) = PIPESIZE"
proof -
  have "unat (pi_nread q + of_nat PIPESIZE) = unat (pi_nread q) + PIPESIZE"
    using assms(2) unat_u32_add[of "pi_nread q" 512] by simp
  then show ?thesis using assms(1) unfolding word_unat_eq_iff length_pqueue pipe_ok_def by linarith
qed

lemma pqueue_room: "pipe_ok q \<Longrightarrow> length (pqueue q) \<noteq> PIPESIZE \<Longrightarrow> length (pqueue q) < PIPESIZE"
  unfolding pipe_ok_def length_pqueue by linarith

lemma pqueue_push:
  assumes "pipe_ok q" "length (pqueue q) < PIPESIZE" "unat (pi_nwrite q) + 1 < 2 ^ 32"
  shows "pipe_ok (q\<lparr>pi_data := (pi_data q)[write_pos q := b], pi_nwrite := pi_nwrite q + 1\<rparr>)"
    "pqueue (q\<lparr>pi_data := (pi_data q)[write_pos q := b], pi_nwrite := pi_nwrite q + 1\<rparr>) = pqueue q @ [b]"
proof -
  have w: "unat (pi_nwrite q + 1) = Suc (unat (pi_nwrite q))" using assms(3) unat_u32_add[of "pi_nwrite q" 1] by simp
  have r: "unat (pi_nread q) \<le> unat (pi_nwrite q)" "unat (pi_nwrite q) < unat (pi_nread q) + PIPESIZE" "length (pi_data q) = PIPESIZE"
    using assms(1,2) by (auto simp: pipe_ok_def length_pqueue)
  then show "pipe_ok (q\<lparr>pi_data := (pi_data q)[write_pos q := b], pi_nwrite := pi_nwrite q + 1\<rparr>)" using w by (simp add: pipe_ok_def)
  show "pqueue (q\<lparr>pi_data := (pi_data q)[write_pos q := b], pi_nwrite := pi_nwrite q + 1\<rparr>) = pqueue q @ [b]"
    using pring.seq_push[OF r] w by (simp add: pqueue_def pos_mod)
qed

lemma pqueue_pop:
  assumes "pipe_ok q" "pqueue q \<noteq> []"
  shows "unat (pi_nread q) + 1 < 2 ^ 32" "pipe_ok (q\<lparr>pi_nread := pi_nread q + 1\<rparr>)"
    "pqueue q = pi_data q ! read_pos q # pqueue (q\<lparr>pi_nread := pi_nread q + 1\<rparr>)"
proof -
  have lt: "unat (pi_nread q) < unat (pi_nwrite q)" using assms(2) by (simp add: pqueue_def)
  then show b: "unat (pi_nread q) + 1 < 2 ^ 32" using unsigned_less[of "pi_nwrite q", where 'a = nat] by simp
  have r: "unat (pi_nread q + 1) = Suc (unat (pi_nread q))" using b unat_u32_add[of "pi_nread q" 1] by simp
  then show "pipe_ok (q\<lparr>pi_nread := pi_nread q + 1\<rparr>)" using assms(1) lt by (simp add: pipe_ok_def)
  show "pqueue q = pi_data q ! read_pos q # pqueue (q\<lparr>pi_nread := pi_nread q + 1\<rparr>)"
    using ring_seq_pop[OF lt] r by (simp add: pqueue_def pos_mod)
qed

lemma kfile_ktrans [simp]:
  "pipes (kacq lk s) = pipes s" "pipes (krel lk s) = pipes s" "pipes (kwake ch s) = pipes s"
  "ftable (kacq lk s) = ftable s" "ftable (krel lk s) = ftable s" "ftable (kwake ch s) = ftable s"
  "kvm (kacq lk s) = kvm s" "kvm (krel lk s) = kvm s" "kvm (kwake ch s) = kvm s"
  by (simp_all add: ktrans_defs)

lemma upd_pipe_fields [simp]:
  "pipes (upd_pipe p g s) = (pipes s)(p := g (pipes s p))" "ptable (upd_pipe p g s) = ptable s" "myproc (upd_pipe p g s) = myproc s"
  "ftable (upd_pipe p g s) = ftable s" "kvm (upd_pipe p g s) = kvm s"
  by (simp_all add: upd_pipe_def)

section \<open>Writing and reading\<close>

text \<open>What one run of the writing loop from byte \<open>i\<close> does to the pipe: it appends the bytes from \<open>i\<close> to \<open>k\<close>.\<close>

definition appended :: "pipe \<Rightarrow> pipe \<Rightarrow> u8 list \<Rightarrow> nat \<Rightarrow> nat \<Rightarrow> bool" where
  "appended q q' src i k \<longleftrightarrow> pipe_ok q' \<and> pqueue q' = pqueue q @ slice i (k - i) src \<and> i \<le> k \<and> (i < k \<longrightarrow> k \<le> length src) \<and>
     unat (pi_nwrite q') = unat (pi_nwrite q) + (k - i) \<and> pi_nread q' = pi_nread q \<and> pi_readopen q' = pi_readopen q \<and> pi_writeopen q' = pi_writeopen q"

lemma appended_refl: "pipe_ok q \<Longrightarrow> appended q q src i i"
  by (simp add: appended_def slice_def)

lemma slice_Suc: "i < length xs \<Longrightarrow> slice i (Suc n) xs = xs ! i # slice (Suc i) n xs"
  by (simp add: slice_def Cons_nth_drop_Suc[symmetric])

lemma appended_push:
  assumes "pipe_ok q" "length (pqueue q) < PIPESIZE" "unat (pi_nwrite q) + 1 < 2 ^ 32" "i < length src"
    and "appended (q\<lparr>pi_data := (pi_data q)[write_pos q := src ! i], pi_nwrite := pi_nwrite q + 1\<rparr>) q' src (Suc i) k"
  shows "appended q q' src i k"
proof -
  have w: "unat (pi_nwrite q + 1) = Suc (unat (pi_nwrite q))" using assms(3) unat_u32_add[of "pi_nwrite q" 1] by simp
  note a = assms(5)[unfolded appended_def]
  have k: "Suc i \<le> k" using a by blast
  then have e: "k - i = Suc (k - Suc i)" by simp
  have "k \<le> length src" using a assms(4) k by (cases "Suc i = k") auto
  moreover have "pqueue q' = pqueue q @ slice i (k - i) src"
    unfolding e slice_Suc[OF assms(4)] using a pqueue_push(2)[OF assms(1-3), of "src ! i"] by simp
  ultimately show ?thesis using a w k by (simp add: appended_def)
qed

lemma runs_pipe_put:
  "runs (pipe_put p b) s Q \<longleftrightarrow> unat (pi_nwrite (pipes s p)) + 1 < 2 ^ 32 \<and>
     Q () (upd_pipe p (\<lambda>q. q\<lparr>pi_data := (pi_data q)[write_pos q := b], pi_nwrite := pi_nwrite q + 1\<rparr>) s)"
  by (simp add: pipe_put_def upd_pipe_def fun_upd_def cong: if_cong)

lemma unless_pipe_put:
  "unless_stop (pipe_put p b) s Q \<longleftrightarrow> (unat (pi_nwrite (pipes s p)) + 1 < 2 ^ 32 \<longrightarrow>
     Q () (upd_pipe p (\<lambda>q. q\<lparr>pi_data := (pi_data q)[write_pos q := b], pi_nwrite := pi_nwrite q + 1\<rparr>) s))"
  by (simp add: pipe_put_def upd_pipe_def fun_upd_def u32_add_def cong: if_cong)


lemma unless_locks [simp]:
  "unless_stop (acquire lk) s Q = Q () (kacq lk s)" "unless_stop (release lk) s Q = Q () (krel lk s)"
  "unless_stop (wakeup ch) s Q = Q () (woken ch s)"
  by (simp_all add: unless_stop_def acquire_eq release_eq wakeup_eq)

text \<open>Safety of the writing loop: if it comes back, it has appended a part of the bytes.\<close>

lemma unless_pipewrite_from:
  "pipe_ok (pipes s p) \<Longrightarrow> unless_stop (pipewrite_from p src n i) s (\<lambda>r s'. \<exists>k. appended (pipes s p) (pipes s' p) src i k)"
proof (induction p src n i arbitrary: s rule: pipewrite_from.induct)
  case (1 p src n i)
  note refl = appended_refl[OF 1(2), of src i]
  let ?q = "pipes s p" let ?q' = "?q\<lparr>pi_data := (pi_data ?q)[write_pos ?q := src ! i], pi_nwrite := pi_nwrite ?q + 1\<rparr>"
  have step: "unless_stop (pipewrite_from p src n (Suc i)) (upd_pipe p (\<lambda>_. ?q') s) (\<lambda>r s'. \<exists>k. appended ?q (pipes s' p) src i k)"
    if c: "i < n" "i < length src" "unat (pi_nread ?q) + 512 < 2 ^ 32" "pi_nwrite ?q \<noteq> pi_nread ?q + 512" "unat (pi_nwrite ?q) + 1 < 2 ^ 32"
  proof -
    have l: "length (pqueue ?q) < PIPESIZE"
      using pipe_full_iff[OF 1(2)] c(3,4) by (intro pqueue_room[OF 1(2)]) simp
    show ?thesis
      by (rule unless_stop_mono[OF 1(1)])
        (use c 1(2) pqueue_push(1)[OF 1(2) l c(5)] appended_push[OF 1(2) l c(5,2)] in \<open>auto simp: runs_Inr\<close>)
  qed
  show ?case
    by (subst pipewrite_from.simps)
      (use refl step in \<open>auto simp: pipe_is_full_def u32_add_def unless_pipe_put my_proc_killed_def my_proc_def upd_pipe_def split: option.split\<close>)
qed


text \<open>
  Progress of the writing loop, with the counters far from their limit: it comes back, and it waits only
  with a full pipe. What it waits for is that a reader runs; nothing but the pipe and the sleepers changes.
\<close>

definition write_outcome :: "'z kfile_scheme \<Rightarrow> 'z kfile_scheme \<Rightarrow> u64 \<Rightarrow> u8 list \<Rightarrow> nat \<Rightarrow> nat \<Rightarrow> (bool, nat) waits \<Rightarrow> bool" where
  "write_outcome s s' p src n i r \<longleftrightarrow> (case r of
       Done True \<Rightarrow> appended (pipes s p) (pipes s' p) src i n
     | Done False \<Rightarrow> \<not> pi_readopen (pipes s p) \<or> pr_killed (ptable s (the (myproc s))) \<noteq> 0
     | Wait j \<Rightarrow> j < n \<and> appended (pipes s p) (pipes s' p) src i j \<and> length (pqueue (pipes s' p)) = PIPESIZE) \<and>
     myproc s' = myproc s"

lemma runs_pipewrite_from:
  assumes "pipe_ok (pipes s p)" "myproc s = Some me" "n \<le> length src" "i \<le> n" "unat (pi_nwrite (pipes s p)) + (n - i) + PIPESIZE < 2 ^ 32"
  shows "runs (pipewrite_from p src n i) s (\<lambda>r s'. write_outcome s s' p src n i r)"
  using assms
proof (induction p src n i arbitrary: s rule: pipewrite_from.induct)
  case (1 p src n i)
  let ?q = "pipes s p" let ?q' = "?q\<lparr>pi_data := (pi_data ?q)[write_pos ?q := src ! i], pi_nwrite := pi_nwrite ?q + 1\<rparr>"
  note refl = appended_refl[OF 1(2), of src i]
  have b: "unat (pi_nread ?q) + PIPESIZE < 2 ^ 32" using 1(2,6) by (simp add: pipe_ok_def)
  show ?case
  proof (cases "n \<le> i")
    case True
    then show ?thesis using 1(5) refl by (subst pipewrite_from.simps) (simp add: write_outcome_def)
  next
    case False
    have fl: "pi_nwrite ?q = pi_nread ?q + 512 \<longleftrightarrow> length (pqueue ?q) = PIPESIZE" using pipe_full_iff[OF 1(2) b] by simp
    show ?thesis
    proof (cases "length (pqueue ?q) = PIPESIZE")
      case True
      then show ?thesis using False fl b 1(3) refl
        by (subst pipewrite_from.simps) (auto simp: pipe_is_full_def my_proc_killed_def my_proc_def write_outcome_def)
    next
      case nf: False
      have l: "length (pqueue ?q) < PIPESIZE" by (rule pqueue_room[OF 1(2) nf])
      have w: "unat (pi_nwrite ?q) + 1 < 2 ^ 32" "i < length src" using 1(4,6) False by auto
      have w': "unat (pi_nwrite ?q + 1) = Suc (unat (pi_nwrite ?q))" using w unat_u32_add[of "pi_nwrite ?q" 1] by simp
      note a = appended_push[OF 1(2) l w]
      have "runs (pipewrite_from p src n (Suc i)) (upd_pipe p (\<lambda>_. ?q') s) (\<lambda>r s'. write_outcome s s' p src n i r)"
        by (rule runs_mono[OF 1(1)])
          (use False nf fl b 1(2-6) w w' pqueue_push(1)[OF 1(2) l w(1)] a in \<open>auto simp: write_outcome_def split: waits.splits bool.splits\<close>)
      then show ?thesis using False nf fl b w
        by (subst pipewrite_from.simps) (simp add: pipe_is_full_def runs_pipe_put upd_pipe_def)
    qed
  qed
qed


text \<open>Reading takes bytes from the front.\<close>

definition taken :: "pipe \<Rightarrow> pipe \<Rightarrow> nat \<Rightarrow> bool" where
  "taken q q' k \<longleftrightarrow> pipe_ok q' \<and> pqueue q' = drop k (pqueue q) \<and> pi_nwrite q' = pi_nwrite q \<and> pi_readopen q' = pi_readopen q \<and>
     pi_writeopen q' = pi_writeopen q"

lemma piperead_copy_takes:
  "pipe_ok (pipes s p) \<Longrightarrow> \<exists>q'. piperead_copy p n c s = Inr (take (nat (n - c)) (pqueue (pipes s p)), s\<lparr>pipes := (pipes s)(p := q')\<rparr>) \<and>
     taken (pipes s p) q' (nat (n - c))"
proof (induction p n c arbitrary: s rule: piperead_copy.induct)
  case (1 p n c)
  let ?q = "pipes s p"
  show ?case
  proof (cases "c < n \<and> pqueue ?q \<noteq> []")
    case False
    then have "piperead_copy p n c s = Inr ([], s)" using pipe_is_empty_iff[OF 1(2)]
      by (subst piperead_copy.simps) (auto simp: exec_simps)
    then show ?thesis using False 1(2) by (intro exI[of _ ?q]) (auto simp: taken_def)
  next
    case True
    note pop = pqueue_pop[OF 1(2) conjunct2[OF True]]
    let ?q1 = "?q\<lparr>pi_nread := pi_nread ?q + 1\<rparr>" let ?s1 = "upd_pipe p (\<lambda>_. ?q1) s"
    have k: "nat (n - c) = Suc (nat (n - (c + 1)))" using True by linarith
    have p1: "pipes ?s1 p = ?q1" by simp
    have "\<exists>q'. piperead_copy p n (c + 1) ?s1 = Inr (take (nat (n - (c + 1))) (pqueue (pipes ?s1 p)), ?s1\<lparr>pipes := (pipes ?s1)(p := q')\<rparr>) \<and>
        taken (pipes ?s1 p) q' (nat (n - (c + 1)))"
      by (rule 1(1)[of ?q]) (use True pop(2) pipe_is_empty_iff[OF 1(2)] p1 in simp_all)
    then obtain q' where q': "piperead_copy p n (c + 1) ?s1 = Inr (take (nat (n - (c + 1))) (pqueue ?q1), ?s1\<lparr>pipes := (pipes ?s1)(p := q')\<rparr>)"
      "taken ?q1 q' (nat (n - (c + 1)))"
      unfolding p1 by blast
    have "piperead_copy p n c s = Inr (pi_data ?q ! read_pos ?q # take (nat (n - (c + 1))) (pqueue ?q1), s\<lparr>pipes := (pipes s)(p := q')\<rparr>)"
      using q'(1) True pop(1) pipe_is_empty_iff[OF 1(2)]
      by (subst piperead_copy.simps) (simp add: exec_simps u32_add_def upd_pipe_def)
    moreover have "taken ?q q' (nat (n - c))" using q'(2) pop(3) k by (simp add: taken_def)
    moreover have "take (nat (n - c)) (pqueue ?q) = pi_data ?q ! read_pos ?q # take (nat (n - (c + 1))) (pqueue ?q1)"
      unfolding k pop(3) by simp
    ultimately show ?thesis by metis
  qed
qed


lemma piperead_data:
  assumes ok: "pipe_ok (pipes s p)" and go: "pqueue (pipes s p) = [] \<Longrightarrow> \<not> pi_writeopen (pipes s p)"
  shows "\<exists>q'. piperead_body p n s = Inr (Done (int (length (take (nat n) (pqueue (pipes s p)))), take (nat n) (pqueue (pipes s p))),
      krel (LkP p) (woken (ChW p) (s\<lparr>pipes := (pipes s)(p := q')\<rparr>))) \<and> taken (pipes s p) q' (nat n)"
proof -
  obtain q' where q': "piperead_copy p n 0 s = Inr (take (nat n) (pqueue (pipes s p)), s\<lparr>pipes := (pipes s)(p := q')\<rparr>)" "taken (pipes s p) q' (nat n)"
    using piperead_copy_takes[OF ok, of n 0] by auto
  have "piperead_wait p s = Inr (Done True, s)"
    using go pipe_is_empty_iff[OF ok] by (auto simp: piperead_wait_def exec_simps)
  then show ?thesis using q' by (intro exI[of _ q']) (simp add: piperead_body_def exec_simps wakeup_eq release_eq)
qed

lemma piperead_none:
  assumes "pipe_ok (pipes s p)" "pqueue (pipes s p) = []" "pi_writeopen (pipes s p)" "piperead_body p n s = Inr (Done (c, bs), s')"
  shows "bs = [] \<and> pipes s' = pipes s"
  using assms pipe_is_empty_iff[OF assms(1)]
  by (auto simp: piperead_body_def piperead_wait_def my_proc_killed_def my_proc_def exec_simps release_eq split: option.splits if_splits)

section \<open>A pipe is a stream\<close>

text \<open>
  The runs of a pipe, seen by its bytes: \<open>W\<close> has entered it and \<open>R\<close> has left it between the two
  states. Writers run their loop from any byte on, readers their body, and in between anything may happen
  that leaves the pipe alone, in any order.
\<close>

inductive pipe_run :: "u64 \<Rightarrow> 'z kfile_scheme \<Rightarrow> u8 list \<Rightarrow> u8 list \<Rightarrow> 'z kfile_scheme \<Rightarrow> bool" for p s where
  start: "pipe_run p s [] [] s"
| writes: "pipe_run p s W R s1 \<Longrightarrow> pipewrite_from p src n i s1 = Inr (r, s2) \<Longrightarrow>
    k = unat (pi_nwrite (pipes s2 p)) - unat (pi_nwrite (pipes s1 p)) \<Longrightarrow> pipe_run p s (W @ slice i k src) R s2"
| reads: "pipe_run p s W R s1 \<Longrightarrow> piperead_body p n s1 = Inr (Done (c, bs), s2) \<Longrightarrow> pipe_run p s W (R @ bs) s2"
| others: "pipe_run p s W R s1 \<Longrightarrow> pipes s2 p = pipes s1 p \<Longrightarrow> pipe_run p s W R s2"

text \<open>
  C7: pipes are first-in first-out. However writers and readers of a pipe are interleaved, the bytes in
  it at the start and the bytes written since are, in order, the bytes read and then the bytes still in it.
\<close>

theorem pipe_stream:
  assumes "pipe_run p s W R s'" "pipe_ok (pipes s p)"
  shows "pipe_ok (pipes s' p) \<and> pqueue (pipes s p) @ W = R @ pqueue (pipes s' p)"
  using assms
proof (induction rule: pipe_run.induct)
  case (writes W R s1 src n i r s2 k)
  obtain k' where "appended (pipes s1 p) (pipes s2 p) src i k'"
    using unless_pipewrite_from[of s1 p src n i] writes by (auto simp: unless_stop_def)
  then show ?case using writes by (auto simp: appended_def)
next
  case (reads W R s1 n c bs s2)
  have ok: "pipe_ok (pipes s1 p)" using reads by simp
  show ?case
  proof (cases "pqueue (pipes s1 p) = [] \<and> pi_writeopen (pipes s1 p)")
    case True
    then show ?thesis using piperead_none[OF ok _ _ reads(2)] reads by auto
  next
    case False
    then show ?thesis using piperead_data[OF ok, of n] reads by (auto simp: taken_def)
  qed
qed auto


section \<open>Readers and writers make progress\<close>

text \<open>
  C29: no deadlock between a reader and a writer. With the counters below their limit the writing loop
  always comes back: it has written everything, or nobody will read any more or the process is killed, or
  it waits. It waits only with a full pipe, and then a read of any number of bytes returns at once, with
  bytes, and makes every process that waits to write runnable.
\<close>

theorem pipe_progress:
  assumes "pipe_ok (pipes s p)" "myproc s = Some me" "n \<le> length src" "i \<le> n" "unat (pi_nwrite (pipes s p)) + n + PIPESIZE < 2 ^ 32"
  shows "\<exists>r s'. pipewrite_from p src n i s = Inr (r, s') \<and> (case r of
      Done True \<Rightarrow> pqueue (pipes s' p) = pqueue (pipes s p) @ slice i (n - i) src
    | Done False \<Rightarrow> \<not> pi_readopen (pipes s p) \<or> pr_killed (ptable s me) \<noteq> 0
    | Wait j \<Rightarrow> i \<le> j \<and> j < n \<and> pqueue (pipes s' p) = pqueue (pipes s p) @ slice i (j - i) src \<and> length (pqueue (pipes s' p)) = PIPESIZE \<and>
        (\<forall>m > 0. \<exists>c bs s''. piperead_body p m s' = Inr (Done (c, bs), s'') \<and> bs = take (nat m) (pqueue (pipes s' p)) \<and> bs \<noteq> [] \<and>
          (\<forall>t < NPROC. pr_state (ptable s' t) = SLEEPING \<and> pr_chan (ptable s' t) = ChW p \<longrightarrow> pr_state (ptable s'' t) = RUNNABLE)))"
proof -
  have b: "unat (pi_nwrite (pipes s p)) + (n - i) + PIPESIZE < 2 ^ 32" using assms(5) by simp
  obtain r s' where r: "pipewrite_from p src n i s = Inr (r, s')" "write_outcome s s' p src n i r"
    using runs_pipewrite_from[OF assms(1-4) b] by (auto simp: runs_Inr)
  have rd: "\<exists>c bs s''. piperead_body p m s' = Inr (Done (c, bs), s'') \<and> bs = take (nat m) (pqueue (pipes s' p)) \<and> bs \<noteq> [] \<and>
      (\<forall>t < NPROC. pr_state (ptable s' t) = SLEEPING \<and> pr_chan (ptable s' t) = ChW p \<longrightarrow> pr_state (ptable s'' t) = RUNNABLE)"
    if a: "pipe_ok (pipes s' p)" "length (pqueue (pipes s' p)) = PIPESIZE" "0 < m" for m
  proof -
    have ne: "pqueue (pipes s' p) \<noteq> []" using a(2) by auto
    obtain q' where "piperead_body p m s' = Inr (Done (int (length (take (nat m) (pqueue (pipes s' p)))), take (nat m) (pqueue (pipes s' p))),
        krel (LkP p) (woken (ChW p) (s'\<lparr>pipes := (pipes s')(p := q')\<rparr>)))"
      using piperead_data[OF a(1), of m] ne by blast
    then show ?thesis using ne a(3) by (auto simp: ptable_kwake wake_slot_def)
  qed
  show ?thesis
    by (rule exI[of _ r], rule exI[of _ s'])
      (use r rd assms(2) in \<open>auto simp: write_outcome_def appended_def split: waits.splits bool.splits\<close>)
qed

definition pipe_zero :: pipe where
  "pipe_zero = \<lparr>pi_data = replicate PIPESIZE 0, pi_nread = 0, pi_nwrite = 0, pi_readopen = True, pi_writeopen = True\<rparr>"

definition kfile_zero :: "(u32 \<Rightarrow> u8 list) \<Rightarrow> vmem \<Rightarrow> 'z \<Rightarrow> 'z kfile_scheme" where
  "kfile_zero d v z = kfs_zero d \<lparr>ftable = (\<lambda>_. file_empty), pipes = (\<lambda>_. pipe_zero), kvm = v, \<dots> = z\<rparr>"

definition pipe_demo :: kfile where
  "pipe_demo = (kfile_zero demo_fs \<lparr>pmem = (\<lambda>_. 0), kmem_use_lock = True, kmem_freelist = 0, link_end = 0, kpml4 = 0, kpdpt = 0, cr3 = 0\<rparr> ())\<lparr>myproc := Some 0\<rparr>"

lemma pipe_demo_facts:
  "pipe_ok (pipes pipe_demo p)" "myproc pipe_demo = Some 0" "pqueue (pipes pipe_demo p) = []" "pi_nwrite (pipes pipe_demo p) = 0"
  "pi_readopen (pipes pipe_demo p)" "pr_killed (ptable pipe_demo 0) = 0"
  by (simp_all add: pipe_demo_def kfile_zero_def kfs_zero_def kcons_zero_def klog_zero_def kbuf_zero_def kern_zero_def proc_zero_def
    pipe_zero_def pipe_ok_def pqueue_def)

theorem pipe_progress_witness:
  "\<exists>s'. pipewrite_from 4096 [1, 2, 3] 3 0 pipe_demo = Inr (Done True, s') \<and> pqueue (pipes s' 4096) = [1, 2, 3]"
proof -
  note D = pipe_demo_facts(3-5)[of 4096] pipe_demo_facts(6)
  have b: "3 \<le> length [1 :: u8, 2, 3]" "0 \<le> (3 :: nat)" "unat (pi_nwrite (pipes pipe_demo 4096)) + 3 + PIPESIZE < 2 ^ 32" using D by simp_all
  show ?thesis
    using pipe_progress[OF pipe_demo_facts(1)[of 4096] pipe_demo_facts(2) b] unfolding D(1)
  proof (elim exE conjE, goal_cases)
    case (1 r s')
    show ?case
    proof (cases r)
      case (Done ok)
      then show ?thesis using 1 D by (cases ok) (simp_all add: slice_def)
    next
      case (Wait j)
      have e: "pqueue (pipes s' 4096) = [] @ slice 0 (j - 0) [1, 2, 3]" using 1(2) unfolding Wait waits.case by (elim conjE)
      have "length (pqueue (pipes s' 4096)) = PIPESIZE" using 1(2) unfolding Wait waits.case by (elim conjE)
      then show ?thesis unfolding e by (simp add: slice_def)
    qed
  qed
qed

theorem pipe_stream_witness:
  "\<exists>s' s''. pipewrite_from 4096 [1, 2, 3] 3 0 pipe_demo = Inr (Done True, s') \<and>
     piperead_body 4096 2 s' = Inr (Done (2, [1, 2]), s'') \<and> pqueue (pipes s'' 4096) = [3]"
proof -
  note D = pipe_demo_facts(1)[of 4096] pipe_demo_facts(2) pipe_demo_facts(3-5)[of 4096] pipe_demo_facts(6)
  obtain r s' where s': "pipewrite_from 4096 [1, 2, 3] 3 0 pipe_demo = Inr (r, s')" "write_outcome pipe_demo s' 4096 [1, 2, 3] 3 0 r"
    using runs_pipewrite_from[OF D(1,2), of 3 "[1, 2, 3]" 0] D(4) by (auto simp: runs_Inr)
  have w: "r = Done True \<and> appended (pipes pipe_demo 4096) (pipes s' 4096) [1, 2, 3] 0 3"
    using s'(2) D(3,5,6) D(2) by (auto simp: write_outcome_def appended_def slice_def split: waits.splits bool.splits)
  then have q: "pqueue (pipes s' 4096) = [1, 2, 3]" "pipe_ok (pipes s' 4096)" "unat (pi_nwrite (pipes s' 4096)) = 3"
    using D(3,4) by (auto simp: appended_def slice_def)
  obtain s'' where r2: "piperead_body 4096 2 s' = Inr (Done (2, [1, 2]), s'')"
    using piperead_data[OF q(2), of 2] q(1) by (auto simp: numeral_2_eq_2)
  have "pipe_run 4096 pipe_demo ([] @ slice 0 3 [1, 2, 3]) ([] @ [1, 2]) s''"
    by (rule pipe_run.reads[OF pipe_run.writes[OF pipe_run.start s'(1)] r2]) (use q(3) D(4) in simp)
  from pipe_stream[OF this D(1)] D(3) have "pqueue (pipes s'' 4096) = [3]" by (simp add: slice_def)
  then show ?thesis using s'(1) w r2 by blast
qed

end
