(* ===== verification/Xv6_Sched.thy ===== *)
theory Xv6_Sched
  imports Xv6_Proc Xv6_Pipe "HOL-Library.Sublist"
begin

text \<open>
  Properties of the process operations: the passes of the scheduler are fair, a zombie child is reaped by
  \<open>wait\<close>, and what \<open>kill\<close> does to the table.
\<close>

lemma upd_proc_fields [simp]:
  "ptable (upd_proc i f s) = (ptable s)(i := f (ptable s i))" "myproc (upd_proc i f s) = myproc s" "initproc (upd_proc i f s) = initproc s"
  "kern.more (upd_proc i f s) = kern.more s" "nextpid (upd_proc i f s) = nextpid s"
  by (simp_all add: upd_proc_def)

lemma runs_switchuvm [simp]:
  "runs (switchuvm p) s Q = Q () (s\<lparr>int_enabled := (if cli_depth s = 0 then eflags_if s else int_enabled s),
     eflags_if := (cli_depth s = 0 \<and> (if cli_depth s = 0 then eflags_if s else int_enabled s))\<rparr>)"
  by (simp add: switchuvm_def pushcli_def popcli_def)

lemma upd_proc_kfile [simp]:
  "kvm (upd_proc i f s) = kvm s" "ftable (upd_proc i f s) = ftable s" "pipes (upd_proc i f s) = pipes s" "icache (upd_proc i f s) = icache s"
  "sym_forkret (upd_proc i f t) = sym_forkret t"
  by (simp_all add: upd_proc_def)

lemma nextpid_locks [simp]: "nextpid (kacq lk s) = nextpid s" "nextpid (krel lk s) = nextpid s" "nextpid (kwake ch s) = nextpid s"
  by (simp_all add: ktrans_defs)

section \<open>Creation\<close>

text \<open>The state in which \<open>allocproc\<close> leaves the kernel when slot \<open>i\<close> is free and \<open>kalloc\<close> gives the page \<open>k\<close>.\<close>

definition embryo :: "nat \<Rightarrow> u64 \<Rightarrow> vmem \<Rightarrow> 'z kproc_scheme \<Rightarrow> 'z kproc_scheme" where
  "embryo i k v s = upd_proc i (\<lambda>x. x\<lparr>pr_kstack := k, pr_context := ctxt_zero\<lparr>cx_rip := sym_forkret s\<rparr>\<rparr>)
     ((krel LkPtable ((upd_proc i (\<lambda>x. x\<lparr>pr_state := EMBRYO, pr_pid := nextpid s\<rparr>) (kacq LkPtable s))\<lparr>nextpid := nextpid s + 1\<rparr>))\<lparr>kvm := v\<rparr>)"

lemma sym_forkret_locks [simp]: "sym_forkret (kacq lk s) = sym_forkret s" "sym_forkret (krel lk s) = sym_forkret s"
  by (simp_all add: ktrans_defs)

lemma runs_allocproc:
  assumes "find (\<lambda>i. pr_state (ptable s i) = UNUSED) [0..<NPROC] = Some i" "i32_range (nextpid s + 1)"
    and "runs kalloc (kvm s) (\<lambda>k v. k \<noteq> 0 \<and> Q (Some i) (embryo i k v s))"
  shows "runs allocproc s Q"
  using assms unfolding allocproc_def embryo_def by simp (erule runs_mono, simp)

section \<open>Fairness\<close>

text \<open>What a process may do between the switches: it comes back, and processes that were ready stay ready.\<close>

definition good_run :: "(nat \<Rightarrow> ('z kproc_scheme, unit) kop) \<Rightarrow> bool" where
  "good_run run \<longleftrightarrow> (\<forall>i s. i < NPROC \<longrightarrow> pr_state (ptable s i) = RUNNING \<longrightarrow> myproc s = Some i \<longrightarrow>
     runs (run i) s (\<lambda>_ s'. \<forall>j. j \<noteq> i \<longrightarrow> pr_state (ptable s j) = RUNNABLE \<longrightarrow> pr_state (ptable s' j) = RUNNABLE))"

lemma runs_sched_slot:
  assumes g: "good_run run" and i: "i < NPROC" and k: "unat k + 1 < 2 ^ 32"
  shows "runs (sched_slot run i (k, tr)) s (\<lambda>(k', tr') s'. tr' = (if pr_state (ptable s i) = RUNNABLE then tr @ [i] else tr) \<and>
     unat k' \<le> unat k + 1 \<and> (\<forall>j. j \<noteq> i \<longrightarrow> pr_state (ptable s j) = RUNNABLE \<longrightarrow> pr_state (ptable s' j) = RUNNABLE))"
proof (cases "pr_state (ptable s i) = RUNNABLE")
  case False
  then show ?thesis using k unat_u32_add[of k 1] by (simp add: sched_slot_def)
next
  case True
  let ?s = "s\<lparr>myproc := Some i\<rparr>"
  let ?s1 = "upd_proc i (\<lambda>x. x\<lparr>pr_state := RUNNING\<rparr>) (?s\<lparr>int_enabled := (if cli_depth ?s = 0 then eflags_if ?s else int_enabled ?s),
     eflags_if := (cli_depth ?s = 0 \<and> (if cli_depth ?s = 0 then eflags_if ?s else int_enabled ?s))\<rparr>)"
  have "runs (run i) ?s1 (\<lambda>_ s'. \<forall>j. j \<noteq> i \<longrightarrow> pr_state (ptable ?s1 j) = RUNNABLE \<longrightarrow> pr_state (ptable s' j) = RUNNABLE)"
    by (rule g[unfolded good_run_def, rule_format, OF i]) simp_all
  then have "runs (run i) ?s1 (\<lambda>_ s'. \<forall>j. j \<noteq> i \<longrightarrow> pr_state (ptable s j) = RUNNABLE \<longrightarrow> pr_state (ptable s' j) = RUNNABLE)"
    by (rule runs_mono) simp
  then show ?thesis using True by (simp add: sched_slot_def switchkvm_def)
qed

lemma runs_sched_slots:
  assumes g: "good_run run"
  shows "\<forall>i \<in> set is. i < NPROC \<Longrightarrow> distinct is \<Longrightarrow> unat k + length is < 2 ^ 32 \<Longrightarrow>
    runs (sched_slots run is (k, tr)) s (\<lambda>(k', tr') s'. \<exists>us. tr' = tr @ us \<and> subseq us is \<and> (\<forall>i \<in> set is. pr_state (ptable s i) = RUNNABLE \<longrightarrow> i \<in> set us) \<and>
      unat k' \<le> unat k + length is)"
proof (induction "is" arbitrary: k tr s)
  case (Cons i "is")
  have "runs (sched_slot run i (k, tr)) s (\<lambda>(k', tr') s'. tr' = (if pr_state (ptable s i) = RUNNABLE then tr @ [i] else tr) \<and>
     unat k' \<le> unat k + 1 \<and> (\<forall>j. j \<noteq> i \<longrightarrow> pr_state (ptable s j) = RUNNABLE \<longrightarrow> pr_state (ptable s' j) = RUNNABLE))"
    by (rule runs_sched_slot[OF g]) (use Cons.prems in auto)
  then show ?case unfolding sched_slots.simps runs_bnd
  proof (rule runs_mono, goal_cases)
    case (1 x s')
    obtain k' tr' where x: "x = (k', tr')" by (cases x)
    note H = 1(2)[unfolded x prod.case]
    have "runs (sched_slots run is (k', tr')) s' (\<lambda>(k'', tr'') s''. \<exists>us. tr'' = tr' @ us \<and> subseq us is \<and>
        (\<forall>i \<in> set is. pr_state (ptable s' i) = RUNNABLE \<longrightarrow> i \<in> set us) \<and> unat k'' \<le> unat k' + length is)"
      by (rule Cons.IH) (use Cons.prems 1 x in auto)
    then show ?case unfolding x
    proof (rule runs_mono, goal_cases)
      case (1 y s'')
      then obtain k'' us where y: "y = (k'', tr' @ us)" "subseq us is" "\<forall>i \<in> set is. pr_state (ptable s' i) = RUNNABLE \<longrightarrow> i \<in> set us"
        "unat k'' \<le> unat k' + length is" by auto
      show ?case unfolding y(1) prod.case
        by (rule exI[of _ "if pr_state (ptable s i) = RUNNABLE then i # us else us"]) (use H y Cons.prems(2) in auto)
    qed
  qed
qed simp



definition one_page :: vmem where
  "one_page = \<lparr>pmem = (\<lambda>_. 0), kmem_use_lock = True, kmem_freelist = 0xFFFF800000200000, link_end = 0, kpml4 = 0, kpdpt = 0, cr3 = 0\<rparr>"

text \<open>A kernel with a process in slots 0 and 2, both ready, the second a child of the first.\<close>

definition proc_demo :: kproc where
  "proc_demo = (kfile_zero demo_fs one_page \<lparr>forkret_first = True, sym_forkret = 0, ticks = 0\<rparr>)
     \<lparr>ptable := (\<lambda>i. if i = 0 then proc_zero\<lparr>pr_state := RUNNABLE, pr_pid := 1\<rparr>
        else if i = 2 then proc_zero\<lparr>pr_state := RUNNABLE, pr_pid := 2, pr_parent := Some 0\<rparr> else proc_zero), initproc := Some 0\<rparr>"

lemma proc_demo_ptable:
  "ptable proc_demo = (\<lambda>i. if i = 0 then proc_zero\<lparr>pr_state := RUNNABLE, pr_pid := 1\<rparr>
     else if i = 2 then proc_zero\<lparr>pr_state := RUNNABLE, pr_pid := 2, pr_parent := Some 0\<rparr> else proc_zero)" "initproc proc_demo = Some 0"
  by (simp_all add: proc_demo_def)


section \<open>Exit and wait\<close>

definition same_life :: "proc \<Rightarrow> proc \<Rightarrow> bool" where
  "same_life x y \<longleftrightarrow> (pr_state y = pr_state x \<or> pr_state x = SLEEPING \<and> pr_state y = RUNNABLE) \<and>
     pr_chan y = pr_chan x \<and> pr_killed y = pr_killed x \<and> pr_pid y = pr_pid x"

lemma same_life_wake: "same_life x y \<Longrightarrow> same_life x (wake_slot ch y)" "pr_parent (wake_slot ch y) = pr_parent y"
  by (auto simp: same_life_def wake_slot_def)

lemma same_life_parent: "same_life x y \<Longrightarrow> same_life x (y\<lparr>pr_parent := q\<rparr>)"
  by (simp add: same_life_def)

lemma same_life_refl [simp]: "same_life x x"
  by (simp add: same_life_def)

text \<open>A process that waits for a child sleeps on the channel that is its own address.\<close>

definition waiting :: "'z kern_scheme \<Rightarrow> nat \<Rightarrow> bool" where
  "waiting s q \<longleftrightarrow> q < NPROC \<and> pr_state (ptable s q) = SLEEPING \<and> pr_chan (ptable s q) = ChProc q"

lemma wake_waiting:
  assumes "waiting s q" "same_life (ptable s q) (ptable s' q)"
  shows "pr_state (ptable (kwake (ChProc q) s') q) = RUNNABLE"
  using assms by (auto simp: waiting_def same_life_def ptable_kwake wake_slot_def)

text \<open>
  The table while \<open>exit\<close> walks it: slots before \<open>k\<close> that belonged to \<open>p\<close> now belong to init, which has been
  woken up if one of them is a zombie.
\<close>

definition adopted :: "nat \<Rightarrow> nat \<Rightarrow> 'z kern_scheme \<Rightarrow> 'z kern_scheme \<Rightarrow> bool" where
  "adopted p k s s' \<longleftrightarrow> initproc s' = initproc s \<and> (\<forall>i. same_life (ptable s i) (ptable s' i) \<and>
     pr_parent (ptable s' i) = (if i < k \<and> pr_parent (ptable s i) = Some p then initproc s else pr_parent (ptable s i))) \<and>
     (\<forall>q. initproc s = Some q \<and> waiting s q \<and> (\<exists>i < k. pr_parent (ptable s i) = Some p \<and> pr_state (ptable s i) = ZOMBIE) \<longrightarrow>
       pr_state (ptable s' q) = RUNNABLE)"

lemma runs_exit_child:
  assumes a: "adopted p k s s'" and k: "k < NPROC"
  shows "runs (exit_child p k) s' (\<lambda>_ s''. adopted p (Suc k) s s'')"
proof (cases "pr_parent (ptable s k) = Some p")
  case False
  then show ?thesis using a by (auto simp: exit_child_def adopted_def less_Suc_eq)
next
  case True
  note A = a[unfolded adopted_def]
  let ?t = "upd_proc k (\<lambda>x. x\<lparr>pr_parent := initproc s\<rparr>) s'"
  have lk: "same_life (ptable s k) (ptable s' k)" using A by blast
  then have z: "pr_state (ptable s' k) = ZOMBIE \<longleftrightarrow> pr_state (ptable s k) = ZOMBIE" by (auto simp: same_life_def)
  have l: "same_life (ptable s i) (ptable ?t i)" for i using A by (simp add: same_life_parent)
  have "adopted p (Suc k) s (if pr_state (ptable s k) = ZOMBIE then kwake (proc_chan (initproc s)) ?t else ?t)"
  proof (cases "pr_state (ptable s k) = ZOMBIE")
    case False
    then show ?thesis using A True l by (auto simp: adopted_def less_Suc_eq)
  next
    case zz: True
    let ?u = "kwake (proc_chan (initproc s)) ?t"
    have q: "pr_state (ptable (kwake (ChProc q) ?t) q) = RUNNABLE" if "waiting s q" for q by (rule wake_waiting[OF that l])
    have "same_life (ptable s i) (ptable ?u i)" for i using l[of i] same_life_wake(1)[OF l[of i]] unfolding ptable_kwake by simp
    moreover have "pr_parent (ptable ?u i) = (if i < Suc k \<and> pr_parent (ptable s i) = Some p then initproc s else pr_parent (ptable s i))" for i
    proof -
      have "pr_parent (ptable ?u i) = pr_parent (ptable ?t i)" unfolding ptable_kwake by (simp add: same_life_wake)
      then show ?thesis using A True by (auto simp: less_Suc_eq)
    qed
    moreover have "initproc ?u = initproc s" using A by (simp add: kwake_def)
    ultimately show ?thesis using zz q unfolding adopted_def by (intro conjI allI impI) (simp_all split: if_splits)
  qed
  then show ?thesis using A True z by (simp add: exit_child_def split: if_splits)
qed

lemma runs_exit_children: "runs (for_each (exit_child p) [0..<NPROC]) s (\<lambda>_ s'. adopted p NPROC s s')"
proof -
  have "runs (for_each (exit_child p) [0..<NPROC]) s (\<lambda>_ s'. \<exists>k \<le> NPROC. [] = [k..<NPROC] \<and> adopted p k s s')"
  proof (rule runs_for_each[where I = "\<lambda>xs s'. \<exists>k \<le> NPROC. xs = [k..<NPROC] \<and> adopted p k s s'"], goal_cases)
    case 1
    then show ?case by (intro exI[of _ 0]) (simp add: adopted_def)
  next
    case (2 x xs s')
    then obtain k where k: "k \<le> NPROC" "x # xs = [k..<NPROC]" "adopted p k s s'" by blast
    then have x: "x = k" "k < NPROC" "xs = [Suc k..<NPROC]" using upt_eq_ConsD[OF k(2)] by auto
    show ?case using runs_exit_child[OF k(3) x(2)] unfolding x(1,3) by (rule runs_mono) (use x(2) in \<open>auto intro!: exI[of _ "Suc k"]\<close>)
  qed
  then show ?thesis by (rule runs_mono) (use upt_eq_NilD in auto)
qed


lemma adopted_runnable: "adopted p k s s' \<Longrightarrow> pr_state (ptable s i) = RUNNABLE \<Longrightarrow> pr_state (ptable s' i) = RUNNABLE"
proof -
  assume "adopted p k s s'" and r: "pr_state (ptable s i) = RUNNABLE"
  then have "same_life (ptable s i) (ptable s' i)" by (simp add: adopted_def)
  then show ?thesis using r by (auto simp: same_life_def)
qed

text \<open>
  C18: an exit is never lost. If the parent of an exiting process sleeps in \<open>wait\<close>, then after \<open>exit\<close> the process
  is a zombie child of the parent, the parent is runnable, and its next look at the table does not go to sleep
  again. The children of the process now belong to init, and init is runnable if it was waiting and one of them
  is a zombie.
\<close>

theorem exit_reaches_wait:
  fixes s :: "'z kproc_scheme"
  assumes p: "p < NPROC" and par: "pr_parent (ptable s p) = Some q" "q \<noteq> p" "waiting s q"
  shows "\<exists>s'. exit_tail p s = Inr ((), s') \<and> pr_state (ptable s' p) = ZOMBIE \<and> pr_parent (ptable s' p) = Some q \<and>
    pr_state (ptable s' q) = RUNNABLE \<and> (\<forall>t. wait_round q s' \<noteq> Inr (Wait (), t)) \<and>
    (\<forall>i < NPROC. pr_parent (ptable s i) = Some p \<longrightarrow> pr_parent (ptable s' i) = initproc s) \<and>
    (\<forall>r i. initproc s = Some r \<and> r \<noteq> p \<and> waiting s r \<and> i < NPROC \<and> pr_parent (ptable s i) = Some p \<and> pr_state (ptable s i) = ZOMBIE \<longrightarrow>
      pr_state (ptable s' r) = RUNNABLE)"
proof -
  let ?w = "kwake (ChProc q) (kacq LkPtable s)"
  have W: "same_life (ptable s i) (ptable ?w i)" "pr_parent (ptable ?w i) = pr_parent (ptable s i)" for i
    using same_life_wake(1)[OF same_life_refl] unfolding ptable_kwake by (simp_all add: same_life_wake)
  have q: "pr_state (ptable ?w q) = RUNNABLE" using wake_waiting[OF par(3), of "kacq LkPtable s"] by simp
  have wt: "waiting ?w r \<or> pr_state (ptable ?w r) = RUNNABLE" if "waiting s r" for r
    using that W(1)[of r] unfolding waiting_def same_life_def by auto
  have zb: "pr_state (ptable ?w i) = ZOMBIE \<longleftrightarrow> pr_state (ptable s i) = ZOMBIE" for i using W(1)[of i] by (auto simp: same_life_def)
  have ini: "initproc ?w = initproc s" by (simp add: kwake_def kacq_def)
  have nw: "wait_round q s' \<noteq> Inr (Wait (), t)"
    if a: "pr_state (ptable s' p) = ZOMBIE" "pr_parent (ptable s' p) = Some q" for s' :: "'z kproc_scheme" and t
  proof -
    obtain i where "find (\<lambda>i. pr_parent (ptable s' i) = Some q \<and> pr_state (ptable s' i) = ZOMBIE) [0..<NPROC] = Some i"
      using a p by (cases "find (\<lambda>i. pr_parent (ptable s' i) = Some q \<and> pr_state (ptable s' i) = ZOMBIE) [0..<NPROC]") (auto simp: find_None_iff)
    then show ?thesis by (auto simp: wait_round_def exec_simps split: sum.splits)
  qed
  have "runs (exit_tail p) s (\<lambda>_ s'. \<exists>t. adopted p NPROC ?w t \<and> s' = upd_proc p (\<lambda>x. x\<lparr>pr_state := ZOMBIE\<rparr>) t)"
    using runs_exit_children[of p ?w] par(1) by (auto simp: exit_tail_def elim: runs_mono)
  then obtain s' t where t: "exit_tail p s = Inr ((), s')" "adopted p NPROC ?w t" "s' = upd_proc p (\<lambda>x. x\<lparr>pr_state := ZOMBIE\<rparr>) t"
    unfolding runs_Inr by auto
  note A = t(2)[unfolded adopted_def ini W(2) zb]
  have z: "pr_state (ptable s' p) = ZOMBIE" "pr_parent (ptable s' p) = Some q" "pr_state (ptable s' q) = RUNNABLE"
    using t(3) A par adopted_runnable[OF t(2) q] by auto
  moreover have "pr_parent (ptable s' i) = initproc s" if "i < NPROC" "pr_parent (ptable s i) = Some p" for i
    using A t(3) that by (cases "i = p") auto
  moreover have "pr_state (ptable s' r) = RUNNABLE"
    if "initproc s = Some r" "r \<noteq> p" "waiting s r" "i < NPROC" "pr_parent (ptable s i) = Some p" "pr_state (ptable s i) = ZOMBIE" for r i
    using wt[OF that(3)] adopted_runnable[OF t(2), of r] A t(3) that by auto
  ultimately show ?thesis using t(1) nw[OF z(1,2)] by blast
qed

theorem exit_reaches_wait_witness:
  "\<exists>s' :: kproc. exit_tail 2 (upd_proc 0 (\<lambda>x. x\<lparr>pr_state := SLEEPING, pr_chan := ChProc 0\<rparr>) proc_demo) = Inr ((), s') \<and>
     pr_state (ptable s' 0) = RUNNABLE \<and> pr_state (ptable s' 2) = ZOMBIE"
  using exit_reaches_wait[of 2 "upd_proc 0 (\<lambda>x. x\<lparr>pr_state := SLEEPING, pr_chan := ChProc 0\<rparr>) proc_demo" 0]
  by (auto simp: proc_demo_ptable waiting_def NPROC_def)

section \<open>Kill\<close>

text \<open>
  C37: killing a process that does not exist. Unused slots have the number 0, so \<open>kill 0\<close> reports success
  and leaves its mark on the first unused slot, from which \<open>allocproc\<close> does not remove it: the next process
  made in that slot is born killed.
\<close>

theorem kill_zero:
  fixes s :: "'z kproc_scheme"
  assumes i: "find (\<lambda>i. pr_state (ptable s i) = UNUSED) [0..<NPROC] = Some i" and z: "\<forall>i < NPROC. pr_pid (ptable s i) = 0 \<longleftrightarrow> pr_state (ptable s i) = UNUSED"
    and mem: "runs kalloc (kvm s) (\<lambda>k _. k \<noteq> 0)" and pid: "i32_range (nextpid s + 1)"
  shows "\<exists>s' s''. kill 0 s = Inr (0, s') \<and> allocproc s' = Inr (Some i, s'') \<and> pr_state (ptable s'' i) = EMBRYO \<and> pr_killed (ptable s'' i) = 1"
proof -
  have f: "find (\<lambda>i. pr_pid (ptable s i) = 0) [0..<NPROC] = Some i"
    using i z by (subst find_cong[OF refl, of _ _ "\<lambda>i. pr_state (ptable s i) = UNUSED"]) auto
  have u: "pr_state (ptable s i) = UNUSED" using i by (auto simp: find_Some_iff)
  let ?s = "krel LkPtable (upd_proc i (\<lambda>x. x\<lparr>pr_killed := 1, pr_state := (if pr_state x = SLEEPING then RUNNABLE else pr_state x)\<rparr>) (kacq LkPtable s))"
  have k: "kill 0 s = Inr (0, ?s)" using f by (simp add: kill_def exec_simps acquire_eq release_eq)
  have f': "find (\<lambda>j. pr_state (ptable ?s j) = UNUSED) [0..<NPROC] = Some i"
    using i u by (subst find_cong[OF refl, of _ _ "\<lambda>i. pr_state (ptable s i) = UNUSED"]) auto
  have "runs allocproc ?s (\<lambda>r s''. r = Some i \<and> pr_state (ptable s'' i) = EMBRYO \<and> pr_killed (ptable s'' i) = 1)"
    by (rule runs_allocproc[OF f']) (use mem pid in \<open>auto simp: embryo_def elim: runs_mono\<close>)
  then show ?thesis using k by (auto simp: runs_Inr)
qed

theorem kill_zero_witness:
  "\<exists>s' s''. kill 0 proc_demo = Inr (0, s') \<and> allocproc s' = Inr (Some 1, s'') \<and> pr_killed (ptable s'' 1) = 1"
proof -
  have u: "[0..<NPROC] = 0 # 1 # [2..<NPROC]" by (simp add: NPROC_def upt_rec numeral_2_eq_2[symmetric] del: upt_rec_numeral)
  have f: "find (\<lambda>i. pr_state (ptable proc_demo i) = UNUSED) [0..<NPROC] = Some 1"
    unfolding u by (simp add: proc_demo_ptable proc_zero_def)
  have k: "kvm proc_demo = one_page" "nextpid proc_demo = 1"
    by (simp_all add: proc_demo_def kfile_zero_def kfs_zero_def kcons_zero_def klog_zero_def kbuf_zero_def kern_zero_def)
  have "runs kalloc (kvm proc_demo) (\<lambda>k _. k \<noteq> 0)" unfolding k by (simp add: kalloc_def pop_free_def one_page_def)
  moreover have "\<forall>i < NPROC. pr_pid (ptable proc_demo i) = 0 \<longleftrightarrow> pr_state (ptable proc_demo i) = UNUSED"
    by (simp add: proc_demo_ptable proc_zero_def)
  moreover have "i32_range (nextpid proc_demo + 1)" unfolding k by (simp add: i32_range_def)
  ultimately show ?thesis using kill_zero[OF f] by blast
qed

end
