(* ===== verification/Xv6_Fork.thy ===== *)
theory Xv6_Fork
  imports Xv6_Sched Xv6_Uvm
begin

text \<open>
  Fork: the child that \<open>fork\<close> makes is a copy of the parent, with its own memory, the same open files and
  directory, and 0 as its result.
\<close>

lemma as_inv_pop:
  assumes "as_inv v pg (x # xs)"
  shows "kmem_freelist v = x" "x \<noteq> 0" "as_inv (v\<lparr>kmem_freelist := ld64 (pmem v) x\<rparr>) pg xs"
proof -
  have fp: "free_pages v (x # xs)" using assms by (simp add: as_inv_def pt_inv_def)
  then show "kmem_freelist v = x" "x \<noteq> 0" by (auto simp: free_pages_def)
  have m: "managed_page (v\<lparr>kmem_freelist := y\<rparr>) = managed_page v" for y by (simp add: fun_eq_iff managed_page_def)
  let ?v = "v\<lparr>kmem_freelist := ld64 (pmem v) x\<rparr>"
  have dp: "data_page ?v pg xs d" if "data_page v pg (x # xs) d" for d using that by (simp add: data_page_def m)
  have "free_pages ?v xs" using fp by (auto simp: free_pages_def m)
  then have "pt_inv ?v pg xs" using assms by (simp add: as_inv_def pt_inv_def m)
  moreover have "\<forall>va. user_va va \<longrightarrow> present (pmem v) pg va \<longrightarrow> data_page ?v pg xs (frame (pmem v) pg va)"
    using assms dp unfolding as_inv_def by blast
  moreover have e: "pmem ?v = pmem v" "link_end ?v = link_end v" by simp_all
  ultimately show "as_inv ?v pg xs" using assms unfolding as_inv_def e by (elim conjE, intro conjI)
qed

section \<open>Sharing the open files\<close>

text \<open>The files after the first \<open>k\<close> descriptors of the parent have been handed on to the child \<open>np\<close>.\<close>

definition shared :: "nat option list \<Rightarrow> nat \<Rightarrow> nat \<Rightarrow> 'z kproc_scheme \<Rightarrow> 'z kproc_scheme \<Rightarrow> bool" where
  "shared fs np k s s' \<longleftrightarrow> (\<forall>i. ptable s' i = (if i = np then (ptable s np)\<lparr>pr_ofile := take k fs @ replicate (NOFILE - k) None\<rparr> else ptable s i)) \<and>
     (\<forall>f. ftable s' f = (ftable s f)\<lparr>f_ref := f_ref (ftable s f) + int (count_list (take k fs) (Some f))\<rparr>) \<and>
     kvm s' = kvm s \<and> icache s' = icache s"

lemma count_list_take_Suc:
  "k < length xs \<Longrightarrow> count_list (take (Suc k) xs) y = count_list (take k xs) y + of_bool (xs ! k = y)"
  by (simp add: take_Suc_conv_app_nth)

lemma upd_file_fields [simp]:
  "ftable (upd_file f g s) = (ftable s)(f := g (ftable s f))" "ptable (upd_file f g s) = ptable s" "kvm (upd_file f g s) = kvm s"
  "icache (upd_file f g s) = icache s" "myproc (upd_file f g s) = myproc s"
  by (simp_all add: upd_file_def)

lemma icache_locks [simp]: "icache (kacq lk s) = icache s" "icache (krel lk s) = icache s"
  by (simp_all add: ktrans_defs)

lemma runs_fork_ofile:
  fixes s s' :: "'z kproc_scheme"
  assumes sh: "shared fs np k s s'" and k: "k < NOFILE" "length fs = NOFILE" and p: "p \<noteq> np" "pr_ofile (ptable s p) = fs"
    and rf: "\<And>f. fs ! k = Some f \<Longrightarrow> 1 \<le> f_ref (ftable s f) \<and> f_ref (ftable s f) + int NOFILE < 2 ^ 31"
  shows "runs (fork_ofile p np k) s' (\<lambda>_ s''. shared fs np (Suc k) s s'')"
proof (cases "fs ! k")
  case None
  have "take k fs @ replicate (NOFILE - k) None = take (Suc k) fs @ replicate (NOFILE - Suc k) None"
    using None k by (simp add: take_Suc_conv_app_nth Suc_diff_Suc[symmetric])
  then have "shared fs np (Suc k) s s'" using sh None k by (auto simp: shared_def count_list_take_Suc)
  then show ?thesis using None sh p by (simp add: fork_ofile_def shared_def)
next
  case (Some f)
  note S = sh[unfolded shared_def]
  have c: "count_list (take k fs) (Some f) \<le> k" using count_le_length[of "take k fs" "Some f"] k by simp
  have r: "f_ref (ftable s' f) = f_ref (ftable s f) + int (count_list (take k fs) (Some f))" using S by simp
  have "1 \<le> f_ref (ftable s' f)" "i32_range (f_ref (ftable s' f) + 1)" using rf[OF Some] c k(1) unfolding r i32_range_def by auto
  moreover have "(take k fs @ replicate (NOFILE - k) None)[k := Some f] = take (Suc k) fs @ replicate (NOFILE - Suc k) None"
    using Some k by (simp add: take_Suc_conv_app_nth list_update_append Suc_diff_Suc[symmetric])
  moreover have "pr_ofile (ptable s' p) ! k = Some f" using S p Some by simp
  ultimately show ?thesis using S Some k
    by (auto simp: fork_ofile_def filedup_def shared_def count_list_take_Suc)
qed


lemma runs_fork_files:
  fixes s :: "'z kproc_scheme"
  assumes fs: "length fs = NOFILE" "pr_ofile (ptable s p) = fs" "pr_ofile (ptable s np) = replicate NOFILE None" and p: "p \<noteq> np"
    and rf: "\<forall>f. Some f \<in> set fs \<longrightarrow> 1 \<le> f_ref (ftable s f) \<and> f_ref (ftable s f) + int NOFILE < 2 ^ 31"
  shows "runs (for_each (fork_ofile p np) [0..<NOFILE]) s (\<lambda>_ s'. shared fs np NOFILE s s')"
proof -
  have "runs (for_each (fork_ofile p np) [0..<NOFILE]) s (\<lambda>_ s'. \<exists>k \<le> NOFILE. [] = [k..<NOFILE] \<and> shared fs np k s s')"
  proof (rule runs_for_each[where I = "\<lambda>xs s'. \<exists>k \<le> NOFILE. xs = [k..<NOFILE] \<and> shared fs np k s s'"], goal_cases)
    case 1
    have "shared fs np 0 s s" using fs(3) by (simp add: shared_def)
    then show ?case by blast
  next
    case (2 x xs s')
    then obtain k where k: "k \<le> NOFILE" "x # xs = [k..<NOFILE]" "shared fs np k s s'" by blast
    then have x: "x = k" "k < NOFILE" "xs = [Suc k..<NOFILE]" using upt_eq_ConsD[OF k(2)] by auto
    have "runs (fork_ofile p np k) s' (\<lambda>_ s''. shared fs np (Suc k) s s'')"
      by (rule runs_fork_ofile[OF k(3) x(2) fs(1) p fs(2)]) (use rf fs(1) x(2) nth_mem[of k fs] in auto)
    then show ?case unfolding x(1,3) by (rule runs_mono) (use x(2) in \<open>auto intro!: exI[of _ "Suc k"]\<close>)
  qed
  then show ?thesis by (rule runs_mono) (use upt_eq_NilD in auto)
qed

section \<open>The child\<close>

text \<open>
  What the caller of \<open>fork\<close> must bring: a free slot, whose last owner has closed its files, a number, memory
  whose pages up to the size are all there, enough free pages, and reference counts that are in use and not
  about to overflow.
\<close>

definition can_fork :: "'z kproc_scheme \<Rightarrow> nat \<Rightarrow> nat \<Rightarrow> nat \<Rightarrow> u64 list \<Rightarrow> bool" where
  "can_fork s p np c xs \<longleftrightarrow> myproc s = Some p \<and> pr_state (ptable s p) \<noteq> UNUSED \<and>
     find (\<lambda>i. pr_state (ptable s i) = UNUSED) [0..<NPROC] = Some np \<and> i32_range (nextpid s + 1) \<and>
     as_inv (kvm s) (pr_pgdir (ptable s p)) xs \<and> 4 * pages_between PGSIZE (pr_sz (ptable s p)) + 2 \<le> length xs \<and> unat (pr_sz (ptable s p)) < 2 ^ 32 \<and>
     (\<forall>va. in_pages PGSIZE (pr_sz (ptable s p)) va \<longrightarrow> present (pmem (kvm s)) (pr_pgdir (ptable s p)) va) \<and>
     length (pr_ofile (ptable s p)) = NOFILE \<and> pr_ofile (ptable s np) = replicate NOFILE None \<and>
     (\<forall>f. Some f \<in> set (pr_ofile (ptable s p)) \<longrightarrow> 1 \<le> f_ref (ftable s f) \<and> f_ref (ftable s f) + int NOFILE < 2 ^ 31) \<and>
     pr_cwd (ptable s p) = Some c \<and> 1 \<le> i_ref (icache s c) \<and> i_ref (icache s c) < 2 ^ 31 - 1"

text \<open>The child's memory: the parent's pages with their contents in frames of its own, and nothing else.\<close>

definition memory_copy :: "vmem \<Rightarrow> vmem \<Rightarrow> u64 \<Rightarrow> u64 \<Rightarrow> u64 \<Rightarrow> bool" where
  "memory_copy v v' pg d sz \<longleftrightarrow> (\<exists>xs'. separate v' pg d xs') \<and>
     (\<forall>va. user_va va \<longrightarrow> upte (pmem v') pg va = upte (pmem v) pg va) \<and>
     (\<forall>x. owns (pmem v) pg x \<longrightarrow> bytes_at (pmem v') x 4096 = bytes_at (pmem v) x 4096) \<and>
     (\<forall>va. user_va va \<longrightarrow> (if in_pages PGSIZE sz va
       then present (pmem v') d va \<and> PTE_FLAGS (upte (pmem v') d va) = PTE_FLAGS (upte (pmem v) pg va) \<and>
            bytes_at (pmem v') (frame (pmem v') d va) 4096 = bytes_at (pmem v) (frame (pmem v) pg va) 4096
       else upte (pmem v') d va = 0))"

lemma runs_fork_memory:
  assumes a: "as_inv v pg (x # xs)" and l: "4 * pages_between PGSIZE sz + 1 \<le> length xs" and z: "unat sz < 2 ^ 32"
    and pr: "\<forall>va. in_pages PGSIZE sz va \<longrightarrow> present (pmem v) pg va"
    and Q: "\<And>d v'. d \<noteq> 0 \<Longrightarrow> memory_copy v v' pg d sz \<Longrightarrow> Q d v'"
  shows "runs (copyuvm pg (ucast sz)) (v\<lparr>kmem_freelist := ld64 (pmem v) x\<rparr>) Q"
proof -
  let ?v = "v\<lparr>kmem_freelist := ld64 (pmem v) x\<rparr>"
  have u: "ucast (ucast sz :: u32) = sz"
    by (rule word_unat_eq_iff[THEN iffD2]) (use z in \<open>simp add: unsigned_ucast_eq unsigned_take_bit_eq take_bit_nat_eq_self\<close>)
  have "\<exists>v' d xs'. copyuvm pg (ucast sz) ?v = Inr (d, v') \<and> d \<noteq> 0 \<and> separate v' pg d xs' \<and>
    (\<forall>va. user_va va \<longrightarrow> upte (pmem v') pg va = upte (pmem ?v) pg va) \<and>
    (\<forall>x. owns (pmem ?v) pg x \<longrightarrow> bytes_at (pmem v') x 4096 = bytes_at (pmem ?v) x 4096) \<and>
    (\<forall>va. user_va va \<longrightarrow> (if in_pages PGSIZE (ucast (ucast sz :: u32)) va
       then present (pmem v') d va \<and> PTE_FLAGS (upte (pmem v') d va) = PTE_FLAGS (upte (pmem ?v) pg va) \<and>
            bytes_at (pmem v') (frame (pmem v') d va) 4096 = bytes_at (pmem ?v) (frame (pmem ?v) pg va) 4096
       else upte (pmem v') d va = 0))"
    by (rule copyuvm_space[OF as_inv_pop(3)[OF a]]) (use l pr u in simp_all)
  moreover have e: "pmem ?v = pmem v" by simp
  ultimately obtain v' d where d: "copyuvm pg (ucast sz) ?v = Inr (d, v')" "d \<noteq> 0" "memory_copy v v' pg d sz"
    unfolding u memory_copy_def e by blast
  then show ?thesis using Q by (simp add: runs_Inr)
qed


lemma runs_fork_rest:
  fixes t :: "'z kproc_scheme"
  assumes fs: "length (pr_ofile pr) = NOFILE" "pr_ofile (ptable t p) = pr_ofile pr" "pr_ofile (ptable t np) = replicate NOFILE None" and p: "p \<noteq> np"
    and rf: "\<forall>f. Some f \<in> set (pr_ofile pr) \<longrightarrow> 1 \<le> f_ref (ftable t f) \<and> f_ref (ftable t f) + int NOFILE < 2 ^ 31"
    and c: "pr_cwd pr = Some c" "i32_range (i_ref (icache t c) + 1)"
    and Q: "\<And>t'. (\<And>i. i \<noteq> np \<Longrightarrow> ptable t' i = ptable t i) \<Longrightarrow>
      ptable t' np = (ptable t np)\<lparr>pr_ofile := pr_ofile pr, pr_cwd := Some c, pr_name := safestrcpy (pr_name (ptable t np)) (pr_name pr), pr_state := RUNNABLE\<rparr> \<Longrightarrow>
      (\<forall>f. ftable t' f = (ftable t f)\<lparr>f_ref := f_ref (ftable t f) + int (count_list (pr_ofile pr) (Some f))\<rparr>) \<Longrightarrow> kvm t' = kvm t \<Longrightarrow>
      icache t' = (icache t)(c := (icache t c)\<lparr>i_ref := i_ref (icache t c) + 1\<rparr>) \<Longrightarrow> Q (pr_pid (ptable t np)) t'"
  shows "runs (fork_rest p np pr) t Q"
  unfolding fork_rest_def runs_bnd
proof (rule runs_mono[OF runs_fork_files[OF fs p rf]], goal_cases)
  case (1 u t1)
  note S = 1(2)[unfolded shared_def]
  have n: "ptable t1 np = (ptable t np)\<lparr>pr_ofile := pr_ofile pr\<rparr>" using S fs(1) by simp
  have r: "i32_range (i_ref (icache t1 c) + 1)" "icache t1 = icache t" using S c(2) by auto
  show ?case using c(1) r S n fs(1)
    by (auto simp: idup_def upd_inode_def fun_upd_def intro!: Q)
qed

text \<open>
  C5: fork. Under these conditions \<open>fork\<close> returns the child's number; the child is ready to run, has the
  parent's registers with 0 in place of the result, the parent's size, open files and directory and a copy of its
  memory. Every file has one reference more for each descriptor that names it, and so has the directory; the
  parent, its memory and the other processes are unchanged.
\<close>

theorem fork_copies:
  fixes s :: "'z kproc_scheme"
  assumes "can_fork s p np c xs"
  shows "\<exists>s'. fork s = Inr (nextpid s, s') \<and>
    (let pr = ptable s p; ch = ptable s' np in
      pr_state ch = RUNNABLE \<and> pr_pid ch = nextpid s \<and> pr_parent ch = Some p \<and> pr_sz ch = pr_sz pr \<and> pr_tf ch = (pr_tf pr)\<lparr>tf_rax := 0\<rparr> \<and>
      pr_ofile ch = pr_ofile pr \<and> pr_cwd ch = Some c \<and> memory_copy (kvm s) (kvm s') (pr_pgdir pr) (pr_pgdir ch) (pr_sz pr) \<and>
      (\<forall>f. ftable s' f = (ftable s f)\<lparr>f_ref := f_ref (ftable s f) + int (count_list (pr_ofile pr) (Some f))\<rparr>) \<and>
      icache s' = (icache s)(c := (icache s c)\<lparr>i_ref := i_ref (icache s c) + 1\<rparr>) \<and> (\<forall>i. i \<noteq> np \<longrightarrow> ptable s' i = ptable s i))"
proof -
  let ?pr = "ptable s p"
  note C = assms[unfolded can_fork_def]
  have np: "p \<noteq> np" using C by (auto simp: find_Some_iff)
  obtain x xs1 where xs: "xs = x # xs1" using C by (cases xs) auto
  have a: "as_inv (kvm s) (pr_pgdir ?pr) (x # xs1)" using C xs by simp
  note P = as_inv_pop[OF a]
  have rng: "i32_range (i_ref (icache s c) + 1)" using C by (auto simp: i32_range_def)
  have "runs fork s (\<lambda>r s'. r = nextpid s \<and> (let pr = ?pr; ch = ptable s' np in
      pr_state ch = RUNNABLE \<and> pr_pid ch = nextpid s \<and> pr_parent ch = Some p \<and> pr_sz ch = pr_sz pr \<and> pr_tf ch = (pr_tf pr)\<lparr>tf_rax := 0\<rparr> \<and>
      pr_ofile ch = pr_ofile pr \<and> pr_cwd ch = Some c \<and> memory_copy (kvm s) (kvm s') (pr_pgdir pr) (pr_pgdir ch) (pr_sz pr) \<and>
      (\<forall>f. ftable s' f = (ftable s f)\<lparr>f_ref := f_ref (ftable s f) + int (count_list (pr_ofile pr) (Some f))\<rparr>) \<and>
      icache s' = (icache s)(c := (icache s c)\<lparr>i_ref := i_ref (icache s c) + 1\<rparr>) \<and> (\<forall>i. i \<noteq> np \<longrightarrow> ptable s' i = ptable s i)))"
    (is "runs fork s ?Q")
  proof -
    let ?e = "embryo np x (kvm s\<lparr>kmem_freelist := ld64 (pmem (kvm s)) x\<rparr>) s"
    have al: "runs allocproc s (\<lambda>r s1. r = Some np \<and> s1 = ?e)"
      by (rule runs_allocproc) (use C P in \<open>simp_all add: runs_kalloc\<close>)
    have cp: "runs (copyuvm (pr_pgdir ?pr) (ucast (pr_sz ?pr))) (kvm ?e)
        (\<lambda>d v'. d \<noteq> 0 \<and> memory_copy (kvm s) v' (pr_pgdir ?pr) d (pr_sz ?pr))"
      unfolding embryo_def using runs_fork_memory[OF a] C xs by simp
    have e: "ptable ?e p = ?pr" "ftable ?e = ftable s" "icache ?e = icache s" "\<And>i. i \<noteq> np \<Longrightarrow> ptable ?e i = ptable s i"
      "pr_pid (ptable ?e np) = nextpid s" "pr_ofile (ptable ?e np) = replicate NOFILE None"
      using np C by (simp_all add: embryo_def)
    have rest: "runs (fork_rest p np ?pr) (upd_proc np (\<lambda>x. x\<lparr>pr_pgdir := d, pr_sz := pr_sz ?pr, pr_parent := Some p, pr_tf := (pr_tf ?pr)\<lparr>tf_rax := 0\<rparr>\<rparr>) (?e\<lparr>kvm := v'\<rparr>)) ?Q"
      if "memory_copy (kvm s) v' (pr_pgdir ?pr) d (pr_sz ?pr)" for d v'
      by (rule runs_fork_rest) (use C e np rng that in \<open>auto simp: Let_def\<close>)
    have "runs fork s ?Q \<longleftrightarrow> runs allocproc s (\<lambda>r s1. runs (case r of None \<Rightarrow> ret (-1) | Some np \<Rightarrow>
      bnd (gets (\<lambda>s. ptable s p)) (\<lambda>pr. bnd (vmop (copyuvm (pr_pgdir pr) (ucast (pr_sz pr)))) (\<lambda>new_pgdir.
      if new_pgdir = 0 then bnd (gets (\<lambda>s. pr_kstack (ptable s np))) (\<lambda>k. bnd (vmop (kfree k)) (\<lambda>_.
        bnd (modify (upd_proc np (\<lambda>x. x\<lparr>pr_kstack := 0, pr_state := UNUSED\<rparr>))) (\<lambda>_. ret (-1))))
      else bnd (modify (upd_proc np (\<lambda>x. x\<lparr>pr_pgdir := new_pgdir, pr_sz := pr_sz pr, pr_parent := Some p,
        pr_tf := (pr_tf pr)\<lparr>tf_rax := 0\<rparr>\<rparr>))) (\<lambda>_. fork_rest p np pr)))) s1 ?Q)"
      using C by (simp add: fork_def my_proc_def)
    also have \<dots>
      by (rule runs_mono[OF al]) (use cp e(1) rest in \<open>auto elim!: runs_mono\<close>)
    finally show ?thesis .
  qed
  then show ?thesis by (simp add: runs_Inr)
qed


text \<open>A process with two pages of memory, one open file and a directory, in slot 0; the other slots are unused.\<close>

definition fork_demo :: "vmem \<Rightarrow> u64 \<Rightarrow> kproc" where
  "fork_demo v pg = proc_demo\<lparr>kvm := v, myproc := Some 0,
     ptable := (\<lambda>i. if i = 0 then proc_zero\<lparr>pr_state := RUNNING, pr_pid := 1, pr_pgdir := pg, pr_sz := 12288, pr_ofile := Some 0 # replicate 15 None, pr_cwd := Some 0\<rparr>
        else proc_zero),
     ftable := (\<lambda>_. file_empty\<lparr>f_ref := 1\<rparr>), icache := (\<lambda>_. inode_zero\<lparr>i_ref := 1\<rparr>)\<rparr>"

theorem fork_copies_witness:
  "\<exists>v pg s'. fork (fork_demo v pg) = Inr (1, s') \<and> pr_state (ptable s' 1) = RUNNABLE \<and> pr_parent (ptable s' 1) = Some 0 \<and>
     f_ref (ftable s' 0) = 2 \<and> memory_copy v (kvm s') pg (pr_pgdir (ptable s' 1)) 12288"
proof -
  obtain pg s0 xs and v :: vmem where v: "demo_boot vm_demo = Inr (pg, s0)" "as_inv v pg xs" "55 \<le> length xs" "\<forall>va. in_pages PGSIZE 12288 va \<longrightarrow> present (pmem v) pg va"
    using demo_grown by blast
  have u: "[0..<NPROC] = 0 # 1 # [2..<NPROC]" by (simp add: NPROC_def upt_rec numeral_2_eq_2[symmetric] del: upt_rec_numeral)
  let ?s = "fork_demo v pg"
  have f: "find (\<lambda>i. pr_state (ptable ?s i) = UNUSED) [0..<NPROC] = Some 1"
    unfolding u by (simp add: fork_demo_def proc_zero_def)
  have n: "nextpid ?s = 1"
    by (simp add: fork_demo_def proc_demo_def kfile_zero_def kfs_zero_def kcons_zero_def klog_zero_def kbuf_zero_def kern_zero_def)
  have "can_fork ?s 0 1 0 xs" unfolding can_fork_def f n
    using v(2-4) by (simp add: fork_demo_def proc_zero_def NOFILE_def file_empty_def inode_zero_def pages_between_def i32_range_def)
  from fork_copies[OF this] n obtain s' where "fork ?s = Inr (1, s')" "pr_state (ptable s' 1) = RUNNABLE" "pr_parent (ptable s' 1) = Some 0"
    "f_ref (ftable s' 0) = 2" "memory_copy v (kvm s') pg (pr_pgdir (ptable s' 1)) 12288"
    by (auto simp: Let_def fork_demo_def file_empty_def)
  then show ?thesis by blast
qed

end
