(* ===== verification/Xv6_Exec.thy ===== *)
theory Xv6_Exec
  imports Xv6_Proc
begin

text \<open>
  Program execution (\<^verbatim>\<open>crates/proc/src/exec.rs\<close>), with the ELF headers of \<^verbatim>\<open>crates/arch/src/elf.rs\<close> and
  \<open>loaduvm\<close> of \<^verbatim>\<open>crates/arch/src/vm.rs\<close>. A header is read as the bytes of its \<^verbatim>\<open>repr(C)\<close> structure, with the
  padding that the alignment of the fields asks for.
\<close>

section \<open>ELF headers\<close>

definition ELF_MAGIC :: u32 where "ELF_MAGIC = 0x464C457F"
definition ELF_PROG_LOAD :: i32 where "ELF_PROG_LOAD = 1"

record elfhdr =
  eh_magic :: u32
  eh_elf :: u8
  eh_type :: u16
  eh_machine :: u16
  eh_version :: u32
  eh_entry :: u64
  eh_phoff :: u64
  eh_shoff :: u64
  eh_flags :: u32
  eh_ehsize :: u16
  eh_phentsize :: u16
  eh_phnum :: u16
  eh_shentsize :: u16
  eh_shnum :: u16
  eh_shstrndx :: u16

record proghdr =
  ph_type :: u32
  ph_flags :: u64
  ph_off :: u64
  ph_vaddr :: u64
  ph_paddr :: u64
  ph_filesz :: u64
  ph_memsz :: u64
  ph_align :: u64

definition get_u64 :: "u8 list \<Rightarrow> nat \<Rightarrow> u64" where "get_u64 bs off = of_le (slice off 8 bs)"

definition ELFHDR_SIZE :: nat where "ELFHDR_SIZE = 56"
definition PROGHDR_SIZE :: nat where "PROGHDR_SIZE = 64"

definition elfhdr_of :: "u8 list \<Rightarrow> elfhdr" where
  "elfhdr_of b = \<lparr>eh_magic = get_u32 b 0, eh_elf = b ! 4, eh_type = get_u16 b 6, eh_machine = get_u16 b 8, eh_version = get_u32 b 12,
     eh_entry = get_u64 b 16, eh_phoff = get_u64 b 24, eh_shoff = get_u64 b 32, eh_flags = get_u32 b 40, eh_ehsize = get_u16 b 44,
     eh_phentsize = get_u16 b 46, eh_phnum = get_u16 b 48, eh_shentsize = get_u16 b 50, eh_shnum = get_u16 b 52, eh_shstrndx = get_u16 b 54\<rparr>"

definition proghdr_of :: "u8 list \<Rightarrow> proghdr" where
  "proghdr_of b = \<lparr>ph_type = get_u32 b 0, ph_flags = get_u64 b 8, ph_off = get_u64 b 16, ph_vaddr = get_u64 b 24, ph_paddr = get_u64 b 32,
     ph_filesz = get_u64 b 40, ph_memsz = get_u64 b 48, ph_align = get_u64 b 56\<rparr>"

section \<open>Loading a segment\<close>

text \<open>The loop of \<open>loaduvm\<close>; \<open>readi\<close> stores into the page through its kernel address.\<close>

function loaduvm_from :: "u64 \<Rightarrow> u64 \<Rightarrow> nat \<Rightarrow> u32 \<Rightarrow> u32 \<Rightarrow> u32 \<Rightarrow> ('z kfile_scheme, i32) kop" where
  "loaduvm_from pgdir vaddr ip offset sz i = (if i < sz then
       bnd (u64_add vaddr (ucast i)) (\<lambda>va.
       bnd (vmop (walkpgdir pgdir va False)) (\<lambda>pte.
       bnd (guardk (pte \<noteq> 0) (Panic ''loaduvm: address should exist'')) (\<lambda>_.
       bnd (vmop (load pte)) (\<lambda>e.
       let n = min (sz - i) (ucast PGSIZE) in
       bnd (vmop (p2v (PTE_ADDR e))) (\<lambda>dst.
       bnd (u32_add offset i) (\<lambda>off.
       bnd (readi ip off n) (\<lambda>(r, bs).
       bnd (vmop (modify (\<lambda>v. v\<lparr>pmem := store_bytes dst bs (pmem v)\<rparr>))) (\<lambda>_.
       if r \<noteq> i32_of_u32 n then ret (-1)
       else if unat i + 4096 < 2 ^ 32 then loaduvm_from pgdir vaddr ip offset sz (i + ucast PGSIZE)
       else stopk add_overflow))))))))
     else ret 0)"
  by pat_completeness auto
termination
proof (relation "measure (\<lambda>(pgdir, vaddr, ip, offset, sz, i). unat sz - unat i)", goal_cases)
  case (2 pgdir vaddr ip offset sz i)
  then show ?case by (auto simp: word_less_nat_alt unat_word_ariths)
qed simp

declare loaduvm_from.simps [simp del]

definition loaduvm :: "u64 \<Rightarrow> u64 \<Rightarrow> nat \<Rightarrow> u32 \<Rightarrow> u32 \<Rightarrow> ('z kfile_scheme, i32) kop" where
  "loaduvm pgdir vaddr ip offset sz =
     bnd (guardk (vaddr mod PGSIZE = 0) (Panic ''loaduvm: vaddr must be page aligned'')) (\<lambda>_.
     loaduvm_from pgdir vaddr ip offset sz 0)"

section \<open>Replacing the program\<close>

text \<open>\<open>goto_bad\<close>; \<open>pgdir\<close> is 0 and \<open>ip\<close> is \<open>None\<close> when there is nothing to give back. The callers return -1.\<close>

definition goto_bad :: "u64 \<Rightarrow> nat option \<Rightarrow> ('z kfile_scheme, unit) kop" where
  "goto_bad pgdir ip =
     bnd (whenk (pgdir \<noteq> 0) (vmop (freevm pgdir))) (\<lambda>_.
     case ip of None \<Rightarrow> ret () | Some i \<Rightarrow> bnd (iunlockput i) (\<lambda>_. end_op))"

definition bad :: "u64 \<Rightarrow> nat option \<Rightarrow> ('z kfile_scheme, 'a option) kop" where
  "bad pgdir ip = bnd (goto_bad pgdir ip) (\<lambda>_. ret None)"

fun find_last_component_from :: "u8 list \<Rightarrow> u8 list \<Rightarrow> u8 list" where
  "find_last_component_from lst [] = lst"
| "find_last_component_from lst (c # s) =
     (if c = 0 then lst else find_last_component_from (if c = SLASH then s else lst) s)"

definition find_last_component :: "u8 list \<Rightarrow> u8 list" where
  "find_last_component path = find_last_component_from path path"

fun c_strlen :: "u8 list \<Rightarrow> nat" where
  "c_strlen [] = 0"
| "c_strlen (c # s) = (if c = 0 then 0 else Suc (c_strlen s))"

text \<open>One program header: \<open>None\<close> after a failure, else the new size.\<close>

definition exec_segment :: "u64 \<Rightarrow> nat \<Rightarrow> proghdr \<Rightarrow> u64 \<Rightarrow> ('z kfile_scheme, u64 option) kop" where
  "exec_segment pgdir ip ph sz =
     (if sint (ph_type ph) \<noteq> ELF_PROG_LOAD then ret (Some sz)
      else if ph_memsz ph < ph_filesz ph then bad pgdir (Some ip)
      else if ph_vaddr ph + ph_memsz ph < ph_vaddr ph then bad pgdir (Some ip)
      else
        bnd (u64_add (ph_vaddr ph) (ph_memsz ph)) (\<lambda>end.
        bnd (vmop (allocuvm pgdir sz end)) (\<lambda>sz'.
        if sz' = 0 then bad pgdir (Some ip)
        else if ph_vaddr ph mod PGSIZE \<noteq> 0 then bad pgdir (Some ip)
        else
          bnd (loaduvm pgdir (ph_vaddr ph) ip (ucast (ph_off ph)) (ucast (ph_filesz ph))) (\<lambda>r.
          if r < 0 then bad pgdir (Some ip) else ret (Some sz')))))"

text \<open>The loop over the program headers, with \<open>k\<close> of them left.\<close>

fun exec_load :: "u64 \<Rightarrow> nat \<Rightarrow> nat \<Rightarrow> u32 \<Rightarrow> u64 \<Rightarrow> ('z kfile_scheme, u64 option) kop" where
  "exec_load pgdir ip 0 off sz = ret (Some sz)"
| "exec_load pgdir ip (Suc k) off sz =
     bnd (readi ip off (of_nat PROGHDR_SIZE)) (\<lambda>(r, bs).
     if r \<noteq> int PROGHDR_SIZE then bad pgdir (Some ip)
     else
       bnd (exec_segment pgdir ip (proghdr_of bs) sz) (\<lambda>x. case x of
           None \<Rightarrow> ret None
         | Some sz' \<Rightarrow>
             bnd (u32_add off (of_nat PROGHDR_SIZE)) (\<lambda>off'.
             exec_load pgdir ip k off' sz')))"

definition MAXARG :: nat where "MAXARG = 32"

text \<open>
  The loop that pushes the arguments from index \<open>argc\<close> on: \<open>argv\<close> is the array behind the pointer, \<open>None\<close>
  for a null entry, and to read behind it is a fault. The result is the stack pointer and the addresses.
\<close>

fun exec_args :: "u64 \<Rightarrow> u8 list option list \<Rightarrow> nat \<Rightarrow> u64 \<Rightarrow> ('z kfile_scheme, (u64 \<times> u64 list) option) kop" where
  "exec_args pgdir [] argc sp = stopk (Fault ''exec: argv'')"
| "exec_args pgdir (None # argv) argc sp = ret (Some (sp, []))"
| "exec_args pgdir (Some arg # argv) argc sp =
     (if MAXARG \<le> argc then bad pgdir None
      else
        bnd (u64_sub sp (of_nat (c_strlen arg + 1))) (\<lambda>sp1.
        let sp' = sp1 AND NOT 7 in
        bnd (vmop (copyout pgdir sp' (take (c_strlen arg) arg @ [0]))) (\<lambda>r.
        if r < 0 then bad pgdir None
        else
          bnd (exec_args pgdir argv (Suc argc) sp') (\<lambda>x. ret (case x of
              None \<Rightarrow> None
            | Some (sp'', us) \<Rightarrow> Some (sp'', sp' # us))))))"

definition le64 :: "u64 \<Rightarrow> u8 list" where
  "le64 w = map (\<lambda>i. ucast (drop_bit (8 * i) w)) [0..<8]"

text \<open>The end of \<open>exec\<close>, from the page-aligned size on: the stack, its contents, and the new image.\<close>

definition exec_stack :: "nat \<Rightarrow> u64 \<Rightarrow> u8 list \<Rightarrow> u8 list option list \<Rightarrow> u64 \<Rightarrow> u64 \<Rightarrow> u64 \<Rightarrow> ('z kproc_scheme, i32) kop" where
  "exec_stack p oldpgdir path argv start pgdir sz0 = bnd (PGROUNDUP sz0) (\<lambda>sz1.
     bnd (u64_add sz1 (2 * PGSIZE)) (\<lambda>sz2.
     bnd (vmop (allocuvm pgdir sz1 sz2)) (\<lambda>sz.
     if sz = 0 then bnd (goto_bad pgdir None) (\<lambda>_. ret (-1))
     else
       bnd (u64_sub sz (2 * PGSIZE)) (\<lambda>g.
       bnd (vmop (clearpteu pgdir g)) (\<lambda>_.
       bnd (exec_args pgdir argv 0 sz) (\<lambda>x. case x of
           None \<Rightarrow> ret (-1)
         | Some (sp, us) \<Rightarrow>
             let argc = length us; n = of_nat ((argc + 2) * 8) in
             bnd (u64_sub sp (of_nat ((argc + 1) * 8))) (\<lambda>rsi.
             bnd (modify (upd_proc p (\<lambda>x. x\<lparr>pr_tf := (pr_tf x)\<lparr>tf_rdi := of_nat argc, tf_rsi := rsi\<rparr>\<rparr>))) (\<lambda>_.
             bnd (u64_sub sp n) (\<lambda>sp'.
             bnd (vmop (copyout pgdir sp' (concat (map le64 (0xFFFFFFFFFFFFFFFF # us @ [0]))))) (\<lambda>r.
             if r < 0 then bnd (goto_bad pgdir None) (\<lambda>_. ret (-1))
             else
               bnd (modify (upd_proc p (\<lambda>x. x\<lparr>pr_name := safestrcpy (pr_name x) (find_last_component path), pr_pgdir := pgdir, pr_sz := sz,
                 pr_tf := (pr_tf x)\<lparr>tf_rip := start, tf_rcx := start, tf_rsp := sp'\<rparr>\<rparr>))) (\<lambda>_.
               bnd (switchuvm p) (\<lambda>_.
               bnd (vmop (freevm oldpgdir)) (\<lambda>_.
               ret 0)))))))))))))"

definition exec :: "u8 list \<Rightarrow> u8 list option list \<Rightarrow> ('z kproc_scheme, i32) kop" where
  "exec path argv = bnd my_proc (\<lambda>p.
     bnd (gets (\<lambda>s. pr_pgdir (ptable s p))) (\<lambda>oldpgdir.
     bnd begin_op (\<lambda>_.
     bnd (namei path) (\<lambda>ipo. case ipo of
         None \<Rightarrow> bnd end_op (\<lambda>_. ret (-1))
       | Some ip \<Rightarrow>
           bnd (ilock (Some ip)) (\<lambda>_.
           bnd (readi ip 0 (of_nat ELFHDR_SIZE)) (\<lambda>(r, bs).
           if r \<noteq> int ELFHDR_SIZE then bnd (goto_bad 0 (Some ip)) (\<lambda>_. ret (-1))
           else
             let elf = elfhdr_of bs in
             if eh_magic elf \<noteq> ELF_MAGIC then bnd (goto_bad 0 (Some ip)) (\<lambda>_. ret (-1))
             else
               bnd (vmop setupkvm) (\<lambda>pgdir.
               if pgdir = 0 then bnd (goto_bad 0 (Some ip)) (\<lambda>_. ret (-1))
               else
                 bnd (exec_load pgdir ip (unat (eh_phnum elf)) (ucast (eh_phoff elf)) PGSIZE) (\<lambda>x. case x of
                     None \<Rightarrow> ret (-1)
                   | Some sz \<Rightarrow>
                       bnd (iunlockput ip) (\<lambda>_.
                       bnd end_op (\<lambda>_.
                       exec_stack p oldpgdir path argv (eh_entry elf) pgdir sz))))))))))"


section \<open>Standard ELF files\<close>

text \<open>
  The header of an executable for this machine as the ELF-64 format lays it out: 16 bytes of identification,
  then type (2, executable), machine (62, x86-64) and version (1), entry point, offset of the program headers,
  offset of the section headers, flags (0 for x86-64) and the sizes and counts.
\<close>

definition elf64_header :: "u64 \<Rightarrow> u64 \<Rightarrow> u64 \<Rightarrow> u16 \<Rightarrow> u8 list \<Rightarrow> u8 list \<Rightarrow> u8 list" where
  "elf64_header start phoff shoff phnum ident rest = le32 ELF_MAGIC @ ident @ le16 2 @ le16 62 @ le32 1 @ le64 start @ le64 phoff @ le64 shoff @
     le32 0 @ le16 64 @ le16 56 @ le16 phnum @ rest"

lemma length_le64 [simp]: "length (le64 w) = 8"
  by (simp add: le64_def)

lemma of_le_le64: "of_le (le64 w) = w"
proof (rule bit_word_eqI)
  fix k assume "k < LENGTH(64)"
  then have k: "k < 64" by simp
  then have d: "k div 8 < 8" by (rule_tac div_less_iff_less_mult[THEN iffD2]) simp_all
  have "le64 w ! (k div 8) = ucast (drop_bit (8 * (k div 8)) w)" using d by (simp add: le64_def del: upt_rec_numeral)
  then show "bit (of_le (le64 w)) k = bit w k" using k d mult_div_mod_eq[of 8 k] by (simp only: of_le_bit length_le64) (simp add: bit_simps)
qed

lemma slice_skip: "length xs = k \<Longrightarrow> k \<le> off \<Longrightarrow> slice off n (xs @ ys) = slice (off - k) n ys"
  by (simp add: slice_def)

lemma slice_hd: "length xs = n \<Longrightarrow> slice 0 n (xs @ ys) = xs"
  by (simp add: slice_def)

text \<open>
  C35: executables are misread. The structure \<open>elfhdr\<close> has one byte of identification where the format has
  twelve more, so that on the header of any ELF-64 executable for this machine \<open>exec\<close> takes the entry point for
  the offset of the program headers, finds no program header and loads nothing, and would start the program
  at the fixed address 0x1003E0002.
\<close>

theorem elf64_misread:
  assumes "length ident = 12"
  shows "let h = elfhdr_of (elf64_header start phoff shoff phnum ident rest) in
    eh_magic h = ELF_MAGIC \<and> eh_phoff h = start \<and> eh_phnum h = 0 \<and> eh_entry h = 0x1003E0002 \<and>
    exec_load pgdir ip (unat (eh_phnum h)) (ucast (eh_phoff h)) sz s = Inr (Some sz, s)"
proof -
  let ?b = "elf64_header start phoff shoff phnum ident rest"
  have "slice 0 4 ?b = le32 ELF_MAGIC" by (simp add: elf64_header_def slice_hd)
  moreover have "slice 24 8 ?b = le64 start" using assms by (simp add: elf64_header_def slice_skip slice_hd)
  moreover have "slice 48 2 ?b = slice 0 2 (le32 0)" using assms by (simp add: elf64_header_def slice_skip) (simp add: slice_def le32_def)
  moreover have "slice 16 8 ?b = le16 2 @ le16 62 @ le32 1"
    using assms by (simp add: elf64_header_def slice_skip) (simp add: slice_def)
  moreover have "of_le16 (slice 0 2 (le32 0)) = 0" "of_le (le16 2 @ le16 62 @ le32 1) = 0x1003E0002" by code_simp+
  ultimately show ?thesis
    by (simp add: elfhdr_of_def get_u32_def get_u16_def get_u64_def of_le_le64 Let_def exec_simps)
qed

theorem elf64_misread_witness:
  "let h = elfhdr_of (elf64_header 0x1000 64 0 2 (replicate 12 0) [64, 0]) in eh_phoff h = 0x1000 \<and> eh_phnum h = 0"
  using elf64_misread[of "replicate 12 0" "0x1000" 64 0 2 "[64, 0]"] unfolding Let_def by auto

end
