(* ===== verification/Xv6_Syscall.thy ===== *)
theory Xv6_Syscall
  imports Xv6_Exec Xv6_Pipe
begin

text \<open>
  System calls (\<^verbatim>\<open>crates/syscall/src\<close>): fetching the arguments from the trap frame and from the memory of the
  process, the handlers of \<^verbatim>\<open>sysproc.rs\<close> and \<^verbatim>\<open>sysfile.rs\<close>, and the dispatcher.

  The kernel reads and writes user memory through the page table in \<open>cr3\<close>; an address without a present
  page (or, for a store, without a writable one: \<open>CR0.WP\<close> is set) is a fault.
\<close>

section \<open>User memory\<close>

definition user_ka :: "bool \<Rightarrow> u64 \<Rightarrow> ('z kfile_scheme, u64) kop" where
  "user_ka wr va = vmop (bnd (gets cr3) (\<lambda>c.
     bnd (walkpgdir (P2V c) va False) (\<lambda>pte.
     if pte = 0 then stopk (Fault ''page fault'')
     else
       bnd (load pte) (\<lambda>e.
       if e AND PTE_P = 0 \<or> wr \<and> e AND PTE_W = 0 then stopk (Fault ''page fault'')
       else ret (P2V (PTE_ADDR e) + va mod PGSIZE)))))"

definition user_get :: "u64 \<Rightarrow> ('z kfile_scheme, u8) kop" where
  "user_get va = bnd (user_ka False va) (\<lambda>ka. gets (\<lambda>s. pmem (kvm s) ka))"

fun user_read :: "u64 \<Rightarrow> nat \<Rightarrow> ('z kfile_scheme, u8 list) kop" where
  "user_read va 0 = ret []"
| "user_read va (Suc n) = bnd (user_get va) (\<lambda>b. bnd (user_read (va + 1) n) (\<lambda>bs. ret (b # bs)))"

fun user_write :: "u64 \<Rightarrow> u8 list \<Rightarrow> ('z kfile_scheme, unit) kop" where
  "user_write va [] = ret ()"
| "user_write va (b # bs) = bnd (user_ka True va) (\<lambda>ka.
     bnd (vmop (modify (\<lambda>v. v\<lparr>pmem := (pmem v)(ka := b)\<rparr>))) (\<lambda>_.
     user_write (va + 1) bs))"

section \<open>Arguments\<close>

definition fetcharg :: "i32 \<Rightarrow> ('z kern_scheme, u64) kop" where
  "fetcharg n = bnd my_proc (\<lambda>p.
     bnd (gets (\<lambda>s. pr_tf (ptable s p))) (\<lambda>tf.
     if n = 0 then ret (tf_rdi tf)
     else if n = 1 then ret (tf_rsi tf)
     else if n = 2 then ret (tf_rdx tf)
     else if n = 3 then ret (tf_r10 tf)
     else if n = 4 then ret (tf_r8 tf)
     else if n = 5 then ret (tf_r9 tf)
     else panic ''fetcharg: invalid index''))"

text \<open>\<open>argint\<close> and \<open>argaddr\<close> always return 0; the value stored through their pointer is the result.\<close>

definition argint :: "i32 \<Rightarrow> ('z kern_scheme, i32) kop" where
  "argint n = bnd (fetcharg n) (\<lambda>x. ret (sint (ucast x :: u32)))"

definition argaddr :: "i32 \<Rightarrow> ('z kern_scheme, u64) kop" where
  "argaddr n = fetcharg n"

definition argptr :: "i32 \<Rightarrow> i32 \<Rightarrow> ('z kern_scheme, u64 option) kop" where
  "argptr n len = bnd (argaddr n) (\<lambda>i.
     bnd my_proc (\<lambda>p.
     bnd (gets (\<lambda>s. pr_sz (ptable s p))) (\<lambda>sz.
     if len < 0 \<or> sz \<le> i then ret None
     else
       bnd (u64_add i (word_of_int len)) (\<lambda>e.
       ret (if sz < e then None else Some i)))))"

text \<open>The loop of \<open>fetchstr\<close>: the bytes before the NUL, if there is one among the next \<open>k\<close>.\<close>

fun fetchstr_from :: "u64 \<Rightarrow> nat \<Rightarrow> ('z kfile_scheme, u8 list option) kop" where
  "fetchstr_from va 0 = ret None"
| "fetchstr_from va (Suc k) = bnd (user_get va) (\<lambda>b.
     if b = 0 then ret (Some [])
     else bnd (fetchstr_from (va + 1) k) (\<lambda>r. ret (map_option (\<lambda>bs. b # bs) r)))"

definition fetchstr :: "u64 \<Rightarrow> ('z kfile_scheme, u8 list option) kop" where
  "fetchstr a = bnd my_proc (\<lambda>p.
     bnd (gets (\<lambda>s. pr_sz (ptable s p))) (\<lambda>sz.
     if a < PGSIZE \<or> sz \<le> a then ret None else fetchstr_from a (unat (sz - a))))"

definition argstr :: "i32 \<Rightarrow> ('z kfile_scheme, u8 list option) kop" where
  "argstr n = bnd (argaddr n) fetchstr"

definition fetchaddr :: "u64 \<Rightarrow> ('z kfile_scheme, u64 option) kop" where
  "fetchaddr a = bnd my_proc (\<lambda>p.
     bnd (gets (\<lambda>s. pr_sz (ptable s p))) (\<lambda>sz.
     if sz \<le> a then ret None
     else
       bnd (u64_add a 8) (\<lambda>e.
       if sz < e then ret None else bnd (user_read a 8) (\<lambda>bs. ret (Some (of_le bs))))))"

definition argfd :: "i32 \<Rightarrow> ('z kern_scheme, (i32 \<times> nat) option) kop" where
  "argfd n = bnd (argint n) (\<lambda>fd.
     bnd my_proc (\<lambda>p.
     bnd (gets (\<lambda>s. pr_ofile (ptable s p))) (\<lambda>ofile.
     ret (if fd < 0 \<or> int NOFILE \<le> fd then None
          else case ofile ! nat fd of None \<Rightarrow> None | Some f \<Rightarrow> Some (fd, f)))))"

definition set_ofile :: "nat \<Rightarrow> nat \<Rightarrow> nat option \<Rightarrow> 'z kern_scheme \<Rightarrow> 'z kern_scheme" where
  "set_ofile p fd f = upd_proc p (\<lambda>x. x\<lparr>pr_ofile := (pr_ofile x)[fd := f]\<rparr>)"

definition fdalloc :: "nat \<Rightarrow> ('z kern_scheme, i32) kop" where
  "fdalloc f = bnd my_proc (\<lambda>p.
     bnd (gets (\<lambda>s. find (\<lambda>fd. pr_ofile (ptable s p) ! fd = None) [0..<NOFILE])) (\<lambda>r. case r of
         Some fd \<Rightarrow> bnd (modify (set_ofile p fd (Some f))) (\<lambda>_. ret (int fd))
       | None \<Rightarrow> ret (-1)))"

section \<open>Process calls\<close>

definition ERR :: u64 where "ERR = - 1"

text \<open>\<open>as usize\<close> of an \<open>i32\<close> extends the sign.\<close>

definition usize_ret :: "i32 \<Rightarrow> u64" where "usize_ret r = word_of_int r"

definition sys_fork :: "('z kproc_scheme, u64) kop" where
  "sys_fork = bnd fork (\<lambda>r. ret (usize_ret r))"

text \<open>\<open>exit\<close> hands the processor to the scheduler for good.\<close>

definition sys_exit :: "('z kproc_scheme, u64) kop" where
  "sys_exit = bnd exit_enter (\<lambda>_. stopk (Sleep ChNull))"

definition sys_wait :: "('z kproc_scheme, u64) kop" where
  "sys_wait = bnd wait (\<lambda>r. ret (usize_ret r))"

definition sys_kill :: "('z kern_scheme, u64) kop" where
  "sys_kill = bnd (argint 0) (\<lambda>pid. bnd (kill pid) (\<lambda>r. ret (usize_ret r)))"

definition sys_getpid :: "('z kern_scheme, u64) kop" where
  "sys_getpid = bnd my_proc (\<lambda>p. gets (\<lambda>s. usize_ret (pr_pid (ptable s p))))"

text \<open>
  \<open>growproc\<close> is declared here with an \<open>i32\<close> and defined with an \<open>i64\<close>: \<open>ext\<close> is what the callee finds in
  the register.
\<close>

definition sys_sbrk :: "(i32 \<Rightarrow> int) \<Rightarrow> ('z kproc_scheme, u64) kop" where
  "sys_sbrk ext = bnd (argint 0) (\<lambda>n.
     bnd my_proc (\<lambda>p.
     bnd (gets (\<lambda>s. pr_sz (ptable s p))) (\<lambda>a.
     bnd (growproc (ext n)) (\<lambda>r.
     ret (if r < 0 then ERR else a)))))"

definition sys_sleep :: "('z kern_scheme, u64) kop" where
  "sys_sleep = bnd (argint 0) (\<lambda>n. bnd (sleep_enter ChTicks None) (\<lambda>_. ret 0))"

definition sys_uptime :: "('z kproc_scheme, u64) kop" where
  "sys_uptime = gets (\<lambda>s. ucast (ticks s))"

section \<open>File calls\<close>

definition sys_dup :: "('z kfile_scheme, u64) kop" where
  "sys_dup = bnd (argfd 0) (\<lambda>r. case r of None \<Rightarrow> ret ERR | Some (x, f) \<Rightarrow>
     bnd (fdalloc f) (\<lambda>fd.
     if fd < 0 then ret ERR else bnd (filedup f) (\<lambda>_. ret (usize_ret fd))))"

text \<open>The common head of \<open>sys_read\<close> and \<open>sys_write\<close>: the file, the count and the buffer.\<close>

definition rw_args :: "('z kern_scheme, (nat \<times> i32 \<times> u64) option) kop" where
  "rw_args = bnd (argfd 0) (\<lambda>r. case r of None \<Rightarrow> ret None | Some (x, f) \<Rightarrow>
     bnd (argint 2) (\<lambda>n.
     bnd (argptr 1 n) (\<lambda>q. ret (case q of None \<Rightarrow> None | Some p \<Rightarrow> Some (f, n, p)))))"

definition sys_read :: "('z kfile_scheme, u64) kop" where
  "sys_read = bnd rw_args (\<lambda>a. case a of None \<Rightarrow> ret ERR | Some (f, n, p) \<Rightarrow>
     bnd (fileread f n) (\<lambda>(r, bs).
     bnd (user_write p bs) (\<lambda>_.
     ret (usize_ret r))))"

definition sys_write :: "('z kfile_scheme, u64) kop" where
  "sys_write = bnd rw_args (\<lambda>a. case a of None \<Rightarrow> ret ERR | Some (f, n, p) \<Rightarrow>
     bnd (user_read p (nat n)) (\<lambda>bs.
     bnd (filewrite f bs n) (\<lambda>r.
     ret (usize_ret r))))"

definition sys_close :: "('z kfile_scheme, u64) kop" where
  "sys_close = bnd (argfd 0) (\<lambda>r. case r of None \<Rightarrow> ret ERR | Some (fd, f) \<Rightarrow>
     bnd my_proc (\<lambda>p.
     bnd (modify (set_ofile p (nat fd) None)) (\<lambda>_.
     bnd (fileclose f) (\<lambda>_.
     ret 0))))"

text \<open>\<open>stati\<close> stores the fields of the result one by one; the padding between them is left alone.\<close>

definition STAT_SIZE :: i32 where "STAT_SIZE = 20"

definition put_stat :: "u64 \<Rightarrow> stat \<Rightarrow> ('z kfile_scheme, unit) kop" where
  "put_stat p st =
     bnd (user_write p (le16 (st_type st))) (\<lambda>_.
     bnd (user_write (p + 4) (le32 (u32_of_i32 (st_dev st)))) (\<lambda>_.
     bnd (user_write (p + 8) (le32 (st_ino st))) (\<lambda>_.
     bnd (user_write (p + 12) (le16 (st_nlink st))) (\<lambda>_.
     user_write (p + 16) (le32 (st_size st))))))"

definition sys_fstat :: "('z kfile_scheme, u64) kop" where
  "sys_fstat = bnd (argfd 0) (\<lambda>r. case r of None \<Rightarrow> ret ERR | Some (x, f) \<Rightarrow>
     bnd (argptr 1 STAT_SIZE) (\<lambda>q. case q of None \<Rightarrow> ret ERR | Some p \<Rightarrow>
     bnd (filestat f) (\<lambda>(r, sto).
     bnd (case sto of None \<Rightarrow> ret () | Some st \<Rightarrow> put_stat p st) (\<lambda>_.
     ret (usize_ret r)))))"

text \<open>The loop of \<open>sys_exec\<close> over the argument array; \<open>None\<close> when an address is bad.\<close>

fun exec_argv :: "u64 \<Rightarrow> nat list \<Rightarrow> ('z kfile_scheme, u8 list option list option) kop" where
  "exec_argv uargv [] = ret (Some [])"
| "exec_argv uargv (i # is) =
     bnd (u64_add uargv (of_nat (8 * i))) (\<lambda>a.
     bnd (fetchaddr a) (\<lambda>r. case r of None \<Rightarrow> ret None | Some uarg \<Rightarrow>
     if uarg = 0 then ret (Some [None])
     else
       bnd (fetchstr uarg) (\<lambda>q. case q of None \<Rightarrow> ret None | Some s \<Rightarrow>
       bnd (exec_argv uargv is) (\<lambda>rest. ret (map_option (\<lambda>xs. Some (s @ [0]) # xs) rest)))))"

definition sys_exec :: "('z kproc_scheme, u64) kop" where
  "sys_exec = bnd (argstr 0) (\<lambda>q. case q of None \<Rightarrow> ret ERR | Some path \<Rightarrow>
     bnd (argaddr 1) (\<lambda>uargv.
     bnd (exec_argv uargv [0..<MAXARG]) (\<lambda>a. case a of None \<Rightarrow> ret ERR | Some argv \<Rightarrow>
     bnd (exec (path @ [0]) argv) (\<lambda>r.
     ret (usize_ret r)))))"

definition sys_pipe :: "('z kfile_scheme, u64) kop" where
  "sys_pipe = bnd (argptr 0 8) (\<lambda>q. case q of None \<Rightarrow> ret ERR | Some fds \<Rightarrow>
     bnd pipealloc (\<lambda>(r, rfo, wfo). case (rfo, wfo) of
         (Some rfile, Some wfile) \<Rightarrow>
           if r < 0 then ret ERR
           else
             bnd (fdalloc rfile) (\<lambda>fd0.
             if fd0 < 0 then bnd (fileclose rfile) (\<lambda>_. bnd (fileclose wfile) (\<lambda>_. ret ERR))
             else
               bnd (fdalloc wfile) (\<lambda>fd1.
               if fd1 < 0 then
                 bnd my_proc (\<lambda>p.
                 bnd (modify (set_ofile p (nat fd0) None)) (\<lambda>_.
                 bnd (fileclose rfile) (\<lambda>_.
                 bnd (fileclose wfile) (\<lambda>_. ret ERR))))
               else
                 bnd (user_write fds (le32 (u32_of_i32 fd0))) (\<lambda>_.
                 bnd (user_write (fds + 4) (le32 (u32_of_i32 fd1))) (\<lambda>_.
                 ret 0))))
       | _ \<Rightarrow> ret ERR))"

section \<open>The dispatcher\<close>

definition SYSCALLS :: "(i32 \<Rightarrow> int) \<Rightarrow> nat \<Rightarrow> ('z kproc_scheme, u64) kop option" where
  "SYSCALLS ext = Map.empty(1 \<mapsto> sys_fork, 2 \<mapsto> sys_exit, 3 \<mapsto> sys_wait, 6 \<mapsto> sys_kill, 11 \<mapsto> sys_getpid, 12 \<mapsto> sys_sbrk ext,
     13 \<mapsto> sys_sleep, 14 \<mapsto> sys_uptime, 4 \<mapsto> sys_pipe, 5 \<mapsto> sys_read, 7 \<mapsto> sys_exec, 8 \<mapsto> sys_fstat, 10 \<mapsto> sys_dup, 16 \<mapsto> sys_write,
     21 \<mapsto> sys_close)"

definition set_rax :: "nat \<Rightarrow> u64 \<Rightarrow> 'z kern_scheme \<Rightarrow> 'z kern_scheme" where
  "set_rax p v = upd_proc p (\<lambda>x. x\<lparr>pr_tf := (pr_tf x)\<lparr>tf_rax := v\<rparr>\<rparr>)"

definition syscall :: "(i32 \<Rightarrow> int) \<Rightarrow> ('z kproc_scheme, unit) kop" where
  "syscall ext = bnd my_proc (\<lambda>p.
     bnd (gets (\<lambda>s. unat (tf_rax (pr_tf (ptable s p))))) (\<lambda>num.
     case (if 0 < num \<and> num < 26 then SYSCALLS ext num else None) of
         Some f \<Rightarrow> bnd f (\<lambda>r. modify (set_rax p r))
       | None \<Rightarrow> modify (set_rax p (NOT 0))))"


section \<open>Properties\<close>

text \<open>
  C36: the dispatcher. A number without a handler, which includes those of \<open>chdir\<close>, \<open>open\<close>, \<open>mknod\<close>, \<open>unlink\<close>,
  \<open>link\<close> and \<open>mkdir\<close>, makes the call return -1 and changes nothing else; and any process can stop the kernel:
  \<open>sleep\<close> (13) calls the scheduler without a lock and panics.
\<close>

theorem syscall_unserved:
  fixes s :: "'z kproc_scheme"
  assumes "myproc s = Some p" "num = unat (tf_rax (pr_tf (ptable s p)))"
  shows "(num \<notin> {1, 2, 3, 4, 5, 6, 7, 8, 10, 11, 12, 13, 14, 16, 21} \<longrightarrow> syscall ext s = Inr ((), set_rax p (- 1) s)) \<and>
    (num = 13 \<longrightarrow> syscall ext s = Inl (Panic ''sleep without lk''))"
proof (intro conjI impI)
  assume "num \<notin> {1, 2, 3, 4, 5, 6, 7, 8, 10, 11, 12, 13, 14, 16, 21}"
  then have "SYSCALLS ext num = (None :: ('z kproc_scheme, u64) kop option)" by (simp add: SYSCALLS_def)
  then show "syscall ext s = Inr ((), set_rax p (- 1) s)" using assms by (simp add: syscall_def exec_simps my_proc_def not_eq_complement)
next
  assume "num = 13"
  then have "SYSCALLS ext num = (Some sys_sleep :: ('z kproc_scheme, u64) kop option)" by (simp add: SYSCALLS_def)
  then show "syscall ext s = Inl (Panic ''sleep without lk'')" using assms \<open>num = 13\<close>
    by (simp add: syscall_def exec_simps my_proc_def sys_sleep_def argint_def fetcharg_def sleep_enter_def)
qed

definition call_demo :: "u64 \<Rightarrow> kproc" where
  "call_demo n = (kfile_zero demo_fs \<lparr>pmem = (\<lambda>_. 0), kmem_use_lock = True, kmem_freelist = 0, link_end = 0, kpml4 = 0, kpdpt = 0, cr3 = 0\<rparr>
     \<lparr>forkret_first = True, sym_forkret = 0, ticks = 0\<rparr>)\<lparr>myproc := Some 0, ptable := (\<lambda>_. proc_zero\<lparr>pr_sz := 8192, pr_tf := trapframe_zero\<lparr>tf_rax := n, tf_rdi := 4096\<rparr>\<rparr>)\<rparr>"

lemma call_demo_facts: "myproc (call_demo n) = Some 0" "ptable (call_demo n) = (\<lambda>_. proc_zero\<lparr>pr_sz := 8192, pr_tf := trapframe_zero\<lparr>tf_rax := n, tf_rdi := 4096\<rparr>\<rparr>)"
  by (simp_all add: call_demo_def)

theorem syscall_unserved_witness:
  "syscall id (call_demo 15) = Inr ((), set_rax 0 (- 1) (call_demo 15)) \<and> syscall id (call_demo 13) = Inl (Panic ''sleep without lk'')"
  using syscall_unserved[OF call_demo_facts(1) refl, of 15 id] syscall_unserved[OF call_demo_facts(1) refl, of 13 id]
  by (simp add: call_demo_facts)

text \<open>
  C33: pointers from user space. A pointer that \<open>argptr\<close> accepts is the argument itself, and the whole object of
  the given size lies inside the memory of the process; the call changes nothing, and a negative size or an
  object that reaches out of the memory is refused.
\<close>

theorem argptr_sound:
  assumes "myproc s = Some p" "0 \<le> n" "n \<le> 5" "unat (pr_sz (ptable s p)) + nat len < 2 ^ 64"
  shows "\<exists>a. fetcharg n s = Inr (a, s) \<and> argptr n len s =
    Inr (if 0 \<le> len \<and> unat a < unat (pr_sz (ptable s p)) \<and> unat a + nat len \<le> unat (pr_sz (ptable s p)) then Some a else None, s)"
proof -
  have "n = 0 \<or> n = 1 \<or> n = 2 \<or> n = 3 \<or> n = 4 \<or> n = 5" using assms(2,3) by auto
  then obtain a where a: "fetcharg n s = Inr (a, s)" using assms(1) by (auto simp: fetcharg_def my_proc_def exec_simps)
  let ?z = "pr_sz (ptable s p)"
  have "argptr n len s = Inr (if 0 \<le> len \<and> unat a < unat ?z \<and> unat a + nat len \<le> unat ?z then Some a else None, s)"
  proof (cases "0 \<le> len \<and> a < ?z")
    case False
    then show ?thesis using a assms(1) by (auto simp: argptr_def argaddr_def my_proc_def exec_simps word_less_nat_alt word_le_nat_alt)
  next
    case True
    then obtain k where k: "len = int k" using nonneg_int_cases by blast
    have b: "unat a + k < 2 ^ 64" using True assms(4) unfolding k by (simp add: word_less_nat_alt)
    then have "unat (of_nat k :: u64) = k" by (simp add: unat_of_nat)
    then have l: "unat (word_of_int len :: u64) = nat len" "unat a + nat len < 2 ^ 64" using b unfolding k by simp_all
    then have "unat (a + word_of_int len) = unat a + nat len" by (simp add: unat_word_ariths)
    then show ?thesis using True a l assms(1)
      by (auto simp: argptr_def argaddr_def my_proc_def exec_simps u64_add_def word_less_nat_alt word_le_nat_alt)
  qed
  then show ?thesis using a by blast
qed

theorem argptr_sound_witness:
  "argptr 0 4096 (call_demo 5) = Inr (Some 4096, call_demo 5) \<and> argptr 0 4097 (call_demo 5) = Inr (None, call_demo 5)"
proof -
  have a: "fetcharg 0 (call_demo 5) = Inr (4096, call_demo 5)" by (simp add: fetcharg_def my_proc_def exec_simps call_demo_facts)
  show ?thesis
    using argptr_sound[OF call_demo_facts(1), of 0 5 4096] argptr_sound[OF call_demo_facts(1), of 0 5 4097] a
    by (auto simp: call_demo_facts)
qed

end
