(* ===== verification/Xv6_Trap.thy ===== *)
theory Xv6_Trap
  imports Xv6_Proc
begin

text \<open>
  Interrupts (\<^verbatim>\<open>crates/arch/src/traps.rs\<close>): the gates of the interrupt table and the dispatcher that
  the assembly stubs call with a trap frame. The local interrupt controller is the log of the
  writes to its registers, or absent, as the pointer \<open>lapic\<close> is null until the machine tables are
  read.
\<close>

record ktrap = kproc +
  lapic :: "(nat \<times> u32) list option"

section \<open>Gates\<close>

definition KERNEL_CS :: u32 where "KERNEL_CS = 8"

definition mkgate :: "u32 list \<Rightarrow> nat \<Rightarrow> u64 \<Rightarrow> u32 \<Rightarrow> u32 list" where
  "mkgate idt n kva pl = idt
     [4 * n := ucast (kva AND 0xFFFF) OR push_bit 16 KERNEL_CS,
      4 * n + 1 := ucast (kva AND 0xFFFF0000) OR 0x8E00 OR push_bit 13 (pl AND 3),
      4 * n + 2 := ucast (drop_bit 32 kva),
      4 * n + 3 := 0]"

text \<open>The table that \<open>tvinit\<close> writes into a fresh page of 1024 words.\<close>

definition tvinit_table :: "(nat \<Rightarrow> u64) \<Rightarrow> u32 list" where
  "tvinit_table vectors = fold (\<lambda>n idt. mkgate idt n (vectors n) 0) [0..<256] (replicate 1024 0)"

text \<open>The processor's reading of a gate: the entry point.\<close>

definition gate_target :: "u32 list \<Rightarrow> nat \<Rightarrow> u64" where
  "gate_target idt n = (ucast (idt ! (4 * n)) AND 0xFFFF) OR (ucast (idt ! (4 * n + 1)) AND 0xFFFF0000) OR
     push_bit 32 (ucast (idt ! (4 * n + 2)))"

section \<open>The dispatcher\<close>

definition T_IRQ0 :: u32 where "T_IRQ0 = 32"
definition IRQ_TIMER :: u32 where "IRQ_TIMER = 0"
definition IRQ_KBD :: u32 where "IRQ_KBD = 1"
definition IRQ_COM1 :: u32 where "IRQ_COM1 = 4"
definition IRQ_IDE :: u32 where "IRQ_IDE = 14"
definition IRQ_SPURIOUS :: u32 where "IRQ_SPURIOUS = 31"

definition EOI :: nat where "EOI = 0x2C"

definition lapicw :: "nat \<Rightarrow> u32 \<Rightarrow> ('z ktrap_scheme, unit) kop" where
  "lapicw index value = modify (\<lambda>s. s\<lparr>lapic := map_option (\<lambda>ws. ws @ [(index, value)]) (lapic s)\<rparr>)"

definition lapiceoi :: "('z ktrap_scheme, unit) kop" where
  "lapiceoi = bnd (gets lapic) (\<lambda>l. whenk (l \<noteq> None) (lapicw EOI 0))"

definition trap :: "trapframe \<Rightarrow> ('z ktrap_scheme, unit) kop" where
  "trap tf = (let trapno = ucast (tf_trapno tf) :: u32 in
     if trapno = T_IRQ0 + IRQ_TIMER then
       bnd (acquire LkTicks) (\<lambda>_.
       bnd (modify (\<lambda>s. s\<lparr>ticks := ticks s + 1\<rparr>)) (\<lambda>_.
       bnd (wakeup ChTicks) (\<lambda>_.
       bnd (release LkTicks) (\<lambda>_.
       lapiceoi))))
     else if trapno = T_IRQ0 + IRQ_IDE then bnd ideintr (\<lambda>_. lapiceoi)
     else if trapno = T_IRQ0 + IRQ_IDE + 1 then ret ()
     else if trapno = T_IRQ0 + IRQ_KBD then bnd kbdintr (\<lambda>_. lapiceoi)
     else if trapno = T_IRQ0 + IRQ_COM1 then bnd uartintr (\<lambda>_. lapiceoi)
     else if trapno = T_IRQ0 + 7 \<or> trapno = T_IRQ0 + IRQ_SPURIOUS then lapiceoi
     else guardk (tf_cs tf AND 3 \<noteq> 0) (Panic ''trap''))"

lemmas irq_defs = T_IRQ0_def IRQ_TIMER_def IRQ_KBD_def IRQ_COM1_def IRQ_IDE_def IRQ_SPURIOUS_def

section \<open>What interrupts do\<close>

text \<open>The timer interrupt counts a tick and wakes exactly the processes that sleep on the counter.\<close>

lemma trap_timer:
  assumes "ucast (tf_trapno tf) = T_IRQ0 + IRQ_TIMER"
  shows "runs (trap tf) s (\<lambda>_ s'. ticks s' = ticks s + 1 \<and>
    ptable s' = (\<lambda>i. if i < NPROC then wake_slot ChTicks (ptable s i) else ptable s i) \<and>
    lapic s' = map_option (\<lambda>ws. ws @ [(EOI, 0)]) (lapic s))"
  using assms by (cases "lapic s")
    (auto simp: trap_def Let_def lapiceoi_def lapicw_def kacq_def krel_def kwake_def whenk_def)

text \<open>
  A fault in user mode leaves everything as it is: the process is neither killed nor moved on, and
  faults again when it is resumed. In kernel mode it panics.
\<close>

lemma trap_fault:
  assumes "ucast (tf_trapno tf) < T_IRQ0"
  shows "trap tf s = (if tf_cs tf AND 3 \<noteq> 0 then Inr ((), s) else Inl (Panic ''trap''))"
proof -
  define n :: u32 where "n = ucast (tf_trapno tf)"
  have "unat n < 32" using assms by (simp add: n_def T_IRQ0_def word_less_nat_alt)
  then have "n \<noteq> 32" "n \<noteq> 46" "n \<noteq> 47" "n \<noteq> 33" "n \<noteq> 36" "n \<noteq> 39" "n \<noteq> 63" by auto
  then show ?thesis
    by (simp add: trap_def Let_def n_def[symmetric] irq_defs guardk_def ret_def stopk_def)
qed

lemma gate_bits:
  fixes kva m1 m2 :: u64 and a b c :: u32
  assumes "\<And>i. bit m1 i = (i < 16)" "\<And>i. bit m2 i = (16 \<le> i \<and> i < 32)"
    and "\<And>i. bit a i \<Longrightarrow> 16 \<le> i" "\<And>i. bit b i \<Longrightarrow> i < 16" "\<And>i. bit c i \<Longrightarrow> i < 16"
  shows "(ucast (ucast (kva AND m1) OR a) AND m1) OR (ucast (ucast (kva AND m2) OR b OR c) AND m2) OR
    push_bit 32 (ucast (ucast (drop_bit 32 kva) :: u32)) = kva"
proof (rule bit_eqI)
  fix i assume "possible_bit TYPE(u64) i"
  then have i: "i < 64" by simp
  have "bit (ucast (ucast (kva AND m1) OR a) AND m1) i = (i < 16 \<and> bit kva i)"
    using assms(1)[of i] assms(3)[of i] i by (auto simp: bit_simps)
  moreover have "bit (ucast (ucast (kva AND m2) OR b OR c) AND m2) i = (16 \<le> i \<and> i < 32 \<and> bit kva i)"
    using assms(2)[of i] assms(4)[of i] assms(5)[of i] i by (auto simp: bit_simps)
  moreover have "bit (push_bit 32 (ucast (ucast (drop_bit 32 kva) :: u32)) :: u64) i = (32 \<le> i \<and> bit kva i)"
    using i by (auto simp: bit_simps)
  ultimately show "bit ((ucast (ucast (kva AND m1) OR a) AND m1) OR (ucast (ucast (kva AND m2) OR b OR c) AND m2) OR
    push_bit 32 (ucast (ucast (drop_bit 32 kva) :: u32))) i = bit kva i"
    unfolding bit_or_iff by auto
qed

text \<open>A gate leads the processor to the entry point it was made for.\<close>

lemma mkgate_target:
  assumes "4 * n + 3 < length idt"
  shows "gate_target (mkgate idt n kva pl) n = kva"
proof -
  have l: "mkgate idt n kva pl ! (4 * n) = ucast (kva AND 0xFFFF) OR push_bit 16 KERNEL_CS"
    "mkgate idt n kva pl ! (4 * n + 1) = ucast (kva AND 0xFFFF0000) OR 0x8E00 OR push_bit 13 (pl AND 3)"
    "mkgate idt n kva pl ! (4 * n + 2) = ucast (drop_bit 32 kva)"
    using assms by (simp_all add: mkgate_def nth_list_update)
  have m: "(0xFFFF :: u64) = mask 16" "(0xFFFF0000 :: u64) = push_bit 16 (mask 16)" "(3 :: u32) = mask 2"
    by (simp_all add: mask_eq_exp_minus_1)
  have t: "(0x8E00 :: u32) = take_bit 16 0x8E00" by simp
  show ?thesis unfolding gate_target_def l
  proof (rule gate_bits)
    fix i
    show "bit (0xFFFF :: u64) i = (i < 16)" unfolding m(1) bit_mask_iff by auto
    show "bit (0xFFFF0000 :: u64) i = (16 \<le> i \<and> i < 32)" unfolding m(2) bit_push_bit_iff bit_mask_iff by auto
    show "bit (push_bit 16 KERNEL_CS) i \<Longrightarrow> 16 \<le> i" by (simp only: bit_push_bit_iff)
    show "bit (0x8E00 :: u32) i \<Longrightarrow> i < 16" by (subst (asm) t) (simp only: bit_take_bit_iff)
    show "bit (push_bit 13 (pl AND 3)) i \<Longrightarrow> i < 16" unfolding m(3) bit_push_bit_iff bit_and_iff bit_mask_iff by auto
  qed
qed

end
