(* ===== verification/Xv6_Memide.thy ===== *)
theory Xv6_Memide
  imports Xv6_Ide
begin

text \<open>
  The memory disk (\<^verbatim>\<open>crates/drivers/src/memide.rs\<close>), the alternative to the IDE driver that serves
  requests from a disk image linked into the kernel: the image is a list of bytes.
\<close>

record kmemide = kbuf +
  MEMDISK :: "u8 list"
  DISKSIZE :: u32

definition mem_ideinit :: "u8 list \<Rightarrow> ('z kmemide_scheme, unit) kop" where
  "mem_ideinit img = modify (\<lambda>s. s\<lparr>MEMDISK := img, DISKSIZE := of_nat (length img div BSIZE)\<rparr>)"

definition mem_iderw :: "nat \<Rightarrow> ('z kmemide_scheme, unit) kop" where
  "mem_iderw i = bnd (gets (\<lambda>s. bufs s i)) (\<lambda>b.
     bnd (guardk (\<not> b_flags b AND (B_VALID OR B_DIRTY) = B_VALID) (Panic ''iderw: nothing to do'')) (\<lambda>_.
     bnd (guardk (b_dev b = 1) (Panic ''iderw: request not for disk 1'')) (\<lambda>_.
     bnd (gets DISKSIZE) (\<lambda>n.
     bnd (guardk (b_blockno b < n) (Panic ''iderw: block out of range'')) (\<lambda>_.
     let p = unat (b_blockno b) * BSIZE in
     bnd (if b_flags b AND B_DIRTY \<noteq> 0 then
            bnd (modify (upd_buf i (\<lambda>b. b\<lparr>b_flags := b_flags b AND NOT B_DIRTY\<rparr>))) (\<lambda>_.
            modify (\<lambda>s. s\<lparr>MEMDISK := copy_at p (b_data b) (MEMDISK s)\<rparr>))
          else modify (\<lambda>s. upd_buf i (\<lambda>b. b\<lparr>b_data := slice p BSIZE (MEMDISK s)\<rparr>) s)) (\<lambda>_.
     modify (upd_buf i mark_valid)))))))"

text \<open>The contents of a block of the image.\<close>

definition mem_block :: "'z kmemide_scheme \<Rightarrow> nat \<Rightarrow> u8 list" where
  "mem_block s n = slice (n * BSIZE) BSIZE (MEMDISK s)"

definition mem_ok :: "'z kmemide_scheme \<Rightarrow> bool" where
  "mem_ok s \<longleftrightarrow> unat (DISKSIZE s) * BSIZE \<le> length (MEMDISK s)"

lemma mem_ideinit_ok: "length img div BSIZE < 2 ^ 32 \<Longrightarrow> runs (mem_ideinit img) s (\<lambda>_ s'. mem_ok s')"
  by (simp add: mem_ideinit_def mem_ok_def unat_of_nat)

lemma mem_slot: "mem_ok s \<Longrightarrow> n < unat (DISKSIZE s) \<Longrightarrow> n * BSIZE + BSIZE \<le> length (MEMDISK s)"
proof -
  assume a: "mem_ok s" "n < unat (DISKSIZE s)"
  then have "(n + 1) * BSIZE \<le> unat (DISKSIZE s) * BSIZE" by (intro mult_le_mono1) simp
  then show ?thesis using a(1) by (simp add: mem_ok_def)
qed

lemma block_apart: "m \<noteq> n \<Longrightarrow> m * BSIZE + BSIZE \<le> n * BSIZE \<or> n * BSIZE + BSIZE \<le> m * (BSIZE :: nat)"
proof (cases "m < n")
  case True
  then have "(m + 1) * BSIZE \<le> n * BSIZE" by (intro mult_le_mono1) simp
  then show ?thesis by simp
next
  case False
  moreover assume "m \<noteq> n"
  ultimately have "(n + 1) * BSIZE \<le> m * BSIZE" by (intro mult_le_mono1) simp
  then show ?thesis by simp
qed

text \<open>A dirty buffer is written to its block and to no other; any other buffer receives its block.\<close>

lemma mem_iderw_writes:
  assumes "mem_ok s" "is_dirty (bufs s i)" "b_dev (bufs s i) = 1" "b_blockno (bufs s i) < DISKSIZE s" "length (b_data (bufs s i)) = BSIZE"
  shows "runs (mem_iderw i) s (\<lambda>_ s'. mem_ok s' \<and> mem_block s' (unat (b_blockno (bufs s i))) = b_data (bufs s i) \<and>
    (\<forall>m < unat (DISKSIZE s). m \<noteq> unat (b_blockno (bufs s i)) \<longrightarrow> mem_block s' m = mem_block s m))"
proof -
  define n where "n = unat (b_blockno (bufs s i))"
  have n: "n < unat (DISKSIZE s)" using assms(4) by (simp add: n_def word_less_nat_alt)
  note l = mem_slot[OF assms(1) n]
  have d: "b_flags (bufs s i) AND B_DIRTY \<noteq> 0" using assms(2) by (simp add: is_dirty_def)
  have "b_flags (bufs s i) AND (B_VALID OR B_DIRTY) \<noteq> B_VALID"
  proof
    assume "b_flags (bufs s i) AND (B_VALID OR B_DIRTY) = B_VALID"
    then have "(b_flags (bufs s i) AND (B_VALID OR B_DIRTY)) AND B_DIRTY = B_VALID AND B_DIRTY" by simp
    then show False using d by (simp add: and.assoc B_VALID_def B_DIRTY_def)
  qed
  moreover have "slice (m * BSIZE) BSIZE (copy_at (n * BSIZE) (b_data (bufs s i)) (MEMDISK s)) = slice (m * BSIZE) BSIZE (MEMDISK s)"
    if "m < unat (DISKSIZE s)" "m \<noteq> n" for m
    using block_apart[OF that(2)] l mem_slot[OF assms(1) that(1)] assms(5) by (intro slice_copy_at_other) auto
  ultimately show ?thesis using assms l d
    by (simp add: mem_iderw_def Let_def n_def mem_block_def mem_ok_def upd_buf_def)
qed

lemma mem_iderw_reads:
  assumes "\<not> is_dirty (bufs s i)" "\<not> is_valid (bufs s i)" "b_dev (bufs s i) = 1" "b_blockno (bufs s i) < DISKSIZE s"
  shows "runs (mem_iderw i) s (\<lambda>_ s'. b_data (bufs s' i) = mem_block s (unat (b_blockno (bufs s i))) \<and>
    MEMDISK s' = MEMDISK s \<and> is_valid (bufs s' i))"
proof -
  have d: "b_flags (bufs s i) AND B_DIRTY = 0" "b_flags (bufs s i) AND B_VALID = 0" using assms(1,2) by (simp_all add: is_dirty_def is_valid_def)
  have "b_flags (bufs s i) AND (B_VALID OR B_DIRTY) = 0" using d by (simp add: bit.conj_disj_distrib)
  moreover have "(b_flags (bufs s i) OR B_VALID) AND B_VALID \<noteq> 0" by (simp add: bit.conj_disj_distrib2 B_VALID_def)
  ultimately show ?thesis using assms(3,4) d
    by (simp add: mem_iderw_def Let_def mem_block_def upd_buf_def is_valid_def mark_valid_def B_VALID_def)
qed

end
