(* ===== verification/Xv6_Ulib.thy ===== *)
theory Xv6_Ulib
  imports Xv6_Prelude
begin

text \<open>
  The string, memory and number routines of the user library (\<^verbatim>\<open>crates/ulib/src/lib.rs\<close>).
  A C string is the list of the bytes from the pointer on; the end of the list stands for the
  terminating NUL, and a NUL inside the list ends the string as well. Memory for \<open>memset\<close> and
  \<open>memmove\<close> is a function from addresses to bytes, because the regions may overlap. User programs
  are built in release mode, where integer arithmetic wraps around.
\<close>

section \<open>Strings\<close>

text \<open>The byte a pointer into a C string refers to, and the string up to its NUL.\<close>

definition at0 :: "u8 list \<Rightarrow> u8" where
  "at0 p = (case p of [] \<Rightarrow> 0 | c # _ \<Rightarrow> c)"

definition cstr :: "u8 list \<Rightarrow> u8 list" where
  "cstr p = takeWhile (\<lambda>b. b \<noteq> 0) p"

fun strlen :: "u8 list \<Rightarrow> nat" where
  "strlen [] = 0"
| "strlen (c # s) = (if c \<noteq> 0 then Suc (strlen s) else 0)"

function strcmp :: "u8 list \<Rightarrow> u8 list \<Rightarrow> int" where
  "strcmp s1 s2 =
     (if at0 s1 \<noteq> at0 s2 then uint (at0 s1) - uint (at0 s2)
      else if at0 s1 = 0 then 0
      else strcmp (tl s1) (tl s2))"
  by pat_completeness auto
termination
  by (relation "measure (\<lambda>(a, b). length a)") (auto simp: at0_def split: list.splits)

text \<open>\<open>strchr\<close> returns the offset of the pointer it returns, or nothing for the null pointer.\<close>

fun strchr :: "u8 list \<Rightarrow> u8 \<Rightarrow> nat option" where
  "strchr [] c = (if c = 0 then Some 0 else None)"
| "strchr (b # s) c = (if b = c then Some 0 else if b = 0 then None else map_option Suc (strchr s c))"

fun memcmp :: "u8 list \<Rightarrow> u8 list \<Rightarrow> nat \<Rightarrow> int" where
  "memcmp s1 s2 0 = 0"
| "memcmp s1 s2 (Suc n) =
     (if at0 s1 \<noteq> at0 s2 then uint (at0 s1) - uint (at0 s2) else memcmp (tl s1) (tl s2) n)"

declare strcmp.simps [simp del]

lemma at0_simps [simp]: "at0 [] = 0" "at0 (c # p) = c"
  by (simp_all add: at0_def)

lemma cstr_end: "at0 p = 0 \<Longrightarrow> cstr p = []"
  by (cases p) (auto simp: cstr_def)

lemma cstr_step: "at0 p \<noteq> 0 \<Longrightarrow> cstr p = at0 p # cstr (tl p)"
  by (cases p) (auto simp: cstr_def)

lemma cstr_no_nul: "0 \<notin> set (cstr p)"
  by (auto simp: cstr_def dest: set_takeWhileD)

lemma strlen_cstr: "strlen s = length (cstr s)"
  by (induction s) (auto simp: cstr_def)

lemma strcmp_cstr: "strcmp a b = 0 \<longleftrightarrow> cstr a = cstr b"
proof (induction a b rule: strcmp.induct)
  case (1 a b)
  show ?case
  proof (cases "at0 a = at0 b")
    case False
    then have "uint (at0 a) - uint (at0 b) \<noteq> 0" by (metis eq_iff_diff_eq_0 word_uint_eqI)
    moreover have "cstr a \<noteq> cstr b" using False
      by (cases "at0 a = 0"; cases "at0 b = 0") (auto simp: cstr_end cstr_step)
    ultimately show ?thesis using False by (subst strcmp.simps) simp
  next
    case True
    then show ?thesis using 1 by (cases "at0 a = 0") (auto simp: strcmp.simps[of a b] cstr_end cstr_step)
  qed
qed

text \<open>\<open>strchr\<close> finds the first occurrence, the terminating NUL included.\<close>

lemma strchr_first:
  "strchr s c = (if c \<in> set (cstr s @ [0]) then Some (length (takeWhile (\<lambda>b. b \<noteq> c) (cstr s @ [0]))) else None)"
  by (induction s) (auto simp: cstr_def)

lemma memcmp_eq:
  "n \<le> length a \<Longrightarrow> n \<le> length b \<Longrightarrow> memcmp a b n = 0 \<longleftrightarrow> take n a = take n b"
proof (induction a b n rule: memcmp.induct)
  case (2 a b n)
  then show ?case by (cases a; cases b) (auto dest: word_uint_eqI)
qed simp

section \<open>Memory\<close>

type_synonym mem = "nat \<Rightarrow> u8"

fun memset :: "nat \<Rightarrow> u8 \<Rightarrow> nat \<Rightarrow> mem \<Rightarrow> mem" where
  "memset dst c 0 m = m"
| "memset dst c (Suc n) m = (memset dst c n m)(dst + n := c)"

definition move_byte :: "nat \<Rightarrow> nat \<Rightarrow> nat \<Rightarrow> mem \<Rightarrow> mem" where
  "move_byte dst src i m = m(dst + i := m (src + i))"

definition memmove :: "nat \<Rightarrow> nat \<Rightarrow> nat \<Rightarrow> mem \<Rightarrow> mem" where
  "memmove dst src n m =
     (if dst < src then fold (move_byte dst src) [0..<n] m
      else fold (move_byte dst src) (rev [0..<n]) m)"

lemma memset_sets: "memset dst c n m a = (if dst \<le> a \<and> a < dst + n then c else m a)"
  by (induction n) (auto simp: less_Suc_eq)

lemma move_up:
  "dst < src \<Longrightarrow> fold (move_byte dst src) [0..<n] m a = (if dst \<le> a \<and> a < dst + n then m (src + (a - dst)) else m a)"
  by (induction n arbitrary: a) (auto simp: move_byte_def)

lemma move_down:
  "src \<le> dst \<Longrightarrow> k \<le> n \<Longrightarrow> fold (move_byte dst src) (rev [k..<n]) m a =
     (if dst + k \<le> a \<and> a < dst + n then m (src + (a - dst)) else m a)"
proof (induction "n - k" arbitrary: k a)
  case (Suc d)
  then have k: "k < n" "d = n - Suc k" by simp_all
  then have "rev [k..<n] = rev [Suc k..<n] @ [k]" by (simp add: upt_conv_Cons)
  then show ?case using Suc.hyps(1)[OF k(2) Suc.prems(1)] k Suc.prems(1)
    by (auto simp: move_byte_def)
qed auto

text \<open>
  The regions may overlap in either direction: the destination receives what the source held
  before the call.
\<close>

lemma memmove_moves:
  "memmove dst src n m a = (if dst \<le> a \<and> a < dst + n then m (src + (a - dst)) else m a)"
  using move_up[of dst src n m a] move_down[of src dst 0 n m a] by (simp add: memmove_def)

section \<open>Numbers\<close>

definition is_digit :: "u8 \<Rightarrow> bool" where
  "is_digit c = (48 \<le> c \<and> c \<le> 57)"

text \<open>The loop over the digits, with 32-bit arithmetic that wraps around.\<close>

fun atoi_digits :: "u8 list \<Rightarrow> u32 \<Rightarrow> u32" where
  "atoi_digits [] n = n"
| "atoi_digits (c # s) n = (if is_digit c then atoi_digits s (n * 10 + ucast (c - 48)) else n)"

definition atoi :: "u8 list \<Rightarrow> i32" where
  "atoi s = (case s of
       c # s' \<Rightarrow> if c = 45 then sint (- atoi_digits s' 0) else sint (atoi_digits s 0)
     | [] \<Rightarrow> 0)"

definition atoi_cstr :: "u8 list \<Rightarrow> i32" where
  "atoi_cstr s = atoi (take (strlen s) s)"

function decimal :: "nat \<Rightarrow> u8 list" where
  "decimal n = (if n < 10 then [48 + of_nat n] else decimal (n div 10) @ [48 + of_nat (n mod 10)])"
  by pat_completeness auto
termination
  by (relation "measure id") auto

declare decimal.simps [simp del]

lemma digit_byte:
  assumes "d < 10"
  shows "is_digit (48 + of_nat d)" "ucast ((48 + of_nat d :: u8) - 48) = (of_nat d :: u32)"
proof -
  have "d \<in> {0, 1, 2, 3, 4, 5, 6, 7, 8, 9}" using assms by auto
  then show "is_digit (48 + of_nat d)" "ucast ((48 + of_nat d :: u8) - 48) = (of_nat d :: u32)"
    by (elim insertE; simp add: is_digit_def)+
qed

lemma atoi_digits_decimal: "atoi_digits (decimal n @ r) 0 = atoi_digits r (of_nat n)"
proof (induction n arbitrary: r rule: decimal.induct)
  case (1 n)
  show ?case
  proof (cases "n < 10")
    case True
    then show ?thesis using digit_byte[OF True] by (simp add: decimal.simps)
  next
    case False
    have d: "n mod 10 < 10" by simp
    have "(of_nat n :: u32) = of_nat (n div 10 * 10 + n mod 10)" by simp
    also have "\<dots> = of_nat (n div 10) * 10 + of_nat (n mod 10)" by (simp only: of_nat_add of_nat_mult) simp
    finally have "(of_nat n :: u32) = of_nat (n div 10) * 10 + of_nat (n mod 10)" .
    then show ?thesis using 1[OF False] digit_byte[OF d] False by (subst decimal.simps) simp
  qed
qed

lemma decimal_hd: "\<exists>c r. decimal n = c # r \<and> is_digit c"
proof (induction n rule: decimal.induct)
  case (1 n)
  then show ?case using digit_byte(1)[of n] by (subst decimal.simps) auto
qed

text \<open>\<open>atoi\<close> reads back every number that fits, with and without sign.\<close>

lemma atoi_decimal:
  assumes "n < 2 ^ 31"
  shows "atoi (decimal n) = int n" "atoi (45 # decimal n) = - int n"
proof -
  have d: "atoi_digits (decimal n) 0 = of_nat n" using atoi_digits_decimal[of n "[]"] by simp
  obtain c r where c: "decimal n = c # r" "is_digit c" using decimal_hd[of n] by blast
  have "c \<noteq> 45" using c(2) by (auto simp: is_digit_def)
  moreover have "sint (of_nat n :: u32) = int n" using assms
    by (simp add: signed_of_nat signed_take_bit_int_eq_self)
  moreover have "sint (word_of_int (- int n) :: u32) = - int n" using assms
    by (simp add: signed_of_int signed_take_bit_int_eq_self del: of_int_minus)
  ultimately show "atoi (decimal n) = int n" "atoi (45 # decimal n) = - int n"
    using d c(1) by (simp_all add: atoi_def)
qed

section \<open>Reading\<close>

definition newline :: u8 where "newline = 10"

text \<open>
  What a descriptor delivers is a list of pieces: a read returns at most the bytes that are asked
  for and never bytes of two pieces. A regular file is one piece; a pipe delivers what the writers
  have written so far. An empty answer is the end of the file or an error.
\<close>

fun read_piece :: "nat \<Rightarrow> u8 list list \<Rightarrow> u8 list \<times> u8 list list" where
  "read_piece k [] = ([], [])"
| "read_piece k (c # cs) = (if length c \<le> k then (c, cs) else (take k c, drop k c # cs))"

lemma read_piece_shorter: "(got, cs') = read_piece k cs \<Longrightarrow> got \<noteq> [] \<Longrightarrow> length (concat cs') < length (concat cs)"
  by (cases cs) (auto split: if_splits)

text \<open>
  The loop of \<open>gets\<close> reads byte by byte until a newline, the end of the input, or until only the
  place of the terminating NUL is left in the buffer.
\<close>

fun gets_from :: "nat \<Rightarrow> u8 list list \<Rightarrow> u8 list \<times> u8 list list" where
  "gets_from 0 input = ([], input)"
| "gets_from (Suc k) input = (case read_piece 1 input of
       ([], input') \<Rightarrow> ([], input')
     | (c # _, input') \<Rightarrow>
         if c = newline then ([c], input')
         else (case gets_from k input' of (line, rest) \<Rightarrow> (c # line, rest)))"

definition ulib_gets :: "nat \<Rightarrow> u8 list list \<Rightarrow> u8 list \<times> u8 list list" where
  "ulib_gets len input = (case gets_from (len - 1) input of (line, rest) \<Rightarrow> (line @ [0], rest))"

text \<open>On a terminal or a file, \<open>gets\<close> takes a line that fits into the buffer, and nothing behind it.\<close>

lemma gets_from_line:
  "newline \<notin> set l \<Longrightarrow> length l < k \<Longrightarrow>
   gets_from k [l @ newline # r] = (l @ [newline], if r = [] then [] else [r])"
proof (induction l arbitrary: k)
  case Nil
  then show ?case by (cases k) auto
next
  case (Cons c l)
  then show ?case by (cases k) auto
qed

end
