(* ===== verification/Xv6_Grep.thy ===== *)
theory Xv6_Grep
  imports Xv6_Ulib "HOL-Library.Sublist"
begin

text \<open>
  The user program \<^verbatim>\<open>grep\<close> (\<^verbatim>\<open>user/src/grep.rs\<close>): the matcher for
  \<^verbatim>\<open>^ . * $\<close> on C strings, the scan of a buffer for complete lines, and the loop that
  fills the buffer from a file descriptor. The
  matcher is proved equal to a denotational reading of patterns, and the program to print exactly
  the matching lines of a file.
\<close>

section \<open>The matcher\<close>

text \<open>The byte after the one a pointer refers to.\<close>

definition at1 :: "u8 list \<Rightarrow> u8" where
  "at1 p = at0 (tl p)"

definition star :: u8 where "star = 42"
definition dot :: u8 where "dot = 46"
definition dollar :: u8 where "dollar = 36"
definition caret :: u8 where "caret = 94"

lemma at1_simps [simp]: "at1 [] = 0" "at1 (c # p) = at0 p"
  by (simp_all add: at1_def)

function matchhere :: "u8 list \<Rightarrow> u8 list \<Rightarrow> bool"
  and matchstar :: "u8 \<Rightarrow> u8 list \<Rightarrow> u8 list \<Rightarrow> bool" where
  "matchhere re text =
     (if at0 re = 0 then True
      else if at1 re = star then matchstar (at0 re) (drop 2 re) text
      else if at0 re = dollar \<and> at1 re = 0 then at0 text = 0
      else if at0 text \<noteq> 0 \<and> (at0 re = dot \<or> at0 re = at0 text) then matchhere (tl re) (tl text)
      else False)"
| "matchstar c re t =
     (if matchhere re t then True
      else if at0 t = 0 \<or> at0 t \<noteq> c \<and> c \<noteq> dot then False
      else matchstar c re (tl t))"
  by pat_completeness auto
termination
  by (relation "measures [\<lambda>x. case x of Inl (re, t) \<Rightarrow> 2 * length re | Inr (c, re, t) \<Rightarrow> 2 * length re + 1,
                          \<lambda>x. case x of Inl (re, t) \<Rightarrow> length t | Inr (c, re, t) \<Rightarrow> length t]")
     (auto simp: at0_def at1_def star_def split: list.splits)

declare matchhere.simps [simp del] matchstar.simps [simp del]

text \<open>The \<open>loop\<close> of \<open>match_pattern\<close> tries every position of the text, its end included.\<close>

fun match_from :: "u8 list \<Rightarrow> u8 list \<Rightarrow> bool" where
  "match_from re [] = matchhere re []"
| "match_from re (c # t) = (if matchhere re (c # t) then True else if c = 0 then False else match_from re t)"

definition match_pattern :: "u8 list \<Rightarrow> u8 list \<Rightarrow> bool" where
  "match_pattern re text = (if at0 re = caret then matchhere (tl re) text else match_from re text)"

section \<open>What a pattern means\<close>

text \<open>
  A pattern is a sequence of items, each a byte that is repeated or not, with a mark whether it
  ends with \<^verbatim>\<open>$\<close>. An item denotes a set of strings, a sequence their concatenations.
\<close>

definition fits :: "u8 \<Rightarrow> u8 \<Rightarrow> bool" where
  "fits c x = (c = dot \<or> c = x)"

fun items :: "u8 list \<Rightarrow> (u8 \<times> bool) list \<times> bool" where
  "items [] = ([], False)"
| "items [c] = (if c = dollar then ([], True) else ([(c, False)], False))"
| "items (c # d # re) =
     (if d = star then (case items re of (its, e) \<Rightarrow> ((c, True) # its, e))
      else (case items (d # re) of (its, e) \<Rightarrow> ((c, False) # its, e)))"

fun item_lang :: "u8 \<times> bool \<Rightarrow> u8 list set" where
  "item_lang (c, r) = (if r then {xs. \<forall>x \<in> set xs. fits c x} else {[x] | x. fits c x})"

fun seq_lang :: "(u8 \<times> bool) list \<Rightarrow> u8 list set" where
  "seq_lang [] = {[]}"
| "seq_lang (it # its) = {u @ v | u v. u \<in> item_lang it \<and> v \<in> seq_lang its}"

definition denotes :: "u8 list \<Rightarrow> u8 list \<Rightarrow> bool" where
  "denotes re text = (\<exists>u v. text = u @ v \<and> u \<in> seq_lang (fst (items re)) \<and> (snd (items re) \<longrightarrow> v = []))"

definition pattern_in :: "u8 list \<Rightarrow> u8 list \<Rightarrow> bool" where
  "pattern_in re text = (case re of
       c # re' \<Rightarrow> if c = caret then denotes re' text else (\<exists>t. suffix t text \<and> denotes re t)
     | [] \<Rightarrow> True)"

lemma denotes_Nil [simp]: "denotes [] t"
  by (simp add: denotes_def)

lemma denotes_dollar [simp]: "denotes [dollar] t = (t = [])"
  by (auto simp: denotes_def)

lemma denotes_Cons:
  assumes "fst (items p) = it # fst (items re)" "snd (items p) = snd (items re)"
  shows "denotes p t = (\<exists>u v. t = u @ v \<and> u \<in> item_lang it \<and> denotes re v)"
proof
  assume "denotes p t"
  then obtain a b v where "t = (a @ b) @ v" "a \<in> item_lang it" "b \<in> seq_lang (fst (items re))" "snd (items re) \<longrightarrow> v = []"
    unfolding denotes_def assms seq_lang.simps mem_Collect_eq by blast
  then have "t = a @ (b @ v) \<and> a \<in> item_lang it \<and> denotes re (b @ v)" unfolding denotes_def by auto
  then show "\<exists>u v. t = u @ v \<and> u \<in> item_lang it \<and> denotes re v" by blast
next
  assume "\<exists>u v. t = u @ v \<and> u \<in> item_lang it \<and> denotes re v"
  then obtain a b v where "t = a @ (b @ v)" "a \<in> item_lang it" "b \<in> seq_lang (fst (items re))" "snd (items re) \<longrightarrow> v = []"
    unfolding denotes_def by blast
  then have "t = (a @ b) @ v \<and> a @ b \<in> seq_lang (it # fst (items re)) \<and> (snd (items re) \<longrightarrow> v = [])" by auto
  then show "denotes p t" unfolding denotes_def assms by blast
qed

lemma denotes_star: "denotes (c # star # re) t = (\<exists>u v. t = u @ v \<and> (\<forall>x \<in> set u. fits c x) \<and> denotes re v)"
  by (subst denotes_Cons[of _ "(c, True)" re]) (auto split: prod.splits)

lemma denotes_one:
  assumes "\<not> (\<exists>r. re = star # r)" "c # re \<noteq> [dollar]"
  shows "denotes (c # re) t = (\<exists>x v. t = x # v \<and> fits c x \<and> denotes re v)"
proof -
  have "fst (items (c # re)) = (c, False) # fst (items re)" "snd (items (c # re)) = snd (items re)"
    using assms by (cases re; auto split: prod.splits)+
  then have "denotes (c # re) t = (\<exists>u v. t = u @ v \<and> (\<exists>x. u = [x] \<and> fits c x) \<and> denotes re v)"
    by (simp add: denotes_Cons)
  then show ?thesis by (metis append_Cons append_Nil)
qed

lemma star_step:
  "(\<exists>u v. t = u @ v \<and> (\<forall>x \<in> set u. fits c x) \<and> P v) =
   (P t \<or> (\<exists>x t'. t = x # t' \<and> fits c x \<and> (\<exists>u v. t' = u @ v \<and> (\<forall>x \<in> set u. fits c x) \<and> P v)))"
  (is "?L = ?R")
proof
  assume ?L
  then obtain u v where "t = u @ v" "\<forall>x \<in> set u. fits c x" "P v" by blast
  then show ?R by (cases u) auto
next
  assume ?R
  then show ?L
  proof (elim disjE exE conjE)
    assume "P t"
    then show ?L by (intro exI[of _ "[]"] exI[of _ t]) simp
  next
    fix x t' u v
    assume "t = x # t'" "fits c x" "t' = u @ v" "\<forall>x \<in> set u. fits c x" "P v"
    then show ?L by (intro exI[of _ "x # u"] exI[of _ v]) simp
  qed
qed

lemma matchhere_star: "c \<noteq> 0 \<Longrightarrow> matchhere (c # star # r) x = matchstar c r x"
  by (subst matchhere.simps) simp

lemma matchhere_dollar: "at0 r = 0 \<Longrightarrow> matchhere (dollar # r) x = (cstr x = [])"
  by (subst matchhere.simps) (cases x; auto simp: cstr_def star_def dollar_def)

lemma matchhere_one:
  "c \<noteq> 0 \<Longrightarrow> at0 r \<noteq> star \<Longrightarrow> \<not> (c = dollar \<and> at0 r = 0) \<Longrightarrow>
   matchhere (c # r) x = (at0 x \<noteq> 0 \<and> fits c (at0 x) \<and> matchhere r (tl x))"
  by (subst matchhere.simps) (auto simp: fits_def)

lemma matchhere_denotes:
  "matchhere re x = denotes (cstr re) (cstr x)"
  "matchstar c re' t = (\<exists>u v. cstr t = u @ v \<and> (\<forall>x \<in> set u. fits c x) \<and> denotes (cstr re') v)"
proof (induction re x and c re' t rule: matchhere_matchstar.induct)
  case (1 re x)
  have z: "star \<noteq> 0" "dollar \<noteq> 0" by (simp_all add: star_def dollar_def)
  consider (e) "at0 re = 0" | (s) c r where "re = c # star # r" "c \<noteq> 0"
    | (d) r where "re = dollar # r" "at0 r = 0"
    | (o) c r where "re = c # r" "c \<noteq> 0" "at0 r \<noteq> star" "\<not> (c = dollar \<and> at0 r = 0)"
  proof (cases re)
    case (Cons c r)
    then show ?thesis using that z by (cases "c = 0"; cases r) auto
  qed (use that in simp)
  then show ?case
  proof cases
    case e
    then show ?thesis by (subst matchhere.simps) (simp add: cstr_end)
  next
    case s
    have "matchstar c r x = (\<exists>u v. cstr x = u @ v \<and> (\<forall>x \<in> set u. fits c x) \<and> denotes (cstr r) v)"
      using 1(1) s by simp
    moreover have "cstr re = c # star # cstr r" using s z by (simp add: cstr_def)
    ultimately show ?thesis using s matchhere_star denotes_star by simp
  next
    case d
    then show ?thesis using matchhere_dollar[of r x] z by (simp add: cstr_step cstr_end)
  next
    case o
    have n: "\<not> (\<exists>q. cstr r = star # q)" "c # cstr r \<noteq> [dollar]" using o by (cases r; auto simp: cstr_def)+
    have re: "cstr re = c # cstr r" using o by (simp add: cstr_def)
    show ?thesis
    proof (cases "at0 x \<noteq> 0 \<and> fits c (at0 x)")
      case True
      then have "matchhere r (tl x) = denotes (cstr r) (cstr (tl x))" using 1(2) o by (simp add: fits_def)
      then show ?thesis using True re o matchhere_one[OF o(2,3,4)] denotes_one[OF n] by (simp add: cstr_step)
    next
      case False
      then show ?thesis using re o matchhere_one[OF o(2,3,4)] denotes_one[OF n]
        by (cases "at0 x = 0") (auto simp: cstr_step cstr_end)
    qed
  qed
next
  case (2 c re t)
  show ?case
  proof (cases "at0 t = 0 \<or> at0 t \<noteq> c \<and> c \<noteq> dot")
    case True
    then have "\<not> (\<exists>x t'. cstr t = x # t' \<and> fits c x)" by (cases t) (auto simp: cstr_def fits_def)
    then show ?thesis using True 2(1) by (subst star_step, subst matchstar.simps) auto
  next
    case False
    then have "cstr t = at0 t # cstr (tl t)" "fits c (at0 t)" by (auto simp: cstr_step fits_def)
    then show ?thesis using False 2 by (subst star_step, subst matchstar.simps) auto
  qed
qed

lemma match_from_denotes: "match_from re t = (\<exists>x. suffix x (cstr t) \<and> denotes (cstr re) x)"
proof (induction t)
  case Nil
  then show ?case by (simp add: matchhere_denotes cstr_def)
next
  case (Cons c t)
  then show ?case by (auto simp: matchhere_denotes cstr_def suffix_Cons)
qed

text \<open>
  C10: The matcher of grep decides what the pattern means: a pattern with \<^verbatim>\<open>^\<close> must denote a
  prefix of the text, any other pattern a string that starts anywhere in it, where a byte followed
  by \<^verbatim>\<open>*\<close> stands for any number of repetitions, \<^verbatim>\<open>.\<close> for every byte and a final
  \<^verbatim>\<open>$\<close> for the end of the text. This holds for all patterns and texts, and both loops of the
  matcher end.
\<close>

theorem match_pattern_denotes:
  "match_pattern re t = pattern_in (cstr re) (cstr t)"
proof (cases "at0 re = caret")
  case True
  then have "cstr re = caret # cstr (tl re)" using cstr_step[of re] by (simp add: caret_def)
  then show ?thesis using True by (simp add: match_pattern_def pattern_in_def matchhere_denotes)
next
  case False
  then have "\<not> (\<exists>r. cstr re = caret # r)" by (cases re) (auto simp: cstr_def)
  then show ?thesis using False
    by (auto simp: match_pattern_def pattern_in_def match_from_denotes split: list.splits)
qed

section \<open>Lines of a buffer, and the reading loop\<close>

text \<open>
  The inner loop walks over the complete lines of the buffer; it returns what it writes and the
  bytes that are left behind the last newline.
\<close>

lemma dropWhile_shorter: "dropWhile P xs = c # ys \<Longrightarrow> length ys < length xs"
  by (metis Suc_le_lessD length_Cons length_dropWhile_le)

function grep_buf :: "u8 list \<Rightarrow> u8 list \<Rightarrow> u8 list \<times> u8 list" where
  "grep_buf pattern buf = (case dropWhile (\<lambda>b. b \<noteq> newline) buf of
       [] \<Rightarrow> ([], buf)
     | _ # next \<Rightarrow>
        let line = takeWhile (\<lambda>b. b \<noteq> newline) buf; (out, left) = grep_buf pattern next in
        ((if match_pattern pattern line then line @ [newline] else []) @ out, left))"
  by pat_completeness auto
termination
  by (relation "measure (\<lambda>(p, b). length b)") (auto dest: dropWhile_shorter)

declare grep_buf.simps [simp del]

definition GREP_BUF :: nat where "GREP_BUF = 1024"

function grep :: "u8 list \<Rightarrow> u8 list \<Rightarrow> u8 list list \<Rightarrow> u8 list" where
  "grep pattern held input = (case read_piece (GREP_BUF - length held - 1) input of (got, input') \<Rightarrow>
     if got = [] then []
     else let buf = held @ got; (out, left) = grep_buf pattern buf in
       out @ grep pattern (if length left = length buf then [] else left) input')"
  by pat_completeness auto
termination
  by (relation "measure (\<lambda>(p, h, i). length (concat i))") (auto dest!: read_piece_shorter)

declare grep.simps [simp del]

section \<open>Grep prints the matching lines\<close>

function lines :: "u8 list \<Rightarrow> u8 list list" where
  "lines xs = (case dropWhile (\<lambda>b. b \<noteq> newline) xs of
       [] \<Rightarrow> [] | _ # ys \<Rightarrow> takeWhile (\<lambda>b. b \<noteq> newline) xs # lines ys)"
  by pat_completeness auto
termination
  by (relation "measure length") (auto dest: dropWhile_shorter)

declare lines.simps [simp del]

definition printed :: "u8 list \<Rightarrow> u8 list list \<Rightarrow> u8 list" where
  "printed pattern ls = concat (map (\<lambda>l. l @ [newline]) (filter (match_pattern pattern) ls))"

lemma no_newline:
  assumes "newline \<notin> set xs"
  shows "dropWhile (\<lambda>b. b \<noteq> newline) xs = []" "dropWhile (\<lambda>b. b \<noteq> newline) (xs @ newline # r) = newline # r"
    "takeWhile (\<lambda>b. b \<noteq> newline) (xs @ newline # r) = xs"
  using assms by (induction xs) auto

lemma lines_none: "newline \<notin> set xs \<Longrightarrow> lines xs = []"
  by (subst lines.simps) (simp add: no_newline)

lemma lines_line: "newline \<notin> set l \<Longrightarrow> lines (l @ newline # r) = l # lines r"
  by (subst lines.simps) (simp add: no_newline)

lemma grep_buf_line:
  "newline \<notin> set l \<Longrightarrow> grep_buf p (l @ newline # r) =
     ((if match_pattern p l then l @ [newline] else []) @ fst (grep_buf p r), snd (grep_buf p r))"
  by (subst grep_buf.simps) (simp add: no_newline split: prod.splits)

lemma grep_buf_none: "newline \<notin> set l \<Longrightarrow> grep_buf p l = ([], l)"
  by (subst grep_buf.simps) (simp add: no_newline)

lemma newline_cases:
  obtains "newline \<notin> set xs" | l r where "xs = l @ newline # r" "newline \<notin> set l"
  using split_list_first[of newline xs] by blast

text \<open>Scanning a buffer prints its lines, and what is left behaves like the buffer without them.\<close>

lemma grep_buf_lines:
  "\<exists>done. buf = done @ snd (grep_buf p buf) \<and> newline \<notin> set (snd (grep_buf p buf)) \<and>
     fst (grep_buf p buf) = printed p (lines done) \<and> (done = [] \<longleftrightarrow> newline \<notin> set buf) \<and>
     (\<forall>r. lines (done @ r) = lines done @ lines r)"
proof (induction "length buf" arbitrary: buf rule: less_induct)
  case less
  show ?case
  proof (cases rule: newline_cases[of buf])
    case 1
    then show ?thesis by (simp add: grep_buf_none lines_none printed_def)
  next
    case (2 l r)
    from less[of r] 2 obtain d where d: "r = d @ snd (grep_buf p r)" "newline \<notin> set (snd (grep_buf p r))"
      "fst (grep_buf p r) = printed p (lines d)" "\<forall>x. lines (d @ x) = lines d @ lines x" by auto
    show ?thesis
    proof (intro exI[of _ "l @ newline # d"] conjI allI)
      show "buf = (l @ newline # d) @ snd (grep_buf p buf)"
        using 2 d(1) by (simp add: grep_buf_line)
      show "fst (grep_buf p buf) = printed p (lines (l @ newline # d))"
        using 2 d(3) by (simp add: grep_buf_line lines_line printed_def)
      show "lines ((l @ newline # d) @ x) = lines (l @ newline # d) @ lines x" for x
        using 2 d(4) by (simp add: lines_line)
    qed (use 2 d(2) in \<open>simp_all add: grep_buf_line\<close>)
  qed
qed

lemma lines_long:
  assumes "newline \<notin> set b" "\<forall>l \<in> set (lines (b @ r)). length l < length b"
  shows "newline \<notin> set r"
proof (cases rule: newline_cases[of r])
  case (2 l r')
  then have "lines (b @ r) = (b @ l) # lines r'" using lines_line[of "b @ l" r'] assms(1) by simp
  then show ?thesis using assms(2) by simp
qed

lemma grep_end: "read_piece (GREP_BUF - length held - 1) i = ([], i') \<Longrightarrow> grep p held i = []"
  by (subst grep.simps) simp

lemma grep_step:
  assumes "read_piece (GREP_BUF - length held - 1) i = (got, i')" "got \<noteq> []" "buf = held @ got"
  shows "grep p held i = fst (grep_buf p buf) @
    grep p (if length (snd (grep_buf p buf)) = length buf then [] else snd (grep_buf p buf)) i'"
  by (subst grep.simps, subst assms(1)) (simp add: assms(2,3) Let_def split_beta)

lemma grep_nil: "grep p held [] = [] \<and> grep p held [[]] = []"
  by (simp add: grep_end)

lemma grep_file:
  "length held < GREP_BUF - 1 \<Longrightarrow> newline \<notin> set held \<Longrightarrow> \<forall>l \<in> set (lines (held @ r)). length l < GREP_BUF - 1 \<Longrightarrow>
     grep p held [r] = printed p (lines (held @ r))"
proof (induction "length r" arbitrary: held r rule: less_induct)
  case less
  define k where "k = GREP_BUF - length held - 1"
  have k: "0 < k" using less.prems(1) by (simp add: k_def)
  show ?case
  proof (cases "r = []")
    case True
    then show ?thesis using less.prems(2) grep_nil by (simp add: lines_none printed_def)
  next
    case ne: False
    define got rest where gr: "got = take k r" "rest = drop k r"
    define buf where "buf = held @ got"
    have rd: "read_piece k [r] = (got, if rest = [] then [] else [rest])" by (simp add: gr)
    have "got \<noteq> []" using ne k by (simp add: gr)
    note g = grep_step[OF rd[unfolded k_def] this buf_def, of p]
    have e: "grep p h (if rest = [] then [] else [rest]) = grep p h [rest]" for h
      using grep_nil[of p h] by simp
    have sh: "length rest < length r" using ne k by (simp add: gr)
    have all: "held @ r = buf @ rest" by (simp add: buf_def gr)
    obtain d where d: "buf = d @ snd (grep_buf p buf)" "newline \<notin> set (snd (grep_buf p buf))"
      "fst (grep_buf p buf) = printed p (lines d)" "d = [] \<longleftrightarrow> newline \<notin> set buf" "\<forall>r. lines (d @ r) = lines d @ lines r"
      using grep_buf_lines[of buf p] by blast
    define left where "left = snd (grep_buf p buf)"
    have L: "lines (held @ r) = lines d @ lines (left @ rest)" unfolding all using d(1,5) by (metis append_assoc left_def)
    show ?thesis
    proof (cases "d = []")
      case True
      then have nb: "newline \<notin> set buf" "left = buf" using d(1,4) by (simp_all add: left_def)
      have nr: "newline \<notin> set rest"
      proof (cases "rest = []")
        case False
        then have "length buf = GREP_BUF - 1" using less.prems(1) by (auto simp: buf_def gr k_def GREP_BUF_def)
        then show ?thesis using lines_long[OF nb(1), of rest] less.prems(3) unfolding all by simp
      qed simp
      then have "grep p [] [rest] = printed p (lines rest)"
        using less.hyps[OF sh, of "[]"] by (simp add: GREP_BUF_def lines_none)
      then show ?thesis using g e L True nb nr d(3) by (simp add: left_def[symmetric] lines_none printed_def)
    next
      case False
      have lb: "length left < length buf" using False arg_cong[OF d(1), of length] by (simp add: left_def)
      then have "length left < GREP_BUF - 1" using less.prems(1) by (auto simp: buf_def gr k_def GREP_BUF_def min_def split: if_splits)
      then have "grep p left [rest] = printed p (lines (left @ rest))"
        using less.hyps[OF sh, of left] d(2) less.prems(3) L by (simp add: left_def)
      then show ?thesis using g e L lb d(3) by (simp add: left_def[symmetric] printed_def)
    qed
  qed
qed

text \<open>
  C28: On a file whose lines fit into the buffer, grep prints exactly the lines that match the
  pattern, in the order of the file and each with its newline; bytes behind the last newline are
  not a line and are never printed.
\<close>

theorem grep_prints:
  assumes "\<forall>l \<in> set (lines inp). length l < GREP_BUF - 1"
  shows "grep pattern [] [inp] = concat (map (\<lambda>l. l @ [newline]) (filter (match_pattern pattern) (lines inp)))"
  using grep_file[of "[]" inp pattern] assms by (simp add: GREP_BUF_def printed_def)

text \<open>Input \<open>ab\<close>, \<open>b\<close>, \<open>a\<close> and the pattern \<open>b$\<close>: the first two lines are printed.\<close>

theorem grep_prints_witness:
  "grep [98, 36] [] [[97, 98, 10, 98, 10, 97, 10]] = [97, 98, 10, 98, 10]"
proof -
  have l: "lines [97, 98, 10, 98, 10, 97, 10] = [[97, 98], [98], [97]]" by code_simp
  have m: "match_pattern [98, 36] [97, 98]" "match_pattern [98, 36] [98]" "\<not> match_pattern [98, 36] [97]"
    by code_simp+
  show ?thesis
    using grep_prints[of "[97, 98, 10, 98, 10, 97, 10]" "[98, 36]"] l m by (simp add: GREP_BUF_def newline_def)
qed

text \<open>
  When the same bytes arrive in pieces, as from a pipe, a piece without a newline is dropped: with
  \<open>a\<close> and \<open>b\<close> and a newline in two pieces, the line \<open>ab\<close> is not found.
\<close>

lemma grep_drops_pieces: "grep [97] [] [[97], [98, 10]] = [] \<and> grep [97] [] [[97, 98, 10]] = [97, 98, 10]"
  by code_simp

end
