(* ===== verification/Xv6_Wc.thy ===== *)
theory Xv6_Wc
  imports Xv6_Ulib
begin

text \<open>
  The user program \<^verbatim>\<open>wc\<close> (\<^verbatim>\<open>user/src/wc.rs\<close>): the counting loop over the bytes that the
  reads deliver, with counters of 32 bits that wrap around. The counts are those of the whole input,
  however it is cut into pieces.
\<close>

record counts =
  c_lines :: u32
  c_words :: u32
  c_chars :: u32
  c_inword :: bool

definition is_blank :: "u8 \<Rightarrow> bool" where
  "is_blank b = (b = 32 \<or> b = 13 \<or> b = 9 \<or> b = 10 \<or> b = 11)"

definition wc_byte :: "u8 \<Rightarrow> counts \<Rightarrow> counts" where
  "wc_byte b k =
     (let k = k\<lparr>c_chars := c_chars k + 1\<rparr>;
          k = (if b = newline then k\<lparr>c_lines := c_lines k + 1\<rparr> else k) in
      if is_blank b then k\<lparr>c_inword := False\<rparr>
      else if \<not> c_inword k then k\<lparr>c_words := c_words k + 1, c_inword := True\<rparr>
      else k)"

definition WC_BUF :: nat where "WC_BUF = 512"

function wc_from :: "u8 list list \<Rightarrow> counts \<Rightarrow> counts" where
  "wc_from input k = (case read_piece WC_BUF input of (got, input') \<Rightarrow>
     if got = [] then k else wc_from input' (fold wc_byte got k))"
  by pat_completeness auto
termination
  by (relation "measure (\<lambda>(i, k). length (concat i))") (auto dest!: read_piece_shorter)

declare wc_from.simps [simp del]

definition wc_zero :: counts where
  "wc_zero = \<lparr>c_lines = 0, c_words = 0, c_chars = 0, c_inword = False\<rparr>"

text \<open>The program ends without a result when the input ends with a read error.\<close>

definition wc :: "bool \<Rightarrow> u8 list list \<Rightarrow> counts option" where
  "wc fails input = (if fails then None else Some (wc_from input wc_zero))"

section \<open>The counts\<close>

text \<open>A word starts at a byte that is not blank and that no other such byte precedes directly.\<close>

definition word_starts :: "u8 list \<Rightarrow> nat set" where
  "word_starts xs = {i. i < length xs \<and> \<not> is_blank (xs ! i) \<and> (i = 0 \<or> is_blank (xs ! (i - 1)))}"

lemma word_starts_snoc:
  "word_starts (xs @ [b]) = word_starts xs \<union> (if \<not> is_blank b \<and> (xs = [] \<or> is_blank (last xs)) then {length xs} else {})"
  by (cases "xs = []") (auto simp: word_starts_def nth_append last_conv_nth less_Suc_eq split: if_splits)

lemma word_starts_finite: "finite (word_starts xs)" "length xs \<notin> word_starts xs"
  by (auto simp: word_starts_def)

lemma fold_wc:
  "fold wc_byte xs wc_zero = \<lparr>c_lines = of_nat (count_list xs newline), c_words = of_nat (card (word_starts xs)),
     c_chars = of_nat (length xs), c_inword = (xs \<noteq> [] \<and> \<not> is_blank (last xs))\<rparr>"
proof (induction xs rule: rev_induct)
  case Nil
  then show ?case by (simp add: wc_zero_def word_starts_def)
next
  case (snoc b xs)
  have "is_blank newline" by (simp add: is_blank_def newline_def)
  then show ?case
    using snoc word_starts_finite[of xs]
    by (auto simp: wc_byte_def Let_def word_starts_snoc)
qed

lemma wc_from_pieces: "\<forall>p \<in> set input. p \<noteq> [] \<Longrightarrow> wc_from input k = fold wc_byte (concat input) k"
proof (induction input k rule: wc_from.induct)
  case (1 input k)
  show ?case
  proof (cases input)
    case (Cons p ps)
    obtain got rest where r: "read_piece WC_BUF input = (got, rest)" by fastforce
    have g: "got \<noteq> []" "got @ concat rest = concat input" "\<forall>p \<in> set rest. p \<noteq> []"
      using r 1(2) Cons by (auto simp: WC_BUF_def split: if_splits)
    have "wc_from input k = wc_from rest (fold wc_byte got k)" using r g(1) by (subst wc_from.simps) simp
    also have "\<dots> = fold wc_byte (concat rest) (fold wc_byte got k)" using 1(1)[OF r[symmetric] g(1) g(3)] .
    also have "\<dots> = fold wc_byte (got @ concat rest) k" by simp
    finally show ?thesis unfolding g(2) .
  qed (simp add: wc_from.simps)
qed

text \<open>
  However the input is cut into pieces, \<open>wc\<close> counts the newlines, the words and the bytes of the
  whole, modulo the width of its counters.
\<close>

lemma wc_counts:
  assumes "\<forall>p \<in> set input. p \<noteq> []"
  shows "wc False input = Some \<lparr>c_lines = of_nat (count_list (concat input) newline),
    c_words = of_nat (card (word_starts (concat input))), c_chars = of_nat (length (concat input)),
    c_inword = (concat input \<noteq> [] \<and> \<not> is_blank (last (concat input)))\<rparr>"
  by (simp add: wc_def wc_from_pieces[OF assms] fold_wc)

end
