(* ===== verification/Xv6_Shell.thy ===== *)
theory Xv6_Shell
  imports Xv6_Ulib
begin

text \<open>
  The command parser of the shell (\<^verbatim>\<open>user/src/sh.rs\<close>). A command tree is a datatype with the
  shell's constructors; its words are pairs of offsets into the line buffer, as the pointers
  \<open>argv\<close>/\<open>eargv\<close> and \<open>file\<close>/\<open>efile\<close> of the program. The parsing functions run in the
  state-and-stop monad over the position \<open>*ps\<close>; a syntax error is a panic. The recursive functions
  carry a bound on the depth of calls, which is proved never to be reached. Allocation of the nodes
  is taken to succeed.
\<close>

section \<open>Commands and tokens\<close>

definition MAXARGS :: nat where "MAXARGS = 10"

datatype cmd =
    EXEC "(nat \<times> nat) list"
  | REDIR cmd nat nat i32 i32
  | PIPE cmd cmd
  | LIST cmd cmd
  | BACK cmd

definition WHITESPACE :: "u8 list" where "WHITESPACE = [32, 9, 13, 10, 11]"
definition SYMBOLS :: "u8 list" where "SYMBOLS = [60, 124, 62, 38, 59, 40, 41]"

definition is_in :: "u8 \<Rightarrow> u8 list \<Rightarrow> bool" where
  "is_in c cs = (c \<in> set cs)"

definition is_space :: "u8 \<Rightarrow> bool" where
  "is_space c = is_in c WHITESPACE"

definition is_word :: "u8 \<Rightarrow> bool" where
  "is_word c = (\<not> is_in c WHITESPACE \<and> \<not> is_in c SYMBOLS)"

definition byte_at :: "u8 list \<Rightarrow> nat \<Rightarrow> u8" where
  "byte_at buf i = (if i < length buf then buf ! i else 0)"

function skip_while :: "(u8 \<Rightarrow> bool) \<Rightarrow> u8 list \<Rightarrow> nat \<Rightarrow> nat \<Rightarrow> nat" where
  "skip_while P buf es s = (if s < es \<and> P (byte_at buf s) then skip_while P buf es (s + 1) else s)"
  by pat_completeness auto
termination
  by (relation "measure (\<lambda>(P, buf, es, s). es - s)") auto

declare skip_while.simps [simp del]

text \<open>The token at a position that is not white space: its kind and its end.\<close>

definition token_at :: "u8 list \<Rightarrow> nat \<Rightarrow> nat \<Rightarrow> u8 \<times> nat" where
  "token_at buf es s =
     (let c = byte_at buf s in
      if c = 0 then (0, s)
      else if c \<in> {124, 40, 41, 59, 38, 60} then (c, s + 1)
      else if c = 62 then
        if byte_at buf (s + 1) = 62 then (43, s + 2) else (62, s + 1)
      else (97, skip_while is_word buf es s))"

definition gettoken :: "u8 list \<Rightarrow> nat \<Rightarrow> (nat, u8 \<times> nat \<times> nat) kop" where
  "gettoken buf es s =
     (let q = skip_while is_space buf es s; (tok, eq) = token_at buf es q in
      Inr ((tok, q, eq), skip_while is_space buf es eq))"

definition peek :: "u8 list \<Rightarrow> nat \<Rightarrow> u8 list \<Rightarrow> (nat, bool) kop" where
  "peek buf es toks s =
     (let s' = skip_while is_space buf es s; c = byte_at buf s' in Inr (c \<noteq> 0 \<and> is_in c toks, s'))"

section \<open>The parser\<close>

definition no_fuel :: stop where "no_fuel = Fault ''recursion bound''"

definition O_RDONLY :: i32 where "O_RDONLY = 0"
definition O_WRONLY :: i32 where "O_WRONLY = 1"
definition O_CREATE :: i32 where "O_CREATE = 0x200"

fun parseredirs :: "nat \<Rightarrow> u8 list \<Rightarrow> nat \<Rightarrow> cmd \<Rightarrow> (nat, cmd) kop" where
  "parseredirs 0 buf es cmd = stopk no_fuel"
| "parseredirs (Suc f) buf es cmd = bnd (peek buf es [60, 62]) (\<lambda>more.
     if \<not> more then ret cmd
     else bnd (gettoken buf es) (\<lambda>(tok, _, _).
       bnd (gettoken buf es) (\<lambda>(t, q, eq).
       if t \<noteq> 97 then panic ''missing file for redirection''
       else parseredirs f buf es
         (if tok = 60 then REDIR cmd q eq O_RDONLY 0
          else if tok = 62 \<or> tok = 43 then REDIR cmd q eq (O_WRONLY OR O_CREATE) 1
          else cmd))))"

text \<open>\<open>ecmd\<close> is the node at the bottom of the redirections around it.\<close>

fun add_arg :: "cmd \<Rightarrow> nat \<times> nat \<Rightarrow> cmd" where
  "add_arg (EXEC ws) w = EXEC (ws @ [w])"
| "add_arg (REDIR c q eq m fd) w = REDIR (add_arg c w) q eq m fd"
| "add_arg c w = c"

fun parseargs :: "nat \<Rightarrow> u8 list \<Rightarrow> nat \<Rightarrow> cmd \<Rightarrow> nat \<Rightarrow> (nat, cmd) kop" where
  "parseargs 0 buf es cmd argc = stopk no_fuel"
| "parseargs (Suc f) buf es cmd argc = bnd (peek buf es [124, 41, 38, 59]) (\<lambda>stop.
     if stop then ret cmd
     else bnd (gettoken buf es) (\<lambda>(tok, q, eq).
       if tok = 0 then ret cmd
       else if tok \<noteq> 97 then panic ''syntax''
       else if MAXARGS \<le> argc + 1 then panic ''too many args''
       else bnd (parseredirs f buf es (add_arg cmd (q, eq))) (\<lambda>cmd'.
         parseargs f buf es cmd' (argc + 1))))"

fun parse_backs :: "nat \<Rightarrow> u8 list \<Rightarrow> nat \<Rightarrow> cmd \<Rightarrow> (nat, cmd) kop" where
  "parse_backs 0 buf es cmd = stopk no_fuel"
| "parse_backs (Suc f) buf es cmd = bnd (peek buf es [38]) (\<lambda>more.
     if \<not> more then ret cmd
     else bnd (gettoken buf es) (\<lambda>_. parse_backs f buf es (BACK cmd)))"

fun parseline :: "nat \<Rightarrow> u8 list \<Rightarrow> nat \<Rightarrow> (nat, cmd) kop"
  and parsepipe :: "nat \<Rightarrow> u8 list \<Rightarrow> nat \<Rightarrow> (nat, cmd) kop"
  and parseexec :: "nat \<Rightarrow> u8 list \<Rightarrow> nat \<Rightarrow> (nat, cmd) kop"
  and parseblock :: "nat \<Rightarrow> u8 list \<Rightarrow> nat \<Rightarrow> (nat, cmd) kop" where
  "parseline 0 buf es = stopk no_fuel"
| "parseline (Suc f) buf es = bnd (parsepipe f buf es) (\<lambda>cmd.
     bnd (parse_backs f buf es cmd) (\<lambda>cmd'.
     bnd (peek buf es [59]) (\<lambda>semi.
     if semi then bnd (gettoken buf es) (\<lambda>_. bnd (parseline f buf es) (\<lambda>right. ret (LIST cmd' right)))
     else ret cmd')))"
| "parsepipe 0 buf es = stopk no_fuel"
| "parsepipe (Suc f) buf es = bnd (parseexec f buf es) (\<lambda>cmd.
     bnd (peek buf es [124]) (\<lambda>bar.
     if bar then bnd (gettoken buf es) (\<lambda>_. bnd (parsepipe f buf es) (\<lambda>right. ret (PIPE cmd right)))
     else ret cmd))"
| "parseexec 0 buf es = stopk no_fuel"
| "parseexec (Suc f) buf es = bnd (peek buf es [40]) (\<lambda>open.
     if open then parseblock f buf es
     else bnd (parseredirs f buf es (EXEC [])) (\<lambda>cmd. parseargs f buf es cmd 0))"
| "parseblock 0 buf es = stopk no_fuel"
| "parseblock (Suc f) buf es = bnd (peek buf es [40]) (\<lambda>open.
     if \<not> open then panic ''parseblock''
     else bnd (gettoken buf es) (\<lambda>_.
       bnd (parseline f buf es) (\<lambda>cmd.
       bnd (peek buf es [41]) (\<lambda>closed.
       if \<not> closed then panic ''syntax - missing )''
       else bnd (gettoken buf es) (\<lambda>_. parseredirs f buf es cmd)))))"

fun nulterminate :: "cmd \<Rightarrow> u8 list \<Rightarrow> u8 list" where
  "nulterminate (EXEC ws) buf = fold (\<lambda>(q, eq) b. b[eq := 0]) ws buf"
| "nulterminate (REDIR c q eq m fd) buf = (nulterminate c buf)[eq := 0]"
| "nulterminate (PIPE l r) buf = nulterminate r (nulterminate l buf)"
| "nulterminate (LIST l r) buf = nulterminate r (nulterminate l buf)"
| "nulterminate (BACK c) buf = nulterminate c buf"

text \<open>Every opening parenthesis costs four nested calls, every other one consumes a byte.\<close>

definition parse_fuel :: "nat \<Rightarrow> nat" where "parse_fuel n = 4 * n + 4"

definition parsecmd :: "u8 list \<Rightarrow> stop + (cmd \<times> u8 list)" where
  "parsecmd buf =
     (let es = strlen buf in
      case bnd (parseline (parse_fuel es) buf es) (\<lambda>cmd.
             bnd (peek buf es []) (\<lambda>_.
             bnd (gets (\<lambda>s. s)) (\<lambda>s.
             bnd (guardk (s = es) (Panic ''syntax'')) (\<lambda>_. ret cmd)))) 0 of
        Inl e \<Rightarrow> Inl e
      | Inr (cmd, _) \<Rightarrow> Inr (cmd, nulterminate cmd buf))"

section \<open>Settling: a result or a syntax error\<close>

text \<open>
  \<open>settles m s Q\<close>: from \<open>s\<close>, the operation panics, or it returns with a result that satisfies \<open>Q\<close>;
  it never stops for another reason, in particular not at the recursion bound.
\<close>

definition settles :: "(nat, 'a) kop \<Rightarrow> nat \<Rightarrow> ('a \<Rightarrow> nat \<Rightarrow> bool) \<Rightarrow> bool" where
  "settles m s Q = (case m s of Inl e \<Rightarrow> (\<exists>msg. e = Panic msg) | Inr (x, s') \<Rightarrow> Q x s')"

named_theorems settle

lemma settles_bnd [settle]: "settles (bnd m f) s Q = settles m s (\<lambda>x s'. settles (f x) s' Q)"
  by (auto simp: settles_def bnd_def split: sum.splits)

lemma settles_ret [settle]: "settles (ret x) s Q = Q x s"
  by (simp add: settles_def ret_def)

lemma settles_panic [settle]: "settles (panic msg) s Q"
  by (simp add: settles_def stopk_def)

lemma settles_gets [settle]: "settles (gets f) s Q = Q (f s) s"
  by (simp add: settles_def gets_def)

lemma settles_guardk [settle]: "settles (guardk b (Panic msg)) s Q = (b \<longrightarrow> Q () s)"
  by (auto simp: settles_def guardk_def ret_def stopk_def)

lemma settles_mono: "settles m s P \<Longrightarrow> (\<And>x s'. P x s' \<Longrightarrow> Q x s') \<Longrightarrow> settles m s Q"
  by (auto simp: settles_def split: sum.splits)

section \<open>Tokens\<close>

lemma strlen_nth: "i < strlen buf \<Longrightarrow> i < length buf \<and> buf ! i \<noteq> 0"
  by (induction buf arbitrary: i) (auto simp: nth_Cons split: nat.splits if_splits)

lemma strlen_le: "strlen buf \<le> length buf"
  by (induction buf) auto

lemma strlen_end: "strlen buf < length buf \<Longrightarrow> buf ! strlen buf = 0"
  by (induction buf) (auto split: if_splits)

lemma strlen_byte: "i < strlen buf \<Longrightarrow> byte_at buf i \<noteq> 0" "byte_at buf (strlen buf) = 0"
  using strlen_nth[of i buf] strlen_end[of buf] by (simp_all add: byte_at_def)

lemma byte_end: "i \<le> strlen buf \<Longrightarrow> byte_at buf i = 0 \<longleftrightarrow> i = strlen buf"
  using strlen_byte(1)[of i buf] strlen_byte(2)[of buf] by (cases "i = strlen buf") auto

lemma skip_while_stops:
  assumes "s \<le> es"
  shows "s \<le> skip_while P buf es s \<and> skip_while P buf es s \<le> es \<and>
    (\<forall>i. s \<le> i \<and> i < skip_while P buf es s \<longrightarrow> P (byte_at buf i)) \<and>
    (skip_while P buf es s = es \<or> \<not> P (byte_at buf (skip_while P buf es s)))"
  using assms
proof (induction P buf es s rule: skip_while.induct)
  case (1 P buf es s)
  show ?case
  proof (cases "s < es \<and> P (byte_at buf s)")
    case True
    then have e: "skip_while P buf es s = skip_while P buf es (s + 1)" by (subst skip_while.simps) simp
    have IH: "s + 1 \<le> skip_while P buf es (s + 1) \<and> skip_while P buf es (s + 1) \<le> es \<and>
      (\<forall>i. s + 1 \<le> i \<and> i < skip_while P buf es (s + 1) \<longrightarrow> P (byte_at buf i)) \<and>
      (skip_while P buf es (s + 1) = es \<or> \<not> P (byte_at buf (skip_while P buf es (s + 1))))"
      using 1(1)[OF True] True by simp
    then show ?thesis unfolding e using True by (metis Suc_eq_plus1 Suc_leD le_antisym not_less_eq_eq)
  next
    case False
    then have "skip_while P buf es s = s" by (subst skip_while.simps) auto
    then show ?thesis using False 1(2) by auto
  qed
qed

text \<open>A word of the line: not empty, only word bytes, and delimited.\<close>

fun word_ok :: "u8 list \<Rightarrow> nat \<times> nat \<Rightarrow> bool" where
  "word_ok buf (q, eq) = (q < eq \<and> eq \<le> strlen buf \<and> (\<forall>i \<in> {q..<eq}. is_word (byte_at buf i)) \<and>
     (eq = strlen buf \<or> \<not> is_word (byte_at buf eq)))"

lemma token_kinds: "c \<notin> {124, 40, 41, 59, 38, 60} \<Longrightarrow> c \<noteq> 62 \<Longrightarrow> \<not> is_space c \<Longrightarrow> is_word c"
  by (simp add: is_word_def is_space_def is_in_def SYMBOLS_def)

lemma token_at_ok:
  assumes "q \<le> strlen buf" "q = strlen buf \<or> \<not> is_space (byte_at buf q)" "token_at buf (strlen buf) q = (tok, eq)"
  shows "q \<le> eq \<and> eq \<le> strlen buf \<and> (tok = 0 \<longleftrightarrow> q = strlen buf) \<and> (q < strlen buf \<longrightarrow> q < eq) \<and> (tok = 97 \<longrightarrow> word_ok buf (q, eq))"
proof -
  define c where "c = byte_at buf q"
  have T: "(if c = 0 then (0, q) else if c \<in> {124, 40, 41, 59, 38, 60} then (c, q + 1)
    else if c = 62 then if byte_at buf (q + 1) = 62 then (43, q + 2) else (62, q + 1)
    else (97, skip_while is_word buf (strlen buf) q)) = (tok, eq)"
    using assms(3) by (simp only: token_at_def Let_def c_def)
  show ?thesis
  proof (cases "c = 0")
    case True
    then have "q = strlen buf" using byte_end[OF assms(1)] by (simp add: c_def)
    then show ?thesis using True T by auto
  next
    case nz: False
    then have q: "q < strlen buf" using assms(1) byte_end[OF assms(1)] by (auto simp: c_def)
    consider (s) "c \<in> {124, 40, 41, 59, 38, 60}" | (r) "c = 62" | (w) "c \<notin> {124, 40, 41, 59, 38, 60}" "c \<noteq> 62" by blast
    then show ?thesis
    proof cases
      case s
      then have "tok = c" "eq = q + 1" "c \<noteq> 97" using nz T by auto
      then show ?thesis using q nz by auto
    next
      case r
      have "byte_at buf (q + 1) = 62 \<Longrightarrow> q + 1 < strlen buf"
        using q byte_end[of "q + 1" buf] by (cases "q + 1 = strlen buf") auto
      then show ?thesis using r q T by (auto split: if_splits)
    next
      case w
      then have wc: "is_word c" using q assms(2) token_kinds[of c] by (auto simp: c_def)
      have t: "tok = 97" "eq = skip_while is_word buf (strlen buf) q" using w nz T by auto
      note k = skip_while_stops[OF assms(1), of is_word buf, folded t(2)]
      have "q < eq" using k wc q by (cases "eq = q") (auto simp: c_def)
      then show ?thesis using k t(1) q by auto
    qed
  qed
qed

lemma settles_gettoken:
  assumes "s \<le> strlen buf"
    and "\<And>tok q eq s'. s \<le> q \<Longrightarrow> q \<le> eq \<Longrightarrow> eq \<le> s' \<Longrightarrow> s' \<le> strlen buf \<Longrightarrow> (tok = 0 \<longleftrightarrow> q = strlen buf) \<Longrightarrow>
      (s < strlen buf \<Longrightarrow> \<not> is_space (byte_at buf s) \<Longrightarrow> q = s) \<Longrightarrow> (tok \<noteq> 0 \<Longrightarrow> s < s') \<Longrightarrow> (tok = 97 \<Longrightarrow> word_ok buf (q, eq)) \<Longrightarrow> Q (tok, q, eq) s'"
  shows "settles (gettoken buf (strlen buf)) s Q"
proof -
  define q where "q = skip_while is_space buf (strlen buf) s"
  obtain tok eq where t: "token_at buf (strlen buf) q = (tok, eq)" by fastforce
  define s' where "s' = skip_while is_space buf (strlen buf) eq"
  have q: "s \<le> q" "q \<le> strlen buf" "q = strlen buf \<or> \<not> is_space (byte_at buf q)"
    using skip_while_stops[OF assms(1), of is_space buf] by (simp_all add: q_def)
  note k = token_at_ok[OF q(2,3) t]
  have s': "eq \<le> s'" "s' \<le> strlen buf" using skip_while_stops[of eq "strlen buf" is_space buf] k by (simp_all add: s'_def)
  have "\<not> is_space (byte_at buf s) \<Longrightarrow> q = s" by (simp add: q_def skip_while.simps[of is_space buf _ s])
  then have "Q (tok, q, eq) s'" by (intro assms(2)) (use q k s' in auto)
  then show ?thesis by (simp add: settles_def gettoken_def q_def[symmetric] t s'_def[symmetric])
qed

lemma settles_peek:
  assumes "s \<le> strlen buf"
    and "\<And>b s'. s \<le> s' \<Longrightarrow> s' \<le> strlen buf \<Longrightarrow> (b \<Longrightarrow> s' < strlen buf \<and> \<not> is_space (byte_at buf s')) \<Longrightarrow> Q b s'"
  shows "settles (peek buf (strlen buf) toks) s Q"
proof -
  define s' where "s' = skip_while is_space buf (strlen buf) s"
  have k: "s \<le> s'" "s' \<le> strlen buf" using skip_while_stops[OF assms(1), of is_space buf] by (simp_all add: s'_def)
  have "Q (byte_at buf s' \<noteq> 0 \<and> is_in (byte_at buf s') toks) s'"
    by (rule assms(2)) (use k byte_end[OF k(2)] skip_while_stops[OF assms(1), of is_space buf] in \<open>auto simp: s'_def\<close>)
  then show ?thesis by (simp add: settles_def peek_def s'_def[symmetric] Let_def)
qed

section \<open>Every line is parsed or refused\<close>

text \<open>
  Well-formed commands: every word is a delimited word of the line, an \<open>EXEC\<close> node leaves room for
  the null pointer that ends its argument array, and a redirection opens its file for reading on
  descriptor 0 or for writing on descriptor 1.
\<close>

fun wf_cmd :: "u8 list \<Rightarrow> cmd \<Rightarrow> bool" where
  "wf_cmd buf (EXEC ws) = (length ws < MAXARGS \<and> (\<forall>w \<in> set ws. word_ok buf w))"
| "wf_cmd buf (REDIR c q eq m fd) = (wf_cmd buf c \<and> word_ok buf (q, eq) \<and>
     (m = O_RDONLY \<and> fd = 0 \<or> m = (O_WRONLY OR O_CREATE) \<and> fd = 1))"
| "wf_cmd buf (PIPE l r) = (wf_cmd buf l \<and> wf_cmd buf r)"
| "wf_cmd buf (LIST l r) = (wf_cmd buf l \<and> wf_cmd buf r)"
| "wf_cmd buf (BACK c) = wf_cmd buf c"

text \<open>The number of arguments so far of the node under construction.\<close>

fun args_so_far :: "cmd \<Rightarrow> nat option" where
  "args_so_far (EXEC ws) = Some (length ws)"
| "args_so_far (REDIR c q eq m fd) = args_so_far c"
| "args_so_far c = None"

lemma add_arg_ok:
  "args_so_far c = Some n \<Longrightarrow> wf_cmd buf c \<Longrightarrow> word_ok buf w \<Longrightarrow> n + 1 < MAXARGS \<Longrightarrow>
   args_so_far (add_arg c w) = Some (n + 1) \<and> wf_cmd buf (add_arg c w)"
  by (induction c) auto

lemma settles_fetch:
  assumes "s < strlen buf" "\<not> is_space (byte_at buf s)"
    and "\<And>tok q eq s'. s < s' \<Longrightarrow> s' \<le> strlen buf \<Longrightarrow> Q (tok, q, eq) s'"
  shows "settles (gettoken buf (strlen buf)) s Q"
  by (rule settles_gettoken) (use assms in auto)

lemma settles_parseredirs:
  "s \<le> strlen buf \<Longrightarrow> strlen buf - s < f \<Longrightarrow> wf_cmd buf c \<Longrightarrow>
   settles (parseredirs f buf (strlen buf) c) s (\<lambda>c' s'. s \<le> s' \<and> s' \<le> strlen buf \<and> wf_cmd buf c' \<and> args_so_far c' = args_so_far c)"
proof (induction f arbitrary: s c)
  case (Suc f)
  have rec: "s < s1 \<Longrightarrow> s1 \<le> strlen buf \<Longrightarrow> wf_cmd buf d \<Longrightarrow> args_so_far d = args_so_far c \<Longrightarrow>
    settles (parseredirs f buf (strlen buf) d) s1 (\<lambda>c' s'. s \<le> s' \<and> s' \<le> strlen buf \<and> wf_cmd buf c' \<and> args_so_far c' = args_so_far c)" for s1 d
    by (rule settles_mono, rule Suc.IH) (use Suc.prems in auto)
  show ?case unfolding parseredirs.simps settles_bnd
  proof (rule settles_peek[OF Suc.prems(1)])
    fix b s1 assume p: "s \<le> s1" "s1 \<le> strlen buf" "b \<Longrightarrow> s1 < strlen buf \<and> \<not> is_space (byte_at buf s1)"
    show "settles (if \<not> b then ret c else bnd (gettoken buf (strlen buf)) (\<lambda>(tok, _, _).
        bnd (gettoken buf (strlen buf)) (\<lambda>(t, q, eq). if t \<noteq> 97 then panic ''missing file for redirection''
          else parseredirs f buf (strlen buf)
            (if tok = 60 then REDIR c q eq O_RDONLY 0 else if tok = 62 \<or> tok = 43 then REDIR c q eq (O_WRONLY OR O_CREATE) 1 else c)))) s1
      (\<lambda>c' s'. s \<le> s' \<and> s' \<le> strlen buf \<and> wf_cmd buf c' \<and> args_so_far c' = args_so_far c)"
    proof (cases b)
      case True
      then have p3: "s1 < strlen buf" "\<not> is_space (byte_at buf s1)" using p(3) by auto
      show ?thesis unfolding settles_bnd if_not_P[OF not_not[THEN iffD2, OF True]]
        apply (rule settles_fetch[OF p3])
        unfolding prod.case settles_bnd
        apply (rule settles_gettoken, assumption)
        using p Suc.prems(3) by (auto simp: settle intro!: rec)
    qed (use p Suc.prems in \<open>simp add: settle\<close>)
  qed
qed simp

lemma settles_parseargs:
  "s \<le> strlen buf \<Longrightarrow> strlen buf - s < f \<Longrightarrow> wf_cmd buf c \<Longrightarrow> args_so_far c = Some n \<Longrightarrow>
   settles (parseargs f buf (strlen buf) c n) s (\<lambda>c' s'. s \<le> s' \<and> s' \<le> strlen buf \<and> wf_cmd buf c')"
proof (induction f arbitrary: s c n)
  case (Suc f)
  have rec: "settles (bnd (parseredirs f buf (strlen buf) (add_arg c (q, eq))) (\<lambda>c'. parseargs f buf (strlen buf) c' (n + 1))) s1
      (\<lambda>c' s'. s \<le> s' \<and> s' \<le> strlen buf \<and> wf_cmd buf c')"
    if a: "s < s1" "s1 \<le> strlen buf" "word_ok buf (q, eq)" "n + 1 < MAXARGS" for s1 q eq
  proof -
    note k = add_arg_ok[OF Suc.prems(4,3) a(3,4)]
    show ?thesis unfolding settles_bnd
    proof (rule settles_mono, rule settles_parseredirs)
      fix c2 s2 assume r: "s1 \<le> s2 \<and> s2 \<le> strlen buf \<and> wf_cmd buf c2 \<and> args_so_far c2 = args_so_far (add_arg c (q, eq))"
      show "settles (parseargs f buf (strlen buf) c2 (n + 1)) s2 (\<lambda>c' s'. s \<le> s' \<and> s' \<le> strlen buf \<and> wf_cmd buf c')"
        by (rule settles_mono, rule Suc.IH) (use r k a Suc.prems in auto)
    qed (use k a Suc.prems in auto)
  qed
  show ?case unfolding parseargs.simps settles_bnd
  proof (rule settles_peek[OF Suc.prems(1)])
    fix b s1 assume p: "s \<le> s1" "s1 \<le> strlen buf"
    show "settles (if b then ret c else bnd (gettoken buf (strlen buf)) (\<lambda>(tok, q, eq).
        if tok = 0 then ret c else if tok \<noteq> 97 then panic ''syntax'' else if MAXARGS \<le> n + 1 then panic ''too many args''
        else bnd (parseredirs f buf (strlen buf) (add_arg c (q, eq))) (\<lambda>cmd'. parseargs f buf (strlen buf) cmd' (n + 1)))) s1
      (\<lambda>c' s'. s \<le> s' \<and> s' \<le> strlen buf \<and> wf_cmd buf c')"
    proof (cases b)
      case False
      show ?thesis unfolding settles_bnd if_not_P[OF False]
      proof (rule settles_gettoken[OF p(2)], unfold prod.case)
        fix tok :: u8 and q eq s2
        assume t: "s1 \<le> q" "q \<le> eq" "eq \<le> s2" "s2 \<le> strlen buf" "tok \<noteq> 0 \<Longrightarrow> s1 < s2" "tok = 97 \<Longrightarrow> word_ok buf (q, eq)"
        show "settles (if tok = 0 then ret c else if tok \<noteq> 97 then panic ''syntax'' else if MAXARGS \<le> n + 1 then panic ''too many args''
          else bnd (parseredirs f buf (strlen buf) (add_arg c (q, eq))) (\<lambda>cmd'. parseargs f buf (strlen buf) cmd' (n + 1))) s2
          (\<lambda>c' s'. s \<le> s' \<and> s' \<le> strlen buf \<and> wf_cmd buf c')"
        proof (cases "tok = 97 \<and> \<not> MAXARGS \<le> n + 1")
          case True
          then show ?thesis using rec[of s2 q eq] t p by simp
        next
          case False
          then show ?thesis using t p Suc.prems(3) by (auto simp: settles_ret settles_panic)
        qed
      qed
    qed (use p Suc.prems(3) in \<open>simp add: settle\<close>)
  qed
qed simp

abbreviation parsed :: "u8 list \<Rightarrow> nat \<Rightarrow> cmd \<Rightarrow> nat \<Rightarrow> bool" where
  "parsed buf s \<equiv> \<lambda>c s'. s \<le> s' \<and> s' \<le> strlen buf \<and> wf_cmd buf c"

lemma settles_branch:
  assumes "s \<le> strlen buf"
    and "\<And>s'. s \<le> s' \<Longrightarrow> s' \<le> strlen buf \<Longrightarrow> settles (m False) s' Q"
    and "\<And>s'. s \<le> s' \<Longrightarrow> s' < strlen buf \<Longrightarrow> \<not> is_space (byte_at buf s') \<Longrightarrow> settles (m True) s' Q"
  shows "settles (bnd (peek buf (strlen buf) toks) m) s Q"
  unfolding settles_bnd
proof (rule settles_peek[OF assms(1)])
  fix b s' assume "s \<le> s'" "s' \<le> strlen buf" "b \<Longrightarrow> s' < strlen buf \<and> \<not> is_space (byte_at buf s')"
  then show "settles (m b) s' Q" using assms(2,3) by (cases b) auto
qed

lemma settles_parse_backs:
  "s \<le> strlen buf \<Longrightarrow> strlen buf - s < f \<Longrightarrow> wf_cmd buf c \<Longrightarrow> settles (parse_backs f buf (strlen buf) c) s (parsed buf s)"
proof (induction f arbitrary: s c)
  case (Suc f)
  show ?case unfolding parse_backs.simps
  proof (rule settles_branch[OF Suc.prems(1)], goal_cases)
    case (2 s1)
    then show ?case
      unfolding if_not_P[OF not_not[THEN iffD2, OF TrueI]] settles_bnd
    proof (intro settles_fetch, goal_cases)
      case (3 tok q eq s2)
      then show ?case by (intro settles_mono[OF Suc.IH]) (use Suc.prems in auto)
    qed
  qed (use Suc.prems in \<open>simp add: settle\<close>)
qed simp

lemma settles_chain:
  assumes "settles m s (parsed buf s)" "s0 \<le> s"
    and "\<And>c s'. s \<le> s' \<Longrightarrow> s' \<le> strlen buf \<Longrightarrow> wf_cmd buf c \<Longrightarrow> settles (k c) s' (parsed buf s0)"
  shows "settles (bnd m k) s (parsed buf s0)"
  unfolding settles_bnd by (rule settles_mono[OF assms(1)]) (use assms(2,3) in auto)

lemma settles_token:
  assumes "s < strlen buf" "\<not> is_space (byte_at buf s)"
    and "\<And>s'. s < s' \<Longrightarrow> s' \<le> strlen buf \<Longrightarrow> settles m s' Q"
  shows "settles (bnd (gettoken buf (strlen buf)) (\<lambda>_. m)) s Q"
  unfolding settles_bnd by (rule settles_fetch[OF assms(1,2)]) (rule assms(3))

lemma settles_weaken: "settles m s (parsed buf s) \<Longrightarrow> s0 \<le> s \<Longrightarrow> settles m s (parsed buf s0)"
  by (erule settles_mono) auto

lemma settles_parseline:
  assumes line: "\<And>s. s \<le> strlen buf \<Longrightarrow> 4 * (strlen buf - s) + 4 \<le> f \<Longrightarrow> settles (parseline f buf (strlen buf)) s (parsed buf s)"
    and pipe: "\<And>s. s \<le> strlen buf \<Longrightarrow> 4 * (strlen buf - s) + 3 \<le> f \<Longrightarrow> settles (parsepipe f buf (strlen buf)) s (parsed buf s)"
    and s: "s \<le> strlen buf" "4 * (strlen buf - s) + 4 \<le> Suc f"
  shows "settles (parseline (Suc f) buf (strlen buf)) s (parsed buf s)"
  unfolding parseline.simps
proof (rule settles_chain[OF pipe], goal_cases)
  case (4 c s1)
  show ?case
  proof (rule settles_chain[OF settles_parse_backs], goal_cases)
    case (5 c2 s2)
    show ?case
    proof (rule settles_branch[OF 5(2)], goal_cases)
      case (2 s3)
      show ?case unfolding if_P[OF TrueI]
      proof (rule settles_token[OF 2(2,3)])
        fix s4 assume "s3 < s4" "s4 \<le> strlen buf"
        then show "settles (bnd (parseline f buf (strlen buf)) (\<lambda>right. ret (LIST c2 right))) s4 (parsed buf s)"
          by (intro settles_chain line) (use 2 4 5 s in \<open>auto simp: settle\<close>)
      qed
    qed (use 4 5 in \<open>simp add: settle\<close>)
  qed (use 4 s in auto)
qed (use s in auto)

lemma settles_parsepipe:
  assumes pipe: "\<And>s. s \<le> strlen buf \<Longrightarrow> 4 * (strlen buf - s) + 3 \<le> f \<Longrightarrow> settles (parsepipe f buf (strlen buf)) s (parsed buf s)"
    and ex: "\<And>s. s \<le> strlen buf \<Longrightarrow> 4 * (strlen buf - s) + 2 \<le> f \<Longrightarrow> settles (parseexec f buf (strlen buf)) s (parsed buf s)"
    and s: "s \<le> strlen buf" "4 * (strlen buf - s) + 3 \<le> Suc f"
  shows "settles (parsepipe (Suc f) buf (strlen buf)) s (parsed buf s)"
  unfolding parsepipe.simps
proof (rule settles_chain[OF ex], goal_cases)
  case (4 c s1)
  show ?case
  proof (rule settles_branch[OF 4(2)], goal_cases)
    case (2 s2)
    show ?case unfolding if_P[OF TrueI]
    proof (rule settles_token[OF 2(2,3)])
      fix s3 assume "s2 < s3" "s3 \<le> strlen buf"
      then show "settles (bnd (parsepipe f buf (strlen buf)) (\<lambda>right. ret (PIPE c right))) s3 (parsed buf s)"
        by (intro settles_chain pipe) (use 2 4 s in \<open>auto simp: settle\<close>)
    qed
  qed (use 4 in \<open>simp add: settle\<close>)
qed (use s in auto)

lemma settles_parseexec:
  assumes blk: "\<And>s. s \<le> strlen buf \<Longrightarrow> 4 * (strlen buf - s) + 1 \<le> f \<Longrightarrow> settles (parseblock f buf (strlen buf)) s (parsed buf s)"
    and s: "s \<le> strlen buf" "4 * (strlen buf - s) + 2 \<le> Suc f"
  shows "settles (parseexec (Suc f) buf (strlen buf)) s (parsed buf s)"
  unfolding parseexec.simps
proof (rule settles_branch[OF s(1)], goal_cases)
  case (1 s1)
  show ?case unfolding if_False settles_bnd
  proof (rule settles_mono[OF settles_parseredirs], goal_cases)
    case (4 c s2)
    then show ?case by (intro settles_weaken[OF settles_parseargs, of _ _ _ _ 0]) (use 1 s in auto)
  qed (use 1 s in \<open>auto simp: MAXARGS_def\<close>)
next
  case (2 s1)
  then show ?case unfolding if_P[OF TrueI] by (intro settles_weaken[OF blk]) (use s in auto)
qed

lemma settles_parseblock:
  assumes line: "\<And>s. s \<le> strlen buf \<Longrightarrow> 4 * (strlen buf - s) + 4 \<le> f \<Longrightarrow> settles (parseline f buf (strlen buf)) s (parsed buf s)"
    and s: "s \<le> strlen buf" "4 * (strlen buf - s) + 1 \<le> Suc f"
  shows "settles (parseblock (Suc f) buf (strlen buf)) s (parsed buf s)"
  unfolding parseblock.simps
proof (rule settles_branch[OF s(1)], goal_cases)
  case (2 s1)
  show ?case unfolding if_not_P[OF not_not[THEN iffD2, OF TrueI]]
  proof (rule settles_token[OF 2(2,3)], rule settles_chain[OF line], goal_cases)
    case (4 s2 c s3)
    show ?case
    proof (rule settles_branch[OF 4(4)], goal_cases)
      case a: (2 s4)
      show ?case unfolding if_not_P[OF not_not[THEN iffD2, OF TrueI]]
        by (rule settles_token[OF a(2,3)], rule settles_mono[OF settles_parseredirs]) (use 2 4 a s in auto)
    qed (simp add: settle)
  qed (use 2 s in auto)
qed (simp add: settle)

lemma settles_parser:
  "s \<le> strlen buf \<Longrightarrow>
     (4 * (strlen buf - s) + 4 \<le> f \<longrightarrow> settles (parseline f buf (strlen buf)) s (parsed buf s)) \<and>
     (4 * (strlen buf - s) + 3 \<le> f \<longrightarrow> settles (parsepipe f buf (strlen buf)) s (parsed buf s)) \<and>
     (4 * (strlen buf - s) + 2 \<le> f \<longrightarrow> settles (parseexec f buf (strlen buf)) s (parsed buf s)) \<and>
     (4 * (strlen buf - s) + 1 \<le> f \<longrightarrow> settles (parseblock f buf (strlen buf)) s (parsed buf s))"
proof (induction f arbitrary: s)
  case (Suc f)
  then show ?case
    by (intro conjI impI settles_parseline settles_parsepipe settles_parseexec settles_parseblock) auto
qed simp

section \<open>The words become C strings\<close>

fun cmd_words :: "cmd \<Rightarrow> (nat \<times> nat) list" where
  "cmd_words (EXEC ws) = ws"
| "cmd_words (REDIR c q eq m fd) = cmd_words c @ [(q, eq)]"
| "cmd_words (PIPE l r) = cmd_words l @ cmd_words r"
| "cmd_words (LIST l r) = cmd_words l @ cmd_words r"
| "cmd_words (BACK c) = cmd_words c"

definition word_text :: "u8 list \<Rightarrow> nat \<times> nat \<Rightarrow> u8 list" where
  "word_text buf w = take (snd w - fst w) (drop (fst w) buf)"

lemma nulterminate_words: "nulterminate c buf = fold (\<lambda>(q, eq) b. b[eq := 0]) (cmd_words c) buf"
  by (induction c arbitrary: buf) auto

lemma wf_cmd_words: "wf_cmd buf c \<Longrightarrow> w \<in> set (cmd_words c) \<Longrightarrow> word_ok buf w"
  by (induction c) auto

lemma fold_nul:
  "length (fold (\<lambda>(q, eq) b. b[eq := 0]) ws buf) = length (buf :: u8 list)"
  "i < length buf \<Longrightarrow> fold (\<lambda>(q, eq) b. b[eq := 0]) ws buf ! i = (if i \<in> set (map snd ws) then 0 else buf ! i)"
  by (induction ws arbitrary: buf) (auto simp: nth_list_update simp del: set_map)

lemma cstr_take:
  "n \<le> length xs \<Longrightarrow> (\<forall>i < n. xs ! i \<noteq> 0) \<Longrightarrow> (n < length xs \<Longrightarrow> xs ! n = 0) \<Longrightarrow> cstr xs = take n xs"
proof (induction n arbitrary: xs)
  case 0
  then show ?case by (cases xs) (auto simp: cstr_def)
next
  case (Suc n)
  then obtain x ys where xs: "xs = x # ys" by (cases xs) auto
  have "cstr ys = take n ys"
  proof (rule Suc.IH)
    show "\<forall>i < n. ys ! i \<noteq> 0" using Suc.prems(2) xs by (metis Suc_less_eq nth_Cons_Suc)
    show "n < length ys \<Longrightarrow> ys ! n = 0" using Suc.prems(3) xs by simp
  qed (use Suc.prems xs in simp)
  moreover have "x \<noteq> 0" using Suc.prems(2) xs by (metis nth_Cons_0 zero_less_Suc)
  ultimately show ?case using xs by (simp add: cstr_def)
qed

text \<open>Writing the NULs behind the words does not hit a byte of a word.\<close>

lemma nulterminate_word:
  assumes "wf_cmd buf c" "w \<in> set (cmd_words c)"
  shows "cstr (drop (fst w) (nulterminate c buf)) = word_text buf w"
proof -
  obtain q eq where w: "w = (q, eq)" by fastforce
  define b where "b = nulterminate c buf"
  have ok: "word_ok buf (q, eq)" using wf_cmd_words[OF assms] w by simp
  have lb: "length b = length buf" by (simp add: b_def nulterminate_words fold_nul)
  have le: "eq \<le> length buf" using ok strlen_le[of buf] by auto
  have nth: "i < length buf \<Longrightarrow> b ! i = (if i \<in> set (map snd (cmd_words c)) then 0 else buf ! i)" for i
    by (simp add: b_def nulterminate_words fold_nul del: set_map)
  have body: "b ! i = buf ! i \<and> buf ! i \<noteq> 0" if i: "q \<le> i" "i < eq" for i
  proof -
    have l: "i < strlen buf" using ok i by simp
    have "i \<notin> set (map snd (cmd_words c))"
    proof
      assume "i \<in> set (map snd (cmd_words c))"
      then obtain p where "word_ok buf (p, i)" using wf_cmd_words[OF assms(1)] by fastforce
      then show False using ok i l by auto
    qed
    then show ?thesis using nth[of i] strlen_nth[OF l] by simp
  qed
  have "cstr (drop q b) = take (eq - q) (drop q b)"
  proof (rule cstr_take)
    show "\<forall>i < eq - q. drop q b ! i \<noteq> 0" using body le lb ok by (auto simp: less_diff_conv)
    show "drop q b ! (eq - q) = 0" if "eq - q < length (drop q b)"
    proof -
      have "eq < length buf" using that lb ok by auto
      moreover have "eq \<in> set (map snd (cmd_words c))" using assms(2) w by force
      ultimately show ?thesis using nth[of eq] lb ok by simp
    qed
  qed (use le lb in simp)
  also have "\<dots> = take (eq - q) (drop q buf)"
    using body le lb by (auto intro!: nth_equalityI)
  finally show ?thesis by (simp add: w word_text_def b_def)
qed

lemma settles_parsecmd:
  "(\<exists>msg. parsecmd buf = Inl (Panic msg)) \<or> (\<exists>c. parsecmd buf = Inr (c, nulterminate c buf) \<and> wf_cmd buf c)"
proof -
  define m where "m = bnd (parseline (parse_fuel (strlen buf)) buf (strlen buf)) (\<lambda>cmd.
    bnd (peek buf (strlen buf) []) (\<lambda>_. bnd (gets (\<lambda>s. s)) (\<lambda>s. bnd (guardk (s = strlen buf) (Panic ''syntax'')) (\<lambda>_. ret cmd))))"
  have "settles (parseline (parse_fuel (strlen buf)) buf (strlen buf)) 0 (parsed buf 0)"
    using settles_parser[of 0 buf "parse_fuel (strlen buf)"] by (simp add: parse_fuel_def)
  then have "settles m 0 (\<lambda>c s. wf_cmd buf c)"
    unfolding m_def settles_bnd by (rule settles_mono) (auto simp: settle intro!: settles_peek)
  then show ?thesis
    unfolding parsecmd_def Let_def m_def[symmetric] by (auto simp: settles_def split: sum.splits prod.splits)
qed

text \<open>
  C26: The parser of the shell ends on every line: it reports a syntax error, or it returns a
  command. The bound on nested calls that the model carries is never reached.
\<close>

theorem parsecmd_ends:
  "(\<exists>msg. parsecmd buf = Inl (Panic msg)) \<or> (\<exists>c buf'. parsecmd buf = Inr (c, buf') \<and> length buf' = length buf)"
  using settles_parsecmd[of buf] by (auto simp: nulterminate_words fold_nul)

text \<open>
  C27: A command that the parser returns is well formed: no argument list exceeds the array, every
  redirection has a mode that fits its descriptor, and the pointers of every argument and file name
  refer to a non-empty delimited word of the line, which is exactly the C string found there after
  the NULs have been written.
\<close>

theorem parsecmd_well_formed:
  assumes "parsecmd buf = Inr (c, buf')"
  shows "wf_cmd buf c \<and> (\<forall>w \<in> set (cmd_words c). cstr (drop (fst w) buf') = word_text buf w \<and> word_text buf w \<noteq> [])"
proof -
  have w: "wf_cmd buf c" "buf' = nulterminate c buf" using settles_parsecmd[of buf] assms by auto
  have "word_text buf x \<noteq> []" if x: "x \<in> set (cmd_words c)" for x
    using wf_cmd_words[OF w(1) x] strlen_le[of buf] by (cases x) (auto simp: word_text_def)
  then show ?thesis using w nulterminate_word by auto
qed

text \<open>The line \<open>ls>f\<close>.\<close>

theorem parsecmd_well_formed_witness:
  "parsecmd [108, 115, 62, 102, 0] = Inr (REDIR (EXEC [(0, 2)]) 3 4 0x201 1, [108, 115, 0, 102, 0]) \<and>
   word_text [108, 115, 62, 102, 0] (0, 2) = [108, 115]"
proof -
  have p: "parsecmd [108, 115, 62, 102, 0] = Inr (REDIR (EXEC [(0, 2)]) 3 4 0x201 1, [108, 115, 0, 102, 0])"
    by code_simp
  from parsecmd_well_formed[OF p] have "cstr (drop 0 [108, 115, 0, 102, 0]) = word_text [108, 115, 62, 102, 0] (0, 2)" by simp
  then show ?thesis using p by (simp add: cstr_def)
qed

section \<open>Reading a command line\<close>

definition LINE_BUF :: nat where "LINE_BUF = 100"

text \<open>\<open>getcmd\<close> clears the buffer and reads a line into it; an empty buffer is the end of the input.\<close>

definition getcmd :: "u8 list list \<Rightarrow> u8 list option \<times> u8 list list" where
  "getcmd input = (case ulib_gets LINE_BUF input of (line, rest) \<Rightarrow>
     let buf = line @ replicate (LINE_BUF - length line) 0 in
     (if at0 buf = 0 then None else Some buf, rest))"

lemma getcmd_line:
  assumes "newline \<notin> set l" "length l < LINE_BUF - 1" "at0 (l @ [newline]) \<noteq> 0"
  shows "getcmd [l @ newline # r] =
    (Some (l @ newline # replicate (LINE_BUF - length l - 1) 0), if r = [] then [] else [r])"
proof -
  have "at0 (l @ newline # z) \<noteq> 0" for z using assms(3) by (cases l) auto
  moreover have "0 # replicate (LINE_BUF - Suc (Suc (length l))) 0 = replicate (LINE_BUF - length l - 1) (0 :: u8)"
    using assms(2) by (simp add: replicate_Suc[symmetric] Suc_diff_Suc del: replicate_Suc)
  ultimately show ?thesis
    using gets_from_line[OF assms(1,2), of r] by (simp add: getcmd_def ulib_gets_def Let_def)
qed

end
