(* ===== verification/Xv6_Shell_Print.thy ===== *)
theory Xv6_Shell_Print
  imports Xv6_Shell
begin

text \<open>
  The parser of the shell reads back every command: a printer writes a command as a line, with
  parentheses around the parts, and parsing that line gives the command again, with its words as C
  strings.
\<close>

section \<open>Commands as text\<close>

datatype tree =
    Exec "u8 list list"
  | Redir tree bool "u8 list"
  | Pipe tree tree
  | Seq tree tree
  | Bg tree

text \<open>What a parsed command means: its words as the C strings the pointers refer to.\<close>

fun meaning :: "((nat \<times> nat) \<Rightarrow> u8 list) \<Rightarrow> cmd \<Rightarrow> tree" where
  "meaning t (EXEC ws) = Exec (map t ws)"
| "meaning t (REDIR c q eq m fd) = Redir (meaning t c) (fd = 1) (t (q, eq))"
| "meaning t (PIPE l r) = Pipe (meaning t l) (meaning t r)"
| "meaning t (LIST l r) = Seq (meaning t l) (meaning t r)"
| "meaning t (BACK c) = Bg (meaning t c)"

fun print :: "tree \<Rightarrow> u8 list" where
  "print (Exec ws) = concat (map (\<lambda>w. w @ [32]) ws)"
| "print (Redir t out f) = [40] @ print t @ [41, if out then 62 else 60] @ f"
| "print (Pipe l r) = [40] @ print l @ [41, 124, 40] @ print r @ [41]"
| "print (Seq l r) = [40] @ print l @ [41, 59, 40] @ print r @ [41]"
| "print (Bg t) = [40] @ print t @ [41, 38]"

definition is_name :: "u8 list \<Rightarrow> bool" where
  "is_name w = (w \<noteq> [] \<and> (\<forall>c \<in> set w. is_word c \<and> c \<noteq> 0))"

fun printable :: "tree \<Rightarrow> bool" where
  "printable (Exec ws) = (length ws < MAXARGS \<and> (\<forall>w \<in> set ws. is_name w))"
| "printable (Redir t out f) = (printable t \<and> is_name f)"
| "printable (Pipe l r) = (printable l \<and> printable r)"
| "printable (Seq l r) = (printable l \<and> printable r)"
| "printable (Bg t) = printable t"

section \<open>The text at a position\<close>

definition here :: "u8 list \<Rightarrow> nat \<Rightarrow> u8 list \<Rightarrow> bool" where
  "here buf s xs = (s \<le> strlen buf \<and> drop s (cstr buf) = xs)"

lemma cstr_prefix: "cstr buf = take (strlen buf) buf"
  by (induction buf) (auto simp: cstr_def)

lemma here_len: "here buf s xs \<Longrightarrow> s + length xs = strlen buf"
  by (auto simp: here_def strlen_cstr)

lemma here_nth: "here buf s xs \<Longrightarrow> i < length xs \<Longrightarrow> byte_at buf (s + i) = xs ! i \<and> xs ! i \<noteq> 0"
proof -
  assume h: "here buf s xs" "i < length xs"
  then have l: "s + i < strlen buf" using here_len[OF h(1)] by simp
  then have "xs ! i = buf ! (s + i)" using h strlen_le[of buf] by (auto simp: here_def cstr_prefix nth_append)
  then show ?thesis using strlen_nth[OF l] by (simp add: byte_at_def)
qed

lemma here_app: "here buf s (u @ v) \<Longrightarrow> here buf (s + length u) v"
  using here_len[of buf s "u @ v"] by (auto simp: here_def) (metis add.commute append_eq_conv_conj drop_drop)

lemma here_Cons: "here buf s (c # v) \<Longrightarrow> byte_at buf s = c \<and> c \<noteq> 0 \<and> s < strlen buf \<and> here buf (s + 1) v"
  using here_nth[of buf s "c # v" 0] here_len[of buf s "c # v"] here_app[of buf s "[c]" v] by simp

lemma here_Nil: "here buf s [] \<Longrightarrow> s = strlen buf \<and> byte_at buf s = 0"
  using here_len[of buf s "[]"] strlen_byte(2)[of buf] by simp

lemma here_skip:
  assumes "here buf s (u @ v)" "\<forall>c \<in> set u. P c" "v = [] \<or> \<not> P (hd v)"
  shows "skip_while P buf (strlen buf) s = s + length u"
  using assms
proof (induction u arbitrary: s)
  case Nil
  then show ?case
    by (cases v) (auto simp: skip_while.simps[of P buf _ s] dest!: here_Nil here_Cons)
next
  case (Cons c u)
  then have c: "byte_at buf s = c" "s < strlen buf" "here buf (s + 1) (u @ v)" using here_Cons[of buf s c "u @ v"] by simp_all
  then have "skip_while P buf (strlen buf) s = skip_while P buf (strlen buf) (s + 1)"
    using Cons.prems(2) by (subst skip_while.simps) simp
  then show ?case using Cons.IH[OF c(3)] Cons.prems by simp
qed

lemma here_text: "here buf s (w @ v) \<Longrightarrow> word_text buf (s, s + length w) = w"
proof -
  assume h: "here buf s (w @ v)"
  have "take (length w) (drop s (cstr buf)) = w" using h by (simp add: here_def)
  moreover have "s + length w \<le> strlen buf" using here_len[OF h] by simp
  ultimately show ?thesis by (simp add: word_text_def cstr_prefix drop_take min_def split: if_splits)
qed

text \<open>Text that does not start with white space.\<close>

definition tight :: "u8 list \<Rightarrow> bool" where
  "tight v = (v = [] \<or> \<not> is_space (hd v))"

lemma here_tight: "here buf s v \<Longrightarrow> tight v \<Longrightarrow> skip_while is_space buf (strlen buf) s = s"
  using here_skip[of buf s "[]" v is_space] by (simp add: tight_def)

lemma peek_here: "here buf s v \<Longrightarrow> tight v \<Longrightarrow> peek buf (strlen buf) toks s = Inr (v \<noteq> [] \<and> hd v \<in> set toks, s)"
  by (cases v) (auto simp: peek_def here_tight is_in_def dest: here_Nil here_Cons)

lemma symbol_here:
  assumes "here buf s (c # v)" "c \<in> {124, 40, 41, 59, 38, 60}" "tight v"
  shows "gettoken buf (strlen buf) s = Inr ((c, s, s + 1), s + 1)"
proof -
  have h: "byte_at buf s = c" "c \<noteq> 0" "here buf (s + 1) v" using here_Cons[OF assms(1)] by simp_all
  have "tight (c # v)" using assms(2) by (auto simp: tight_def is_space_def is_in_def WHITESPACE_def)
  then show ?thesis using here_tight[OF assms(1)] here_tight[OF h(3) assms(3)] h(1,2) assms(2)
    by (simp add: gettoken_def token_at_def Let_def)
qed

lemma redirect_here:
  assumes "here buf s (62 # v)" "tight v" "v = [] \<or> hd v \<noteq> 62"
  shows "gettoken buf (strlen buf) s = Inr ((62, s, s + 1), s + 1)"
proof -
  have h: "byte_at buf s = 62" "here buf (s + 1) v" using here_Cons[OF assms(1)] by simp_all
  have "tight (62 # v)" by (auto simp: tight_def is_space_def is_in_def WHITESPACE_def)
  moreover have "byte_at buf (s + 1) \<noteq> 62" using assms(3) h(2) by (cases v) (auto dest: here_Nil here_Cons)
  ultimately show ?thesis using here_tight[OF assms(1)] here_tight[OF h(2) assms(2)] h(1)
    by (simp add: gettoken_def token_at_def Let_def)
qed

lemma name_first: "is_name w \<Longrightarrow> tight (w @ v) \<and> hd (w @ v) \<notin> set SYMBOLS"
  by (cases w) (auto simp: is_name_def tight_def is_word_def is_space_def is_in_def)

lemma word_here:
  assumes "here buf s (w @ u @ v)" "is_name w" "u = [] \<or> u = [32]" "tight v" "u = [] \<longrightarrow> v = [] \<or> \<not> is_word (hd v)"
  shows "gettoken buf (strlen buf) s = Inr ((97, s, s + length w), s + length w + length u)"
proof -
  obtain c w' where w: "w = c # w'" "is_word c" using assms(2) by (cases w) (auto simp: is_name_def)
  have c: "byte_at buf s = c" "c \<noteq> 0" using here_Cons[of buf s c "w' @ u @ v"] assms(1) w by auto
  have q: "skip_while is_space buf (strlen buf) s = s" using here_tight[OF assms(1)] name_first[OF assms(2)] by simp
  have "\<not> is_word 32" by (simp add: is_word_def is_in_def WHITESPACE_def)
  then have e: "skip_while is_word buf (strlen buf) s = s + length w"
    using here_skip[OF assms(1), of is_word] assms(2,3,5) by (auto simp: is_name_def)
  have "is_space 32" by (simp add: is_space_def is_in_def WHITESPACE_def)
  then have s: "skip_while is_space buf (strlen buf) (s + length w) = s + length w + length u"
    using here_skip[OF here_app[OF assms(1)], of is_space] assms(3,4) by (auto simp: tight_def)
  have "c \<notin> {124, 40, 41, 59, 38, 60}" "c \<noteq> 62" using w(2) by (auto simp: is_word_def is_in_def SYMBOLS_def)
  then show ?thesis using q c e s by (simp add: gettoken_def token_at_def Let_def)
qed

section \<open>Parsing what was printed\<close>

lemma bnd_peek: "here buf s v \<Longrightarrow> tight v \<Longrightarrow> bnd (peek buf (strlen buf) toks) k s = k (v \<noteq> [] \<and> hd v \<in> set toks) s"
  by (simp add: bnd_def peek_here)

text \<open>What may follow a complete command: the end of the line, or a closing parenthesis.\<close>

definition closes :: "u8 list \<Rightarrow> bool" where
  "closes v = (v = [] \<or> hd v = 41)"

lemma tight_symbol [simp]: "c \<in> {124, 40, 41, 59, 38, 60, 62} \<Longrightarrow> tight (c # v)"
  by (auto simp: tight_def is_space_def is_in_def WHITESPACE_def)

lemma closes_tight: "closes v \<Longrightarrow> tight v"
  by (cases v) (auto simp: closes_def tight_def is_space_def is_in_def WHITESPACE_def)

lemma closes_delimits: "closes v \<Longrightarrow> v = [] \<or> \<not> is_word (hd v)"
  by (auto simp: closes_def is_word_def is_in_def SYMBOLS_def)

lemma print_tight: "printable t \<Longrightarrow> tight v \<Longrightarrow> tight (print t @ v)"
proof (cases t)
  case (Exec ws)
  then show "printable t \<Longrightarrow> tight v \<Longrightarrow> ?thesis"
    using name_first by (cases ws) auto
qed auto

lemma redirs_none:
  "here buf s v \<Longrightarrow> tight v \<Longrightarrow> v = [] \<or> hd v \<notin> {60, 62} \<Longrightarrow> parseredirs (Suc f) buf (strlen buf) c s = Inr (c, s)"
  by (auto simp: bnd_peek ret_def)

lemma redirs_one:
  assumes "here buf s ((if out then 62 else 60) # w @ v)" "is_name w" "closes v"
  shows "parseredirs (Suc (Suc f)) buf (strlen buf) c s =
    Inr (REDIR c (s + 1) (s + 1 + length w) (if out then O_WRONLY OR O_CREATE else O_RDONLY) (if out then 1 else 0), s + 1 + length w)"
proof -
  have h: "here buf (s + 1) (w @ [] @ v)" using here_Cons[OF assms(1)] by simp
  have n: "tight (w @ v)" "hd (w @ v) \<notin> set SYMBOLS" "w @ v \<noteq> []" using name_first[OF assms(2)] assms(2) by (auto simp: is_name_def)
  have t: "gettoken buf (strlen buf) s = Inr ((if out then 62 else 60, s, s + 1), s + 1)"
  proof (cases out)
    case True
    then show ?thesis using redirect_here[of buf s "w @ v"] assms(1) n by (simp add: SYMBOLS_def)
  next
    case False
    then show ?thesis using symbol_here[of buf s 60 "w @ v"] assms(1) n by simp
  qed
  have g: "gettoken buf (strlen buf) (s + 1) = Inr ((97, s + 1, s + 1 + length w), s + 1 + length w)"
    using word_here[OF h assms(2)] closes_tight[OF assms(3)] closes_delimits[OF assms(3)] by simp
  have v: "here buf (s + 1 + length w) v" using here_app[of buf "s + 1" w v] h by simp
  have p: "peek buf (strlen buf) [60, 62] s = Inr (True, s)" using peek_here[OF assms(1)] by (cases out) simp_all
  have "parseredirs (Suc f) buf (strlen buf) c' (s + 1 + length w) = Inr (c', s + 1 + length w)" for c'
    using redirs_none[OF v closes_tight[OF assms(3)]] assms(3) by (auto simp: closes_def)
  then show ?thesis by (subst parseredirs.simps) (simp add: bnd_def p t g[simplified] del: parseredirs.simps)
qed

lemma args_here:
  "here buf s (print (Exec ws) @ v) \<Longrightarrow> \<forall>w \<in> set ws. is_name w \<Longrightarrow> length us + length ws < MAXARGS \<Longrightarrow> closes v \<Longrightarrow>
   strlen buf - s < f \<Longrightarrow>
   \<exists>ps. parseargs f buf (strlen buf) (EXEC us) (length us) s = Inr (EXEC (us @ ps), s + length (print (Exec ws))) \<and>
     map (word_text buf) ps = ws"
proof (induction ws arbitrary: s us f)
  case Nil
  then obtain f' where f: "f = Suc f'" by (cases f) auto
  have h: "here buf s v" using Nil by simp
  note p = peek_here[OF h closes_tight[OF Nil.prems(4)]]
  show ?case
  proof (cases v)
    case Nil
    then have "s = strlen buf" "byte_at buf s = 0" using here_Nil h by auto
    then have "gettoken buf (strlen buf) s = Inr ((0, s, s), s)"
      by (simp add: gettoken_def token_at_def skip_while.simps Let_def)
    then show ?thesis using Nil by (simp add: f p bnd_def ret_def)
  next
    case (Cons a list)
    then show ?thesis using Nil.prems(4) by (simp add: f bnd_def p ret_def closes_def)
  qed
next
  case (Cons w ws)
  then obtain f' where f: "f = Suc f'" by (cases f) auto
  have h: "here buf s (w @ [32] @ (print (Exec ws) @ v))" using Cons.prems(1) by simp
  have w: "is_name w" "w \<noteq> []" using Cons.prems(2) by (auto simp: is_name_def)
  have t: "tight (print (Exec ws) @ v)" using print_tight[of "Exec ws" v] Cons.prems closes_tight by simp
  define s' where "s' = s + length w + 1"
  have h': "here buf s' (print (Exec ws) @ v)" using here_app[of buf s "w @ [32]" "print (Exec ws) @ v"] h by (simp add: s'_def add.assoc)
  have "peek buf (strlen buf) [124, 41, 38, 59] s = Inr (False, s)"
    using peek_here[OF h] name_first[OF w(1)] by (auto simp: SYMBOLS_def)
  note p = this
  have "gettoken buf (strlen buf) s = Inr ((97, s, s + length w), s')"
    using word_here[OF h w(1) _ t] by (simp add: s'_def)
  note g = this
  have nx: "print (Exec ws) @ v = [] \<or> hd (print (Exec ws) @ v) \<notin> {60, 62}"
  proof (cases ws)
    case (Cons x xs)
    then have "is_name x" using Cons.prems(2) by simp
    from name_first[OF this, of "32 # print (Exec xs) @ v"] show ?thesis using Cons by (simp add: SYMBOLS_def)
  qed (use Cons.prems(4) in \<open>auto simp: closes_def\<close>)
  have l: "s' \<le> strlen buf" "strlen buf - s' < f'" using here_len[OF h'] Cons.prems(5) f w(2) by (auto simp: s'_def)
  then obtain f'' where f'': "f' = Suc f''" by (cases f') auto
  have "parseredirs f' buf (strlen buf) (EXEC (us @ [(s, s + length w)])) s' = Inr (EXEC (us @ [(s, s + length w)]), s')"
    unfolding f'' by (rule redirs_none[OF h' t nx])
  note r = this
  obtain ps where ps: "parseargs f' buf (strlen buf) (EXEC (us @ [(s, s + length w)])) (length (us @ [(s, s + length w)])) s' =
      Inr (EXEC ((us @ [(s, s + length w)]) @ ps), s' + length (print (Exec ws)))" "map (word_text buf) ps = ws"
    using Cons.IH[OF h', of "us @ [(s, s + length w)]" f'] Cons.prems(2,3,4) l by auto
  have "word_text buf (s, s + length w) = w" by (rule here_text[OF h])
  moreover have "parseargs f buf (strlen buf) (EXEC us) (length us) s =
      Inr (EXEC (us @ (s, s + length w) # ps), s' + length (print (Exec ws)))"
    using ps(1) Cons.prems(3) by (simp add: f bnd_def p g r)
  moreover have "s' + length (print (Exec ws)) = s + length (print (Exec (w # ws)))" by (simp add: s'_def)
  ultimately show ?case using ps(2) by (intro exI[of _ "(s, s + length w) # ps"]) simp
qed

text \<open>
  \<open>reads buf f s t\<close>: with bound \<open>f\<close>, \<open>parseline\<close> reads a command with the meaning \<open>t\<close> at \<open>s\<close>
  and stops behind its text.
\<close>

definition reads :: "u8 list \<Rightarrow> nat \<Rightarrow> nat \<Rightarrow> tree \<Rightarrow> cmd \<Rightarrow> bool" where
  "reads buf f s t c = (parseline f buf (strlen buf) s = Inr (c, s + length (print t)) \<and> meaning (word_text buf) c = t)"

abbreviation block_text :: "tree \<Rightarrow> u8 list" where
  "block_text t \<equiv> 40 # print t @ [41]"

lemma parseblock_here:
  assumes h: "here buf s (block_text t @ v)" and t: "printable t" "tight v" and r: "reads buf f (s + 1) t c"
  shows "parseblock (Suc f) buf (strlen buf) s = parseredirs f buf (strlen buf) c (s + length (block_text t))"
proof -
  define s2 where "s2 = s + 1 + length (print t)"
  have h1: "here buf (s + 1) (print t @ 41 # v)" using here_Cons[of buf s 40] h by simp
  have h2: "here buf s2 (41 # v)" using here_app[OF h1] by (simp add: s2_def)
  have "tight (print t @ 41 # v)" using print_tight[OF t(1)] by simp
  then have o: "peek buf (strlen buf) [40] s = Inr (True, s)" "gettoken buf (strlen buf) s = Inr ((40, s, s + 1), s + 1)"
    using peek_here[OF h] symbol_here[of buf s 40] h by simp_all
  have c: "peek buf (strlen buf) [41] s2 = Inr (True, s2)" "gettoken buf (strlen buf) s2 = Inr ((41, s2, s2 + 1), s2 + 1)"
    using peek_here[OF h2] symbol_here[OF h2 _ t(2)] by simp_all
  have l: "parseline f buf (strlen buf) (s + 1) = Inr (c, s2)" using r by (simp add: reads_def s2_def)
  have "parseblock (Suc f) buf (strlen buf) s = parseredirs f buf (strlen buf) c (s2 + 1)"
    by (subst parseblock.simps) (simp add: bnd_def o c l del: parseline.simps add_0 One_nat_def Nat.add_Suc_right)
  then show ?thesis by (simp add: s2_def)
qed

lemma parseexec_block:
  assumes "here buf s (block_text t @ v)" "printable t" "tight v" "reads buf f (s + 1) t c"
  shows "parseexec (Suc (Suc f)) buf (strlen buf) s = parseredirs f buf (strlen buf) c (s + length (block_text t))"
proof -
  have "peek buf (strlen buf) [40] s = Inr (True, s)" using peek_here[OF assms(1)] by simp
  then show ?thesis using parseblock_here[OF assms] by (subst parseexec.simps) (simp add: bnd_def)
qed

lemma parsepipe_block:
  assumes "here buf s (block_text t @ v)" "printable t" "tight v" "v = [] \<or> hd v \<notin> {60, 62, 124}" "reads buf (Suc f) (s + 1) t c"
  shows "parsepipe (Suc (Suc (Suc (Suc f)))) buf (strlen buf) s = Inr (c, s + length (block_text t))"
proof -
  define s' where "s' = s + length (block_text t)"
  have h: "here buf s' v" using here_app[OF assms(1)] by (simp add: s'_def)
  have "parseexec (Suc (Suc (Suc f))) buf (strlen buf) s = Inr (c, s')"
    unfolding parseexec_block[OF assms(1-3,5)] s'_def[symmetric] by (rule redirs_none[OF h assms(3)]) (use assms(4) in auto)
  moreover have "peek buf (strlen buf) [124] s' = Inr (False, s')" using peek_here[OF h assms(3)] assms(4) by auto
  ultimately show ?thesis unfolding s'_def[symmetric] by (subst parsepipe.simps) (simp add: bnd_def ret_def)
qed

text \<open>The end of \<open>parseline\<close>, behind a pipeline that is not followed by more.\<close>

lemma parseline_last:
  assumes "parsepipe (Suc f) buf (strlen buf) s = Inr (c, s')" "here buf s' v" "closes v"
  shows "parseline (Suc (Suc f)) buf (strlen buf) s = Inr (c, s')"
proof -
  have "peek buf (strlen buf) [38] s' = Inr (False, s')" "peek buf (strlen buf) [59] s' = Inr (False, s')"
    using peek_here[OF assms(2) closes_tight[OF assms(3)]] assms(3) by (auto simp: closes_def)
  then show ?thesis using assms(1) by (subst parseline.simps) (simp add: bnd_def ret_def)
qed

lemma reads_exec:
  assumes "here buf s (print (Exec ws) @ v)" "printable (Exec ws)" "closes v" "strlen buf - s < f"
  shows "\<exists>c. reads buf (Suc (Suc (Suc f))) s (Exec ws) c"
proof -
  obtain f' where f: "f = Suc f'" using assms(4) by (cases f) auto
  define s' where "s' = s + length (print (Exec ws))"
  have h': "here buf s' v" using here_app[OF assms(1)] by (simp add: s'_def)
  have t: "tight (print (Exec ws) @ v)" using print_tight[OF assms(2) closes_tight[OF assms(3)]] .
  have nx: "print (Exec ws) @ v = [] \<or> hd (print (Exec ws) @ v) \<notin> {60, 62, 40}"
  proof (cases ws)
    case (Cons x xs)
    then have "is_name x" using assms(2) by simp
    from name_first[OF this, of "32 # print (Exec xs) @ v"] show ?thesis using Cons by (simp add: SYMBOLS_def)
  qed (use assms(3) in \<open>auto simp: closes_def\<close>)
  obtain ps where ps: "parseargs f buf (strlen buf) (EXEC []) 0 s = Inr (EXEC ps, s')" "map (word_text buf) ps = ws"
    using args_here[OF assms(1), of "[]" f] assms(2-4) by (auto simp: s'_def)
  have "parseredirs f buf (strlen buf) (EXEC []) s = Inr (EXEC [], s)"
    unfolding f by (rule redirs_none[OF assms(1) t]) (use nx in auto)
  moreover have "peek buf (strlen buf) [40] s = Inr (False, s)" using peek_here[OF assms(1) t] nx by auto
  ultimately have "parseexec (Suc f) buf (strlen buf) s = Inr (EXEC ps, s')"
    using ps(1) by (subst parseexec.simps) (simp add: bnd_def)
  moreover have "peek buf (strlen buf) [124] s' = Inr (False, s')"
    using peek_here[OF h' closes_tight[OF assms(3)]] assms(3) by (auto simp: closes_def)
  ultimately have "parsepipe (Suc (Suc f)) buf (strlen buf) s = Inr (EXEC ps, s')"
    by (subst parsepipe.simps) (simp add: bnd_def ret_def)
  from parseline_last[OF this h' assms(3)] show ?thesis using ps(2) by (auto simp: reads_def s'_def)
qed

lemma parsepipe_last:
  assumes "parseexec f buf (strlen buf) s = Inr (c, s')" "here buf s' v" "closes v"
  shows "parsepipe (Suc f) buf (strlen buf) s = Inr (c, s')"
proof -
  have "peek buf (strlen buf) [124] s' = Inr (False, s')"
    using peek_here[OF assms(2) closes_tight[OF assms(3)]] assms(3) by (auto simp: closes_def)
  then show ?thesis using assms(1) by (subst parsepipe.simps) (simp add: bnd_def ret_def)
qed

lemma reads_redir:
  assumes h: "here buf s (print (Redir t out w) @ v)" and p: "printable (Redir t out w)" "closes v"
    and r: "reads buf (Suc (Suc f)) (s + 1) t c"
  shows "\<exists>c. reads buf (Suc (Suc (Suc (Suc (Suc (Suc f)))))) s (Redir t out w) c"
proof -
  have h1: "here buf s (block_text t @ (if out then 62 else 60) # w @ v)" using h by simp
  define s1 where "s1 = s + length (block_text t)"
  have h2: "here buf s1 ((if out then 62 else 60) # w @ v)" using here_app[OF h1] by (simp add: s1_def)
  have h3: "here buf (s1 + 1) (w @ v)" using here_Cons[OF h2] by simp
  have h4: "here buf (s1 + 1 + length w) v" using here_app[OF h3] by simp
  have pr: "printable t" "is_name w" using p by simp_all
  have "tight ((if out then 62 else 60) # w @ v)" by simp
  from parseexec_block[OF h1 pr(1) this r] redirs_one[OF h2 pr(2) p(2)] obtain m where
    "parseexec (Suc (Suc (Suc (Suc f)))) buf (strlen buf) s =
      Inr (REDIR c (s1 + 1) (s1 + 1 + length w) m (if out then 1 else 0), s1 + 1 + length w)" by (auto simp: s1_def)
  from parseline_last[OF parsepipe_last[OF this h4 p(2)] h4 p(2)] show ?thesis
    using r here_text[OF h3] by (cases out) (auto simp: reads_def s1_def)
qed

lemma reads_bg:
  assumes h: "here buf s (print (Bg t) @ v)" and p: "printable t" "closes v" and r: "reads buf (Suc f) (s + 1) t c"
  shows "\<exists>c. reads buf (Suc (Suc (Suc (Suc (Suc f))))) s (Bg t) c"
proof -
  have h1: "here buf s (block_text t @ 38 # v)" using h by simp
  define s1 where "s1 = s + length (block_text t)"
  have h2: "here buf s1 (38 # v)" using here_app[OF h1] by (simp add: s1_def)
  have h3: "here buf (s1 + 1) v" using here_Cons[OF h2] by simp
  have pp: "parsepipe (Suc (Suc (Suc (Suc f)))) buf (strlen buf) s = Inr (c, s1)"
    using parsepipe_block[OF h1 p(1) _ _ r] by (simp add: s1_def)
  have a: "peek buf (strlen buf) [38] s1 = Inr (True, s1)" "gettoken buf (strlen buf) s1 = Inr ((38, s1, s1 + 1), s1 + 1)"
    using peek_here[OF h2] symbol_here[OF h2 _ closes_tight[OF p(2)]] by simp_all
  have b: "peek buf (strlen buf) [38] (s1 + 1) = Inr (False, s1 + 1)" "peek buf (strlen buf) [59] (s1 + 1) = Inr (False, s1 + 1)"
    using peek_here[OF h3 closes_tight[OF p(2)]] p(2) by (auto simp: closes_def)
  have "parseline (Suc (Suc (Suc (Suc (Suc f))))) buf (strlen buf) s = Inr (BACK c, s1 + 1)"
    using pp a b by (subst parseline.simps) (simp add: bnd_def ret_def del: parsepipe.simps)
  then show ?thesis using r by (auto simp: reads_def s1_def)
qed

lemma reads_pipe:
  assumes h: "here buf s (print (Pipe l r) @ v)" and p: "printable l" "printable r" "closes v"
    and L: "reads buf (Suc (Suc f)) (s + 1) l c" and R: "reads buf (Suc f) (s + length (block_text l) + 2) r d"
  shows "\<exists>c. reads buf (Suc (Suc (Suc (Suc (Suc (Suc f)))))) s (Pipe l r) c"
proof -
  have h1: "here buf s (block_text l @ 124 # block_text r @ v)" using h by simp
  define s1 where "s1 = s + length (block_text l)"
  have h2: "here buf s1 (124 # block_text r @ v)" using here_app[OF h1] by (simp add: s1_def)
  have h3: "here buf (s1 + 1) (block_text r @ v)" using here_Cons[OF h2] by simp
  define s2 where "s2 = s1 + 1 + length (block_text r)"
  have h4: "here buf s2 v" using here_app[OF h3] by (simp add: s2_def)
  have "tight (124 # block_text r @ v)" by simp
  from parseexec_block[OF h1 p(1) this L] redirs_none[OF h2 this]
  have e: "parseexec (Suc (Suc (Suc (Suc f)))) buf (strlen buf) s = Inr (c, s1)" by (simp add: s1_def)
  have g: "peek buf (strlen buf) [124] s1 = Inr (True, s1)" "gettoken buf (strlen buf) s1 = Inr ((124, s1, s1 + 1), s1 + 1)"
    using peek_here[OF h2] symbol_here[OF h2] by simp_all
  have "reads buf (Suc f) (s1 + 1 + 1) r d" using R by (simp add: s1_def)
  from parsepipe_block[OF h3 p(2) closes_tight[OF p(3)] _ this]
  have q: "parsepipe (Suc (Suc (Suc (Suc f)))) buf (strlen buf) (s1 + 1) = Inr (d, s2)"
    using p(3) by (auto simp: closes_def s2_def)
  have "parsepipe (Suc (Suc (Suc (Suc (Suc f))))) buf (strlen buf) s = Inr (PIPE c d, s2)"
    using e g q by (subst parsepipe.simps) (simp add: bnd_def ret_def del: parsepipe.simps parseexec.simps)
  from parseline_last[OF this h4 p(3)] show ?thesis using L R by (auto simp: reads_def s1_def s2_def)
qed

lemma reads_seq:
  assumes h: "here buf s (print (Seq l r) @ v)" and p: "printable l" "printable r" "closes v"
    and L: "reads buf (Suc (Suc f)) (s + 1) l c" and R: "reads buf (Suc f) (s + length (block_text l) + 2) r d"
  shows "\<exists>c. reads buf (Suc (Suc (Suc (Suc (Suc (Suc f)))))) s (Seq l r) c"
proof -
  have h1: "here buf s (block_text l @ 59 # block_text r @ v)" using h by simp
  define s1 where "s1 = s + length (block_text l)"
  have h2: "here buf s1 (59 # block_text r @ v)" using here_app[OF h1] by (simp add: s1_def)
  have h3: "here buf (s1 + 1) (block_text r @ v)" using here_Cons[OF h2] by simp
  define s2 where "s2 = s1 + 1 + length (block_text r)"
  have h4: "here buf s2 v" using here_app[OF h3] by (simp add: s2_def)
  have e: "parsepipe (Suc (Suc (Suc (Suc (Suc f))))) buf (strlen buf) s = Inr (c, s1)"
    using parsepipe_block[OF h1 p(1) _ _ L] by (simp add: s1_def)
  have g: "peek buf (strlen buf) [38] s1 = Inr (False, s1)" "peek buf (strlen buf) [59] s1 = Inr (True, s1)"
    "gettoken buf (strlen buf) s1 = Inr ((59, s1, s1 + 1), s1 + 1)"
    using peek_here[OF h2] symbol_here[OF h2] by simp_all
  have "reads buf (Suc f) (s1 + 1 + 1) r d" using R by (simp add: s1_def)
  from parsepipe_block[OF h3 p(2) closes_tight[OF p(3)] _ this]
  have "parsepipe (Suc (Suc (Suc (Suc f)))) buf (strlen buf) (s1 + 1) = Inr (d, s2)"
    using p(3) by (auto simp: closes_def s2_def)
  from parseline_last[OF this h4 p(3)]
  have q: "parseline (Suc (Suc (Suc (Suc (Suc f))))) buf (strlen buf) (s1 + 1) = Inr (d, s2)" .
  have "parseline (Suc (Suc (Suc (Suc (Suc (Suc f)))))) buf (strlen buf) s = Inr (LIST c d, s2)"
    using e g q by (subst parseline.simps) (simp add: bnd_def ret_def del: parsepipe.simps parseline.simps)
  then show ?thesis using L R by (auto simp: reads_def s1_def s2_def)
qed

lemma reads_print:
  "printable t \<Longrightarrow> here buf s (print t @ v) \<Longrightarrow> closes v \<Longrightarrow> 4 * (strlen buf - s) + 4 \<le> f \<Longrightarrow> \<exists>c. reads buf f s t c"
proof (induction t arbitrary: s v f)
  case (Exec ws)
  define g where "g = f - 3"
  have "f = Suc (Suc (Suc g))" "strlen buf - s < g" using Exec.prems(4) by (auto simp: g_def)
  then show ?case using reads_exec[of buf s ws v g] Exec by simp
next
  case (Redir t out w)
  define g where "g = f - 6"
  have r: "4 * (strlen buf - (s + 1)) + 4 \<le> Suc (Suc g)" "f = Suc (Suc (Suc (Suc (Suc (Suc g)))))"
    using Redir.prems(4) here_len[OF Redir.prems(2)] by (auto simp: g_def)
  have h: "here buf (s + 1) (print t @ 41 # (if out then 62 else 60) # w @ v)"
    using here_Cons[of buf s 40] Redir.prems(2) by simp
  obtain c where "reads buf (Suc (Suc g)) (s + 1) t c"
    using Redir.IH[OF _ h _ r(1)] Redir.prems(1) by (auto simp: closes_def)
  from reads_redir[OF Redir.prems(2,1,3) this] show ?case unfolding r(2) .
next
  case (Bg t)
  define g where "g = f - 5"
  have r: "4 * (strlen buf - (s + 1)) + 4 \<le> Suc g" "f = Suc (Suc (Suc (Suc (Suc g))))"
    using Bg.prems(4) here_len[OF Bg.prems(2)] by (auto simp: g_def)
  have h: "here buf (s + 1) (print t @ 41 # 38 # v)" using here_Cons[of buf s 40] Bg.prems(2) by simp
  obtain c where "reads buf (Suc g) (s + 1) t c" using Bg.IH[OF _ h _ r(1)] Bg.prems(1) by (auto simp: closes_def)
  from reads_bg[OF Bg.prems(2) _ Bg.prems(3) this] show ?case unfolding r(2) using Bg.prems(1) by simp
next
  case (Pipe l r)
  define g where "g = f - 6"
  define s2 where "s2 = s + length (block_text l) + 2"
  have q: "4 * (strlen buf - (s + 1)) + 4 \<le> Suc (Suc g)" "4 * (strlen buf - s2) + 4 \<le> Suc g"
    "f = Suc (Suc (Suc (Suc (Suc (Suc g)))))"
    using Pipe.prems(4) here_len[OF Pipe.prems(2)] by (auto simp: g_def s2_def)
  have hl: "here buf (s + 1) (print l @ 41 # 124 # 40 # print r @ 41 # v)" using here_Cons[of buf s 40] Pipe.prems(2) by simp
  have hr: "here buf s2 (print r @ 41 # v)" using here_app[of buf s "block_text l @ [124, 40]"] Pipe.prems(2) by (simp add: s2_def)
  obtain c where "reads buf (Suc (Suc g)) (s + 1) l c" using Pipe.IH(1)[OF _ hl _ q(1)] Pipe.prems(1) by (auto simp: closes_def)
  moreover obtain d where "reads buf (Suc g) s2 r d" using Pipe.IH(2)[OF _ hr _ q(2)] Pipe.prems(1) by (auto simp: closes_def)
  ultimately show ?case unfolding q(3) using reads_pipe[OF Pipe.prems(2) _ _ Pipe.prems(3)] Pipe.prems(1) by (simp add: s2_def)
next
  case (Seq l r)
  define g where "g = f - 6"
  define s2 where "s2 = s + length (block_text l) + 2"
  have q: "4 * (strlen buf - (s + 1)) + 4 \<le> Suc (Suc g)" "4 * (strlen buf - s2) + 4 \<le> Suc g"
    "f = Suc (Suc (Suc (Suc (Suc (Suc g)))))"
    using Seq.prems(4) here_len[OF Seq.prems(2)] by (auto simp: g_def s2_def)
  have hl: "here buf (s + 1) (print l @ 41 # 59 # 40 # print r @ 41 # v)" using here_Cons[of buf s 40] Seq.prems(2) by simp
  have hr: "here buf s2 (print r @ 41 # v)" using here_app[of buf s "block_text l @ [59, 40]"] Seq.prems(2) by (simp add: s2_def)
  obtain c where "reads buf (Suc (Suc g)) (s + 1) l c" using Seq.IH(1)[OF _ hl _ q(1)] Seq.prems(1) by (auto simp: closes_def)
  moreover obtain d where "reads buf (Suc g) s2 r d" using Seq.IH(2)[OF _ hr _ q(2)] Seq.prems(1) by (auto simp: closes_def)
  ultimately show ?case unfolding q(3) using reads_seq[OF Seq.prems(2) _ _ Seq.prems(3)] Seq.prems(1) by (simp add: s2_def)
qed

lemma meaning_cong: "(\<And>w. w \<in> set (cmd_words c) \<Longrightarrow> f w = g w) \<Longrightarrow> meaning f c = meaning g c"
  by (induction c) auto

lemma print_text: "printable t \<Longrightarrow> 0 \<notin> set (print t)"
  by (induction t) (auto simp: is_name_def)

text \<open>
  C9: The parser reads back every command: the line that the printer writes for a command, a tree
  of commands with arguments, redirections, pipes, sequences and background commands, is parsed to
  that command, whatever follows the NUL in the buffer.
\<close>

theorem parsecmd_print:
  assumes "printable t"
  shows "\<exists>c buf'. parsecmd (print t @ 0 # rest) = Inr (c, buf') \<and> meaning (\<lambda>w. cstr (drop (fst w) buf')) c = t"
proof -
  define buf where "buf = print t @ 0 # rest"
  have b: "cstr buf = print t" using print_text[OF assms] by (auto simp: cstr_def buf_def takeWhile_append)
  then have h: "here buf 0 (print t @ [])" by (simp add: here_def)
  obtain c where c: "reads buf (parse_fuel (strlen buf)) 0 t c"
    using reads_print[OF assms h, of "parse_fuel (strlen buf)"] by (auto simp: closes_def parse_fuel_def)
  have e: "length (print t) = strlen buf" using b by (simp add: strlen_cstr)
  have "here buf (strlen buf) []" using here_app[of buf 0 "print t" "[]"] h e by simp
  then have "peek buf (strlen buf) [] (strlen buf) = Inr (False, strlen buf)" using peek_here by (simp add: tight_def)
  then have p: "parsecmd buf = Inr (c, nulterminate c buf)"
    using c e by (simp add: parsecmd_def reads_def bnd_def gets_def guardk_def ret_def)
  have "meaning (\<lambda>w. cstr (drop (fst w) (nulterminate c buf))) c = meaning (word_text buf) c"
    using settles_parsecmd[of buf] p by (intro meaning_cong nulterminate_word) auto
  then show ?thesis using p c by (auto simp: reads_def buf_def)
qed

text \<open>The command \<open>ls | wc\<close> with its output into \<open>f\<close>, in a larger buffer.\<close>

theorem parsecmd_print_witness:
  "\<exists>c buf'. parsecmd (print (Redir (Pipe (Exec [[108, 115]]) (Exec [[119, 99]])) True [102]) @ 0 # [7, 7]) = Inr (c, buf') \<and>
     meaning (\<lambda>w. cstr (drop (fst w) buf')) c = Redir (Pipe (Exec [[108, 115]]) (Exec [[119, 99]])) True [102]"
proof (rule parsecmd_print)
  show "printable (Redir (Pipe (Exec [[108, 115]]) (Exec [[119, 99]])) True [102])"
    by (simp add: MAXARGS_def is_name_def is_word_def is_in_def WHITESPACE_def SYMBOLS_def)
qed

end
