(* ===== verification/Spec2Isabelle.thy ===== *)
theory Spec2Isabelle
  imports Xv6_Path Xv6_Uvm Xv6_Fork Xv6_Syscall Xv6_Trap Xv6_Memide Xv6_Grep Xv6_Wc Xv6_Shell_Print
begin

text \<open>
  A verification library for the Rust port of xv6-64: the kernel's synchronisation, disk, log, file
  system, memory, process, system call and interrupt code, and a part of its user programs.

  \<^bold>\<open>The program.\<close> User programs (\<^verbatim>\<open>user/src\<close>, \<^verbatim>\<open>crates/ulib\<close>) enter the kernel through
  \<^verbatim>\<open>crates/syscall\<close>, whose handlers call the process code (\<^verbatim>\<open>crates/proc\<close>) and the file code
  (\<^verbatim>\<open>crates/fs/src/file.rs\<close>, \<^verbatim>\<open>pipe.rs\<close>). Files are inodes (\<^verbatim>\<open>fs.rs\<close>) whose blocks go through
  the log (\<^verbatim>\<open>log.rs\<close>), the buffer cache (\<^verbatim>\<open>bio.rs\<close>) and the disk driver
  (\<^verbatim>\<open>crates/drivers/src/ide.rs\<close>). Processes own page tables (\<^verbatim>\<open>crates/arch/src/vm.rs\<close>) built of
  pages from \<^verbatim>\<open>crates/mm\<close>. Waiting is sleep and wakeup on channels (\<^verbatim>\<open>proc.rs\<close>,
  \<^verbatim>\<open>kernel/src/glue.rs\<close>, \<^verbatim>\<open>crates/sync\<close>).

  \<^bold>\<open>How it is modelled.\<close> An operation is a function from a state record to a stop or a result with the
  new state (\<open>kop\<close> in \<open>Xv6_Prelude\<close>). A stop is a panic, which includes the overflow and bounds checks
  of the kernel's build, an access through a bad pointer, or going to sleep on a channel. The state
  grows from theory to theory as an extensible record (\<open>kern\<close>, \<open>kbuf\<close>, \<open>klog\<close>, \<open>kcons\<close>, \<open>kfs\<close>,
  \<open>kfile\<close>, \<open>kproc\<close>, \<open>ktrap\<close>), so that the operations of a lower layer run unchanged in the state of a
  higher one. Pointers into static tables are indices. \<open>runs\<close> is the total-correctness reading of an
  operation: it returns, and the result satisfies the postcondition. An operation that may block
  inside returns either its result or the condition it waits for.

  \<^bold>\<open>Kernel theories.\<close>
  \<^item> \<open>Xv6_Prelude\<close>: machine integers, the monad with its calculus, checked arithmetic, byte encodings.
  \<^item> \<open>Xv6_Sync\<close>: process table, spin locks with nested interrupt disabling, sleep, wakeup, yield and
    sleep locks. Interrupts stay off while locks are held; no wakeup between giving up a lock and
    sleeping is lost; a sleep lock is handed over; and, because nothing maintains \<open>ncli\<close>, sleep and
    yield panic in the scheduler's check.
  \<^item> \<open>Xv6_Ide\<close>: the disk driver with the disk and its registers. Requests are served in order, and the
    programmed command block addresses the right sector. \<open>Xv6_Memide\<close> is the disk in memory.
  \<^item> \<open>Xv6_Bio\<close>: the cache as a linked list in a table. It refines a map from block numbers to contents
    (locale \<open>block_cache\<close>); a miss recycles the least recently used free buffer.
  \<^item> \<open>Xv6_Layout\<close>, \<open>Xv6_Log\<close>: the on-disk format and the write-ahead log. A crash after any disk write
    of a commit leaves, after recovery, all of the transaction or nothing of it.
  \<^item> \<open>Xv6_Fs\<close> with the operations of \<^verbatim>\<open>fs.rs\<close> up to file contents, and the proofs about them:
    \<open>Xv6_Txn\<close> (blocks inside a transaction), \<open>Xv6_Alloc\<close> (the bitmap), \<open>Xv6_Inode\<close> (the invariant
    \<open>fs_inv\<close> and the contents of a file), \<open>Xv6_Bmap\<close>, \<open>Xv6_Rw\<close>, \<open>Xv6_Icache\<close>, \<open>Xv6_Content\<close>. Reading
    returns the contents, writing replaces a piece of them and nothing of another file.
  \<^item> \<open>Xv6_Dir\<close>, \<open>Xv6_Path\<close>: directories and path names. \<open>namei\<close> and \<open>nameiparent\<close> return and follow the
    path through the tree; \<open>dirlink\<close> adds a name.
  \<^item> \<open>Xv6_Ring\<close>, \<open>Xv6_Console\<close>: circular buffers (locale \<open>ring\<close>), keyboard, serial port and screen
    (locale \<open>char_source\<close>). The interrupt handlers edit the input line as a line editor does.
  \<^item> \<open>Xv6_File\<close>, \<open>Xv6_Pipe\<close>: open files and pipes. A pipe is a queue of bytes for every interleaving of
    readers and writers.
  \<^item> \<open>Xv6_Mem\<close>, \<open>Xv6_Vm\<close>, \<open>Xv6_Uvm\<close>: the page allocator on physical memory (locale \<open>page_allocator\<close>),
    four-level page tables, and growing, shrinking, copying and writing of user address spaces.
  \<^item> \<open>Xv6_Proc\<close>, \<open>Xv6_Sched\<close>, \<open>Xv6_Fork\<close>: processes. A pass of the scheduler runs every runnable
    process; an exit reaches the parent's wait; fork gives the child a copy of everything.
  \<^item> \<open>Xv6_Exec\<close>, \<open>Xv6_Syscall\<close>, \<open>Xv6_Trap\<close>: loading programs, the system calls with their checks of
    user arguments, and the interrupt dispatcher.

  \<^bold>\<open>User theories.\<close> \<open>Xv6_Ulib\<close> (strings, memory, numbers, reading of lines), \<open>Xv6_Grep\<close> (the matcher
  equals the meaning of patterns, and the program prints the matching lines), \<open>Xv6_Wc\<close>, \<open>Xv6_Shell\<close>
  and \<open>Xv6_Shell_Print\<close> (the command parser ends, returns well-formed commands, and undoes printing).
  User programs are built in release mode; their arithmetic wraps around.

  \<^bold>\<open>Bounds.\<close> Walks through the buffer list carry \<open>walk_fuel\<close>, one more than the number of buffers, which
  the cache invariant makes enough. The interrupt loop of the console carries one more than the pending
  bytes. The parser carries \<open>parse_fuel\<close>, four calls for every byte and four more; \<open>parsecmd_ends\<close> shows
  that it is never used up. Polling loops on a device run until the modelled device answers, and stop
  where it never would. All other loops are structural or have a termination proof.

  \<^bold>\<open>Parameters.\<close> The disk contents, what the devices deliver, the addresses the linker chooses, and
  what a process does between two passes of the scheduler are part of the state or arguments.

  \<^bold>\<open>Not modelled.\<close> One processor is modelled, as the locks of the source set a word without waiting:
  the bring-up of further processors (\<open>mp\<close>, \<open>lapic\<close>, \<open>ioapic\<close>, \<open>startothers\<close>) writes device
  registers only. Assembly (entry code, context switch, trap and system call stubs), the boot loader,
  segment tables and model-specific registers, the order of calls in \<^verbatim>\<open>kernel/src/main.rs\<close>, and
  formatted output, which is the work of the language's library, are left out. So are the modules of
  \<^verbatim>\<open>crates/ulib\<close> other than \<^verbatim>\<open>lib.rs\<close>, which no build target includes, the host tool
  \<^verbatim>\<open>mkfs\<close>, the allocator of the user library, the execution of parsed commands by the shell, and the
  user programs that only pass their arguments to a system call or test the kernel.
\<close>

end
